(* ===== verification/Prelude.thy ===== *)
theory Prelude
  imports Main "HOL-Library.AList" "HOL-Library.Char_ord" "HOL-Library.List_Lexorder"
begin

text \<open>
  The prelude of the development: the types every component shares, finite maps as the Go
  code uses them, and the generic lemmas on lists and maps that carry the component proofs.

  A Go string or byte slice is a list of bytes, and an Isabelle \<^typ>\<open>char\<close> is exactly a
  byte, so both are \<^typ>\<open>string\<close>. A Go map is an association list: the list is one
  iteration order (Go leaves it open), lookups go through \<^term>\<open>map_of\<close>, and
  \<open>mput\<close> and \<open>mdel\<close> are assignment and \<open>delete\<close>.
\<close>

type_synonym bytes = string

text \<open>An instant, in nanoseconds, and a duration, in nanoseconds.\<close>

type_synonym instant = int

type_synonym ('k, 'v) gomap = "('k \<times> 'v) list"

abbreviation mget :: "('k, 'v) gomap \<Rightarrow> 'k \<Rightarrow> 'v option" where
  "mget \<equiv> map_of"

definition mput :: "'k \<Rightarrow> 'v \<Rightarrow> ('k, 'v) gomap \<Rightarrow> ('k, 'v) gomap" where
  "mput k v m = AList.update k v m"

definition mdel :: "'k \<Rightarrow> ('k, 'v) gomap \<Rightarrow> ('k, 'v) gomap" where
  "mdel k m = AList.delete k m"

definition mkeys :: "('k, 'v) gomap \<Rightarrow> 'k list" where
  "mkeys m = remdups (map fst m)"

named_theorems map_laws \<open>lookups after map operations\<close>
named_theorems inv_laws \<open>operations that keep a component's invariant\<close>

lemma mget_mput [simp, map_laws]: "mget (mput k v m) = (mget m)(k \<mapsto> v)"
  by (simp add: mput_def update_conv')

lemma mget_mdel [simp, map_laws]: "mget (mdel k m) = (mget m)(k := None)"
  by (simp add: mdel_def delete_conv')

lemma set_mkeys [simp]: "set (mkeys m) = dom (mget m)"
  by (simp add: mkeys_def dom_map_of_conv_image_fst)

lemma distinct_mkeys [simp]: "distinct (mkeys m)"
  by (simp add: mkeys_def)

lemma mput_code [simp]:
  "mput k v [] = [(k, v)]"
  "mput k v ((a, b) # m) = (if a = k then (k, v) # m else (a, b) # mput k v m)"
  by (simp_all add: mput_def)

lemma mkeys_mput_subset: "fst ` set (mput k v m) = insert k (fst ` set m)"
  by (metis dom_fun_upd dom_map_of_conv_image_fst mget_mput option.distinct(1))

lemma distinct_mput [simp]: "distinct (map fst m) \<Longrightarrow> distinct (map fst (mput k v m))"
  by (simp add: mput_def distinct_update)

lemma mput_values: "(k', v') \<in> set (mput k v m) \<Longrightarrow> (k', v') = (k, v) \<or> (k', v') \<in> set m"
  by (induction m) (auto split: if_splits)

lemma mget_in_set: "mget m k = Some v \<Longrightarrow> (k, v) \<in> set m"
  by (rule map_of_SomeD)

lemma mget_NoneD: "mget m k = None \<Longrightarrow> k \<notin> fst ` set m"
  by (simp add: map_of_eq_None_iff)

text \<open>Lists.\<close>

lemma take_length_append [simp]: "take (length xs) (xs @ ys) = xs"
  by simp

lemma sorted_distinct_remdups_adj [simp]:
  "sorted xs \<Longrightarrow> distinct (remdups_adj (xs :: 'a :: linorder list))"
  by (induction xs rule: remdups_adj.induct) (auto simp: order.antisym)

lemma remdups_adj_strict: "sorted xs \<Longrightarrow> distinct xs \<Longrightarrow> remdups_adj xs = xs"
  by (simp add: remdups_adj_distinct)

lemma even_length_induct2 [consumes 1, case_names Nil Pair]:
  assumes "even (length xs)" and "P []"
    and "\<And>x y xs. even (length xs) \<Longrightarrow> P xs \<Longrightarrow> P (x # y # xs)"
  shows "P xs"
  using assms(1)
proof (induction xs rule: induct_list012)
  case 1
  show ?case by (rule assms(2))
next
  case (2 x)
  then show ?case by simp
next
  case (3 x y zs)
  then show ?case using assms(3) by simp
qed

end
