(* ===== verification/GoText.thy ===== *)
theory GoText
  imports Prelude
begin

text \<open>
  What the program uses of Go's \<open>unicode/utf8\<close>, \<open>strings\<close>, \<open>strconv\<close> and \<open>encoding/hex\<close>, on byte
  strings: rune decoding, \<open>strings.TrimSpace\<close>, \<open>strings.Fields\<close>, \<open>strings.HasPrefix\<close>,
  \<open>utf8.RuneStart\<close> and the truncation loops the program writes with it, decimal and hex
  formatting, and \<open>%q\<close> quoting. Quoting keeps every valid multi-byte rune as it is; Go also
  escapes the non-printable ones among them, which no property depends on.
\<close>

subsection \<open>Bytes and runes\<close>

abbreviation byte :: "char \<Rightarrow> nat" where
  "byte c \<equiv> of_char c"

text \<open>\<open>utf8.RuneStart\<close>: not a continuation byte.\<close>

definition rune_start :: "char \<Rightarrow> bool" where
  "rune_start c \<longleftrightarrow> \<not> (128 \<le> byte c \<and> byte c < 192)"

definition cont_byte :: "char \<Rightarrow> bool" where
  "cont_byte c \<longleftrightarrow> 128 \<le> byte c \<and> byte c < 192"

definition rune_error :: nat where
  "rune_error = 65533"

text \<open>The bytes allowed second after a lead byte of three or four bytes.\<close>

definition second_ok :: "nat \<Rightarrow> char \<Rightarrow> bool" where
  "second_ok n c \<longleftrightarrow>
     (if n = 224 then 160 else if n = 240 then 144 else 128) \<le> byte c \<and>
     byte c \<le> (if n = 237 then 159 else if n = 244 then 143 else 191)"

text \<open>\<open>utf8.DecodeRuneInString\<close>: the first rune and its width.\<close>

fun decode_rune :: "bytes \<Rightarrow> nat \<times> nat" where
  "decode_rune [] = (rune_error, 0)"
| "decode_rune (a # s) =
     (let n = byte a in
      if n < 128 then (n, 1)
      else if 194 \<le> n \<and> n \<le> 223 then
        (case s of
           b # _ \<Rightarrow> if cont_byte b then ((n - 192) * 64 + (byte b - 128), 2) else (rune_error, 1)
         | [] \<Rightarrow> (rune_error, 1))
      else if 224 \<le> n \<and> n \<le> 239 then
        (case s of
           b # c # _ \<Rightarrow>
             if second_ok n b \<and> cont_byte c
             then ((n - 224) * 4096 + (byte b - 128) * 64 + (byte c - 128), 3)
             else (rune_error, 1)
         | _ \<Rightarrow> (rune_error, 1))
      else if 240 \<le> n \<and> n \<le> 244 then
        (case s of
           b # c # d # _ \<Rightarrow>
             if second_ok n b \<and> cont_byte c \<and> cont_byte d
             then ((n - 240) * 262144 + (byte b - 128) * 4096 + (byte c - 128) * 64 + (byte d - 128), 4)
             else (rune_error, 1)
         | _ \<Rightarrow> (rune_error, 1))
      else (rune_error, 1))"

definition rune_width :: "bytes \<Rightarrow> nat" where
  "rune_width s = snd (decode_rune s)"

lemma rune_width_Nil [simp]: "rune_width [] = 0"
  by (simp add: rune_width_def)

lemma rune_width_pos: "s \<noteq> [] \<Longrightarrow> 0 < rune_width s"
  by (cases s) (auto simp: rune_width_def Let_def split: list.splits)

text \<open>A string cut into the bytes of its runes; an invalid byte is a rune of its own.\<close>

function rune_chunks :: "bytes \<Rightarrow> bytes list" where
  "rune_chunks s =
     (if s = [] then [] else take (rune_width s) s # rune_chunks (drop (rune_width s) s))"
  by pat_completeness auto
termination
  by (relation "measure length") (auto simp: rune_width_pos)

declare rune_chunks.simps [simp del]

lemma rune_chunks_Nil [simp]: "rune_chunks [] = []"
  by (simp add: rune_chunks.simps)

lemma concat_rune_chunks [simp]: "concat (rune_chunks s) = s"
proof (induction s rule: rune_chunks.induct)
  case (1 s)
  then show ?case by (subst rune_chunks.simps) auto
qed

lemma rune_width_take: "rune_width s \<le> m \<Longrightarrow> rune_width (take m s) = rune_width s"
proof (cases s)
  case (Cons a t)
  assume m: "rune_width s \<le> m"
  then have "0 < m" using rune_width_pos [of s] Cons by simp
  then obtain k where k: "m = Suc k" by (cases m) auto
  consider "t = []" | b where "t = [b]" | b c where "t = [b, c]" | b c d u where "t = b # c # d # u"
    by (metis list.exhaust)
  then show ?thesis
  proof cases
    case 1
    then show ?thesis using m unfolding Cons k by simp
  next
    case 2
    then show ?thesis using m unfolding Cons k rune_width_def by (cases k) (auto simp: Let_def split: if_splits)
  next
    case 3
    then show ?thesis using m unfolding Cons k rune_width_def 
      by (cases k; cases "k - 1") (auto simp: Let_def split: if_splits)
  next
    case 4
    then show ?thesis using m unfolding Cons k rune_width_def
      by (cases k; cases "k - 1"; cases "k - 2") (auto simp: Let_def split: if_splits)
  qed
qed simp

lemma concat_take_prefix: "\<exists>m. concat (take n (rune_chunks s)) = take m s"
proof -
  have "s = concat (take n (rune_chunks s)) @ concat (drop n (rune_chunks s))"
    by (metis append_take_drop_id concat_append concat_rune_chunks)
  then show ?thesis by (metis append_eq_conv_conj)
qed

lemma rune_chunks_take: "rune_chunks (concat (take n (rune_chunks s))) = take n (rune_chunks s)"
proof (induction s arbitrary: n rule: rune_chunks.induct)
  case (1 s)
  show ?case
  proof (cases "s = [] \<or> n = 0")
    case True
    then show ?thesis by auto
  next
    case False
    then obtain k where n: "n = Suc k" by (cases n) auto
    let ?w = "rune_width s" and ?rest = "concat (take k (rune_chunks (drop (rune_width s) s)))"
    obtain m where m: "?rest = take m (drop ?w s)" using concat_take_prefix by blast
    have whole: "take ?w s @ ?rest = take (?w + m) s" by (simp add: m take_add)
    have w: "rune_width (take (?w + m) s) = ?w" by (rule rune_width_take) simp
    have "rune_chunks (take (?w + m) s) = take ?w s # rune_chunks ?rest"
      using False rune_width_pos [of s] w
      by (subst rune_chunks.simps) (auto simp: m drop_take)
    then show ?thesis
      using False 1 by (simp add: n rune_chunks.simps [of s] whole)
  qed
qed

lemma rune_chunks_drop: "rune_chunks (concat (drop n (rune_chunks s))) = drop n (rune_chunks s)"
proof (induction s arbitrary: n rule: rune_chunks.induct)
  case (1 s)
  then show ?case
    by (cases n) (auto simp: rune_chunks.simps [of s])
qed

definition runes :: "bytes \<Rightarrow> nat list" where
  "runes s = map (fst \<circ> decode_rune) (rune_chunks s)"

text \<open>\<open>utf8.AppendRune\<close>, for a rune that is no surrogate.\<close>

definition encode_rune :: "nat \<Rightarrow> bytes" where
  "encode_rune r =
     (if r < 128 then [char_of r]
      else if r < 2048 then [char_of (192 + r div 64), char_of (128 + r mod 64)]
      else if r < 65536 then
        [char_of (224 + r div 4096), char_of (128 + r div 64 mod 64), char_of (128 + r mod 64)]
      else [char_of (240 + r div 262144), char_of (128 + r div 4096 mod 64),
            char_of (128 + r div 64 mod 64), char_of (128 + r mod 64)])"

subsection \<open>strings.TrimSpace, strings.Fields, strings.HasPrefix\<close>

text \<open>\<open>unicode.IsSpace\<close>.\<close>

definition space_rune :: "nat \<Rightarrow> bool" where
  "space_rune r \<longleftrightarrow>
     (9 \<le> r \<and> r \<le> 13) \<or> r = 32 \<or> r = 133 \<or> r = 160 \<or> r = 5760 \<or> (8192 \<le> r \<and> r \<le> 8202) \<or>
     r = 8232 \<or> r = 8233 \<or> r = 8239 \<or> r = 8287 \<or> r = 12288"

definition space_chunk :: "bytes \<Rightarrow> bool" where
  "space_chunk c \<longleftrightarrow> space_rune (fst (decode_rune c))"

definition trim_chunks :: "bytes list \<Rightarrow> bytes list" where
  "trim_chunks cs = rev (dropWhile space_chunk (rev (dropWhile space_chunk cs)))"

definition trim_space :: "bytes \<Rightarrow> bytes" where
  "trim_space s = concat (trim_chunks (rune_chunks s))"

lemma trim_chunks_slice: "\<exists>i j. trim_chunks cs = take i (drop j cs)"
proof -
  define ds where "ds = dropWhile space_chunk cs"
  obtain j where j: "ds = drop j cs" unfolding ds_def by (metis dropWhile_eq_drop)
  obtain i where "rev (dropWhile space_chunk (rev ds)) = take i ds"
    by (metis dropWhile_eq_drop rev_drop rev_rev_ident length_rev)
  then have "trim_chunks cs = take i (drop j cs)"
    using j unfolding trim_chunks_def ds_def by simp
  then show ?thesis by blast
qed

lemma rune_chunks_trim [simp]: "rune_chunks (trim_space s) = trim_chunks (rune_chunks s)"
proof -
  obtain i j where ij: "trim_chunks (rune_chunks s) = take i (drop j (rune_chunks s))"
    using trim_chunks_slice by blast
  have "rune_chunks (concat (take i (drop j (rune_chunks s)))) =
        rune_chunks (concat (take i (rune_chunks (concat (drop j (rune_chunks s))))))"
    by (simp add: rune_chunks_drop)
  also have "\<dots> = take i (rune_chunks (concat (drop j (rune_chunks s))))"
    by (rule rune_chunks_take)
  finally show ?thesis by (simp add: trim_space_def ij rune_chunks_drop)
qed

lemma dropWhile_idem: "dropWhile P (dropWhile P xs) = dropWhile P xs"
  by (induction xs) auto

lemma trim_chunks_idem: "trim_chunks (trim_chunks cs) = trim_chunks cs"
proof -
  define ds where "ds = dropWhile space_chunk cs"
  define es where "es = rev (dropWhile space_chunk (rev ds))"
  have "dropWhile space_chunk es = es"
  proof (cases es)
    case (Cons x xs)
    have "\<exists>ys. ds = es @ ys"
      unfolding es_def by (metis append_take_drop_id dropWhile_eq_drop rev_drop rev_rev_ident)
    then have "hd ds = x" "ds \<noteq> []" using Cons by auto
    then have "\<not> space_chunk x" unfolding ds_def by (metis hd_dropWhile)
    then show ?thesis using Cons by simp
  qed simp
  then have "trim_chunks es = es"
    by (simp add: trim_chunks_def es_def dropWhile_idem)
  then show ?thesis by (simp add: trim_chunks_def ds_def es_def)
qed

lemma trim_space_idem [simp]: "trim_space (trim_space s) = trim_space s"
  by (subst trim_space_def) (simp add: trim_chunks_idem, simp add: trim_space_def)

fun split_fields :: "bytes list \<Rightarrow> bytes \<Rightarrow> bytes list" where
  "split_fields [] acc = (if acc = [] then [] else [acc])"
| "split_fields (c # cs) acc =
     (if space_chunk c then (if acc = [] then [] else [acc]) @ split_fields cs []
      else split_fields cs (acc @ c))"

definition fields :: "bytes \<Rightarrow> bytes list" where
  "fields s = split_fields (rune_chunks s) []"

definition has_prefix :: "bytes \<Rightarrow> bytes \<Rightarrow> bool" where
  "has_prefix s p \<longleftrightarrow> take (length p) s = p"

fun join :: "bytes \<Rightarrow> bytes list \<Rightarrow> bytes" where
  "join sep [] = []"
| "join sep [x] = x"
| "join sep (x # y # xs) = x @ sep @ join sep (y # xs)"

text \<open>\<open>bytes.TrimSpace(b)\<close> is empty exactly when every rune is a space.\<close>

definition blank :: "bytes \<Rightarrow> bool" where
  "blank s \<longleftrightarrow> trim_space s = []"

subsection \<open>Formatting\<close>

definition digit :: "nat \<Rightarrow> char" where
  "digit n = char_of (n + 48)"

fun show_nat :: "nat \<Rightarrow> bytes" where
  "show_nat n = (if n < 10 then [digit n] else show_nat (n div 10) @ [digit (n mod 10)])"

declare show_nat.simps [simp del]

definition show_int :: "int \<Rightarrow> bytes" where
  "show_int i = (if i < 0 then ''-'' @ show_nat (nat (- i)) else show_nat (nat i))"

definition hex_digit :: "nat \<Rightarrow> char" where
  "hex_digit n = (if n < 10 then char_of (n + 48) else char_of (n + 87))"

definition hex_byte :: "char \<Rightarrow> bytes" where
  "hex_byte c = [hex_digit (byte c div 16), hex_digit (byte c mod 16)]"

text \<open>\<open>hex.EncodeToString\<close>.\<close>

definition hex_encode :: "bytes \<Rightarrow> bytes" where
  "hex_encode s = concat (map hex_byte s)"

definition quote_chunk :: "bytes \<Rightarrow> bytes" where
  "quote_chunk c =
     (case c of
        [a] \<Rightarrow>
          (let n = byte a in
           if n = 34 then [CHR 0x5C, CHR 0x22]
           else if n = 92 then [CHR 0x5C, CHR 0x5C]
           else if 32 \<le> n \<and> n < 127 then [a]
           else if n = 7 then [CHR 0x5C, CHR ''a'']
           else if n = 8 then [CHR 0x5C, CHR ''b'']
           else if n = 12 then [CHR 0x5C, CHR ''f'']
           else if n = 10 then [CHR 0x5C, CHR ''n'']
           else if n = 13 then [CHR 0x5C, CHR ''r'']
           else if n = 9 then [CHR 0x5C, CHR ''t'']
           else if n = 11 then [CHR 0x5C, CHR ''v'']
           else [CHR 0x5C, CHR ''x''] @ hex_byte a)
      | _ \<Rightarrow> c)"

text \<open>\<open>strconv.Quote\<close>, the \<open>%q\<close> verb.\<close>

definition quote :: "bytes \<Rightarrow> bytes" where
  "quote s = [CHR 0x22] @ concat (map quote_chunk (rune_chunks s)) @ [CHR 0x22]"

subsection \<open>Truncation at a rune boundary\<close>

text \<open>
  \<open>cut := n; for cut > 0 && !utf8.RuneStart(s[cut]) { cut-- }\<close>, for \<open>n < len(s)\<close>.
\<close>

fun cut_back :: "bytes \<Rightarrow> nat \<Rightarrow> nat" where
  "cut_back s 0 = 0"
| "cut_back s (Suc n) = (if \<not> rune_start (s ! Suc n) then cut_back s n else Suc n)"

lemma cut_back_le: "cut_back s n \<le> n"
  by (induction n) auto

lemma cut_back_boundary: "cut_back s n = 0 \<or> rune_start (s ! cut_back s n)"
  by (induction n) auto

text \<open>The three-byte ellipsis the program appends to a cut text.\<close>

definition ellipsis :: bytes where
  "ellipsis = [CHR 0xE2, CHR 0x80, CHR 0xA6]"

end
