(* ===== verification/GoJson.thy ===== *)
theory GoJson
  imports GoText
begin

text \<open>
  What the program uses of Go's \<open>encoding/json\<close>: the syntax check and parse behind
  \<open>json.Unmarshal\<close> and \<open>json.Valid\<close> (with Go's nesting limit of 10000 and its replacement of
  invalid UTF-8), the assignment of an object's members to a struct's fields (exact or
  case-folded names, later members win, \<open>null\<close> leaves a field alone, a mismatch is reported
  after the other fields are set), \<open>json.Compact\<close>, and the encoder behind \<open>json.Marshal\<close>.
  A number keeps its literal text.

  The parser's fuel is a list, twice as long as the input and a little more: every call either
  consumes a byte or is the one call that descends to the next grammar rule.
\<close>

datatype json =
    JNull
  | JBool bool
  | JNum bytes
  | JStr bytes
  | JArr "json list"
  | JObj "(bytes \<times> json) list"

subsection \<open>Lexical grammar\<close>

definition json_ws :: "char \<Rightarrow> bool" where
  "json_ws c \<longleftrightarrow> c = CHR '' '' \<or> c = CHR 0x09 \<or> c = CHR 0x0A \<or> c = CHR 0x0D"

definition skip_ws :: "bytes \<Rightarrow> bytes" where
  "skip_ws s = dropWhile json_ws s"

definition is_digit :: "char \<Rightarrow> bool" where
  "is_digit c \<longleftrightarrow> 48 \<le> byte c \<and> byte c \<le> 57"

definition hex_value :: "char \<Rightarrow> nat option" where
  "hex_value c =
     (let n = byte c in
      if 48 \<le> n \<and> n \<le> 57 then Some (n - 48)
      else if 97 \<le> n \<and> n \<le> 102 then Some (n - 87)
      else if 65 \<le> n \<and> n \<le> 70 then Some (n - 55)
      else None)"

definition hex4 :: "char \<Rightarrow> char \<Rightarrow> char \<Rightarrow> char \<Rightarrow> nat option" where
  "hex4 a b c d =
     (case (hex_value a, hex_value b, hex_value c, hex_value d) of
        (Some w, Some x, Some y, Some z) \<Rightarrow> Some (w * 4096 + x * 256 + y * 16 + z)
      | _ \<Rightarrow> None)"

text \<open>The escape letters after a backslash, \<open>u\<close> apart.\<close>

definition simple_escape :: "char \<Rightarrow> char option" where
  "simple_escape e =
     (if e = CHR 0x22 \<or> e = CHR 0x5C \<or> e = CHR ''/'' then Some e
      else if e = CHR ''b'' then Some (CHR 0x08)
      else if e = CHR ''f'' then Some (CHR 0x0C)
      else if e = CHR ''n'' then Some (CHR 0x0A)
      else if e = CHR ''r'' then Some (CHR 0x0D)
      else if e = CHR ''t'' then Some (CHR 0x09)
      else None)"

text \<open>The raw body of a string literal, up to its closing quote, and what follows.\<close>

fun scan_string :: "bytes \<Rightarrow> (bytes \<times> bytes) option" where
  "scan_string [] = None"
| "scan_string (c # s) =
     (if c = CHR 0x22 then Some ([], s)
      else if c = CHR 0x5C then
        (case s of
           [] \<Rightarrow> None
         | e # t \<Rightarrow>
             if e = CHR ''u'' then
               (case t of
                  h1 # h2 # h3 # h4 # u \<Rightarrow>
                    (if hex4 h1 h2 h3 h4 = None then None
                     else map_option (\<lambda>(b, r). (c # e # h1 # h2 # h3 # h4 # b, r)) (scan_string u))
                | _ \<Rightarrow> None)
             else if simple_escape e = None then None
             else map_option (\<lambda>(b, r). (c # e # b, r)) (scan_string t))
      else if byte c < 32 then None
      else map_option (\<lambda>(b, r). (c # b, r)) (scan_string s))"

definition surrogate :: "nat \<Rightarrow> bool" where
  "surrogate r \<longleftrightarrow> 55296 \<le> r \<and> r < 57344"

definition low_surrogate :: "nat \<Rightarrow> bool" where
  "low_surrogate r \<longleftrightarrow> 56320 \<le> r \<and> r < 57344"

text \<open>The rune of a four-digit escape: one half of a surrogate pair alone is invalid.\<close>

definition escape_rune :: "nat \<Rightarrow> bytes" where
  "escape_rune r = encode_rune (if surrogate r then rune_error else r)"

text \<open>A second escape right after the first, if there is one.\<close>

definition next_escape :: "bytes \<Rightarrow> nat option" where
  "next_escape s =
     (case s of
        b # u # h1 # h2 # h3 # h4 # _ \<Rightarrow>
          if b = CHR 0x5C \<and> u = CHR ''u'' then hex4 h1 h2 h3 h4 else None
      | _ \<Rightarrow> None)"

text \<open>The bytes a scanned literal body stands for.\<close>

function unquote :: "bytes \<Rightarrow> bytes" where
  "unquote [] = []"
| "unquote (c # s) =
     (if c = CHR 0x5C then
        (case s of
           [] \<Rightarrow> []
         | e # t \<Rightarrow>
             if e = CHR ''u'' then
               (case t of
                  h1 # h2 # h3 # h4 # u \<Rightarrow>
                    (let r = (case hex4 h1 h2 h3 h4 of Some r \<Rightarrow> r | None \<Rightarrow> 0) in
                     case next_escape u of
                       Some q \<Rightarrow>
                         if surrogate r \<and> \<not> low_surrogate r \<and> low_surrogate q
                         then encode_rune (65536 + (r - 55296) * 1024 + (q - 56320)) @ unquote (drop 6 u)
                         else escape_rune r @ unquote u
                     | None \<Rightarrow> escape_rune r @ unquote u)
                | _ \<Rightarrow> [])
             else (case simple_escape e of Some x \<Rightarrow> x # unquote t | None \<Rightarrow> unquote t))
      else if byte c < 128 then c # unquote s
      else if rune_width (c # s) \<le> 1 then encode_rune rune_error @ unquote s
      else take (rune_width (c # s)) (c # s) @ unquote (drop (rune_width (c # s)) (c # s)))"
  by pat_completeness auto
termination
  by (relation "measure length") (auto simp: rune_width_pos)

declare unquote.simps(2) [simp del]

text \<open>A number literal, by the JSON grammar, and what follows.\<close>

definition scan_digits :: "bytes \<Rightarrow> (bytes \<times> bytes) option" where
  "scan_digits s =
     (let d = takeWhile is_digit s in if d = [] then None else Some (d, dropWhile is_digit s))"

definition scan_int :: "bytes \<Rightarrow> (bytes \<times> bytes) option" where
  "scan_int s =
     (case s of
        [] \<Rightarrow> None
      | c # t \<Rightarrow> if c = CHR ''0'' then Some ([c], t) else scan_digits s)"

definition scan_frac :: "bytes \<Rightarrow> (bytes \<times> bytes) option" where
  "scan_frac s =
     (case s of
        c # t \<Rightarrow>
          if c = CHR ''.'' then map_option (\<lambda>(d, r). (c # d, r)) (scan_digits t) else Some ([], s)
      | [] \<Rightarrow> Some ([], []))"

definition scan_exp :: "bytes \<Rightarrow> (bytes \<times> bytes) option" where
  "scan_exp s =
     (case s of
        e # t \<Rightarrow>
          if e = CHR ''e'' \<or> e = CHR ''E'' then
            (case t of
               g # u \<Rightarrow>
                 if g = CHR ''+'' \<or> g = CHR ''-''
                 then map_option (\<lambda>(d, r). (e # g # d, r)) (scan_digits u)
                 else map_option (\<lambda>(d, r). (e # d, r)) (scan_digits t)
             | [] \<Rightarrow> None)
          else Some ([], s)
      | [] \<Rightarrow> Some ([], []))"

definition scan_number :: "bytes \<Rightarrow> (bytes \<times> bytes) option" where
  "scan_number s =
     (let (sign, t) = (case s of c # u \<Rightarrow> if c = CHR ''-'' then ([c], u) else ([], s) | [] \<Rightarrow> ([], [])) in
      case scan_int t of
        None \<Rightarrow> None
      | Some (i, t1) \<Rightarrow>
          (case scan_frac t1 of
             None \<Rightarrow> None
           | Some (f, t2) \<Rightarrow>
               (case scan_exp t2 of
                  None \<Rightarrow> None
                | Some (e, t3) \<Rightarrow> Some (sign @ i @ f @ e, t3))))"

subsection \<open>The parser\<close>

fun parse_value :: "bytes \<Rightarrow> nat \<Rightarrow> bytes \<Rightarrow> (json \<times> bytes) option"
  and parse_elems :: "bytes \<Rightarrow> nat \<Rightarrow> bytes \<Rightarrow> (json list \<times> bytes) option"
  and parse_members :: "bytes \<Rightarrow> nat \<Rightarrow> bytes \<Rightarrow> ((bytes \<times> json) list \<times> bytes) option"
where
  "parse_value [] depth s = None"
| "parse_value (f # fuel) depth s =
     (case skip_ws s of
        [] \<Rightarrow> None
      | c # r \<Rightarrow>
          if c = CHR ''{'' then
            (if depth = 0 then None
             else case skip_ws r of
                 [] \<Rightarrow> None
               | x # r2 \<Rightarrow>
                   if x = CHR ''}'' then Some (JObj [], r2)
                   else map_option (\<lambda>(ms, t). (JObj ms, t)) (parse_members fuel (depth - 1) (x # r2)))
          else if c = CHR ''['' then
            (if depth = 0 then None
             else case skip_ws r of
                 [] \<Rightarrow> None
               | x # r2 \<Rightarrow>
                   if x = CHR '']'' then Some (JArr [], r2)
                   else map_option (\<lambda>(vs, t). (JArr vs, t)) (parse_elems fuel (depth - 1) (x # r2)))
          else if c = CHR 0x22 then map_option (\<lambda>(b, t). (JStr (unquote b), t)) (scan_string r)
          else if take 4 (c # r) = ''null'' then Some (JNull, drop 3 r)
          else if take 4 (c # r) = ''true'' then Some (JBool True, drop 3 r)
          else if take 5 (c # r) = ''false'' then Some (JBool False, drop 4 r)
          else map_option (\<lambda>(n, t). (JNum n, t)) (scan_number (c # r)))"
| "parse_elems [] depth s = None"
| "parse_elems (f # fuel) depth s =
     (case parse_value fuel depth s of
        None \<Rightarrow> None
      | Some (v, t) \<Rightarrow>
          (case skip_ws t of
             [] \<Rightarrow> None
           | c # r \<Rightarrow>
               if c = CHR '','' then map_option (\<lambda>(vs, u). (v # vs, u)) (parse_elems fuel depth r)
               else if c = CHR '']'' then Some ([v], r)
               else None))"
| "parse_members [] depth s = None"
| "parse_members (f # fuel) depth s =
     (case skip_ws s of
        [] \<Rightarrow> None
      | q # r \<Rightarrow>
          if q \<noteq> CHR 0x22 then None
          else case scan_string r of
              None \<Rightarrow> None
            | Some (b, r1) \<Rightarrow>
                (case skip_ws r1 of
                   [] \<Rightarrow> None
                 | k # r2 \<Rightarrow>
                     if k \<noteq> CHR '':'' then None
                     else case parse_value fuel depth r2 of
                         None \<Rightarrow> None
                       | Some (v, r3) \<Rightarrow>
                           (case skip_ws r3 of
                              [] \<Rightarrow> None
                            | c # r4 \<Rightarrow>
                                if c = CHR '','' then
                                  map_option (\<lambda>(ms, u). ((unquote b, v) # ms, u)) (parse_members fuel depth r4)
                                else if c = CHR ''}'' then Some ([(unquote b, v)], r4)
                                else None)))"

definition max_nesting :: nat where
  "max_nesting = 10000"

text \<open>The value of a document; \<^term>\<open>None\<close> is a syntax error.\<close>

definition unmarshal :: "bytes \<Rightarrow> json option" where
  "unmarshal s =
     (case parse_value (''..'' @ s @ s) max_nesting s of
        Some (v, r) \<Rightarrow> if skip_ws r = [] then Some v else None
      | None \<Rightarrow> None)"

definition json_valid :: "bytes \<Rightarrow> bool" where
  "json_valid s \<longleftrightarrow> unmarshal s \<noteq> None"

subsection \<open>json.Compact\<close>

text \<open>Drops the white space outside string literals; the flag is "inside a literal".\<close>

fun strip_ws :: "bool \<Rightarrow> bytes \<Rightarrow> bytes" where
  "strip_ws inside [] = []"
| "strip_ws False (c # s) =
     (if json_ws c then strip_ws False s
      else c # strip_ws (c = CHR 0x22) s)"
| "strip_ws True (c # s) =
     (if c = CHR 0x5C then
        (case s of [] \<Rightarrow> [c] | e # t \<Rightarrow> c # e # strip_ws True t)
      else c # strip_ws (c \<noteq> CHR 0x22) s)"

definition compact :: "bytes \<Rightarrow> bytes option" where
  "compact s = (if json_valid s then Some (strip_ws False s) else None)"

subsection \<open>Decoding into structs\<close>

text \<open>
  Go matches a member to a field by the exact name, else by case folding. Of the runes beyond
  ASCII only U+017F and U+212A fold to ASCII letters (s and k).
\<close>

definition fold_chunk :: "bytes \<Rightarrow> bytes" where
  "fold_chunk c =
     (if c = [CHR 0xC5, CHR 0xBF] then ''S''
      else if c = [CHR 0xE2, CHR 0x84, CHR 0xAA] then ''K''
      else case c of
          [a] \<Rightarrow> if 97 \<le> byte a \<and> byte a \<le> 122 then [char_of (byte a - 32)] else c
        | _ \<Rightarrow> c)"

definition fold_name :: "bytes \<Rightarrow> bytes" where
  "fold_name s = concat (map fold_chunk (rune_chunks s))"

definition field_matches :: "bytes \<Rightarrow> bytes \<Rightarrow> bool" where
  "field_matches field key \<longleftrightarrow> key = field \<or> fold_name key = fold_name field"

text \<open>One field, from an object's members in order: its value, and whether all went well.\<close>

fun assign_field :: "(json \<Rightarrow> 'a option) \<Rightarrow> bytes \<Rightarrow> (bytes \<times> json) list \<Rightarrow> 'a \<Rightarrow> 'a \<times> bool" where
  "assign_field get field [] v = (v, True)"
| "assign_field get field ((k, j) # ms) v =
     (if \<not> field_matches field k then assign_field get field ms v
      else case j of
          JNull \<Rightarrow> assign_field get field ms v
        | _ \<Rightarrow>
            (case get j of
               Some x \<Rightarrow> assign_field get field ms x
             | None \<Rightarrow> (fst (assign_field get field ms v), False)))"

definition decode_field :: "(json \<Rightarrow> 'a option) \<Rightarrow> bytes \<Rightarrow> 'a \<Rightarrow> json \<Rightarrow> 'a \<times> bool" where
  "decode_field get field v j =
     (case j of
        JNull \<Rightarrow> (v, True)
      | JObj ms \<Rightarrow> assign_field get field ms v
      | _ \<Rightarrow> (v, False))"

text \<open>\<open>json.Unmarshal\<close> of a document into one field of a struct that holds \<open>v\<close> before.\<close>

definition unmarshal_field :: "(json \<Rightarrow> 'a option) \<Rightarrow> bytes \<Rightarrow> 'a \<Rightarrow> bytes \<Rightarrow> 'a \<times> bool" where
  "unmarshal_field get field v s =
     (case unmarshal s of None \<Rightarrow> (v, False) | Some j \<Rightarrow> decode_field get field v j)"

fun as_string :: "json \<Rightarrow> bytes option" where
  "as_string (JStr s) = Some s"
| "as_string _ = None"

fun as_bool :: "json \<Rightarrow> bool option" where
  "as_bool (JBool b) = Some b"
| "as_bool _ = None"

definition digits_value :: "bytes \<Rightarrow> nat" where
  "digits_value ds = foldl (\<lambda>n c. n * 10 + (byte c - 48)) 0 ds"

text \<open>\<open>strconv.ParseInt(literal, 10, 64)\<close> on a number literal.\<close>

definition parse_int64 :: "bytes \<Rightarrow> int option" where
  "parse_int64 s =
     (let neg = (take 1 s = ''-''); ds = (if neg then drop 1 s else s);
          v = (if neg then - int (digits_value ds) else int (digits_value ds)) in
      if ds \<noteq> [] \<and> list_all is_digit ds \<and> - (2 ^ 63) \<le> v \<and> v < 2 ^ 63 then Some v else None)"

fun as_int64 :: "json \<Rightarrow> int option" where
  "as_int64 (JNum n) = parse_int64 n"
| "as_int64 _ = None"

lemma parse_int64_range: "parse_int64 s = Some v \<Longrightarrow> - (2 ^ 63) \<le> v \<and> v < 2 ^ 63"
  unfolding parse_int64_def Let_def by (auto split: if_splits)

subsection \<open>Encoding\<close>

definition escape_chunk :: "bytes \<Rightarrow> bytes" where
  "escape_chunk c =
     (case c of
        [a] \<Rightarrow>
          (let n = byte a in
           if n = 34 then [CHR 0x5C, CHR 0x22]
           else if n = 92 then [CHR 0x5C, CHR 0x5C]
           else if n = 8 then [CHR 0x5C, CHR ''b'']
           else if n = 12 then [CHR 0x5C, CHR ''f'']
           else if n = 10 then [CHR 0x5C, CHR ''n'']
           else if n = 13 then [CHR 0x5C, CHR ''r'']
           else if n = 9 then [CHR 0x5C, CHR ''t'']
           else if n < 32 \<or> n = 60 \<or> n = 62 \<or> n = 38 then [CHR 0x5C] @ ''u00'' @ hex_byte a
           else if n < 128 then [a]
           else [CHR 0x5C] @ ''ufffd'')
      | _ \<Rightarrow>
          if c = [CHR 0xE2, CHR 0x80, CHR 0xA8] then [CHR 0x5C] @ ''u2028''
          else if c = [CHR 0xE2, CHR 0x80, CHR 0xA9] then [CHR 0x5C] @ ''u2029''
          else c)"

definition encode_string :: "bytes \<Rightarrow> bytes" where
  "encode_string s = [CHR 0x22] @ concat (map escape_chunk (rune_chunks s)) @ [CHR 0x22]"

text \<open>\<open>json.Marshal\<close>.\<close>

fun marshal :: "json \<Rightarrow> bytes" where
  "marshal JNull = ''null''"
| "marshal (JBool b) = (if b then ''true'' else ''false'')"
| "marshal (JNum n) = n"
| "marshal (JStr s) = encode_string s"
| "marshal (JArr vs) = ''['' @ join '','' (map marshal vs) @ '']''"
| "marshal (JObj ms) =
     ''{'' @ join '','' (map (\<lambda>(k, v). encode_string k @ '':'' @ marshal v) ms) @ ''}''"

end
