(* ===== verification/SysApi.thy ===== *)
theory SysApi
  imports GoJson
begin

text \<open>
  The interface to the processor's \<open>sys\<close> package (module \<open>github.com/aurora-capcompute/capcompute\<close>,
  not part of this repository): the syscall a guest sends, the result it gets, the
  authorization a dispatcher is handed, and the dispatcher type every layer of the chain has.

  A syscall is its name and its raw argument bytes. A result is opaque: its type is a
  parameter \<open>'r\<close>, and the package's constructors and observers are the fields of a
  \<open>sysapi\<close> record, an argument of every definition that uses them. \<open>sys_laws\<close> is what the
  package documents and this repository relies on: an observer of a constructed result, and
  \<open>WithLabels\<close> as the union of labels that changes nothing else.

  Errors are the values of one datatype, a constructor per error type or sentinel of the
  code. \<open>NilDeref\<close> stands for a run-time panic, which unwinds every layer as an error does.
\<close>

subsection \<open>Syscalls, results, authorizations\<close>

record syscall =
  sc_name :: string
  sc_args :: bytes

datatype status = StatusResult | StatusYield | StatusFailed

datatype errno = ErrnoDenied | ErrnoInvalidArgs | ErrnoInternal | ErrnoExpired | ErrnoOther string

text \<open>\<open>sys.Decision\<close>, with the two task states the runtime adds; any other string is \<open>OtherState\<close>.\<close>

datatype decision =
    Pending
  | Approved
  | Completed
  | TaskFailed
  | Denied
  | Cancelled
  | Expired
  | OtherState string

record authorization =
  au_decision :: decision
  au_data :: bytes
  au_reason :: string
  au_actor :: string

text \<open>The zero \<open>sys.Authorization\<close>, which the processor passes.\<close>

definition no_auth :: authorization where
  "no_auth = \<lparr>au_decision = OtherState '''', au_data = '''', au_reason = '''', au_actor = ''''\<rparr>"

record 'r sysapi =
  status_of :: "'r \<Rightarrow> status"
  errno_of :: "'r \<Rightarrow> errno"
  data_of :: "'r \<Rightarrow> bytes"
  message_of :: "'r \<Rightarrow> string"
  labels_of :: "'r \<Rightarrow> string list"
  with_labels :: "'r \<Rightarrow> string list \<Rightarrow> 'r"
  mk_result :: "bytes \<Rightarrow> 'r"
  mk_yield :: "string \<Rightarrow> 'r"
  mk_fail :: "string \<Rightarrow> 'r"
  mk_failcode :: "errno \<Rightarrow> string \<Rightarrow> 'r"

definition sys_laws :: "'r sysapi \<Rightarrow> bool" where
  "sys_laws S \<longleftrightarrow>
     (\<forall>d. status_of S (mk_result S d) = StatusResult \<and> data_of S (mk_result S d) = d) \<and>
     (\<forall>m. status_of S (mk_yield S m) = StatusYield \<and> message_of S (mk_yield S m) = m) \<and>
     (\<forall>m. status_of S (mk_fail S m) = StatusFailed) \<and>
     (\<forall>c m. status_of S (mk_failcode S c m) = StatusFailed \<and> errno_of S (mk_failcode S c m) = c \<and>
            message_of S (mk_failcode S c m) = m) \<and>
     (\<forall>r ls. status_of S (with_labels S r ls) = status_of S r \<and>
             errno_of S (with_labels S r ls) = errno_of S r \<and>
             data_of S (with_labels S r ls) = data_of S r \<and>
             message_of S (with_labels S r ls) = message_of S r \<and>
             set (labels_of S (with_labels S r ls)) = set (labels_of S r) \<union> set ls)"

lemma sys_laws_status:
  assumes "sys_laws S"
  shows "status_of S (mk_result S d) = StatusResult"
    and "status_of S (mk_yield S m) = StatusYield"
    and "status_of S (mk_fail S m) = StatusFailed"
    and "status_of S (mk_failcode S c m) = StatusFailed"
    and "status_of S (with_labels S r ls) = status_of S r"
  using assms by (simp_all add: sys_laws_def)

lemma sys_laws_labels:
  "sys_laws S \<Longrightarrow> set (labels_of S (with_labels S r ls)) = set (labels_of S r) \<union> set ls"
  by (simp add: sys_laws_def)

subsection \<open>Names of the runtime's own syscalls\<close>

definition sys_begin :: string where "sys_begin = ''sys.begin''"
definition sys_commit :: string where "sys_commit = ''sys.commit''"
definition sys_abort :: string where "sys_abort = ''sys.abort''"
definition sys_input :: string where "sys_input = ''sys.input''"
definition sys_output :: string where "sys_output = ''sys.output''"
definition sys_log :: string where "sys_log = ''sys.log''"
definition sys_now :: string where "sys_now = ''sys.now''"
definition sys_random :: string where "sys_random = ''sys.random''"
definition sys_timer :: string where "sys_timer = ''sys.timer''"

lemmas sys_names =
  sys_begin_def sys_commit_def sys_abort_def sys_input_def sys_output_def sys_log_def
  sys_now_def sys_random_def sys_timer_def

text \<open>The markers that skip validation and carry no provenance.\<close>

definition control_call :: "syscall \<Rightarrow> bool" where
  "control_call c \<longleftrightarrow> sc_name c = sys_begin \<or> sc_name c = sys_commit"

subsection \<open>Errors\<close>

datatype err =
    NotFound string
  | Conflict string
  | Invalid string
  | DenialError string string "string list"
  | ArgsError string string
  | OpenIntent nat syscall
  | ReplayDiverged nat syscall syscall
  | CorruptJournal nat string
  | TaskNotFound
  | TaskConflict
  | TaskGone
  | TaskUnauthorized
  | Canceled
  | DeadlineExceeded
  | PoolClosed
  | Dropped
  | NilDeref
  | Plain string
  | Wrapped string err

text \<open>
  A failure of \<open>encoding/json\<close>. Its message is the standard library's and depends on the
  document; nothing here reads it, and one text stands for all.
\<close>

definition json_error :: err where
  "json_error = Plain ''json: the document does not decode''"

text \<open>\<open>Error()\<close>.\<close>

fun err_text :: "err \<Rightarrow> string" where
  "err_text (NotFound m) = ''not found: '' @ m"
| "err_text (Conflict m) = ''lifecycle conflict: '' @ m"
| "err_text (Invalid m) = ''invalid request: '' @ m"
| "err_text (DenialError sc oper granted) =
     (if oper = '''' then ''capability '' @ quote sc @ '' is not granted''
      else if granted = [] then quote sc @ '' grants no operations''
      else ''operation '' @ quote oper @ '' is not granted on '' @ quote sc @ ''; granted: '' @
           join '', '' granted)"
| "err_text (ArgsError sc m) = sc @ '': '' @ m"
| "err_text (OpenIntent p c) =
     ''open intent at position '' @ show_nat p @ '': syscall '' @ quote (sc_name c) @
     '' was dispatched but its outcome was never journaled''"
| "err_text (ReplayDiverged i want got) =
     ''replay diverged at syscall '' @ show_nat i @ '': want '' @ quote (sc_name want) @
     '' got '' @ quote (sc_name got)"
| "err_text (CorruptJournal p m) = ''journal corrupt at position '' @ show_nat p @ '': '' @ m"
| "err_text TaskNotFound = ''task not found''"
| "err_text TaskConflict = ''task resolution conflict''"
| "err_text TaskGone = ''task is no longer resolvable''"
| "err_text TaskUnauthorized = ''invalid task token''"
| "err_text Canceled = ''context canceled''"
| "err_text DeadlineExceeded = ''context deadline exceeded''"
| "err_text PoolClosed = ''pool: closed''"
| "err_text Dropped = ''pool: stopped before running''"
| "err_text NilDeref = ''invalid memory address or nil pointer dereference''"
| "err_text (Plain m) = m"
| "err_text (Wrapped m e) = m @ '': '' @ err_text e"

subsection \<open>Taint and dispatchers\<close>

text \<open>
  \<open>capability.Taint\<close>: every label a process has observed, with the calls whose results
  carried it. A dispatch context carries one; a context without a taint has the empty one.
\<close>

type_synonym taint = "(string, string list) gomap"

text \<open>
  \<open>sys.Dispatcher[K].Dispatch(ctx, cred, syscall, auth)\<close>, over a world \<open>'w\<close> of everything the
  layers below can change.
\<close>

type_synonym ('k, 'r, 'w) dispatcher =
  "taint \<Rightarrow> 'k \<Rightarrow> syscall \<Rightarrow> authorization \<Rightarrow> 'w \<Rightarrow> (err + 'r) \<times> 'w"

subsection \<open>A concrete result type\<close>

text \<open>The model's own instance of the interface, on which witnesses evaluate.\<close>

record demo_result =
  dr_status :: status
  dr_errno :: errno
  dr_data :: bytes
  dr_message :: string
  dr_labels :: "string list"

definition demo_sys :: "demo_result sysapi" where
  "demo_sys =
     \<lparr>status_of = dr_status, errno_of = dr_errno, data_of = dr_data, message_of = dr_message,
      labels_of = dr_labels,
      with_labels = (\<lambda>r ls. r\<lparr>dr_labels := dr_labels r @ ls\<rparr>),
      mk_result = (\<lambda>d. \<lparr>dr_status = StatusResult, dr_errno = ErrnoOther '''', dr_data = d,
                        dr_message = '''', dr_labels = []\<rparr>),
      mk_yield = (\<lambda>m. \<lparr>dr_status = StatusYield, dr_errno = ErrnoOther '''', dr_data = '''',
                       dr_message = m, dr_labels = []\<rparr>),
      mk_fail = (\<lambda>m. \<lparr>dr_status = StatusFailed, dr_errno = ErrnoInternal, dr_data = '''',
                      dr_message = m, dr_labels = []\<rparr>),
      mk_failcode = (\<lambda>c m. \<lparr>dr_status = StatusFailed, dr_errno = c, dr_data = '''',
                            dr_message = m, dr_labels = []\<rparr>)\<rparr>"

lemma demo_sys_laws: "sys_laws demo_sys"
  by (simp add: sys_laws_def demo_sys_def)

end
