(* ===== verification/Manifest.thy ===== *)
theory Manifest
  imports SysApi
begin

text \<open>
  The grant set of a process (\<open>internal/agent/manifest/manifest.go\<close>): the manifest's types,
  \<open>Validate\<close> and the checks it is made of, and the lookups the runtime makes. The driver's
  \<open>ConfigValidator\<close> is a parameter. \<open>Clone\<close> copies values, which are values here already.
\<close>

definition manifest_version :: int where "manifest_version = 4"

definition reserved_syscall_prefix :: string where "reserved_syscall_prefix = ''sys.''"

definition timer_syscall :: string where "timer_syscall = sys_timer"

record skill =
  sk_name :: string
  sk_description :: string
  sk_instructions :: string

record grant =
  g_syscall :: string
  g_hidden :: bool
  g_config :: bytes

record manifest =
  m_version :: int
  m_program :: string
  m_history :: "bool option"
  m_syscalls :: "grant list"
  m_skills :: "skill list"

definition shares_history :: "manifest \<Rightarrow> bool" where
  "shares_history m \<longleftrightarrow> m_history m = None \<or> m_history m = Some True"

definition runtime_served :: "grant \<Rightarrow> bool" where
  "runtime_served g \<longleftrightarrow> g_syscall g = timer_syscall"

definition leaf_syscalls :: "manifest \<Rightarrow> grant list" where
  "leaf_syscalls m = filter (\<lambda>g. \<not> runtime_served g) (m_syscalls m)"

definition find_syscall :: "manifest \<Rightarrow> string \<Rightarrow> grant option" where
  "find_syscall m sc = List.find (\<lambda>g. g_syscall g = sc) (m_syscalls m)"

subsection \<open>Timer settings\<close>

definition max_duration_field :: string where "max_duration_field = ''max_duration_ms''"

text \<open>
  \<open>Decoder.Decode\<close> into \<open>TimerSettings\<close> with unknown fields disallowed: it reads the first
  value of the input and looks no further.
\<close>

definition decode_timer_strict :: "bytes \<Rightarrow> err + int" where
  "decode_timer_strict raw =
     (case parse_value (''..'' @ raw @ raw) max_nesting raw of
        None \<Rightarrow> Inl json_error
      | Some (j, _) \<Rightarrow>
          (case j of
             JObj ms \<Rightarrow>
               if list_all (\<lambda>(k, _). field_matches max_duration_field k) ms
               then (case decode_field as_int64 max_duration_field 0 j of
                       (n, True) \<Rightarrow> Inr n
                     | (_, False) \<Rightarrow> Inl json_error)
               else Inl json_error
           | JNull \<Rightarrow> Inr 0
           | _ \<Rightarrow> Inl json_error))"

definition marshal_timer :: "int \<Rightarrow> bytes" where
  "marshal_timer n = marshal (JObj [(max_duration_field, JNum (show_int n))])"

definition normalize_timer_settings :: "bytes \<Rightarrow> err + bytes" where
  "normalize_timer_settings raw =
     (if blank raw then Inr ''''
      else case decode_timer_strict raw of
          Inl e \<Rightarrow> Inl e
        | Inr n \<Rightarrow>
            if n < 0 then Inl (Plain ''max_duration_ms must not be negative'')
            else if n = 0 then Inr ''''
            else Inr (marshal_timer n))"

subsection \<open>Validation\<close>

text \<open>The loop of \<open>validateSyscalls\<close> from grant \<open>i\<close> on; it returns the grants as it leaves them.\<close>

fun validate_syscalls ::
    "(string \<Rightarrow> bytes \<Rightarrow> err option) \<Rightarrow> nat \<Rightarrow> string list \<Rightarrow> grant list \<Rightarrow> err + grant list"
where
  "validate_syscalls V i seen [] = Inr []"
| "validate_syscalls V i seen (g # gs) =
     (let name = trim_space (g_syscall g); g1 = g\<lparr>g_syscall := name\<rparr> in
      if name = '''' then Inl (Invalid (''grant '' @ show_nat i @ '': a syscall is required''))
      else if name \<in> set seen then Inl (Invalid (''duplicate syscall '' @ quote name))
      else if has_prefix name reserved_syscall_prefix \<and> \<not> runtime_served g1 then
        Inl (Invalid (''syscall '' @ quote name @ '' is in the reserved '' @ quote reserved_syscall_prefix @
                      '' namespace and may not be granted''))
      else
        case (if name = timer_syscall then
                (case normalize_timer_settings (g_config g) of
                   Inl e \<Rightarrow> Inl (Invalid (''sys.timer settings: '' @ err_text e))
                 | Inr config \<Rightarrow> Inr (g1\<lparr>g_config := config\<rparr>))
              else
                (case V name (g_config g) of
                   Some e \<Rightarrow> Inl (Invalid (''syscall '' @ quote name @ '' config: '' @ err_text e))
                 | None \<Rightarrow> Inr g1)) of
          Inl e \<Rightarrow> Inl e
        | Inr g2 \<Rightarrow>
            (case validate_syscalls V (i + 1) (name # seen) gs of
               Inl e \<Rightarrow> Inl e
             | Inr out \<Rightarrow> Inr (g2 # out)))"

fun validate_skills :: "nat \<Rightarrow> string list \<Rightarrow> skill list \<Rightarrow> err + skill list" where
  "validate_skills i seen [] = Inr []"
| "validate_skills i seen (s # ss) =
     (let name = trim_space (sk_name s) in
      if name = '''' then Inl (Invalid (''skill '' @ show_nat i @ '': a name is required''))
      else if name \<in> set seen then Inl (Invalid (''duplicate skill '' @ quote name))
      else case validate_skills (i + 1) (name # seen) ss of
          Inl e \<Rightarrow> Inl e
        | Inr out \<Rightarrow> Inr (s\<lparr>sk_name := name\<rparr> # out))"

definition validate :: "manifest \<Rightarrow> (string \<Rightarrow> bytes \<Rightarrow> err option) \<Rightarrow> err + manifest" where
  "validate spec V =
     (if m_version spec \<noteq> manifest_version then
        Inl (Invalid (''manifest version must be '' @ show_int manifest_version))
      else
        let program = trim_space (m_program spec) in
        case validate_syscalls V 0 [] (m_syscalls spec) of
          Inl e \<Rightarrow> Inl e
        | Inr gs \<Rightarrow>
            (case validate_skills 0 [] (m_skills spec) of
               Inl e \<Rightarrow> Inl e
             | Inr ss \<Rightarrow>
                 if program = '''' then Inl (Invalid ''a program is required'')
                 else Inr (spec\<lparr>m_program := program, m_syscalls := gs, m_skills := ss\<rparr>)))"

subsection \<open>The canonical form\<close>

text \<open>A timer configuration as \<open>Validate\<close> leaves it.\<close>

definition canonical_timer :: "bytes \<Rightarrow> bool" where
  "canonical_timer config \<longleftrightarrow> config = [] \<or> (\<exists>n. 0 < n \<and> n < 2 ^ 63 \<and> config = marshal_timer n)"

definition grant_ok :: "(string \<Rightarrow> bytes \<Rightarrow> err option) \<Rightarrow> grant \<Rightarrow> bool" where
  "grant_ok V g \<longleftrightarrow>
     g_syscall g \<noteq> [] \<and> trim_space (g_syscall g) = g_syscall g \<and>
     (if runtime_served g then canonical_timer (g_config g)
      else \<not> has_prefix (g_syscall g) reserved_syscall_prefix \<and> V (g_syscall g) (g_config g) = None)"

definition canonical :: "(string \<Rightarrow> bytes \<Rightarrow> err option) \<Rightarrow> manifest \<Rightarrow> bool" where
  "canonical V m \<longleftrightarrow>
     m_version m = manifest_version \<and> m_program m \<noteq> [] \<and> trim_space (m_program m) = m_program m \<and>
     list_all (grant_ok V) (m_syscalls m) \<and> distinct (map g_syscall (m_syscalls m)) \<and>
     list_all (\<lambda>s. sk_name s \<noteq> [] \<and> trim_space (sk_name s) = sk_name s) (m_skills m) \<and>
     distinct (map sk_name (m_skills m))"

lemma assign_field_value:
  "fst (assign_field get field ms v) = v \<or> (\<exists>j. get j = Some (fst (assign_field get field ms v)))"
proof (induction ms arbitrary: v)
  case (Cons m ms)
  obtain k j where m: "m = (k, j)" by fastforce
  show ?case
  proof (cases "field_matches field k \<and> j \<noteq> JNull")
    case False
    then show ?thesis using Cons.IH [of v] m by auto
  next
    case True
    then have e: "assign_field get field (m # ms) v =
        (case get j of Some x \<Rightarrow> assign_field get field ms x | None \<Rightarrow> (fst (assign_field get field ms v), False))"
      by (cases j) (simp_all add: m)
    show ?thesis
    proof (cases "get j")
      case None
      then show ?thesis using Cons.IH [of v] by (simp add: e)
    next
      case (Some x)
      then show ?thesis using Cons.IH [of x] by (auto simp: e)
    qed
  qed
qed simp

lemma decode_timer_range:
  assumes "decode_timer_strict raw = Inr n"
  shows "- (2 ^ 63) \<le> n \<and> n < 2 ^ 63"
proof -
  have "n = 0 \<or> (\<exists>j. as_int64 j = Some n)"
    using assms assign_field_value [of as_int64 max_duration_field _ 0]
    by (auto simp: decode_timer_strict_def decode_field_def split: option.splits json.splits if_splits prod.splits bool.splits)
      (metis fst_conv)+
  then show ?thesis
    using parse_int64_range by (auto elim!: as_int64.elims)
qed

lemma normalize_canonical: "normalize_timer_settings raw = Inr config \<Longrightarrow> canonical_timer config"
  using decode_timer_range
  by (fastforce simp: normalize_timer_settings_def canonical_timer_def split: if_splits sum.splits)

lemma validate_syscalls_Cons:
  assumes "validate_syscalls V i seen (g # gs) = Inr out"
  obtains g' rest where "out = g' # rest" "grant_ok V g'" "g_syscall g' = trim_space (g_syscall g)"
    "g_syscall g' \<notin> set seen" "validate_syscalls V (i + 1) (g_syscall g' # seen) gs = Inr rest"
  using assms normalize_canonical
  by (fastforce simp: Let_def grant_ok_def runtime_served_def split: if_splits sum.splits option.splits)

lemma validate_syscalls_ok:
  assumes "validate_syscalls V i seen gs = Inr out"
  shows "list_all (grant_ok V) out \<and> distinct (map g_syscall out) \<and> set (map g_syscall out) \<inter> set seen = {}"
  using assms
proof (induction gs arbitrary: i seen out)
  case (Cons g gs)
  obtain g' rest where "out = g' # rest" "grant_ok V g'" "g_syscall g' \<notin> set seen"
    "validate_syscalls V (i + 1) (g_syscall g' # seen) gs = Inr rest"
    using Cons.prems by (rule validate_syscalls_Cons)
  then show ?case using Cons.IH [of "i + 1" "g_syscall g' # seen" rest] by auto
qed simp

lemma validate_skills_ok:
  assumes "validate_skills i seen ss = Inr out"
  shows "list_all (\<lambda>s. sk_name s \<noteq> [] \<and> trim_space (sk_name s) = sk_name s) out \<and>
    distinct (map sk_name out) \<and> set (map sk_name out) \<inter> set seen = {}"
  using assms
proof (induction ss arbitrary: i seen out)
  case (Cons s ss)
  obtain rest where r: "out = s\<lparr>sk_name := trim_space (sk_name s)\<rparr> # rest" "trim_space (sk_name s) \<noteq> []"
    "trim_space (sk_name s) \<notin> set seen"
    "validate_skills (i + 1) (trim_space (sk_name s) # seen) ss = Inr rest"
    using Cons.prems by (auto simp: Let_def split: if_splits sum.splits)
  then show ?case using Cons.IH [OF r(4)] by auto
qed simp

lemma validate_canonical_form:
  assumes "validate spec V = Inr out"
  shows "canonical V out"
proof -
  obtain gs ss where "m_version spec = manifest_version" "validate_syscalls V 0 [] (m_syscalls spec) = Inr gs"
    "validate_skills 0 [] (m_skills spec) = Inr ss" "trim_space (m_program spec) \<noteq> []"
    "out = spec\<lparr>m_program := trim_space (m_program spec), m_syscalls := gs, m_skills := ss\<rparr>"
    using assms by (auto simp: validate_def Let_def split: if_splits sum.splits)
  then show ?thesis
    using validate_syscalls_ok [of V 0 "[]" "m_syscalls spec" gs] validate_skills_ok [of 0 "[]" "m_skills spec" ss]
    by (simp add: canonical_def)
qed

subsection \<open>A canonical manifest is a fixed point\<close>

lemma byte_digit: "n < 10 \<Longrightarrow> byte (digit n) = 48 + n"
  by (simp add: digit_def)

lemma is_digit_digit: "n < 10 \<Longrightarrow> is_digit (digit n)"
  by (simp add: is_digit_def byte_digit)

lemma show_nat_digits: "list_all is_digit (show_nat n) \<and> show_nat n \<noteq> []"
proof (induction n rule: show_nat.induct)
  case (1 n)
  then show ?case by (subst (1 2) show_nat.simps) (auto simp: is_digit_digit)
qed

lemma show_nat_head: "0 < n \<Longrightarrow> hd (show_nat n) \<noteq> CHR ''0''"
proof (induction n rule: show_nat.induct)
  case (1 n)
  show ?case
  proof (cases "n < 10")
    case True
    then have "byte (digit n) \<noteq> byte (CHR ''0'')" using 1(2) by (simp add: byte_digit)
    then show ?thesis using True by (subst show_nat.simps) auto
  next
    case False
    then show ?thesis using 1 show_nat_digits [of "n div 10"] by (subst show_nat.simps) (auto simp: hd_append)
  qed
qed

lemma digits_value_show: "digits_value (show_nat n) = n"
proof (induction n rule: show_nat.induct)
  case (1 n)
  then show ?case
    by (subst show_nat.simps) (auto simp: digits_value_def byte_digit)
qed

lemma show_nat_not_minus: "take 1 (show_nat n) \<noteq> ''-''"
proof
  assume m: "take 1 (show_nat n) = ''-''"
  then have "CHR ''-'' \<in> set (show_nat n)" by (cases "show_nat n") auto
  then have "is_digit (CHR ''-'')" using show_nat_digits [of n] by (auto simp: list_all_iff)
  then show False by (simp add: is_digit_def)
qed

lemma parse_int64_show:
  assumes "0 < n" "n < 2 ^ 63"
  shows "parse_int64 (show_int n) = Some n"
  using assms show_nat_digits [of "nat n"] show_nat_not_minus [of "nat n"]
  by (simp add: parse_int64_def show_int_def digits_value_show Let_def)

lemma scan_number_show:
  assumes "0 < n"
  shows "scan_number (show_nat n @ ''}'') = Some (show_nat n, ''}'')"
proof -
  obtain c t where ct: "show_nat n = c # t" using show_nat_digits [of n] by (cases "show_nat n") auto
  have d: "list_all is_digit (show_nat n)" using show_nat_digits by blast
  have nd: "\<not> is_digit (CHR ''}'')" by (simp add: is_digit_def)
  have tw: "takeWhile is_digit (show_nat n @ ''}'') = show_nat n" "dropWhile is_digit (show_nat n @ ''}'') = ''}''"
    using d nd by (simp_all add: list_all_iff takeWhile_append2 dropWhile_append2)
  have c: "c \<noteq> CHR ''0''" "c \<noteq> CHR ''-''"
    using show_nat_head [OF assms] show_nat_not_minus [of n] ct by auto
  have "scan_int (show_nat n @ ''}'') = Some (show_nat n, ''}'')"
    using c tw ct by (simp add: scan_int_def scan_digits_def Let_def)
  then show ?thesis
    using c ct by (simp add: scan_number_def scan_frac_def scan_exp_def Let_def)
qed

lemma encode_max_duration: "encode_string max_duration_field = [CHR 0x22] @ ''max_duration_ms'' @ [CHR 0x22]"
  by code_simp

lemma scan_max_duration:
  "scan_string (''max_duration_ms'' @ [CHR 0x22] @ r) = Some (''max_duration_ms'', r)"
  by (simp add: scan_string.simps)

lemma parse_marshal_timer:
  assumes "0 < n"
  shows "parse_value (''..'' @ marshal_timer n @ marshal_timer n) max_nesting (marshal_timer n) =
    Some (JObj [(max_duration_field, JNum (show_nat (nat n)))], [])"
proof -
  let ?s = "show_nat (nat n)"
  have raw: "marshal_timer n = ''{'' @ [CHR 0x22] @ ''max_duration_ms'' @ [CHR 0x22] @ '':'' @ ?s @ ''}''"
    using assms encode_max_duration by (simp add: marshal_timer_def show_int_def)
  obtain c t where ct: "?s = c # t" using show_nat_digits [of "nat n"] by (cases ?s) auto
  have "is_digit c" using show_nat_digits [of "nat n"] ct by simp
  then have c: "\<not> json_ws c" "c \<notin> {CHR ''{'', CHR ''['', CHR 0x22, CHR ''n'', CHR ''t'', CHR ''f''}"
    by (auto simp: is_digit_def json_ws_def)
  have v: "parse_value (f # fuel) d (?s @ ''}'') = Some (JNum ?s, ''}'')" for f fuel d
    using c ct scan_number_show [of "nat n"] assms by (simp add: skip_ws_def)
  have uq: "unquote ''max_duration_ms'' = max_duration_field" by code_simp
  have sk: "skip_ws (x # xs) = x # xs" if "\<not> json_ws x" for x xs using that by (simp add: skip_ws_def)
  have ws: "\<not> json_ws (CHR 0x22)" "\<not> json_ws (CHR '':'')" "\<not> json_ws (CHR ''}'')" "\<not> json_ws (CHR ''{'')"
    by (simp_all add: json_ws_def)
  let ?rest = "''max_duration_ms'' @ [CHR 0x22] @ '':'' @ ?s @ ''}''"
  have m: "parse_members (f # g # fuel) d (CHR 0x22 # ?rest) = Some ([(max_duration_field, JNum ?s)], [])" for f g fuel d
  proof -
    have sc: "scan_string ?rest = Some (''max_duration_ms'', '':'' @ ?s @ ''}'')"
      by (rule scan_max_duration)
    have sk2: "skip_ws ('':'' @ ?s @ ''}'') = CHR '':'' # ?s @ ''}''" using sk [OF ws(2)] by simp
    show ?thesis
      unfolding parse_members.simps sk [OF ws(1)] list.case sc option.case prod.case sk2
      by (simp add: v uq sk [OF ws(3)] del: parse_value.simps parse_members.simps)
  qed
  show ?thesis unfolding raw
    by (simp add: sk [OF ws(4)] sk [OF ws(1)] max_nesting_def m [unfolded append.simps] del: parse_members.simps)
qed

lemma decode_marshal_field:
  assumes "0 < n" "n < 2 ^ 63"
  shows "decode_field as_int64 max_duration_field v (JObj [(max_duration_field, JNum (show_nat (nat n)))]) = (n, True)"
  using parse_int64_show [OF assms] assms by (simp add: decode_field_def field_matches_def show_int_def)

lemma decode_marshal_timer:
  assumes "0 < n" "n < 2 ^ 63"
  shows "decode_timer_strict (marshal_timer n) = Inr n"
  unfolding decode_timer_strict_def parse_marshal_timer [OF assms(1)]
  using decode_marshal_field [OF assms] by (simp add: field_matches_def)

lemma unmarshal_marshal_timer:
  assumes "0 < n" "n < 2 ^ 63"
  shows "unmarshal_field as_int64 max_duration_field v (marshal_timer n) = (n, True)"
  unfolding unmarshal_field_def unmarshal_def parse_marshal_timer [OF assms(1)]
  using decode_marshal_field [OF assms] by (simp add: skip_ws_def)

text \<open>A loop over canonical grants changes nothing.\<close>

lemma not_blank: "byte c < 128 \<Longrightarrow> \<not> space_rune (byte c) \<Longrightarrow> \<not> blank (c # s)"
proof
  assume c: "byte c < 128" "\<not> space_rune (byte c)" and b: "blank (c # s)"
  have w: "rune_width (c # s) = 1" using c(1) by (simp add: rune_width_def)
  have ch: "rune_chunks (c # s) = [c] # rune_chunks s"
    by (subst rune_chunks.simps) (simp only: w, simp)
  have ns: "\<not> space_chunk [c]" using c by (simp add: space_chunk_def)
  have "trim_chunks (rune_chunks (c # s)) = []"
    using b rune_chunks_trim [of "c # s"] unfolding blank_def by (metis rune_chunks_Nil)
  then show False using ns by (simp add: trim_chunks_def ch dropWhile_append split: if_splits)
qed

lemma normalize_marshal_timer:
  assumes "0 < n" "n < 2 ^ 63"
  shows "normalize_timer_settings (marshal_timer n) = Inr (marshal_timer n)"
proof -
  have "\<not> blank (marshal_timer n)"
    using not_blank [of "CHR ''{''"] by (simp add: marshal_timer_def space_rune_def)
  then show ?thesis
    using decode_marshal_timer [OF assms] assms by (simp add: normalize_timer_settings_def)
qed

lemma validate_syscalls_fix:
  assumes "list_all (grant_ok V) gs" "distinct (map g_syscall gs)" "set (map g_syscall gs) \<inter> set seen = {}"
  shows "validate_syscalls V i seen gs = Inr gs"
  using assms
proof (induction gs arbitrary: i seen)
  case (Cons g gs)
  have g: "trim_space (g_syscall g) = g_syscall g" "g_syscall g \<noteq> []" "g_syscall g \<notin> set seen"
    using Cons.prems by (simp_all add: grant_ok_def)
  have "validate_syscalls V (i + 1) (g_syscall g # seen) gs = Inr gs"
    using Cons by auto
  moreover have "normalize_timer_settings (g_config g) = Inr (g_config g)" if "runtime_served g"
  proof -
    have "canonical_timer (g_config g)" using that Cons.prems(1) by (simp add: grant_ok_def)
    moreover have "blank []" by (simp add: blank_def trim_space_def trim_chunks_def)
    moreover have "normalize_timer_settings [] = Inr []"
      using \<open>blank []\<close> by (simp add: normalize_timer_settings_def)
    ultimately show ?thesis
      using normalize_marshal_timer unfolding canonical_timer_def by auto
  qed
  ultimately show ?case
    using g Cons.prems(1) by (cases "runtime_served g") (auto simp: Let_def grant_ok_def runtime_served_def)
qed simp

lemma validate_skills_fix:
  assumes "list_all (\<lambda>s. sk_name s \<noteq> [] \<and> trim_space (sk_name s) = sk_name s) ss"
    "distinct (map sk_name ss)" "set (map sk_name ss) \<inter> set seen = {}"
  shows "validate_skills i seen ss = Inr ss"
  using assms
proof (induction ss arbitrary: i seen)
  case (Cons s ss)
  then have "validate_skills (i + 1) (sk_name s # seen) ss = Inr ss" by auto
  then show ?case using Cons.prems by (simp add: Let_def)
qed simp

lemma validate_fixed: "canonical V m \<Longrightarrow> validate m V = Inr m"
  using validate_syscalls_fix [of V "m_syscalls m" "[]" 0] validate_skills_fix [of "m_skills m" "[]" 0]
  by (simp add: canonical_def validate_def Let_def)

text \<open>What the runtime looks up in a validated manifest.\<close>

lemma find_syscall_leaf:
  "canonical V m \<Longrightarrow> g \<in> set (m_syscalls m) \<Longrightarrow> find_syscall m (g_syscall g) = Some g"
proof -
  assume c: "canonical V m" and g: "g \<in> set (m_syscalls m)"
  have "List.find (\<lambda>h. g_syscall h = g_syscall g) gs = Some g"
    if "g \<in> set gs" "distinct (map g_syscall gs)" for gs
    using that by (induction gs) (auto simp: image_iff)
  then show ?thesis using c g by (simp add: find_syscall_def canonical_def)
qed

subsection \<open>Properties\<close>

definition demo_manifest :: manifest where
  "demo_manifest =
     \<lparr>m_version = 4, m_program = '' agent '', m_history = None,
      m_syscalls = [\<lparr>g_syscall = '' internet.read'', g_hidden = False, g_config = ''''\<rparr>],
      m_skills = []\<rparr>"

text \<open>C24. Validation accepts a manifest exactly as its own canonical form: whatever it
  returns is canonical (the version this runtime reads, a program, trimmed and distinct
  names, no grant in the reserved namespace except the timer, a timer bound that is unset or
  a positive 64-bit number in its one encoding, and a driver that accepted every other
  configuration), validating that again changes nothing, and a manifest is returned
  unchanged exactly when it is canonical.\<close>

theorem validate_canonicalizes:
  "(\<forall>out. validate spec V = Inr out \<longrightarrow> canonical V out \<and> validate out V = Inr out) \<and>
   (validate spec V = Inr spec \<longleftrightarrow> canonical V spec)"
  using validate_canonical_form validate_fixed by blast

theorem validate_canonicalizes_witness:
  "\<exists>out. validate demo_manifest (\<lambda>sc config. None) = Inr out \<and> canonical (\<lambda>sc config. None) out \<and>
     m_program out = ''agent''"
proof -
  have t: "trim_space '' agent '' = ''agent''" "trim_space '' internet.read'' = ''internet.read''"
    by (simp_all add: trim_space_def trim_chunks_def rune_chunks.simps rune_width_def Let_def
        space_chunk_def space_rune_def)
  have grants: "validate_syscalls (\<lambda>sc config. None) 0 [] (m_syscalls demo_manifest) =
    Inr [\<lparr>g_syscall = ''internet.read'', g_hidden = False, g_config = []\<rparr>]"
    by (simp add: demo_manifest_def t Let_def has_prefix_def reserved_syscall_prefix_def runtime_served_def
        timer_syscall_def sys_timer_def)
  have v: "m_version demo_manifest = manifest_version" "trim_space (m_program demo_manifest) = ''agent''"
    "validate_skills 0 [] (m_skills demo_manifest) = Inr []"
    by (simp_all add: demo_manifest_def manifest_version_def t)
  let ?out = "demo_manifest\<lparr>m_program := ''agent'',
    m_syscalls := [\<lparr>g_syscall = ''internet.read'', g_hidden = False, g_config = []\<rparr>], m_skills := []\<rparr>"
  have out: "validate demo_manifest (\<lambda>sc config. None) = Inr ?out"
    unfolding validate_def by (simp add: v grants)
  then have "canonical (\<lambda>sc config. None) ?out"
    using validate_canonicalizes [of demo_manifest "\<lambda>sc config. None"] by blast
  moreover have "m_program ?out = ''agent''" by simp
  ultimately show ?thesis using out by blast
qed

end
