(* ===== verification/EventLog.thy ===== *)
theory EventLog
  imports SysApi
begin

text \<open>
  The append-only event log (\<open>internal/agent/eventlog/eventlog.go\<close>) and how an event is made
  (\<open>EncodeEvent\<close> of \<open>internal/agent/durable/events.go\<close>).

  The log is an interface the application implements, so it is a parameter: a record of its
  operations over a world \<open>'l\<close> (the streams, and the clock the runtime reads). \<open>log_laws\<close> is
  the documented contract: an append that succeeds adds the events at the end of one stream,
  one that fails adds nothing, and streams do not interfere. An event's payload is an opaque
  type \<open>'d\<close> (JSON in the code): the encoders and decoders of the payloads are parameters too.
\<close>

record 'd event =
  ev_seq :: nat
  ev_kind :: string
  ev_time :: instant
  ev_proc :: string
  ev_rev :: nat
  ev_data :: 'd

record ('l, 'd) evlog =
  el_append :: "string \<Rightarrow> 'd event \<Rightarrow> 'l \<Rightarrow> err option \<times> 'l"
  el_read :: "string \<Rightarrow> 'l \<Rightarrow> err + 'd event list"
  el_sessions :: "'l \<Rightarrow> err + string list"
  el_now :: "'l \<Rightarrow> instant"

text \<open>The stream of a session: what reading it from the beginning gives.\<close>

definition stream :: "('l, 'd) evlog \<Rightarrow> string \<Rightarrow> 'l \<Rightarrow> 'd event list" where
  "stream L s l = (case el_read L s l of Inl _ \<Rightarrow> [] | Inr es \<Rightarrow> es)"

definition log_laws :: "('l, 'd) evlog \<Rightarrow> bool" where
  "log_laws L \<longleftrightarrow>
     (\<forall>s e l l'. el_append L s e l = (None, l') \<longrightarrow>
        (\<exists>n. stream L s l' = stream L s l @ [e\<lparr>ev_seq := n\<rparr>]) \<and>
        (\<forall>s'. s' \<noteq> s \<longrightarrow> stream L s' l' = stream L s' l)) \<and>
     (\<forall>s e l l' x. el_append L s e l = (Some x, l') \<longrightarrow> (\<forall>s'. stream L s' l' = stream L s' l))"

lemma log_append_ok:
  assumes "log_laws L" "el_append L s e l = (None, l')"
  obtains n where "stream L s l' = stream L s l @ [e\<lparr>ev_seq := n\<rparr>]"
    "\<And>s'. s' \<noteq> s \<Longrightarrow> stream L s' l' = stream L s' l"
  using assms unfolding log_laws_def by metis

lemma log_append_err:
  "log_laws L \<Longrightarrow> el_append L s e l = (Some x, l') \<Longrightarrow> stream L s' l' = stream L s' l"
  unfolding log_laws_def by metis

definition encode_event ::
    "('p \<Rightarrow> err + 'd) \<Rightarrow> string \<Rightarrow> string \<Rightarrow> nat \<Rightarrow> instant \<Rightarrow> 'p \<Rightarrow> err + 'd event"
where
  "encode_event enc kind proc v now payload =
     (case enc payload of
        Inl e \<Rightarrow> Inl (Wrapped (''encode '' @ kind @ '' event'') e)
      | Inr d \<Rightarrow> Inr \<lparr>ev_seq = 0, ev_kind = kind, ev_time = now, ev_proc = proc, ev_rev = v, ev_data = d\<rparr>)"

text \<open>A log in memory, on which witnesses evaluate: one list of events with their sessions.\<close>

record 'd mem_log =
  ml_events :: "(string \<times> 'd event) list"
  ml_now :: instant
  ml_full :: bool

definition mem_evlog :: "('d mem_log, 'd) evlog" where
  "mem_evlog =
     \<lparr>el_append = (\<lambda>s e l.
        if ml_full l then (Some (Plain ''log is full''), l)
        else (None, l\<lparr>ml_events := ml_events l @
               [(s, e\<lparr>ev_seq := Suc (length (filter (\<lambda>x. fst x = s) (ml_events l)))\<rparr>)]\<rparr>)),
      el_read = (\<lambda>s l. Inr (map snd (filter (\<lambda>x. fst x = s) (ml_events l)))),
      el_sessions = (\<lambda>l. Inr (remdups (map fst (ml_events l)))),
      el_now = ml_now\<rparr>"

lemma mem_evlog_laws: "log_laws mem_evlog"
  by (auto simp: log_laws_def stream_def mem_evlog_def split: if_splits)

text \<open>The same, never full.\<close>

definition open_evlog :: "('d mem_log, 'd) evlog" where
  "open_evlog = mem_evlog\<lparr>el_append := (\<lambda>s e l. el_append mem_evlog s e (l\<lparr>ml_full := False\<rparr>))\<rparr>"

lemma open_evlog_laws: "log_laws open_evlog"
  by (auto simp: log_laws_def stream_def mem_evlog_def open_evlog_def)

end
