(* ===== verification/RawJson.thy ===== *)
theory RawJson
  imports GoJson
begin

text \<open>
  \<open>json.RawMessage\<close>: values decoded only as far as their syntax. A \<open>raw\<close> value keeps the text of
  its literals, so that decoding the members of an object and encoding them again is modelled
  byte by byte: \<open>json.Marshal\<close> compacts a raw message and escapes the HTML characters and the two
  line separators in it. The grammar is the one of \<open>GoJson\<close>, which reads the same documents.
\<close>

subsection \<open>Syntax trees\<close>

datatype raw =
    RNull
  | RBool bool
  | RNum bytes
  | RStr bytes
  | RArr "raw list"
  | RObj "(bytes \<times> raw) list"

fun value_of :: "raw \<Rightarrow> json" where
  "value_of RNull = JNull"
| "value_of (RBool b) = JBool b"
| "value_of (RNum n) = JNum n"
| "value_of (RStr b) = JStr (unquote b)"
| "value_of (RArr vs) = JArr (map value_of vs)"
| "value_of (RObj ms) = JObj (map (\<lambda>(k, v). (unquote k, value_of v)) ms)"

fun raw_value :: "bytes \<Rightarrow> nat \<Rightarrow> bytes \<Rightarrow> (raw \<times> bytes) option"
  and raw_elems :: "bytes \<Rightarrow> nat \<Rightarrow> bytes \<Rightarrow> (raw list \<times> bytes) option"
  and raw_members :: "bytes \<Rightarrow> nat \<Rightarrow> bytes \<Rightarrow> ((bytes \<times> raw) list \<times> bytes) option"
where
  "raw_value [] depth s = None"
| "raw_value (f # fuel) depth s =
     (case skip_ws s of
        [] \<Rightarrow> None
      | c # r \<Rightarrow>
          if c = CHR ''{'' then
            (if depth = 0 then None
             else case skip_ws r of
                 [] \<Rightarrow> None
               | x # r2 \<Rightarrow>
                   if x = CHR ''}'' then Some (RObj [], r2)
                   else map_option (\<lambda>(ms, t). (RObj ms, t)) (raw_members fuel (depth - 1) (x # r2)))
          else if c = CHR ''['' then
            (if depth = 0 then None
             else case skip_ws r of
                 [] \<Rightarrow> None
               | x # r2 \<Rightarrow>
                   if x = CHR '']'' then Some (RArr [], r2)
                   else map_option (\<lambda>(vs, t). (RArr vs, t)) (raw_elems fuel (depth - 1) (x # r2)))
          else if c = CHR 0x22 then map_option (\<lambda>(b, t). (RStr b, t)) (scan_string r)
          else if take 4 (c # r) = ''null'' then Some (RNull, drop 3 r)
          else if take 4 (c # r) = ''true'' then Some (RBool True, drop 3 r)
          else if take 5 (c # r) = ''false'' then Some (RBool False, drop 4 r)
          else map_option (\<lambda>(n, t). (RNum n, t)) (scan_number (c # r)))"
| "raw_elems [] depth s = None"
| "raw_elems (f # fuel) depth s =
     (case raw_value fuel depth s of
        None \<Rightarrow> None
      | Some (v, t) \<Rightarrow>
          (case skip_ws t of
             [] \<Rightarrow> None
           | c # r \<Rightarrow>
               if c = CHR '','' then map_option (\<lambda>(vs, u). (v # vs, u)) (raw_elems fuel depth r)
               else if c = CHR '']'' then Some ([v], r)
               else None))"
| "raw_members [] depth s = None"
| "raw_members (f # fuel) depth s =
     (case skip_ws s of
        [] \<Rightarrow> None
      | q # r \<Rightarrow>
          if q \<noteq> CHR 0x22 then None
          else case scan_string r of
              None \<Rightarrow> None
            | Some (b, r1) \<Rightarrow>
                (case skip_ws r1 of
                   [] \<Rightarrow> None
                 | k # r2 \<Rightarrow>
                     if k \<noteq> CHR '':'' then None
                     else case raw_value fuel depth r2 of
                         None \<Rightarrow> None
                       | Some (v, r3) \<Rightarrow>
                           (case skip_ws r3 of
                              [] \<Rightarrow> None
                            | c # r4 \<Rightarrow>
                                if c = CHR '','' then
                                  map_option (\<lambda>(ms, u). ((b, v) # ms, u)) (raw_members fuel depth r4)
                                else if c = CHR ''}'' then Some ([(b, v)], r4)
                                else None)))"

definition raw_unmarshal :: "bytes \<Rightarrow> raw option" where
  "raw_unmarshal s =
     (case raw_value (''..'' @ s @ s) max_nesting s of
        Some (v, r) \<Rightarrow> if skip_ws r = [] then Some v else None
      | None \<Rightarrow> None)"

text \<open>It is the grammar of \<open>unmarshal\<close>.\<close>

lemma parse_raw:
  "parse_value fuel d s = map_option (\<lambda>(v, r). (value_of v, r)) (raw_value fuel d s) \<and>
   parse_elems fuel d s = map_option (\<lambda>(vs, r). (map value_of vs, r)) (raw_elems fuel d s) \<and>
   parse_members fuel d s =
     map_option (\<lambda>(ms, r). (map (\<lambda>(k, v). (unquote k, value_of v)) ms, r)) (raw_members fuel d s)"
proof (induction fuel arbitrary: d s)
  case Nil
  then show ?case by simp
next
  case (Cons f fuel)
  have v: "parse_value fuel d s = map_option (\<lambda>(v, r). (value_of v, r)) (raw_value fuel d s)"
    and e: "parse_elems fuel d s = map_option (\<lambda>(vs, r). (map value_of vs, r)) (raw_elems fuel d s)"
    and m: "parse_members fuel d s =
     map_option (\<lambda>(ms, r). (map (\<lambda>(k, v). (unquote k, value_of v)) ms, r)) (raw_members fuel d s)" for d s
    using Cons [of d s] by simp_all
  let ?V = "\<lambda>x. (value_of (fst x), snd x)"
  let ?E = "\<lambda>x. (map value_of (fst x), snd x)"
  let ?M = "\<lambda>x. (map (\<lambda>x. (unquote (fst x), value_of (snd x))) (fst x), snd x)"
  note push = if_distrib [of "map_option ?V"] if_distrib [of "map_option ?E"] if_distrib [of "map_option ?M"]
    list.case_distrib [of "map_option ?V"] list.case_distrib [of "map_option ?E"] list.case_distrib [of "map_option ?M"]
    option.case_distrib [of "map_option ?V"] option.case_distrib [of "map_option ?E"] option.case_distrib [of "map_option ?M"]
  have 1: "parse_value (f # fuel) d s = map_option (\<lambda>(v, r). (value_of v, r)) (raw_value (f # fuel) d s)"
    unfolding parse_value.simps raw_value.simps e m
    by (simp only: push option.map_comp comp_def case_prod_beta' fst_conv snd_conv value_of.simps option.map list.map)
  have 2: "parse_elems (f # fuel) d s = map_option (\<lambda>(vs, r). (map value_of vs, r)) (raw_elems (f # fuel) d s)"
    unfolding parse_elems.simps raw_elems.simps v e
    by (simp only: case_map_option push option.map_comp comp_def case_prod_beta' fst_conv snd_conv value_of.simps option.map list.map)
  have 3: "parse_members (f # fuel) d s = map_option (\<lambda>(ms, r). (map (\<lambda>(k, v). (unquote k, value_of v)) ms, r)) (raw_members (f # fuel) d s)"
    unfolding parse_members.simps raw_members.simps v m
    by (simp only: case_map_option push option.map_comp comp_def case_prod_beta' fst_conv snd_conv value_of.simps option.map list.map)
  show ?case using 1 2 3 by blast
qed

lemma unmarshal_raw: "unmarshal s = map_option value_of (raw_unmarshal s)"
  by (auto simp: unmarshal_def raw_unmarshal_def parse_raw split: option.split)

subsection \<open>Compacting\<close>

text \<open>A literal's text with the HTML characters and the line separators U+2028 and U+2029 escaped.\<close>

definition separator_at :: "bytes \<Rightarrow> bool" where
  "separator_at s \<longleftrightarrow> take 2 s = [CHR 0x80, CHR 0xA8] \<or> take 2 s = [CHR 0x80, CHR 0xA9]"

fun html_body :: "bytes \<Rightarrow> bytes" where
  "html_body [] = []"
| "html_body (a # s) =
     (if a = CHR ''<'' \<or> a = CHR ''>'' \<or> a = CHR 0x26 then [CHR 0x5C] @ ''u00'' @ hex_byte a @ html_body s
      else if a = CHR 0xE2 \<and> separator_at s
      then [CHR 0x5C] @ ''u202'' @ [hex_digit (byte (s ! 1) mod 16)] @ html_body (drop 2 s)
      else a # html_body s)"

declare html_body.simps(2) [simp del]

fun html :: "raw \<Rightarrow> raw" where
  "html (RStr b) = RStr (html_body b)"
| "html (RArr vs) = RArr (map html vs)"
| "html (RObj ms) = RObj (map (\<lambda>(k, v). (html_body k, html v)) ms)"
| "html v = v"

fun render :: "raw \<Rightarrow> bytes" where
  "render RNull = ''null''"
| "render (RBool b) = (if b then ''true'' else ''false'')"
| "render (RNum n) = n"
| "render (RStr b) = [CHR 0x22] @ b @ [CHR 0x22]"
| "render (RArr vs) = ''['' @ join '','' (map render vs) @ '']''"
| "render (RObj ms) = ''{'' @ join '','' (map (\<lambda>(k, v). [CHR 0x22] @ k @ [CHR 0x22] @ '':'' @ render v) ms) @ ''}''"

subsection \<open>String literals\<close>

inductive literal_body :: "bytes \<Rightarrow> bool" where
  empty: "literal_body []"
| plain: "c \<noteq> CHR 0x22 \<Longrightarrow> c \<noteq> CHR 0x5C \<Longrightarrow> 32 \<le> byte c \<Longrightarrow> literal_body s \<Longrightarrow> literal_body (c # s)"
| letter: "e \<noteq> CHR ''u'' \<Longrightarrow> simple_escape e \<noteq> None \<Longrightarrow> literal_body s \<Longrightarrow> literal_body (CHR 0x5C # e # s)"
| unicode: "hex4 h1 h2 h3 h4 \<noteq> None \<Longrightarrow> literal_body s \<Longrightarrow>
    literal_body (CHR 0x5C # CHR ''u'' # h1 # h2 # h3 # h4 # s)"

inductive_cases plain_body: "literal_body (c # s)"

lemma scan_body: "literal_body b \<Longrightarrow> scan_string (b @ CHR 0x22 # r) = Some (b, r)"
  by (induction rule: literal_body.induct) auto

lemma body_scan: "scan_string s = Some (b, r) \<Longrightarrow> literal_body b \<and> s = b @ CHR 0x22 # r"
proof (induction "length s" arbitrary: s b rule: less_induct)
  case less
  have ih: "scan_string t = Some (b', r) \<Longrightarrow> length t < length s \<Longrightarrow> literal_body b' \<and> t = b' @ CHR 0x22 # r" for t b'
    using less.hyps by blast
  obtain c t where s: "s = c # t" using less.prems by (cases s) auto
  consider "c = CHR 0x22" | e u where "c = CHR 0x5C" "t = e # u" "e \<noteq> CHR ''u''" "simple_escape e \<noteq> None"
    | h1 h2 h3 h4 u where "c = CHR 0x5C" "t = CHR ''u'' # h1 # h2 # h3 # h4 # u" "hex4 h1 h2 h3 h4 \<noteq> None"
    | "c \<noteq> CHR 0x22" "c \<noteq> CHR 0x5C" "32 \<le> byte c"
    using less.prems unfolding s scan_string.simps by (auto split: list.splits if_splits)
  then show ?case
  proof cases
    case 1
    then show ?thesis using less.prems by (auto simp: s intro: literal_body.empty)
  next
    case (2 e u)
    then obtain b' where b: "b = CHR 0x5C # e # b'" "scan_string u = Some (b', r)"
      using less.prems by (auto simp: s)
    then show ?thesis using ih [OF b(2)] 2 by (auto simp: s intro: literal_body.letter)
  next
    case (3 h1 h2 h3 h4 u)
    then obtain b' where b: "b = CHR 0x5C # CHR ''u'' # h1 # h2 # h3 # h4 # b'" "scan_string u = Some (b', r)"
      using less.prems by (auto simp: s)
    then show ?thesis using ih [OF b(2)] 3 by (auto simp: s intro: literal_body.unicode)
  next
    case 4
    then obtain b' where b: "b = c # b'" "scan_string t = Some (b', r)" using less.prems by (auto simp: s)
    then show ?thesis using ih [OF b(2)] 4 by (auto simp: s intro: literal_body.plain)
  qed
qed

text \<open>Escaping keeps a literal a literal, and escapes everything once.\<close>

abbreviation html_char :: "char \<Rightarrow> bool" where
  "html_char a \<equiv> a = CHR ''<'' \<or> a = CHR ''>'' \<or> a = CHR 0x26"

lemma html_body_char [simp]:
  "html_char a \<Longrightarrow> html_body (a # s) = [CHR 0x5C] @ ''u00'' @ hex_byte a @ html_body s"
  "\<not> html_char a \<Longrightarrow> a \<noteq> CHR 0xE2 \<Longrightarrow> html_body (a # s) = a # html_body s"
  by (auto simp: html_body.simps(2))

lemma separatorE:
  assumes "separator_at s"
  obtains x t where "s = CHR 0x80 # x # t" "x = CHR 0xA8 \<or> x = CHR 0xA9"
  using assms unfolding separator_at_def by (cases s; cases "tl s") auto

lemma html_body_separator:
  "x = CHR 0xA8 \<or> x = CHR 0xA9 \<Longrightarrow>
     html_body (CHR 0xE2 # CHR 0x80 # x # t) = [CHR 0x5C] @ ''u202'' @ [hex_digit (byte x mod 16)] @ html_body t"
  by (auto simp: html_body.simps(2) [of "CHR 0xE2"] separator_at_def)

lemma html_body_other: "\<not> separator_at s \<Longrightarrow> html_body (CHR 0xE2 # s) = CHR 0xE2 # html_body s"
  by (simp add: html_body.simps(2))

lemma escape_digits [simp]:
  "hex_byte (CHR ''<'') = ''3c''" "hex_byte (CHR ''>'') = ''3e''" "hex_byte (CHR 0x26) = ''26''"
  "hex_digit (byte (CHR 0xA8) mod 16) = CHR ''8''" "hex_digit (byte (CHR 0xA9) mod 16) = CHR ''9''"
  by code_simp+

lemma escape_codes:
  "hex4 (CHR ''0'') (CHR ''0'') (CHR ''3'') (CHR ''c'') = Some 60" "hex4 (CHR ''0'') (CHR ''0'') (CHR ''3'') (CHR ''e'') = Some 62"
  "hex4 (CHR ''0'') (CHR ''0'') (CHR ''2'') (CHR ''6'') = Some 38"
  "hex4 (CHR ''2'') (CHR ''0'') (CHR ''2'') (CHR ''8'') = Some 8232" "hex4 (CHR ''2'') (CHR ''0'') (CHR ''2'') (CHR ''9'') = Some 8233"
  by (simp_all add: hex4_def hex_value_def Let_def)

lemma escaped_literal:
  "html_char a \<Longrightarrow> literal_body s \<Longrightarrow> literal_body ([CHR 0x5C] @ ''u00'' @ hex_byte a @ s)"
  "x = CHR 0xA8 \<or> x = CHR 0xA9 \<Longrightarrow> literal_body s \<Longrightarrow>
     literal_body ([CHR 0x5C] @ ''u202'' @ [hex_digit (byte x mod 16)] @ s)"
  by (elim disjE; simp only: escape_digits append.simps;
      rule literal_body.unicode; simp add: escape_codes)+

lemma escaped_once:
  "html_char a \<Longrightarrow> html_body ([CHR 0x5C] @ ''u00'' @ hex_byte a @ s) = [CHR 0x5C] @ ''u00'' @ hex_byte a @ html_body s"
  "x = CHR 0xA8 \<or> x = CHR 0xA9 \<Longrightarrow> html_body ([CHR 0x5C] @ ''u202'' @ [hex_digit (byte x mod 16)] @ s) =
     [CHR 0x5C] @ ''u202'' @ [hex_digit (byte x mod 16)] @ html_body s"
  by (elim disjE; simp only: escape_digits append.simps; simp)+

lemma hex4_chars:
  assumes "hex4 a b c d \<noteq> None" "x \<in> {a, b, c, d}"
  shows "\<not> html_char x" "x \<noteq> CHR 0xE2"
proof -
  have "hex_value x \<noteq> None" using assms by (auto simp: hex4_def split: option.splits)
  then show "\<not> html_char x" "x \<noteq> CHR 0xE2" by (auto simp: hex_value_def Let_def split: if_splits)
qed

lemma simple_escape_chars: "simple_escape e \<noteq> None \<Longrightarrow> \<not> html_char e \<and> e \<noteq> CHR 0xE2"
  by (auto simp: simple_escape_def split: if_splits)

lemma html_literal: "literal_body b \<Longrightarrow> literal_body (html_body b)"
proof (induction rule: literal_body.induct)
  case (plain c s)
  consider "html_char c" | "c = CHR 0xE2" "separator_at s" | "\<not> html_char c" "c = CHR 0xE2 \<longrightarrow> \<not> separator_at s" by blast
  then show ?case
  proof cases
    case 1
    then show ?thesis using escaped_literal(1) [OF 1 plain.IH] by (simp only: html_body_char)
  next
    case 2
    then obtain x t where s: "s = CHR 0x80 # x # t" "x = CHR 0xA8 \<or> x = CHR 0xA9" by (auto elim: separatorE)
    have "literal_body (CHR 0x80 # x # html_body t)" using plain.IH s by auto
    then have "literal_body (html_body t)" using s(2) by (auto elim!: plain_body)
    from escaped_literal(2) [OF s(2) this] show ?thesis by (simp only: 2(1) s(1) html_body_separator [OF s(2)] append.simps)
  next
    case 3
    then have "html_body (c # s) = c # html_body s" using html_body_other by (cases "c = CHR 0xE2") auto
    then show ?thesis using plain by (auto intro: literal_body.plain)
  qed
next
  case (letter e s)
  then show ?case using simple_escape_chars [of e] by (auto intro: literal_body.letter)
next
  case (unicode h1 h2 h3 h4 s)
  note h = hex4_chars [OF unicode.hyps(1)]
  have "html_body (CHR 0x5C # CHR ''u'' # h1 # h2 # h3 # h4 # s) = CHR 0x5C # CHR ''u'' # h1 # h2 # h3 # h4 # html_body s"
    using h [of h1] h [of h2] h [of h3] h [of h4] by simp
  then show ?case using unicode by (auto intro: literal_body.unicode)
qed (simp add: literal_body.empty)

lemma separator_kept: "separator_at (html_body s) \<longleftrightarrow> separator_at s"
proof (cases s)
  case (Cons a t)
  show ?thesis
  proof (cases "a = CHR 0x80")
    case False
    then have "\<not> separator_at s" by (auto simp: separator_at_def Cons)
    moreover have "hd (html_body s) \<noteq> CHR 0x80 \<and> html_body s \<noteq> []" using False by (auto simp: Cons html_body.simps(2))
    ultimately show ?thesis by (auto simp: separator_at_def neq_Nil_conv)
  next
    case True
    show ?thesis
    proof (cases t)
      case (Cons b u)
      then show ?thesis using \<open>s = a # t\<close> True by (auto simp: separator_at_def html_body.simps(2) [of b])
    qed (simp add: \<open>s = a # t\<close> True)
  qed
qed (simp add: separator_at_def)

lemma html_body_once [simp]: "html_body (html_body s) = html_body s"
proof (induction "length s" arbitrary: s rule: less_induct)
  case less
  show ?case
  proof (cases s)
    case (Cons a t)
    have ih: "html_body (html_body t) = html_body t" using less.hyps [of t] Cons by simp
    consider "html_char a" | "a = CHR 0xE2" "separator_at t" | "\<not> html_char a" "a = CHR 0xE2 \<longrightarrow> \<not> separator_at t" by blast
    then show ?thesis
    proof cases
      case 1
      show ?thesis by (simp only: Cons html_body_char(1) [OF 1] escaped_once(1) [OF 1] ih)
    next
      case 2
      then obtain x u where t: "t = CHR 0x80 # x # u" "x = CHR 0xA8 \<or> x = CHR 0xA9" by (auto elim: separatorE)
      have "html_body (html_body u) = html_body u" using less.hyps [of u] Cons t(1) by simp
      then show ?thesis using escaped_once(2) [OF t(2), of "html_body u"]
        by (simp only: Cons 2(1) t(1) html_body_separator [OF t(2)] append.simps)
    next
      case 3
      then have "html_body (a # t) = a # html_body t" "html_body (a # html_body t) = a # html_body (html_body t)"
        using html_body_other separator_kept by (cases "a = CHR 0xE2"; auto)+
      then show ?thesis using ih Cons by simp
    qed
  qed simp
qed

subsection \<open>Numbers\<close>

text \<open>What may follow a number that ends there.\<close>

definition starts :: "(char \<Rightarrow> bool) \<Rightarrow> bytes \<Rightarrow> bool" where
  "starts P s \<longleftrightarrow> s \<noteq> [] \<and> P (hd s)"

definition number_end :: "bytes \<Rightarrow> bool" where
  "number_end r \<longleftrightarrow> r = [] \<or> starts (\<lambda>c. c = CHR '','' \<or> c = CHR '']'' \<or> c = CHR ''}'') r"

abbreviation exp_char :: "char \<Rightarrow> bool" where
  "exp_char c \<equiv> c = CHR ''e'' \<or> c = CHR ''E''"

lemma number_end_starts:
  assumes "number_end r"
  shows "\<not> starts is_digit r" "\<not> starts (\<lambda>c. c = CHR ''.'') r" "\<not> starts exp_char r"
  using assms by (auto simp: number_end_def starts_def is_digit_def)

lemma starts_Cons [simp]: "starts P (c # s) = P c" "\<not> starts P []" "xs \<noteq> [] \<Longrightarrow> starts P (xs @ ys) = starts P xs"
  by (simp_all add: starts_def)

lemma scan_digits_read:
  assumes "scan_digits s = Some (d, r)"
  shows "s = d @ r" "starts is_digit d" "\<not> starts is_digit r' \<Longrightarrow> scan_digits (d @ r') = Some (d, r')"
proof -
  have d: "d = takeWhile is_digit s" "r = dropWhile is_digit s" "d \<noteq> []"
    using assms by (auto simp: scan_digits_def Let_def split: if_splits)
  then show "s = d @ r" "starts is_digit d" 
    by (simp_all add: starts_def) (metis hd_in_set set_takeWhileD)
  have "is_digit x" if "x \<in> set d" for x using that set_takeWhileD unfolding d(1) by fast
  then have tw: "takeWhile is_digit (d @ r') = d @ takeWhile is_digit r'" "dropWhile is_digit (d @ r') = dropWhile is_digit r'"
    by (simp_all add: takeWhile_append2 dropWhile_append2)
  then show "\<not> starts is_digit r' \<Longrightarrow> scan_digits (d @ r') = Some (d, r')"
    unfolding scan_digits_def Let_def tw using d(3) by (cases r') simp_all
qed

lemma scan_int_read:
  assumes "scan_int s = Some (i, r)"
  shows "s = i @ r" "starts is_digit i" "\<not> starts is_digit r' \<Longrightarrow> scan_int (i @ r') = Some (i, r')"
proof -
  obtain c t where s: "s = c # t" using assms by (cases s) (auto simp: scan_int_def)
  have "s = i @ r \<and> starts is_digit i \<and> (\<not> starts is_digit r' \<longrightarrow> scan_int (i @ r') = Some (i, r'))"
  proof (cases "c = CHR ''0''")
    case True
    then show ?thesis using assms s by (auto simp: scan_int_def is_digit_def)
  next
    case False
    then have d: "scan_digits s = Some (i, r)" using assms s by (simp add: scan_int_def)
    note e = scan_digits_read [OF d]
    then obtain i' where "i = c # i'" using s by (cases i) auto
    then show ?thesis using e False by (simp add: scan_int_def)
  qed
  then show "s = i @ r" "starts is_digit i" "\<not> starts is_digit r' \<Longrightarrow> scan_int (i @ r') = Some (i, r')" by blast+
qed

lemma scan_frac_read:
  assumes "scan_frac s = Some (f, r)"
  shows "s = f @ r" "f \<noteq> [] \<Longrightarrow> starts (\<lambda>c. c = CHR ''.'') f"
    "\<not> starts is_digit r' \<Longrightarrow> \<not> starts (\<lambda>c. c = CHR ''.'') r' \<Longrightarrow> scan_frac (f @ r') = Some (f, r')"
proof -
  have "s = f @ r \<and> (f \<noteq> [] \<longrightarrow> starts (\<lambda>c. c = CHR ''.'') f) \<and>
    (\<not> starts is_digit r' \<longrightarrow> \<not> starts (\<lambda>c. c = CHR ''.'') r' \<longrightarrow> scan_frac (f @ r') = Some (f, r'))"
  proof (cases "starts (\<lambda>c. c = CHR ''.'') s")
    case True
    then obtain t where s: "s = CHR ''.'' # t" by (cases s) auto
    then obtain d where d: "f = CHR ''.'' # d" "scan_digits t = Some (d, r)" using assms by (auto simp: scan_frac_def)
    then show ?thesis using scan_digits_read [OF d(2)] s by (simp add: scan_frac_def)
  next
    case False
    then have "f = []" "r = s" using assms by (cases s; simp add: scan_frac_def)+
    then show ?thesis by (cases r') (simp_all add: scan_frac_def)
  qed
  then show "s = f @ r" "f \<noteq> [] \<Longrightarrow> starts (\<lambda>c. c = CHR ''.'') f"
    "\<not> starts is_digit r' \<Longrightarrow> \<not> starts (\<lambda>c. c = CHR ''.'') r' \<Longrightarrow> scan_frac (f @ r') = Some (f, r')" by blast+
qed

lemma scan_exp_read:
  assumes "scan_exp s = Some (e, r)"
  shows "s = e @ r" "e \<noteq> [] \<Longrightarrow> starts exp_char e"
    "\<not> starts is_digit r' \<Longrightarrow> \<not> starts exp_char r' \<Longrightarrow> scan_exp (e @ r') = Some (e, r')"
proof -
  have "s = e @ r \<and> (e \<noteq> [] \<longrightarrow> starts exp_char e) \<and>
    (\<not> starts is_digit r' \<longrightarrow> \<not> starts exp_char r' \<longrightarrow> scan_exp (e @ r') = Some (e, r'))"
  proof (cases "starts exp_char s")
    case True
    then obtain c g u where s: "s = c # g # u" "exp_char c" using assms by (cases s; cases "tl s") (auto simp: scan_exp_def)
    show ?thesis
    proof (cases "g = CHR ''+'' \<or> g = CHR ''-''")
      case True
      then obtain d where d: "e = c # g # d" "scan_digits u = Some (d, r)" using assms s by (auto simp: scan_exp_def)
      then show ?thesis using scan_digits_read [OF d(2)] s True by (simp add: scan_exp_def)
    next
      case False
      then obtain d where d: "e = c # d" "scan_digits (g # u) = Some (d, r)" using assms s by (auto simp: scan_exp_def)
      then obtain d' where d': "d = g # d'" using scan_digits_read(1,2) [OF d(2)] by (cases d) auto
      then show ?thesis using scan_digits_read [OF d(2)] s d False by (simp add: scan_exp_def)
    qed
  next
    case False
    then have "e = []" "r = s" using assms by (cases s; simp add: scan_exp_def split: list.splits)+
    then show ?thesis by (cases r') (simp_all add: scan_exp_def)
  qed
  then show "s = e @ r" "e \<noteq> [] \<Longrightarrow> starts exp_char e"
    "\<not> starts is_digit r' \<Longrightarrow> \<not> starts exp_char r' \<Longrightarrow> scan_exp (e @ r') = Some (e, r')" by blast+
qed

definition number_literal :: "bytes \<Rightarrow> bool" where
  "number_literal n \<longleftrightarrow> (\<exists>c t. n = c # t \<and> (is_digit c \<or> c = CHR ''-'')) \<and> (\<forall>r. number_end r \<longrightarrow> scan_number (n @ r) = Some (n, r))"

lemma scan_number_read:
  assumes "scan_number s = Some (n, r)"
  shows "s = n @ r" "number_literal n"
proof -
  let ?split = "\<lambda>s. case s of c # u \<Rightarrow> if c = CHR ''-'' then ([c], u) else ([], s) | [] \<Rightarrow> ([], [])"
  obtain sign t where sg: "?split s = (sign, t)" by fastforce
  obtain i t1 f t2 e where parts: "scan_int t = Some (i, t1)" "scan_frac t1 = Some (f, t2)" "scan_exp t2 = Some (e, r)"
    "n = sign @ i @ f @ e"
    using assms unfolding scan_number_def sg by (auto split: option.splits)
  note i = scan_int_read [OF parts(1)] and f = scan_frac_read [OF parts(2)] and e = scan_exp_read [OF parts(3)]
  have st: "s = sign @ t" "sign = [] \<or> sign = ''-''" using sg by (auto split: list.splits if_splits)
  then show "s = n @ r" using i(1) f(1) e(1) parts(4) by simp
  have "scan_number (n @ r') = Some (n, r')" if r': "number_end r'" for r'
  proof -
    note nr = number_end_starts [OF r']
    have a: "\<not> starts is_digit (f @ e @ r')" "\<not> starts is_digit (e @ r')" "\<not> starts (\<lambda>c. c = CHR ''.'') (e @ r')"
      using nr f(2) e(2) by (cases f; cases e; auto simp: is_digit_def)+
    have "\<not> starts (\<lambda>c. c = CHR ''-'') i" using i(2) by (cases i) (auto simp: is_digit_def)
    then have sp: "?split (n @ r') = (sign, i @ f @ e @ r')"
      using st(2) i(2) unfolding parts(4) by (cases i) auto
    show ?thesis
      using i(3) [OF a(1)] f(3) [OF a(2,3)] e(3) [OF nr(1,3)] unfolding scan_number_def sp by (simp add: parts(4))
  qed
  moreover have "\<exists>c t. n = c # t \<and> (is_digit c \<or> c = CHR ''-'')" using st(2) i(2) parts(4) by (cases i) auto
  ultimately show "number_literal n" by (simp add: number_literal_def)
qed

subsection \<open>Reading what was written\<close>

text \<open>The trees a reader produces: literals of the grammar, nested no deeper than allowed.\<close>

fun raw_wf :: "nat \<Rightarrow> raw \<Rightarrow> bool" where
  "raw_wf d (RNum n) = number_literal n"
| "raw_wf d (RStr b) = literal_body b"
| "raw_wf d (RArr vs) = (0 < d \<and> (\<forall>v \<in> set vs. raw_wf (d - 1) v))"
| "raw_wf d (RObj ms) = (0 < d \<and> (\<forall>(k, v) \<in> set ms. literal_body k \<and> raw_wf (d - 1) v))"
| "raw_wf d _ = True"

lemma raw_read:
  "(raw_value fuel d s = Some (v, r) \<longrightarrow> raw_wf d v) \<and>
   (raw_elems fuel d s = Some (vs, r) \<longrightarrow> (\<forall>v \<in> set vs. raw_wf d v)) \<and>
   (raw_members fuel d s = Some (ms, r) \<longrightarrow> (\<forall>(k, v) \<in> set ms. literal_body k \<and> raw_wf d v))"
proof (induction fuel arbitrary: d s v vs ms r)
  case (Cons f fuel)
  have v: "raw_value fuel d s = Some (v, r) \<Longrightarrow> raw_wf d v"
    and e: "raw_elems fuel d s = Some (vs, r) \<Longrightarrow> \<forall>v \<in> set vs. raw_wf d v"
    and m: "raw_members fuel d s = Some (ms, r) \<Longrightarrow> \<forall>(k, v) \<in> set ms. literal_body k \<and> raw_wf d v" for d s v vs ms r
    using Cons by blast+
  have 1: "raw_wf d v" if "raw_value (f # fuel) d s = Some (v, r)"
    using that unfolding raw_value.simps
    by (auto split: list.splits if_splits dest!: e m body_scan scan_number_read(2))
  have 2: "\<forall>v \<in> set vs. raw_wf d v" if "raw_elems (f # fuel) d s = Some (vs, r)"
    using that unfolding raw_elems.simps
    by (auto split: option.splits list.splits if_splits dest!: v e)
  have 3: "\<forall>(k, v) \<in> set ms. literal_body k \<and> raw_wf d v" if "raw_members (f # fuel) d s = Some (ms, r)"
    using that unfolding raw_members.simps
    by (auto split: option.splits list.splits if_splits dest!: v m body_scan) fastforce+
  show ?case using 1 2 3 by blast
qed simp

lemma html_wf: "raw_wf d t \<Longrightarrow> raw_wf d (html t)"
  by (induction t arbitrary: d) (fastforce intro: html_literal)+

lemma html_once [simp]: "html (html t) = html t"
  by (induction t) auto

definition writes_back :: "nat \<Rightarrow> raw \<Rightarrow> bool" where
  "writes_back d t \<longleftrightarrow> starts (\<lambda>c. \<not> json_ws c \<and> c \<noteq> CHR '']'') (render t) \<and>
     (\<forall>fuel r. 2 * length (render t) \<le> length fuel \<longrightarrow> number_end r \<longrightarrow> raw_value fuel d (render t @ r) = Some (t, r))"

lemma writes_back_nonempty: "writes_back d t \<Longrightarrow> render t \<noteq> []"
  by (auto simp: writes_back_def)

lemma writes_backI:
  assumes "starts (\<lambda>c. \<not> json_ws c \<and> c \<noteq> CHR '']'') (render t)"
    and "\<And>f fs r. 2 * length (render t) \<le> Suc (length fs) \<Longrightarrow> number_end r \<Longrightarrow> raw_value (f # fs) d (render t @ r) = Some (t, r)"
  shows "writes_back d t"
  unfolding writes_back_def
proof (intro conjI allI impI)
  fix fuel r assume f: "2 * length (render t) \<le> length (fuel :: bytes)" "number_end r"
  then show "raw_value fuel d (render t @ r) = Some (t, r)" using assms by (cases fuel) (auto simp: starts_def)
qed (fact assms(1))

lemma skip_ws_Cons [simp]: "\<not> json_ws c \<Longrightarrow> skip_ws (c # s) = c # s"
  by (simp add: skip_ws_def)

lemma punctuation [simp]:
  "\<not> json_ws (CHR '','')" "\<not> json_ws (CHR '']'')" "\<not> json_ws (CHR ''['')" "\<not> json_ws (CHR ''}'')" "\<not> json_ws (CHR ''{'')"
  "\<not> json_ws (CHR '':'')" "\<not> json_ws (CHR 0x22)"
  "number_end (CHR '','' # s)" "number_end (CHR '']'' # s)" "number_end (CHR ''}'' # s)"
  by (simp_all add: json_ws_def number_end_def)

lemma elems_written:
  assumes "\<forall>v \<in> set vs. writes_back d v" "vs \<noteq> []" "2 * length (join '','' (map render vs)) < length fuel"
  shows "raw_elems fuel d (join '','' (map render vs) @ CHR '']'' # r) = Some (vs, r)"
  using assms
proof (induction vs arbitrary: fuel rule: induct_list012)
  case (2 v)
  then obtain f fs where f: "fuel = f # fs" by (cases fuel) auto
  then show ?case using 2 by (simp add: writes_back_def)
next
  case (3 v w vs)
  obtain f fs where f: "fuel = f # fs" using "3.prems" by (cases fuel) auto
  have "render v \<noteq> []" using "3.prems"(1) writes_back_nonempty [of d v] by simp
  then have ih: "raw_elems fs d (join '','' (map render (w # vs)) @ CHR '']'' # r) = Some (w # vs, r)"
    using "3.prems" unfolding f by (intro "3.IH"(2)) (cases "render v"; simp)+
  have "raw_value fs d (render v @ CHR '','' # join '','' (map render (w # vs)) @ CHR '']'' # r) =
      Some (v, CHR '','' # join '','' (map render (w # vs)) @ CHR '']'' # r)"
    using "3.prems" unfolding f writes_back_def by simp
  then show ?case using ih by (simp add: f)
qed simp

abbreviation member_text :: "bytes \<times> raw \<Rightarrow> bytes" where
  "member_text m \<equiv> [CHR 0x22] @ fst m @ [CHR 0x22] @ '':'' @ render (snd m)"

lemma members_written:
  assumes "\<forall>m \<in> set ms. literal_body (fst m) \<and> writes_back d (snd m)" "ms \<noteq> []"
    "2 * length (join '','' (map member_text ms)) < length fuel"
  shows "raw_members fuel d (join '','' (map member_text ms) @ CHR ''}'' # r) = Some (ms, r)"
  using assms
proof (induction ms arbitrary: fuel rule: induct_list012)
  case (2 m)
  obtain k v where m: "m = (k, v)" by fastforce
  obtain f fs where f: "fuel = f # fs" using 2 by (cases fuel) auto
  have "scan_string (k @ CHR 0x22 # s) = Some (k, s)" for s using 2 m scan_body by simp
  then show ?case using 2 by (simp add: writes_back_def f m)
next
  case (3 m n ms)
  obtain k v where m: "m = (k, v)" by fastforce
  obtain f fs where f: "fuel = f # fs" using "3.prems" by (cases fuel) auto
  let ?rest = "join '','' (map member_text (n # ms)) @ CHR ''}'' # r"
  have ih: "raw_members fs d ?rest = Some (n # ms, r)"
    using "3.prems" unfolding f m by (intro "3.IH"(2)) simp_all
  have v: "raw_value fs d (render v @ CHR '','' # ?rest) = Some (v, CHR '','' # ?rest)"
    using "3.prems" unfolding f m writes_back_def by simp
  have "scan_string (k @ CHR 0x22 # s) = Some (k, s)" for s using "3.prems" m scan_body by simp
  then show ?case using ih v by (simp add: f m)
qed simp

lemma number_written:
  assumes n: "number_literal n"
  shows "writes_back d (RNum n)"
proof -
  obtain c t where c: "n = c # t" "is_digit c \<or> c = CHR ''-''" using n by (auto simp: number_literal_def)
  then have ws: "\<not> json_ws c" "c \<notin> {CHR ''{'', CHR ''['', CHR 0x22, CHR ''n'', CHR ''t'', CHR ''f'', CHR '']''}"
    by (auto simp: is_digit_def json_ws_def)
  show ?thesis
  proof (rule writes_backI)
    fix f fs r assume r: "number_end r"
    have "scan_number (c # t @ r) = Some (c # t, r)" using n r c by (simp add: number_literal_def)
    then show "raw_value (f # fs) d (render (RNum n) @ r) = Some (RNum n, r)" using ws by (simp add: c)
  qed (use ws in \<open>simp add: c\<close>)
qed

lemma words_not_space [simp]: "\<not> json_ws (CHR ''n'')" "\<not> json_ws (CHR ''t'')" "\<not> json_ws (CHR ''f'')"
  by (simp_all add: json_ws_def)

lemma starts_join: "xs \<noteq> [] \<Longrightarrow> starts P (hd xs) \<Longrightarrow> starts P (join sep xs)"
  by (cases xs rule: remdups_adj.cases) (auto simp: starts_def)

lemma raw_written: "raw_wf d t \<Longrightarrow> writes_back d t"
proof (induction t arbitrary: d)
  case (RNum n)
  then show ?case using number_written by simp
next
  case (RArr vs)
  have wb: "\<forall>v \<in> set vs. writes_back (d - 1) v" using RArr by simp
  show ?case
  proof (rule writes_backI)
    fix f fs r assume l: "2 * length (render (RArr vs)) \<le> Suc (length (fs :: bytes))"
    show "raw_value (f # fs) d (render (RArr vs) @ r) = Some (RArr vs, r)"
    proof (cases "vs = []")
      case False
      have "starts (\<lambda>c. \<not> json_ws c \<and> c \<noteq> CHR '']'') (hd (map render vs))"
        using False wb by (cases vs) (simp_all add: writes_back_def)
      then have "starts (\<lambda>c. \<not> json_ws c \<and> c \<noteq> CHR '']'') (join '','' (map render vs))" using False by (intro starts_join) simp_all
      then obtain c t where j: "join '','' (map render vs) = c # t" "\<not> json_ws c" "c \<noteq> CHR '']''"
        by (cases "join '','' (map render vs)") auto
      show ?thesis using elems_written [OF wb False, of fs r] l j RArr.prems by simp
    qed (use RArr.prems in simp)
  qed simp
next
  case (RObj ms)
  have wb: "\<forall>m \<in> set ms. literal_body (fst m) \<and> writes_back (d - 1) (snd m)" using RObj by fastforce
  have mt: "map (\<lambda>(k, v). [CHR 0x22] @ k @ [CHR 0x22] @ '':'' @ render v) ms = map member_text ms" by auto
  show ?case
  proof (rule writes_backI)
    fix f fs r assume l: "2 * length (render (RObj ms)) \<le> Suc (length (fs :: bytes))"
    show "raw_value (f # fs) d (render (RObj ms) @ r) = Some (RObj ms, r)"
    proof (cases "ms = []")
      case False
      have "starts (\<lambda>c. c = CHR 0x22) (join '','' (map member_text ms))" using False by (intro starts_join) (cases ms; simp)+
      then obtain t where j: "join '','' (map member_text ms) = CHR 0x22 # t"
        by (cases "join '','' (map member_text ms)") auto
      show ?thesis using members_written [OF wb False, of fs r] l j RObj.prems unfolding render.simps mt by simp
    qed (use RObj.prems in simp)
  qed simp
qed (rule writes_backI; auto simp: scan_body split: if_splits)+

lemma unmarshal_written:
  assumes "raw_wf max_nesting t"
  shows "raw_unmarshal (render t) = Some t"
proof -
  have "raw_value (''..'' @ render t @ render t) max_nesting (render t @ []) = Some (t, [])"
    using raw_written [OF assms] unfolding writes_back_def by (simp add: number_end_def del: raw_value.simps)
  then show ?thesis by (simp add: raw_unmarshal_def skip_ws_def del: raw_value.simps)
qed

lemma unmarshal_wf: "raw_unmarshal s = Some t \<Longrightarrow> raw_wf max_nesting t"
  using raw_read [THEN conjunct1] by (auto simp: raw_unmarshal_def simp del: raw_value.simps split: option.splits if_splits)

end
