(* ===== verification/Utf8.thy ===== *)
theory Utf8
  imports RawJson
begin

text \<open>
  Strings through JSON: what a string literal stands for is always valid UTF-8 (the decoder
  replaces the rest), and what the encoder writes for a UTF-8 string is a literal that stands
  for exactly that string.
\<close>

subsection \<open>Strings are UTF-8\<close>

text \<open>A rune's bytes: one ASCII byte, or a valid sequence.\<close>

definition rune_bytes :: "bytes \<Rightarrow> bool" where
  "rune_bytes c \<longleftrightarrow> (\<exists>a. c = [a] \<and> byte a < 128) \<or> (1 < rune_width c \<and> length c = rune_width c)"

definition utf8 :: "bytes \<Rightarrow> bool" where
  "utf8 s \<longleftrightarrow> (\<forall>c \<in> set (rune_chunks s). rune_bytes c)"

lemma rune_width_append:
  assumes "rune_bytes c"
  shows "rune_width (c @ s) = length c" "c \<noteq> []"
proof -
  show "c \<noteq> []" using assms by (auto simp: rune_bytes_def)
  show "rune_width (c @ s) = length c"
  proof (cases "\<exists>a. c = [a] \<and> byte a < 128")
    case True
    then show ?thesis by (auto simp: rune_width_def)
  next
    case False
    then have w: "1 < rune_width c" "length c = rune_width c" using assms by (auto simp: rune_bytes_def)
    consider "c = []" | a where "c = [a]" | a b where "c = [a, b]" | a b d where "c = [a, b, d]" | a b d e t where "c = a # b # d # e # t"
      by (metis list.exhaust)
    then show ?thesis using w
      by cases (auto simp: rune_width_def Let_def split: if_splits list.splits)
  qed
qed

lemma rune_chunks_append: "rune_bytes c \<Longrightarrow> rune_chunks (c @ s) = c # rune_chunks s"
  using rune_width_append by (subst rune_chunks.simps) simp

lemma utf8_Nil [simp]: "utf8 []"
  by (simp add: utf8_def)

lemma utf8_append: "rune_bytes c \<Longrightarrow> utf8 s \<Longrightarrow> utf8 (c @ s)"
  by (simp add: utf8_def rune_chunks_append)

lemma encode_rune_bytes:
  assumes "r < 1114112" "\<not> surrogate r"
  shows "rune_bytes (encode_rune r)"
proof -
  have b: "byte (char_of n) = n" if "n < 256" for n using that by simp
  have m: "128 + x mod 64 < 256" "128 \<le> 128 + x mod 64" "128 + x mod 64 < 192" for x :: nat by auto
  consider "r < 128" | "128 \<le> r" "r < 2048" | "2048 \<le> r" "r < 65536" | "65536 \<le> r" by linarith
  then show ?thesis
  proof cases
    case 1
    then show ?thesis by (auto simp: rune_bytes_def encode_rune_def)
  next
    case 2
    then have "194 \<le> 192 + r div 64" "192 + r div 64 \<le> 223" by auto
    then show ?thesis using 2 by (simp add: rune_bytes_def encode_rune_def rune_width_def cont_byte_def Let_def)
  next
    case 3
    have n: "224 \<le> 224 + r div 4096" "224 + r div 4096 \<le> 239" using 3 by auto
    have q: "r div 4096 = r div 64 div 64" by (simp add: div_mult2_eq [symmetric])
    have "32 \<le> r div 64 mod 64" if "r div 4096 = 0" using that 3 unfolding q by simp
    moreover have "r div 64 mod 64 < 32" if "r div 4096 = 13"
    proof -
      have "r = 4096 * 13 + r mod 4096" by (metis mult_div_mod_eq that)
      moreover have "r mod 4096 < 4096" by simp
      ultimately have "r < 55296" using assms(2) unfolding surrogate_def by linarith
      then have "r div 64 < 864" by simp
      moreover have "r div 64 mod 64 = r div 64 - 832" using that unfolding q by (simp add: modulo_nat_def)
      ultimately show ?thesis by simp
    qed
    ultimately have "second_ok (224 + r div 4096) (char_of (128 + r div 64 mod 64))"
      using n m [of "r div 64"] by (auto simp: second_ok_def)
    then show ?thesis using 3 n by (simp add: rune_bytes_def encode_rune_def rune_width_def cont_byte_def Let_def)
  next
    case 4
    have n: "240 \<le> 240 + r div 262144" "240 + r div 262144 \<le> 244" using 4 assms(1) by auto
    have q: "r div 262144 = r div 4096 div 64" by (simp add: div_mult2_eq [symmetric])
    have "16 \<le> r div 4096 mod 64" if "r div 262144 = 0" using that 4 unfolding q by simp
    moreover have "r div 4096 mod 64 < 16" if "r div 262144 = 4"
    proof -
      have "r div 4096 < 272" using assms(1) by simp
      moreover have "r div 4096 mod 64 = r div 4096 - 256" using that unfolding q by (simp add: modulo_nat_def)
      ultimately show ?thesis by simp
    qed
    ultimately have "second_ok (240 + r div 262144) (char_of (128 + r div 4096 mod 64))"
      using n m [of "r div 4096"] by (auto simp: second_ok_def)
    then show ?thesis using 4 n by (simp add: rune_bytes_def encode_rune_def rune_width_def cont_byte_def Let_def)
  qed
qed

text \<open>What a string literal stands for is UTF-8.\<close>

lemma hex4_bound: "hex4 a b c d = Some r \<Longrightarrow> r < 65536"
proof -
  have h: "hex_value x = Some n \<Longrightarrow> n < 16" for x n by (auto simp: hex_value_def Let_def split: if_splits)
  assume "hex4 a b c d = Some r"
  then obtain w x y z where "hex_value a = Some w" "hex_value b = Some x" "hex_value c = Some y" "hex_value d = Some z"
    "r = w * 4096 + x * 256 + y * 16 + z" by (auto simp: hex4_def split: option.splits)
  moreover from this have "w < 16" "x < 16" "y < 16" "z < 16" using h by blast+
  ultimately show ?thesis by simp
qed

lemma escape_rune_bytes: "r < 65536 \<Longrightarrow> rune_bytes (escape_rune r)"
  unfolding escape_rune_def by (intro encode_rune_bytes) (auto simp: rune_error_def surrogate_def)

lemma next_escape_bound: "next_escape s = Some r \<Longrightarrow> r < 65536"
  by (auto simp: next_escape_def split: list.splits if_splits dest: hex4_bound)

lemma ascii_bytes: "byte a < 128 \<Longrightarrow> rune_bytes [a]"
  by (simp add: rune_bytes_def)

lemma simple_escape_ascii: "simple_escape e = Some x \<Longrightarrow> byte x < 128"
  by (auto simp: simple_escape_def split: if_splits)

lemma wide_rune_bytes: "1 < rune_width s \<Longrightarrow> rune_bytes (take (rune_width s) s)"
proof -
  assume w: "1 < rune_width s"
  have "rune_width s \<le> length s"
    by (cases s) (auto simp: rune_width_def Let_def split: list.splits)
  moreover have "rune_width (take (rune_width s) s) = rune_width s" by (rule rune_width_take) simp
  ultimately show ?thesis using w by (simp add: rune_bytes_def)
qed

lemma unquote_utf8: "utf8 (unquote b)"
proof (induction "length b" arbitrary: b rule: less_induct)
  case less
  show ?case
  proof (cases b)
    case (Cons c s)
    have ih: "utf8 (unquote t)" if "length t \<le> length s" for t using less.hyps [of t] that Cons by simp
    show ?thesis
    proof (cases "c = CHR 0x5C")
      case True
      show ?thesis
      proof (cases s)
        case (Cons e t)
        show ?thesis
        proof (cases "e = CHR ''u''")
          case u: True
          show ?thesis
          proof (cases "\<exists>h1 h2 h3 h4 v. t = h1 # h2 # h3 # h4 # v")
            case True
            then obtain h1 h2 h3 h4 v where t: "t = h1 # h2 # h3 # h4 # v" by blast
            let ?r = "case hex4 h1 h2 h3 h4 of Some r \<Rightarrow> r | None \<Rightarrow> 0"
            have r: "?r < 65536" using hex4_bound by (auto split: option.split)
            have plain: "utf8 (escape_rune ?r @ unquote v)"
              using utf8_append [OF escape_rune_bytes [OF r] ih [of v]] Cons t by simp
            have b: "unquote b = (case next_escape v of
                Some q \<Rightarrow> if surrogate ?r \<and> \<not> low_surrogate ?r \<and> low_surrogate q
                  then encode_rune (65536 + (?r - 55296) * 1024 + (q - 56320)) @ unquote (drop 6 v)
                  else escape_rune ?r @ unquote v
              | None \<Rightarrow> escape_rune ?r @ unquote v)"
              using \<open>b = c # s\<close> \<open>c = CHR 0x5C\<close> Cons u t by (simp add: unquote.simps(2) Let_def)
            have pair: "utf8 (encode_rune (65536 + (?r - 55296) * 1024 + (q - 56320)) @ unquote (drop 6 v))"
              if "surrogate ?r" "\<not> low_surrogate ?r" "low_surrogate q" for q
            proof (rule utf8_append [OF encode_rune_bytes])
              show "65536 + (?r - 55296) * 1024 + (q - 56320) < 1114112"
                using that unfolding surrogate_def low_surrogate_def by linarith
              show "\<not> surrogate (65536 + (?r - 55296) * 1024 + (q - 56320))" by (simp add: surrogate_def)
              show "utf8 (unquote (drop 6 v))" using ih Cons t by simp
            qed
            show ?thesis unfolding b using plain pair by (auto split: option.split)
          next
            case False
            then have "unquote b = []" using \<open>b = c # s\<close> \<open>c = CHR 0x5C\<close> Cons u
              by (auto simp: unquote.simps(2) split: list.split)
            then show ?thesis by simp
          qed
        next
          case False
          have "utf8 (x # unquote t)" if "simple_escape e = Some x" for x
            using utf8_append [OF ascii_bytes [OF simple_escape_ascii [OF that]] ih [of t]] Cons by simp
          then show ?thesis using \<open>b = c # s\<close> True Cons False ih [of t]
            by (auto simp: unquote.simps(2) split: option.split)
        qed
      qed (use Cons True in \<open>simp add: unquote.simps(2)\<close>)
    next
      case False
      have 1: "utf8 (c # unquote s)" if "byte c < 128" using utf8_append [OF ascii_bytes [OF that] ih [of s]] by simp
      have 2: "utf8 (encode_rune rune_error @ unquote s)"
        using utf8_append [OF encode_rune_bytes ih [of s], of rune_error] by (simp add: rune_error_def surrogate_def)
      have 3: "utf8 (take (rune_width (c # s)) (c # s) @ unquote (drop (rune_width (c # s)) (c # s)))"
        if "1 < rune_width (c # s)"
        using utf8_append [OF wide_rune_bytes [OF that] ih [of "drop (rune_width (c # s)) (c # s)"]] that by simp
      show ?thesis using Cons False 1 2 3 by (auto simp: unquote.simps(2))
    qed
  qed simp
qed

text \<open>What the encoder writes for a UTF-8 string stands for it.\<close>

definition body_of :: "bytes \<Rightarrow> bytes" where
  "body_of s = concat (map escape_chunk (rune_chunks s))"

lemma encode_string_body: "encode_string s = [CHR 0x22] @ body_of s @ [CHR 0x22]"
  by (simp add: encode_string_def body_of_def)

lemma hex_digit_value: "n < 16 \<Longrightarrow> hex_value (hex_digit n) = Some n"
  by (auto simp: hex_value_def hex_digit_def Let_def)

lemma hex_byte_value:
  assumes "byte a < 128"
  obtains x y where "hex_byte a = [x, y]" "hex4 (CHR ''0'') (CHR ''0'') x y = Some (byte a)"
proof -
  have z: "hex_value (CHR ''0'') = Some 0" by code_simp
  have "byte a div 16 < 16" "byte a mod 16 < 16" using assms by auto
  then have "hex4 (CHR ''0'') (CHR ''0'') (hex_digit (byte a div 16)) (hex_digit (byte a mod 16)) = Some (byte a)"
    by (simp add: hex4_def hex_digit_value z)
  then show ?thesis by (intro that) (auto simp: hex_byte_def)
qed

text \<open>The three forms of an encoded ASCII character.\<close>

lemma ascii_chunk:
  assumes "byte a < 128"
  obtains (letter) e where "escape_chunk [a] = [CHR 0x5C, e]" "simple_escape e = Some a" "e \<noteq> CHR ''u''"
    | (code) "escape_chunk [a] = [CHR 0x5C] @ ''u00'' @ hex_byte a"
    | (itself) "escape_chunk [a] = [a]" "a \<noteq> CHR 0x22" "a \<noteq> CHR 0x5C" "32 \<le> byte a" "\<not> html_char a"
proof -
  have eq: "a = b" if "byte a = byte b" for b using that by simp
  have via: "thesis" if "byte a = byte b" "escape_chunk [b] = [CHR 0x5C, e]" "simple_escape e = Some b" "e \<noteq> CHR ''u''" for b e
    using letter [of e] eq [OF that(1)] that(2-4) by simp
  have letters: "escape_chunk [CHR 0x22] = [CHR 0x5C, CHR 0x22]" "escape_chunk [CHR 0x5C] = [CHR 0x5C, CHR 0x5C]"
    "escape_chunk [CHR 0x08] = [CHR 0x5C, CHR ''b'']" "escape_chunk [CHR 0x0C] = [CHR 0x5C, CHR ''f'']"
    "escape_chunk [CHR 0x0A] = [CHR 0x5C, CHR ''n'']" "escape_chunk [CHR 0x0D] = [CHR 0x5C, CHR ''r'']"
    "escape_chunk [CHR 0x09] = [CHR 0x5C, CHR ''t'']" by code_simp+
  consider "byte a = 34" | "byte a = 92" | "byte a = 8" | "byte a = 12" | "byte a = 10" | "byte a = 13" | "byte a = 9"
    | "byte a \<notin> {34, 92, 8, 12, 10, 13, 9}" by blast
  then show ?thesis
  proof cases
    case 1
    then show ?thesis using via [OF _ letters(1)] by (simp add: simple_escape_def)
  next
    case 2
    then show ?thesis using via [OF _ letters(2)] by (simp add: simple_escape_def)
  next
    case 3
    then show ?thesis using via [OF _ letters(3)] by (simp add: simple_escape_def)
  next
    case 4
    then show ?thesis using via [OF _ letters(4)] by (simp add: simple_escape_def)
  next
    case 5
    then show ?thesis using via [OF _ letters(5)] by (simp add: simple_escape_def)
  next
    case 6
    then show ?thesis using via [OF _ letters(6)] by (simp add: simple_escape_def)
  next
    case 7
    then show ?thesis using via [OF _ letters(7)] by (simp add: simple_escape_def)
  next
    case 8
    show ?thesis
    proof (cases "byte a < 32 \<or> byte a = 60 \<or> byte a = 62 \<or> byte a = 38")
      case True
      then show ?thesis using 8 by (intro code) (simp add: escape_chunk_def Let_def)
    next
      case False
      then have "a \<noteq> CHR 0x22" "a \<noteq> CHR 0x5C" "\<not> html_char a" using 8 by auto
      then show ?thesis using 8 False assms by (intro itself) (simp_all add: escape_chunk_def Let_def)
    qed
  qed
qed

lemma wide_chunk:
  assumes "rune_bytes c" "1 < length c"
  shows "rune_width (c @ s) = length c" "\<forall>x \<in> set c. 128 \<le> byte x"
proof -
  show "rune_width (c @ s) = length c" by (rule rune_width_append [OF assms(1)])
  have w: "1 < rune_width c" "length c = rune_width c" using assms by (auto simp: rune_bytes_def)
  consider "c = []" | a where "c = [a]" | a b where "c = [a, b]" | a b d where "c = [a, b, d]" | a b d e t where "c = a # b # d # e # t"
    by (metis list.exhaust)
  then show "\<forall>x \<in> set c. 128 \<le> byte x" using w
    by cases (auto simp: rune_width_def cont_byte_def second_ok_def Let_def split: if_splits list.splits)
qed

lemma wide_escape:
  assumes "1 < length c"
  shows "escape_chunk c = c \<or> c = [CHR 0xE2, CHR 0x80, CHR 0xA8] \<and> escape_chunk c = [CHR 0x5C] @ ''u2028'' \<or>
    c = [CHR 0xE2, CHR 0x80, CHR 0xA9] \<and> escape_chunk c = [CHR 0x5C] @ ''u2029''"
  using assms unfolding escape_chunk_def by (cases c; cases "tl c") auto

lemma unquote_code:
  assumes "hex4 h1 h2 h3 h4 = Some r" "\<not> surrogate r"
  shows "unquote (CHR 0x5C # CHR ''u'' # h1 # h2 # h3 # h4 # s) = encode_rune r @ unquote s"
  using assms by (auto simp: unquote.simps(2) escape_rune_def Let_def split: option.split)

lemma plain_literal: "\<forall>x \<in> set c. 128 \<le> byte x \<Longrightarrow> literal_body s \<Longrightarrow> literal_body (c @ s)"
  by (induction c) (auto intro!: literal_body.plain)

lemma rune_bytes_cases: "rune_bytes c \<Longrightarrow> (\<exists>a. c = [a] \<and> byte a < 128) \<or> 1 < length c"
  by (auto simp: rune_bytes_def)

lemma unquote_letter:
  "e \<noteq> CHR ''u'' \<Longrightarrow> simple_escape e = Some x \<Longrightarrow> unquote (CHR 0x5C # e # s) = x # unquote s"
  by (simp add: unquote.simps(2))

lemma unquote_ascii: "a \<noteq> CHR 0x5C \<Longrightarrow> byte a < 128 \<Longrightarrow> unquote (a # s) = a # unquote s"
  by (simp add: unquote.simps(2))

lemma unquote_wide:
  assumes "rune_bytes c" "1 < length c"
  shows "unquote (c @ s) = c @ unquote s"
proof -
  note w = wide_chunk [OF assms]
  obtain a t where c: "c = a # t" using assms(2) by (cases c) auto
  then have a: "a \<noteq> CHR 0x5C" "\<not> byte a < 128" using w(2) by auto
  have "\<not> rune_width (a # t @ s) \<le> 1" "rune_width (a # t @ s) = Suc (length t)"
    using w(1) [of s] assms(2) by (simp_all add: c)
  then show ?thesis using a by (simp add: c unquote.simps(2))
qed

lemma separator_unquoted:
  "unquote (CHR 0x5C # CHR ''u'' # CHR ''2'' # CHR ''0'' # CHR ''2'' # CHR ''8'' # s) = CHR 0xE2 # CHR 0x80 # CHR 0xA8 # unquote s"
  "unquote (CHR 0x5C # CHR ''u'' # CHR ''2'' # CHR ''0'' # CHR ''2'' # CHR ''9'' # s) = CHR 0xE2 # CHR 0x80 # CHR 0xA9 # unquote s"
proof -
  have e: "encode_rune 8232 = [CHR 0xE2, CHR 0x80, CHR 0xA8]" "encode_rune 8233 = [CHR 0xE2, CHR 0x80, CHR 0xA9]"
    by (simp_all add: encode_rune_def char_of_eq_iff take_bit_eq_mod)
  have ns: "\<not> surrogate 8232" "\<not> surrogate 8233" by (simp_all add: surrogate_def)
  show "unquote (CHR 0x5C # CHR ''u'' # CHR ''2'' # CHR ''0'' # CHR ''2'' # CHR ''8'' # s) = CHR 0xE2 # CHR 0x80 # CHR 0xA8 # unquote s"
    unfolding unquote_code [OF escape_codes(4) ns(1)] e append.simps ..
  show "unquote (CHR 0x5C # CHR ''u'' # CHR ''2'' # CHR ''0'' # CHR ''2'' # CHR ''9'' # s) = CHR 0xE2 # CHR 0x80 # CHR 0xA9 # unquote s"
    unfolding unquote_code [OF escape_codes(5) ns(2)] e append.simps ..
qed

lemma chunk_unquoted:
  assumes c: "rune_bytes c"
  shows "unquote (escape_chunk c @ s) = c @ unquote s" "literal_body s \<Longrightarrow> literal_body (escape_chunk c @ s)"
proof -
  have "unquote (escape_chunk c @ s) = c @ unquote s \<and> (literal_body s \<longrightarrow> literal_body (escape_chunk c @ s))"
    using rune_bytes_cases [OF c]
  proof (elim disjE exE conjE)
    fix a assume a: "c = [a]" "byte a < 128"
    show ?thesis
    proof (cases rule: ascii_chunk [OF a(2)])
      case (1 e)
      then show ?thesis using unquote_letter [OF 1(3,2)] literal_body.letter [OF 1(3)] by (simp add: a)
    next
      case 2
      obtain x y where h: "hex_byte a = [x, y]" "hex4 (CHR ''0'') (CHR ''0'') x y = Some (byte a)"
        by (rule hex_byte_value [OF a(2)])
      have "\<not> surrogate (byte a)" "encode_rune (byte a) = [a]" using a(2) by (simp_all add: surrogate_def encode_rune_def)
      then show ?thesis using unquote_code [OF h(2), of s] literal_body.unicode [of "CHR ''0''" "CHR ''0''" x y s] h(2)
        by (simp add: 2 h(1) a(1))
    next
      case 3
      then show ?thesis using unquote_ascii [OF 3(3) a(2)] literal_body.plain [OF 3(2-4)] by (simp add: a(1))
    qed
  next
    assume l: "1 < length c"
    show ?thesis using wide_escape [OF l]
    proof (elim disjE conjE)
      assume "escape_chunk c = c"
      then show ?thesis using unquote_wide [OF c l] plain_literal [OF wide_chunk(2) [OF c l]] by simp
    next
      assume e: "c = [CHR 0xE2, CHR 0x80, CHR 0xA8]" "escape_chunk c = [CHR 0x5C] @ ''u2028''"
      have "literal_body s \<Longrightarrow> literal_body (CHR 0x5C # CHR ''u'' # CHR ''2'' # CHR ''0'' # CHR ''2'' # CHR ''8'' # s)"
        by (rule literal_body.unicode) (simp only: escape_codes option.distinct not_False_eq_True)+
      then show ?thesis unfolding e(2) append.simps separator_unquoted unfolding e(1) append.simps by blast
    next
      assume e: "c = [CHR 0xE2, CHR 0x80, CHR 0xA9]" "escape_chunk c = [CHR 0x5C] @ ''u2029''"
      have "literal_body s \<Longrightarrow> literal_body (CHR 0x5C # CHR ''u'' # CHR ''2'' # CHR ''0'' # CHR ''2'' # CHR ''9'' # s)"
        by (rule literal_body.unicode) (simp only: escape_codes option.distinct not_False_eq_True)+
      then show ?thesis unfolding e(2) append.simps separator_unquoted unfolding e(1) append.simps by blast
    qed
  qed
  then show "unquote (escape_chunk c @ s) = c @ unquote s" "literal_body s \<Longrightarrow> literal_body (escape_chunk c @ s)" by blast+
qed

lemma body_of_utf8: "utf8 s \<Longrightarrow> unquote (body_of s) = s \<and> literal_body (body_of s)"
proof -
  have "\<forall>c \<in> set cs. rune_bytes c \<Longrightarrow> unquote (concat (map escape_chunk cs)) = concat cs \<and>
      literal_body (concat (map escape_chunk cs))" for cs
    by (induction cs) (simp_all add: chunk_unquoted literal_body.empty)
  then show "utf8 s \<Longrightarrow> unquote (body_of s) = s \<and> literal_body (body_of s)"
    unfolding utf8_def body_of_def by (metis concat_rune_chunks)
qed

lemma html_plain: "\<forall>x \<in> set c. \<not> html_char x \<and> x \<noteq> CHR 0xE2 \<Longrightarrow> html_body (c @ s) = c @ html_body s"
  by (induction c) simp_all

lemma wide_tail:
  assumes "rune_bytes c" "1 < length c"
  shows "\<forall>x \<in> set (tl c). 128 \<le> byte x \<and> byte x < 192" "hd c = CHR 0xE2 \<Longrightarrow> length c = 3"
proof -
  have w: "1 < rune_width c" "length c = rune_width c" using assms by (auto simp: rune_bytes_def)
  have so: "second_ok n x \<Longrightarrow> 128 \<le> byte x \<and> byte x < 192" for n x by (auto simp: second_ok_def split: if_splits)
  have "(\<forall>x \<in> set (tl c). 128 \<le> byte x \<and> byte x < 192) \<and> (byte (hd c) = 226 \<longrightarrow> length c = 3)"
  proof -
    consider a b where "c = [a, b]" | a b d where "c = [a, b, d]" | a b d e where "c = [a, b, d, e]" | a b d e f t where "c = a # b # d # e # f # t"
      using assms(2) by (cases c; cases "tl c"; cases "tl (tl c)"; cases "tl (tl (tl c))"; cases "tl (tl (tl (tl c)))") auto
    then show ?thesis
    proof cases
      case 1
      then show ?thesis using w by (simp add: rune_width_def cont_byte_def Let_def split: if_splits)
    next
      case 2
      then show ?thesis using w so [of "byte a" b] by (auto simp: rune_width_def cont_byte_def Let_def split: if_splits)
    next
      case 3
      then show ?thesis using w so [of "byte a" b] by (auto simp: rune_width_def cont_byte_def Let_def split: if_splits)
    next
      case 4
      then show ?thesis using w by (simp add: rune_width_def Let_def split: if_splits)
    qed
  qed
  then show "\<forall>x \<in> set (tl c). 128 \<le> byte x \<and> byte x < 192" "hd c = CHR 0xE2 \<Longrightarrow> length c = 3" by simp_all
qed

lemma html_wide:
  assumes "rune_bytes c" "1 < length c" "c \<noteq> [CHR 0xE2, CHR 0x80, CHR 0xA8]" "c \<noteq> [CHR 0xE2, CHR 0x80, CHR 0xA9]"
  shows "html_body (c @ s) = c @ html_body s"
proof -
  obtain a t where c: "c = a # t" using assms(2) by (cases c) auto
  have t: "\<forall>x \<in> set t. \<not> html_char x \<and> x \<noteq> CHR 0xE2" using wide_tail(1) [OF assms(1,2)] by (auto simp: c)
  note ht = html_plain [OF t, of s]
  have a: "\<not> html_char a" using wide_chunk(2) [OF assms(1,2)] by (auto simp: c)
  show ?thesis
  proof (cases "a = CHR 0xE2")
    case True
    then have "length t = 2" using wide_tail(2) [OF assms(1,2)] by (simp add: c)
    then obtain x y where xy: "t = [x, y]" by (cases t; cases "tl t") auto
    have "\<not> separator_at (t @ s)" using assms(3,4) True unfolding separator_at_def c xy by simp
    then show ?thesis using ht html_body_other [of "t @ s"] unfolding c True by simp
  next
    case False
    show ?thesis using ht html_body_char(2) [OF a False, of "t @ s"] unfolding c by simp
  qed
qed

lemma separators_escaped:
  "escape_chunk [CHR 0xE2, CHR 0x80, CHR 0xA8] = [CHR 0x5C] @ ''u2028''" "escape_chunk [CHR 0xE2, CHR 0x80, CHR 0xA9] = [CHR 0x5C] @ ''u2029''"
  by (simp_all add: escape_chunk_def)

lemma html_chunk:
  assumes c: "rune_bytes c"
  shows "html_body (escape_chunk c @ s) = escape_chunk c @ html_body s"
  using rune_bytes_cases [OF c]
proof (elim disjE exE conjE)
  fix a assume a: "c = [a]" "byte a < 128"
  show ?thesis
  proof (cases rule: ascii_chunk [OF a(2)])
    case (1 e)
    then have "\<not> html_char e" "e \<noteq> CHR 0xE2" using simple_escape_chars [of e] by auto
    then show ?thesis using html_plain [of "[CHR 0x5C, e]" s] unfolding a(1) 1(1) by simp
  next
    case 2
    obtain x y where h: "hex_byte a = [x, y]" "hex4 (CHR ''0'') (CHR ''0'') x y = Some (byte a)"
      by (rule hex_byte_value [OF a(2)])
    have "hex4 (CHR ''0'') (CHR ''0'') x y \<noteq> None" using h(2) by simp
    note n = hex4_chars [OF this]
    have "\<forall>z \<in> set ([CHR 0x5C] @ ''u00'' @ [x, y]). \<not> html_char z \<and> z \<noteq> CHR 0xE2"
      using n [of x] n [of y] by simp
    from html_plain [OF this, of s] show ?thesis unfolding a(1) 2 h(1) .
  next
    case 3
    have "a \<noteq> CHR 0xE2" using a(2) by auto
    then show ?thesis using html_body_char(2) [OF 3(5)] unfolding a(1) 3(1) by simp
  qed
next
  assume l: "1 < length c"
  show ?thesis using wide_escape [OF l]
  proof (elim disjE conjE)
    assume e: "escape_chunk c = c"
    have "c \<noteq> [CHR 0xE2, CHR 0x80, CHR 0xA8]" "c \<noteq> [CHR 0xE2, CHR 0x80, CHR 0xA9]" using e separators_escaped by auto
    from html_wide [OF c l this, of s] show ?thesis unfolding e .
  next
    assume e: "escape_chunk c = [CHR 0x5C] @ ''u2028''"
    show ?thesis unfolding e by (rule html_plain) simp
  next
    assume e: "escape_chunk c = [CHR 0x5C] @ ''u2029''"
    show ?thesis unfolding e by (rule html_plain) simp
  qed
qed

lemma html_body_of: "utf8 s \<Longrightarrow> html_body (body_of s) = body_of s"
proof -
  have "\<forall>c \<in> set cs. rune_bytes c \<Longrightarrow> html_body (concat (map escape_chunk cs)) = concat (map escape_chunk cs)" for cs
    by (induction cs) (simp_all add: html_chunk)
  then show "utf8 s \<Longrightarrow> html_body (body_of s) = body_of s" unfolding utf8_def body_of_def by blast
qed

lemma ascii_utf8: "\<forall>a \<in> set s. byte a < 128 \<Longrightarrow> utf8 s"
proof (induction s)
  case (Cons a s)
  then show ?case using utf8_append [OF ascii_bytes [of a], of s] by simp
qed simp

subsection \<open>What JSON makes of a string\<close>

text \<open>
  \<open>json_text s\<close> is what comes back when the string \<open>s\<close> is encoded as JSON and decoded again. It is
  \<open>s\<close> exactly when \<open>s\<close> is UTF-8: every byte that is not part of a rune becomes the replacement
  character.
\<close>

definition json_text :: "string \<Rightarrow> string" where
  "json_text s = unquote (body_of s)"

definition json_kept :: "string \<Rightarrow> bool" where
  "json_kept s \<longleftrightarrow> json_text s = s"

lemma json_kept_utf8: "json_kept s \<longleftrightarrow> utf8 s"
  using body_of_utf8 [of s] unquote_utf8 [of "body_of s"] by (auto simp: json_kept_def json_text_def)

lemma json_keptD: "json_kept s \<Longrightarrow> json_text s = s"
  by (simp add: json_kept_def)

lemma ascii_kept: "\<forall>a \<in> set s. byte a < 128 \<Longrightarrow> json_kept s"
  by (simp add: json_kept_utf8 ascii_utf8)

lemma json_text_ascii: "\<forall>a \<in> set s. byte a < 128 \<Longrightarrow> json_text s = s"
  by (rule json_keptD [OF ascii_kept])

lemma json_text_Nil [simp]: "json_text [] = []"
  by (rule json_text_ascii) simp

text \<open>Identifiers: an ASCII prefix and hexadecimal digits.\<close>

lemma hex_encode_ascii: "a \<in> set (hex_encode s) \<Longrightarrow> byte a < 128"
proof -
  have d: "byte (hex_digit n) < 128" if "n < 16" for n using that by (auto simp: hex_digit_def)
  have "byte x < 256" for x by simp
  then have "byte x div 16 < 16" "byte x mod 16 < 16" for x by (simp_all add: less_mult_imp_div_less)
  then have "\<forall>y \<in> set (hex_byte x). byte y < 128" for x using d by (simp add: hex_byte_def)
  then show "a \<in> set (hex_encode s) \<Longrightarrow> byte a < 128" by (auto simp: hex_encode_def)
qed

lemma id_kept: "\<forall>a \<in> set pre. byte a < 128 \<Longrightarrow> json_kept (pre @ hex_encode s)"
  using hex_encode_ascii by (intro ascii_kept) auto

end
