(* ===== verification/Durable.thy ===== *)
theory Durable
  imports Manifest EventLog Utf8 "HOL-Library.Product_Lexorder"
begin

text \<open>
  What survives a restart (\<open>internal/agent/durable/\<close>): the states a session's stream carries
  (\<open>durable.go\<close>, \<open>task.go\<close>), the events they are recorded as, and \<open>Fold\<close>, which rebuilds them
  from the stream (\<open>events.go\<close>).

  Encoding a state is JSON; the encoders and decoders are the fields of \<open>durable_codec\<close>. JSON does
  not keep every value: \<open>json_forms\<close> says what encoding and decoding makes of the parts of a state,
  \<open>session_form\<close>, \<open>process_form\<close> and \<open>task_form\<close> what it makes of a state, and \<open>codec_laws\<close> that
  decoding gives exactly this form (a task record's token hash is not in its JSON, so its event
  carries it beside the record, as the code does). HMAC-SHA256 and SHA-256 are parameters.
\<close>

subsection \<open>States\<close>

datatype process_status =
    ProcessQueued
  | ProcessRunning
  | ProcessStopping
  | ProcessWaitingTask
  | ProcessInterrupted
  | ProcessCompleted
  | ProcessStopped
  | ProcessFailed

record process_context =
  pc_session :: string
  pc_process :: string
  pc_revision :: nat

record session_rec =
  se_id :: string
  se_name :: string
  se_created :: instant
  se_updated :: instant
  se_active :: string
  se_tags :: "(string, string) gomap"

record process_rec =
  pr_id :: string
  pr_session :: string
  pr_revision :: nat
  pr_input :: string
  pr_status :: process_status
  pr_attempt :: nat
  pr_created :: instant
  pr_updated :: instant
  pr_started :: "instant option"
  pr_completed :: "instant option"
  pr_answer :: string
  pr_error :: string
  pr_manifest :: manifest
  pr_digest :: string
  pr_labels :: "string list"
  pr_fork :: nat
  pr_aborts :: nat

record task_record =
  tk_scope :: process_context
  tk_id :: string
  tk_position :: int
  tk_syscall :: syscall
  tk_summary :: string
  tk_state :: decision
  tk_token_hash :: bytes
  tk_resolution :: authorization
  tk_created :: instant
  tk_expires :: "instant option"
  tk_resolved :: "instant option"

text \<open>The zero values Go starts from.\<close>

definition zero_session :: session_rec where
  "zero_session =
     \<lparr>se_id = '''', se_name = '''', se_created = 0, se_updated = 0, se_active = '''', se_tags = []\<rparr>"

subsection \<open>Titles and tags\<close>

definition default_session_title :: string where "default_session_title = ''New session''"

definition session_title :: "string \<Rightarrow> string" where
  "session_title input =
     (if GoText.fields input = [] then default_session_title
      else
        let title = join '' '' (GoText.fields input) in
        if length (runes title) \<le> 60 then title
        else concat (map encode_rune (take 60 (runes title))) @ ellipsis)"

subsection \<open>Task tokens\<close>

record crypto =
  cr_sha256 :: "bytes \<Rightarrow> bytes"
  cr_hmac :: "bytes \<Rightarrow> bytes \<Rightarrow> bytes"

definition task_token :: "crypto \<Rightarrow> bytes \<Rightarrow> string \<Rightarrow> string" where
  "task_token C secret tid = hex_encode (cr_hmac C secret tid)"

definition stamp_task_token :: "crypto \<Rightarrow> bytes \<Rightarrow> task_record \<Rightarrow> task_record" where
  "stamp_task_token C secret r = r\<lparr>tk_token_hash := cr_sha256 C (task_token C secret (tk_id r))\<rparr>"

subsection \<open>Events\<close>

definition ev_session_state :: string where "ev_session_state = ''session.state''"
definition ev_process_state :: string where "ev_process_state = ''process.state''"
definition ev_task_created :: string where "ev_task_created = ''task.created''"
definition ev_task_resolved :: string where "ev_task_resolved = ''task.resolved''"

record task_event_data =
  td_record :: task_record
  td_token_hash :: bytes

record 'd durable_codec =
  cd_enc_session :: "session_rec \<Rightarrow> err + 'd"
  cd_dec_session :: "'d \<Rightarrow> err + session_rec"
  cd_enc_process :: "process_rec \<Rightarrow> err + 'd"
  cd_dec_process :: "'d \<Rightarrow> err + process_rec"
  cd_enc_task :: "task_event_data \<Rightarrow> err + 'd"
  cd_dec_task :: "'d \<Rightarrow> err + task_event_data"

text \<open>
  What JSON makes of a state, part by part. Numbers, times and the states' enumerations come back
  as they were, and strings as \<open>json_text\<close> says. A manifest's grants have an encoding of their own
  (\<open>GrantCodec\<close>), a map of tags is keyed by strings, and a syscall, a resolution and a result hold
  raw messages, which the encoder compacts: their forms are the fields of \<open>json_forms\<close>.
\<close>

record 'r json_forms =
  jf_manifest :: "manifest \<Rightarrow> manifest"
  jf_tags :: "(string, string) gomap \<Rightarrow> (string, string) gomap"
  jf_syscall :: "syscall \<Rightarrow> syscall"
  jf_auth :: "authorization \<Rightarrow> authorization"
  jf_result :: "'r \<Rightarrow> 'r"

definition session_form :: "'r json_forms \<Rightarrow> session_rec \<Rightarrow> session_rec" where
  "session_form F s =
     \<lparr>se_id = json_text (se_id s), se_name = json_text (se_name s), se_created = se_created s,
      se_updated = se_updated s, se_active = json_text (se_active s), se_tags = jf_tags F (se_tags s)\<rparr>"

definition process_form :: "'r json_forms \<Rightarrow> process_rec \<Rightarrow> process_rec" where
  "process_form F p =
     \<lparr>pr_id = json_text (pr_id p), pr_session = json_text (pr_session p), pr_revision = pr_revision p,
      pr_input = json_text (pr_input p), pr_status = pr_status p, pr_attempt = pr_attempt p,
      pr_created = pr_created p, pr_updated = pr_updated p, pr_started = pr_started p,
      pr_completed = pr_completed p, pr_answer = json_text (pr_answer p), pr_error = json_text (pr_error p),
      pr_manifest = jf_manifest F (pr_manifest p), pr_digest = json_text (pr_digest p),
      pr_labels = map json_text (pr_labels p), pr_fork = pr_fork p, pr_aborts = pr_aborts p\<rparr>"

definition context_form :: "process_context \<Rightarrow> process_context" where
  "context_form c =
     \<lparr>pc_session = json_text (pc_session c), pc_process = json_text (pc_process c), pc_revision = pc_revision c\<rparr>"

fun decision_form :: "decision \<Rightarrow> decision" where
  "decision_form (OtherState s) = OtherState (json_text s)"
| "decision_form d = d"

definition task_form :: "'r json_forms \<Rightarrow> task_record \<Rightarrow> task_record" where
  "task_form F r =
     \<lparr>tk_scope = context_form (tk_scope r), tk_id = json_text (tk_id r), tk_position = tk_position r,
      tk_syscall = jf_syscall F (tk_syscall r), tk_summary = json_text (tk_summary r),
      tk_state = decision_form (tk_state r), tk_token_hash = tk_token_hash r,
      tk_resolution = jf_auth F (tk_resolution r), tk_created = tk_created r, tk_expires = tk_expires r,
      tk_resolved = tk_resolved r\<rparr>"

definition codec_laws :: "'d durable_codec \<Rightarrow> 'r json_forms \<Rightarrow> bool" where
  "codec_laws D F \<longleftrightarrow>
     (\<forall>s d. cd_enc_session D s = Inr d \<longrightarrow> cd_dec_session D d = Inr (session_form F s)) \<and>
     (\<forall>p d. cd_enc_process D p = Inr d \<longrightarrow> cd_dec_process D d = Inr (process_form F p)) \<and>
     (\<forall>t d. cd_enc_task D t = Inr d \<longrightarrow>
        cd_dec_task D d = Inr (t\<lparr>td_record := (task_form F (td_record t))\<lparr>tk_token_hash := ''''\<rparr>\<rparr>))"

lemma process_form_simps [simp]:
  "pr_id (process_form F p) = json_text (pr_id p)" "pr_session (process_form F p) = json_text (pr_session p)"
  "pr_revision (process_form F p) = pr_revision p" "pr_status (process_form F p) = pr_status p"
  "pr_input (process_form F p) = json_text (pr_input p)" "pr_digest (process_form F p) = json_text (pr_digest p)"
  "pr_created (process_form F p) = pr_created p" "pr_manifest (process_form F p) = jf_manifest F (pr_manifest p)"
  "pr_fork (process_form F p) = pr_fork p" "pr_aborts (process_form F p) = pr_aborts p"
  by (simp_all add: process_form_def)

lemma session_form_simps [simp]:
  "se_id (session_form F s) = json_text (se_id s)" "se_name (session_form F s) = json_text (se_name s)"
  "se_active (session_form F s) = json_text (se_active s)" "se_tags (session_form F s) = jf_tags F (se_tags s)"
  by (simp_all add: session_form_def)

lemma task_form_simps [simp]:
  "tk_scope (task_form F r) = context_form (tk_scope r)" "tk_id (task_form F r) = json_text (tk_id r)"
  "tk_position (task_form F r) = tk_position r" "tk_created (task_form F r) = tk_created r"
  "tk_token_hash (task_form F r) = tk_token_hash r" "pc_session (context_form c) = json_text (pc_session c)"
  "pc_process (context_form c) = json_text (pc_process c)" "pc_revision (context_form c) = pc_revision c"
  by (simp_all add: task_form_def context_form_def)

definition process_state_event :: "'d durable_codec \<Rightarrow> instant \<Rightarrow> process_rec \<Rightarrow> err + 'd event" where
  "process_state_event D now r =
     encode_event (cd_enc_process D) ev_process_state (pr_id r) (pr_revision r) now r"

definition session_state_event :: "'d durable_codec \<Rightarrow> instant \<Rightarrow> session_rec \<Rightarrow> err + 'd event" where
  "session_state_event D now s = encode_event (cd_enc_session D) ev_session_state '''' 0 now s"

definition task_event :: "'d durable_codec \<Rightarrow> string \<Rightarrow> instant \<Rightarrow> task_record \<Rightarrow> err + 'd event" where
  "task_event D kind now r =
     encode_event (cd_enc_task D) kind (pc_process (tk_scope r)) (pc_revision (tk_scope r)) now
       \<lparr>td_record = r, td_token_hash = tk_token_hash r\<rparr>"

definition task_created_event :: "'d durable_codec \<Rightarrow> instant \<Rightarrow> task_record \<Rightarrow> err + 'd event" where
  "task_created_event D = task_event D ev_task_created"

definition task_resolved_event :: "'d durable_codec \<Rightarrow> instant \<Rightarrow> task_record \<Rightarrow> err + 'd event" where
  "task_resolved_event D = task_event D ev_task_resolved"

subsection \<open>Fold\<close>

record projection =
  pj_session :: session_rec
  pj_processes :: "process_rec list"
  pj_tasks :: "task_record list"

fun is_active_status :: "process_status \<Rightarrow> bool" where
  "is_active_status ProcessQueued = True"
| "is_active_status ProcessRunning = True"
| "is_active_status ProcessStopping = True"
| "is_active_status ProcessWaitingTask = True"
| "is_active_status ProcessInterrupted = True"
| "is_active_status _ = False"

text \<open>Decoding a session into the one folded so far: a map that is there keeps its other keys.\<close>

definition merge_session :: "session_rec \<Rightarrow> session_rec \<Rightarrow> session_rec" where
  "merge_session old new =
     (if se_tags new = [] then new
      else new\<lparr>se_tags := fold (\<lambda>(k, v). mput k v) (se_tags new) (se_tags old)\<rparr>)"

record folded =
  fd_session :: session_rec
  fd_processes :: "(string, process_rec) gomap"
  fd_tasks :: "(string, task_record) gomap"

definition fold_event :: "'d durable_codec \<Rightarrow> 'd event \<Rightarrow> folded \<Rightarrow> err + folded" where
  "fold_event D ev f =
     (if ev_kind ev = ev_session_state then
        (case cd_dec_session D (ev_data ev) of
           Inl e \<Rightarrow> Inl (Wrapped ''decode session.state'' e)
         | Inr s \<Rightarrow> Inr (f\<lparr>fd_session := merge_session (fd_session f) s\<rparr>))
      else if ev_kind ev = ev_process_state then
        (case cd_dec_process D (ev_data ev) of
           Inl e \<Rightarrow> Inl (Wrapped ''decode proc.state'' e)
         | Inr r \<Rightarrow> Inr (f\<lparr>fd_processes := mput (pr_id r) r (fd_processes f)\<rparr>))
      else if ev_kind ev = ev_task_created \<or> ev_kind ev = ev_task_resolved then
        (case cd_dec_task D (ev_data ev) of
           Inl e \<Rightarrow> Inl (Wrapped (''decode '' @ ev_kind ev) e)
         | Inr td \<Rightarrow>
             let r = (td_record td)\<lparr>tk_token_hash := td_token_hash td\<rparr>
             in Inr (f\<lparr>fd_tasks := mput (tk_id r) r (fd_tasks f)\<rparr>))
      else Inr f)"

fun fold_events :: "'d durable_codec \<Rightarrow> 'd event list \<Rightarrow> folded \<Rightarrow> err + folded" where
  "fold_events D [] f = Inr f"
| "fold_events D (ev # evs) f =
     (case fold_event D ev f of Inl e \<Rightarrow> Inl e | Inr f' \<Rightarrow> fold_events D evs f')"

definition derive_session :: "process_rec \<Rightarrow> session_rec \<Rightarrow> session_rec" where
  "derive_session p s =
     (let s1 = (if se_updated s < pr_updated p then s\<lparr>se_updated := pr_updated p\<rparr> else s)
      in if se_active s1 = '''' \<and> is_active_status (pr_status p) then s1\<lparr>se_active := pr_id p\<rparr> else s1)"

definition project :: "folded \<Rightarrow> projection" where
  "project f =
     (let ps = sort_key (\<lambda>p. (pr_created p, pr_id p)) (map snd (fd_processes f)) in
      \<lparr>pj_session = fold derive_session ps (fd_session f), pj_processes = ps,
       pj_tasks = sort_key tk_created (map snd (fd_tasks f))\<rparr>)"

definition fold_stream :: "'d durable_codec \<Rightarrow> 'd event list \<Rightarrow> err + projection" where
  "fold_stream D evs =
     (case fold_events D evs \<lparr>fd_session = zero_session, fd_processes = [], fd_tasks = []\<rparr> of
        Inl e \<Rightarrow> Inl e
      | Inr f \<Rightarrow> Inr (project f))"

subsection \<open>What Fold computes\<close>

text \<open>The process states a stream records, oldest first.\<close>

definition process_states :: "'d durable_codec \<Rightarrow> 'd event list \<Rightarrow> process_rec list" where
  "process_states D evs =
     List.map_filter (\<lambda>ev. if ev_kind ev = ev_process_state
                           then (case cd_dec_process D (ev_data ev) of Inr r \<Rightarrow> Some r | Inl _ \<Rightarrow> None)
                           else None) evs"

definition last_states :: "'d durable_codec \<Rightarrow> 'd event list \<Rightarrow> string \<Rightarrow> process_rec option" where
  "last_states D evs = map_of (map (\<lambda>p. (pr_id p, p)) (rev (process_states D evs)))"

lemma event_kinds [simp]:
  "ev_process_state \<noteq> ev_session_state" "ev_process_state \<noteq> ev_task_created"
  "ev_process_state \<noteq> ev_task_resolved" "ev_session_state \<noteq> ev_process_state"
  "ev_session_state \<noteq> ev_task_created" "ev_session_state \<noteq> ev_task_resolved"
  "ev_task_created \<noteq> ev_session_state" "ev_task_created \<noteq> ev_process_state"
  "ev_task_resolved \<noteq> ev_session_state" "ev_task_resolved \<noteq> ev_process_state"
  by (simp_all add: ev_process_state_def ev_session_state_def ev_task_created_def ev_task_resolved_def)

lemma fold_event_processes:
  assumes "fold_event D ev f = Inr f'"
  shows "fd_processes f' =
    (if ev_kind ev = ev_process_state
     then (case cd_dec_process D (ev_data ev) of Inr r \<Rightarrow> mput (pr_id r) r (fd_processes f) | Inl _ \<Rightarrow> fd_processes f)
     else fd_processes f)"
  using assms by (auto simp: fold_event_def Let_def split: if_splits sum.splits)

lemma fold_event_decodes:
  "fold_event D ev f = Inr f' \<Longrightarrow> ev_kind ev = ev_process_state \<Longrightarrow> \<exists>r. cd_dec_process D (ev_data ev) = Inr r"
  by (auto simp: fold_event_def split: sum.splits)

definition keyed :: "(string, process_rec) gomap \<Rightarrow> bool" where
  "keyed m \<longleftrightarrow> distinct (map fst m) \<and> (\<forall>(k, p) \<in> set m. pr_id p = k)"

lemma keyed_mput: "keyed m \<Longrightarrow> keyed (mput (pr_id p) p m)"
  by (auto simp: keyed_def dest: mput_values)

lemma fold_events_processes:
  assumes "fold_events D evs f = Inr f'" "keyed (fd_processes f)"
  shows "mget (fd_processes f') = mget (fd_processes f) ++ last_states D evs \<and> keyed (fd_processes f')"
  using assms
proof (induction evs arbitrary: f)
  case Nil
  then show ?case by (simp add: last_states_def process_states_def)
next
  case (Cons ev evs)
  obtain f1 where f1: "fold_event D ev f = Inr f1" "fold_events D evs f1 = Inr f'"
    using Cons.prems(1) by (auto split: sum.splits)
  show ?case
  proof (cases "ev_kind ev = ev_process_state")
    case True
    then obtain r where r: "cd_dec_process D (ev_data ev) = Inr r"
      using fold_event_decodes [OF f1(1)] by blast
    then have p: "fd_processes f1 = mput (pr_id r) r (fd_processes f)"
      using fold_event_processes [OF f1(1)] True by simp
    have "last_states D (ev # evs) = [pr_id r \<mapsto> r] ++ last_states D evs"
      using True r by (simp add: last_states_def process_states_def List.map_filter_simps)
    then show ?thesis
    proof -
      have "m ++ ([k \<mapsto> r] ++ x) = m(k \<mapsto> r) ++ x" for m x :: "string \<Rightarrow> process_rec option" and k
        by (rule ext) (simp add: map_add_def split: option.split)
      then show ?thesis
        using \<open>last_states D (ev # evs) = [pr_id r \<mapsto> r] ++ last_states D evs\<close>
          Cons.IH [OF f1(2)] keyed_mput [OF Cons.prems(2), of r] p by (simp only: mget_mput)
    qed
  next
    case False
    then have "fd_processes f1 = fd_processes f" using fold_event_processes [OF f1(1)] by simp
    moreover have "last_states D (ev # evs) = last_states D evs"
      using False by (simp add: last_states_def process_states_def List.map_filter_simps)
    ultimately show ?thesis using Cons.IH [OF f1(2)] Cons.prems(2) by simp
  qed
qed

lemma keyed_values:
  assumes "keyed m"
  shows "p \<in> set (map snd m) \<longleftrightarrow> mget m (pr_id p) = Some p" "distinct (map pr_id (map snd m))"
proof -
  have d: "distinct (map fst m)" and id: "\<forall>x \<in> set m. pr_id (snd x) = fst x"
    using assms by (simp_all add: keyed_def case_prod_unfold)
  have "map pr_id (map snd m) = map fst m" using id by (simp only: map_map) (simp only: map_eq_conv comp_apply)
  then show "distinct (map pr_id (map snd m))" using d by (simp only:)
  have "(p \<in> set (map snd m)) = (\<exists>k. (k, p) \<in> set m)" by (induction m) auto
  moreover have "(\<exists>k. (k, p) \<in> set m) = ((pr_id p, p) \<in> set m)" using id by (metis fst_conv snd_conv)
  ultimately show "p \<in> set (map snd m) \<longleftrightarrow> mget m (pr_id p) = Some p"
    using d by (simp only: map_of_eq_Some_iff)
qed

lemma fold_stream_processes:
  assumes "fold_stream D evs = Inr pj"
  obtains f where "fold_events D evs \<lparr>fd_session = zero_session, fd_processes = [], fd_tasks = []\<rparr> = Inr f"
    "pj = project f" "keyed (fd_processes f)" "mget (fd_processes f) = last_states D evs"
  using assms fold_events_processes [of D evs "\<lparr>fd_session = zero_session, fd_processes = [], fd_tasks = []\<rparr>"]
  by (auto simp: fold_stream_def keyed_def split: sum.splits)

lemma derive_session_active [simp]:
  "se_active (derive_session p s) =
     (if se_active s = [] \<and> is_active_status (pr_status p) then pr_id p else se_active s)"
  by (simp add: derive_session_def Let_def)

lemma derive_sessions_active:
  assumes "se_active s = []" "\<forall>p \<in> set ps. pr_id p \<noteq> []"
  shows "se_active (fold derive_session ps s) =
    (case List.find (\<lambda>p. is_active_status (pr_status p)) ps of Some p \<Rightarrow> pr_id p | None \<Rightarrow> [])"
  using assms
proof (induction ps arbitrary: s)
  case (Cons p ps)
  have keep: "se_active (fold derive_session qs t) = se_active t" if "se_active t \<noteq> []" for qs t
    using that by (induction qs arbitrary: t) simp_all
  show ?case
  proof (cases "is_active_status (pr_status p)")
    case True
    then show ?thesis using Cons.prems keep [of "derive_session p s" ps] by simp
  next
    case False
    then show ?thesis using Cons.IH [of "derive_session p s"] Cons.prems by simp
  qed
qed simp

subsection \<open>Properties\<close>

text \<open>
  A codec on which witnesses evaluate: the payload is the value itself, and decoding compacts the
  raw messages and replaces what is not UTF-8.
\<close>

datatype payload = SessionData session_rec | ProcessData process_rec | TaskData task_event_data

definition demo_forms :: "'r json_forms" where
  "demo_forms =
     \<lparr>jf_manifest = (\<lambda>m. m), jf_tags = map (\<lambda>(k, v). (json_text k, json_text v)),
      jf_syscall = (\<lambda>c. \<lparr>sc_name = json_text (sc_name c), sc_args = strip_ws False (sc_args c)\<rparr>),
      jf_auth = (\<lambda>a. a\<lparr>au_data := strip_ws False (au_data a), au_reason := json_text (au_reason a),
                        au_actor := json_text (au_actor a)\<rparr>),
      jf_result = (\<lambda>r. r)\<rparr>"

abbreviation demo_payload_forms :: "unit json_forms" where
  "demo_payload_forms \<equiv> demo_forms"

definition demo_codec :: "payload durable_codec" where
  "demo_codec =
     \<lparr>cd_enc_session = (\<lambda>s. Inr (SessionData s)),
      cd_dec_session = (\<lambda>d. case d of SessionData s \<Rightarrow> Inr (session_form demo_payload_forms s) | _ \<Rightarrow> Inl json_error),
      cd_enc_process = (\<lambda>p. Inr (ProcessData p)),
      cd_dec_process = (\<lambda>d. case d of ProcessData p \<Rightarrow> Inr (process_form demo_payload_forms p) | _ \<Rightarrow> Inl json_error),
      cd_enc_task = (\<lambda>t. Inr (TaskData t)),
      cd_dec_task = (\<lambda>d. case d of
         TaskData t \<Rightarrow> Inr (t\<lparr>td_record := (task_form demo_payload_forms (td_record t))\<lparr>tk_token_hash := ''''\<rparr>\<rparr>)
       | _ \<Rightarrow> Inl json_error)\<rparr>"

text \<open>Results are not in these payloads, so the forms serve any type of results.\<close>

lemma demo_forms_poly:
  "session_form (demo_forms :: 'r json_forms) = session_form demo_payload_forms"
  "process_form (demo_forms :: 'r json_forms) = process_form demo_payload_forms"
  "task_form (demo_forms :: 'r json_forms) = task_form demo_payload_forms"
  by (simp_all add: fun_eq_iff session_form_def process_form_def task_form_def demo_forms_def)

lemma demo_codec_laws: "codec_laws demo_codec (demo_forms :: 'r json_forms)"
  by (simp add: codec_laws_def demo_codec_def demo_forms_poly [where 'r = 'r])

definition demo_process :: "string \<Rightarrow> instant \<Rightarrow> process_status \<Rightarrow> process_rec" where
  "demo_process i t st =
     \<lparr>pr_id = i, pr_session = ''s'', pr_revision = 1, pr_input = ''hello'', pr_status = st,
      pr_attempt = 1, pr_created = t, pr_updated = t, pr_started = None, pr_completed = None,
      pr_answer = '''', pr_error = '''',
      pr_manifest = \<lparr>m_version = 4, m_program = ''agent'', m_history = None, m_syscalls = [], m_skills = []\<rparr>,
      pr_digest = ''d'', pr_labels = [], pr_fork = 0, pr_aborts = 0\<rparr>"

lemma demo_process_form [simp]:
  "json_kept i \<Longrightarrow> process_form demo_payload_forms (demo_process i t st) = demo_process i t st"
  by (simp add: process_form_def demo_process_def demo_forms_def json_text_ascii json_keptD)

lemma demo_ids_kept [simp]: "json_kept ''p1''" "json_kept ''p2''"
  by (rule ascii_kept; simp)+

lemma demo_process_id [simp]: "pr_id (demo_process i t st) = i"
  by (simp add: demo_process_def)

definition demo_event :: "process_rec \<Rightarrow> payload event" where
  "demo_event p =
     \<lparr>ev_seq = 0, ev_kind = ev_process_state, ev_time = 0, ev_proc = pr_id p, ev_rev = 1, ev_data = ProcessData p\<rparr>"

definition demo_stream :: "payload event list" where
  "demo_stream =
     [demo_event (demo_process ''p2'' 20 ProcessQueued), demo_event (demo_process ''p1'' 10 ProcessRunning),
      demo_event (demo_process ''p2'' 20 ProcessInterrupted), demo_event (demo_process ''p1'' 10 ProcessCompleted)]"

lemma demo_stream_fold:
  "fold_stream demo_codec demo_stream = Inr
     (project \<lparr>fd_session = zero_session,
        fd_processes = [(''p2'', demo_process ''p2'' 20 ProcessInterrupted), (''p1'', demo_process ''p1'' 10 ProcessCompleted)],
        fd_tasks = []\<rparr>)"
  by (simp add: fold_stream_def demo_stream_def demo_event_def fold_event_def demo_codec_def)

text \<open>C26. Fold is last-writer-wins: the processes of the projection are exactly the last
  recorded state of each process id in the stream, one per id, in order of creation and then
  id, whatever the order the map is walked in and whatever other events lie between.\<close>

theorem fold_last_writer_wins:
  assumes "fold_stream D evs = Inr pj"
  shows "(\<forall>p. p \<in> set (pj_processes pj) \<longleftrightarrow> last_states D evs (pr_id p) = Some p) \<and>
    distinct (map pr_id (pj_processes pj)) \<and>
    sorted (map (\<lambda>p. (pr_created p, pr_id p)) (pj_processes pj))"
proof -
  obtain f where f: "pj = project f" "keyed (fd_processes f)" "mget (fd_processes f) = last_states D evs"
    using fold_stream_processes [OF assms] by blast
  have "distinct (map pr_id (sort_key key ps)) = distinct (map pr_id ps)" for key :: "process_rec \<Rightarrow> int \<times> string" and ps
    by (simp add: distinct_map)
  then have "distinct (map pr_id (sort_key (\<lambda>p. (pr_created p, pr_id p)) (map snd (fd_processes f))))"
    using keyed_values(2) [OF f(2)] by blast
  then show ?thesis
    using keyed_values(1) [OF f(2)] f(3) by (simp add: f(1) project_def Let_def)
qed

theorem fold_last_writer_wins_witness:
  "\<exists>pj. fold_stream demo_codec demo_stream = Inr pj \<and>
     demo_process ''p2'' 20 ProcessInterrupted \<in> set (pj_processes pj)"
proof -
  let ?p = "demo_process ''p2'' 20 ProcessInterrupted"
  obtain pj where pj: "fold_stream demo_codec demo_stream = Inr pj" using demo_stream_fold by blast
  have id: "pr_id ?p = ''p2''" by (simp add: demo_process_def)
  have "last_states demo_codec demo_stream ''p2'' = Some ?p"
    by (simp add: last_states_def process_states_def demo_stream_def demo_event_def demo_codec_def
        List.map_filter_simps)
  then have "?p \<in> set (pj_processes pj)"
    using conjunct1 [OF fold_last_writer_wins [OF pj], rule_format, of ?p] unfolding id by blast
  with pj show ?thesis by blast
qed

text \<open>C27. The foreground of a restored session: when no session state of the stream names an active
  process (the runtime writes none: \<open>storedSession\<close> leaves the field out, it is derived), the
  restored session's active process is the earliest created one whose last recorded status is
  not completed, failed or stopped, and there is none when every process is.\<close>

theorem fold_foreground:
  assumes "fold_stream D evs = Inr pj"
    and "\<forall>ev \<in> set evs. ev_kind ev = ev_session_state \<longrightarrow> (\<forall>s. cd_dec_session D (ev_data ev) = Inr s \<longrightarrow> se_active s = [])"
    and "\<forall>p \<in> set (pj_processes pj). pr_id p \<noteq> []"
  shows "se_active (pj_session pj) =
    (case List.find (\<lambda>p. is_active_status (pr_status p)) (pj_processes pj) of
       Some p \<Rightarrow> pr_id p | None \<Rightarrow> [])"
proof -
  obtain f where f: "fold_events D evs \<lparr>fd_session = zero_session, fd_processes = [], fd_tasks = []\<rparr> = Inr f"
    "pj = project f" using fold_stream_processes [OF assms(1)] by blast
  have step: "se_active (fd_session g') = []"
    if "fold_event D ev g = Inr g'" "se_active (fd_session g) = []"
      "ev_kind ev = ev_session_state \<longrightarrow> (\<forall>s. cd_dec_session D (ev_data ev) = Inr s \<longrightarrow> se_active s = [])" for ev g g'
    using that by (auto simp: fold_event_def merge_session_def Let_def split: if_splits sum.splits)
  have "se_active (fd_session g') = []"
    if "fold_events D es g = Inr g'" "se_active (fd_session g) = []"
      "\<forall>ev \<in> set es. ev_kind ev = ev_session_state \<longrightarrow> (\<forall>s. cd_dec_session D (ev_data ev) = Inr s \<longrightarrow> se_active s = [])"
    for es g g'
    using that
  proof (induction es arbitrary: g)
    case (Cons ev es)
    then show ?case using step [of ev g] by (auto split: sum.splits)
  qed simp
  from this [OF f(1)] assms(2) have "se_active (fd_session f) = []" by (simp add: zero_session_def)
  then show ?thesis
    using derive_sessions_active [of "fd_session f" "pj_processes pj"] assms(3)
    by (simp add: f(2) project_def Let_def)
qed

definition demo_session_event :: "payload event" where
  "demo_session_event =
     \<lparr>ev_seq = 0, ev_kind = ev_session_state, ev_time = 0, ev_proc = '''', ev_rev = 0,
      ev_data = SessionData \<lparr>se_id = ''s'', se_name = ''n'', se_created = 1, se_updated = 1, se_active = '''', se_tags = []\<rparr>\<rparr>"

theorem fold_foreground_witness:
  "\<exists>pj. fold_stream demo_codec (demo_session_event # demo_stream) = Inr pj \<and> se_id (pj_session pj) = ''s'' \<and>
     se_active (pj_session pj) = ''p2''"
proof -
  let ?S = "\<lparr>se_id = ''s'', se_name = ''n'', se_created = 1, se_updated = 1, se_active = '''', se_tags = []\<rparr>"
  have S: "session_form demo_payload_forms ?S = ?S" by (simp add: session_form_def demo_forms_def json_text_ascii)
  let ?pj = "project \<lparr>fd_session = merge_session zero_session ?S,
        fd_processes = [(''p2'', demo_process ''p2'' 20 ProcessInterrupted), (''p1'', demo_process ''p1'' 10 ProcessCompleted)],
        fd_tasks = []\<rparr>"
  have kinds: "ev_process_state \<noteq> ev_session_state" by (simp add: ev_process_state_def ev_session_state_def)
  have r: "fold_stream demo_codec (demo_session_event # demo_stream) = Inr ?pj"
    by (simp add: fold_stream_def demo_stream_def demo_session_event_def demo_event_def fold_event_def demo_codec_def
        kinds S)
  have ps: "pj_processes ?pj = [demo_process ''p1'' 10 ProcessCompleted, demo_process ''p2'' 20 ProcessInterrupted]"
    by (simp add: project_def Let_def demo_process_def)
  have "se_active (pj_session ?pj) =
      (case List.find (\<lambda>p. is_active_status (pr_status p)) (pj_processes ?pj) of Some p \<Rightarrow> pr_id p | None \<Rightarrow> [])"
  proof (rule fold_foreground [OF r])
    show "\<forall>p \<in> set (pj_processes ?pj). pr_id p \<noteq> []" unfolding ps by (simp add: demo_process_def)
    show "\<forall>ev \<in> set (demo_session_event # demo_stream). ev_kind ev = ev_session_state \<longrightarrow>
        (\<forall>s. cd_dec_session demo_codec (ev_data ev) = Inr s \<longrightarrow> se_active s = [])"
      by (simp add: demo_session_event_def demo_stream_def demo_event_def kinds demo_codec_def)
  qed
  moreover have "se_id (pj_session ?pj) = ''s''"
    by (simp add: project_def Let_def merge_session_def zero_session_def derive_session_def)
  ultimately show ?thesis using r ps by (simp add: demo_process_def)
qed

end
