(* ===== verification/Tape.thy ===== *)
theory Tape
  imports SysApi
begin

text \<open>
  The replay boundary: \<open>replay/replay.go\<close> (the dispatcher that serves a recorded result or
  journals, runs and completes a new call) and \<open>journaled/tape.go\<close> (records, the cursor of a
  tape, and the structure check).

  A world of the chain extends the tape's record: the tape's cursor and pending flag, the state
  of the journal it writes, and whatever the layers below keep. The journal is reached through
  a record of its three operations, as the Go interface is. The locale \<open>journal_store\<close> states
  what the tape relies on; everything proved inside it holds of every journal that keeps it.
\<close>

subsection \<open>Records and journals\<close>

datatype kind = KindIntent | KindCompletion | KindOther string

record 'r jrecord =
  jr_position :: nat
  jr_kind :: kind
  jr_revision :: nat
  jr_syscall :: "syscall option"
  jr_result :: "'r option"

record ('j, 'r) journal_ops =
  j_load :: "'j \<Rightarrow> nat \<Rightarrow> err + 'r jrecord"
  j_append :: "'r jrecord \<Rightarrow> 'j \<Rightarrow> err option \<times> 'j"
  j_length :: "'j \<Rightarrow> nat"

definition append_record :: "('j, 'r) journal_ops \<Rightarrow> 'r jrecord \<Rightarrow> 'j \<Rightarrow> err option \<times> 'j" where
  "append_record J r j = j_append J (r\<lparr>jr_position := j_length J j\<rparr>) j"

definition same_syscall :: "syscall \<Rightarrow> syscall \<Rightarrow> bool" where
  "same_syscall a b \<longleftrightarrow> sc_name a = sc_name b \<and> sc_args a = sc_args b"

lemma same_syscall_eq [simp]: "same_syscall a b \<longleftrightarrow> a = (b :: syscall)"
  by (cases a; cases b) (simp add: same_syscall_def)

subsection \<open>Verify\<close>

fun verify_loop :: "('j, 'r) journal_ops \<Rightarrow> 'j \<Rightarrow> bool \<Rightarrow> nat list \<Rightarrow> err option" where
  "verify_loop J j want_intent [] = None"
| "verify_loop J j want_intent (p # ps) =
     (case j_load J j p of
        Inl e \<Rightarrow> Some e
      | Inr r \<Rightarrow>
          if jr_position r \<noteq> p then
            Some (CorruptJournal p (''record carries position '' @ show_nat (jr_position r)))
          else if want_intent then
            (if jr_kind r \<noteq> KindIntent \<or> jr_syscall r = None
             then Some (CorruptJournal p ''expected an intent record'')
             else verify_loop J j False ps)
          else
            (if jr_kind r \<noteq> KindCompletion \<or> jr_result r = None
             then Some (CorruptJournal p ''expected a completion record'')
             else verify_loop J j True ps))"

definition verify :: "('j, 'r) journal_ops \<Rightarrow> 'j \<Rightarrow> err option" where
  "verify J j = verify_loop J j True [0..<j_length J j]"

text \<open>The structure it checks.\<close>

definition record_ok :: "nat \<Rightarrow> 'r jrecord \<Rightarrow> bool" where
  "record_ok i r \<longleftrightarrow>
     jr_position r = i \<and>
     (if even i then jr_kind r = KindIntent \<and> jr_syscall r \<noteq> None
      else jr_kind r = KindCompletion \<and> jr_result r \<noteq> None)"

definition wf_records :: "'r jrecord list \<Rightarrow> bool" where
  "wf_records rs \<longleftrightarrow> (\<forall>i < length rs. record_ok i (rs ! i))"

lemma wf_records_Nil [simp]: "wf_records []"
  by (simp add: wf_records_def)

lemma wf_records_snoc: "wf_records (rs @ [r]) \<longleftrightarrow> wf_records rs \<and> record_ok (length rs) r"
  by (auto simp: wf_records_def nth_append less_Suc_eq)

lemma wf_records_take: "wf_records rs \<Longrightarrow> wf_records (take n rs)"
  by (simp add: wf_records_def)

lemma record_ok_revision [simp]: "record_ok i (r\<lparr>jr_revision := v\<rparr>) \<longleftrightarrow> record_ok i r"
  by (simp add: record_ok_def)

subsection \<open>The tape\<close>

record 'j tape =
  tp_journal :: 'j
  tp_cursor :: nat
  tp_pending :: bool

definition new_tape :: "'j \<Rightarrow> 'j tape" where
  "new_tape j = \<lparr>tp_journal = j, tp_cursor = 0, tp_pending = False\<rparr>"

text \<open>
  \<open>Tape.Next\<close>: \<open>Inr (Some r)\<close> is a recorded outcome, \<open>Inr None\<close> a new syscall. A record of the
  wrong kind has no payload, and dereferencing it panics.
\<close>

definition tape_next ::
    "('j, 'r) journal_ops \<Rightarrow> syscall \<Rightarrow> ('j, 'z) tape_scheme \<Rightarrow> (err + 'r option) \<times> ('j, 'z) tape_scheme"
where
  "tape_next J c w =
     (if j_length J (tp_journal w) \<le> tp_cursor w then (Inr None, w)
      else case j_load J (tp_journal w) (tp_cursor w) of
          Inl e \<Rightarrow> (Inl e, w)
        | Inr intent \<Rightarrow>
            (case jr_syscall intent of
               None \<Rightarrow> (Inl NilDeref, w)
             | Some recorded \<Rightarrow>
                 if \<not> same_syscall recorded c then
                   (Inl (ReplayDiverged (tp_cursor w) recorded c), w)
                 else if j_length J (tp_journal w) \<le> tp_cursor w + 1 then
                   (Inl (OpenIntent (jr_position intent) c),
                    w\<lparr>tp_cursor := tp_cursor w + 1, tp_pending := True\<rparr>)
                 else
                   (case j_load J (tp_journal w) (tp_cursor w + 1) of
                      Inl e \<Rightarrow> (Inl e, w)
                    | Inr completion \<Rightarrow>
                        (case jr_result completion of
                           None \<Rightarrow> (Inl NilDeref, w\<lparr>tp_cursor := tp_cursor w + 2\<rparr>)
                         | Some r \<Rightarrow> (Inr (Some r), w\<lparr>tp_cursor := tp_cursor w + 2\<rparr>)))))"

definition intent_record :: "syscall \<Rightarrow> 'r jrecord" where
  "intent_record c =
     \<lparr>jr_position = 0, jr_kind = KindIntent, jr_revision = 0, jr_syscall = Some c, jr_result = None\<rparr>"

definition completion_record :: "'r \<Rightarrow> 'r jrecord" where
  "completion_record r =
     \<lparr>jr_position = 0, jr_kind = KindCompletion, jr_revision = 0, jr_syscall = None, jr_result = Some r\<rparr>"

definition tape_begin ::
    "('j, 'r) journal_ops \<Rightarrow> syscall \<Rightarrow> ('j, 'z) tape_scheme \<Rightarrow> err option \<times> ('j, 'z) tape_scheme"
where
  "tape_begin J c w =
     (if tp_pending w then
        (Some (Plain (''begin: an intent is already open at position '' @
                      show_int (int (j_length J (tp_journal w)) - 1))), w)
      else case append_record J (intent_record c) (tp_journal w) of
          (Some e, j) \<Rightarrow> (Some e, w\<lparr>tp_journal := j\<rparr>)
        | (None, j) \<Rightarrow>
            (None, w\<lparr>tp_journal := j, tp_cursor := tp_cursor w + 1, tp_pending := True\<rparr>))"

definition tape_commit ::
    "('j, 'r) journal_ops \<Rightarrow> 'r \<Rightarrow> ('j, 'z) tape_scheme \<Rightarrow> err option \<times> ('j, 'z) tape_scheme"
where
  "tape_commit J r w =
     (case append_record J (completion_record r) (tp_journal w) of
        (Some e, j) \<Rightarrow> (Some e, w\<lparr>tp_journal := j\<rparr>)
      | (None, j) \<Rightarrow>
          (None, w\<lparr>tp_journal := j, tp_cursor := tp_cursor w + 1, tp_pending := False\<rparr>))"

subsection \<open>The replay dispatcher\<close>

text \<open>\<open>errors.As(err, &open)\<close>, which unwraps.\<close>

fun as_open_intent :: "err \<Rightarrow> bool" where
  "as_open_intent (OpenIntent _ _) = True"
| "as_open_intent (Wrapped _ e) = as_open_intent e"
| "as_open_intent _ = False"

text \<open>The part of \<open>Dispatch\<close> after the intent is on the journal.\<close>

definition replay_drive ::
    "'r sysapi \<Rightarrow> ('j, 'r) journal_ops \<Rightarrow> ('k, 'r, ('j, 'z) tape_scheme) dispatcher \<Rightarrow>
     ('k, 'r, ('j, 'z) tape_scheme) dispatcher"
where
  "replay_drive S J next taint cred c auth w =
     (case next taint cred c auth w of
        (Inl e, w1) \<Rightarrow> (Inl e, w1)
      | (Inr r, w1) \<Rightarrow>
          if status_of S r = StatusYield then (Inr r, w1)
          else case tape_commit J r w1 of
              (Some e, w2) \<Rightarrow> (Inl e, w2)
            | (None, w2) \<Rightarrow> (Inr r, w2))"

definition replay_dispatch ::
    "'r sysapi \<Rightarrow> ('j, 'r) journal_ops \<Rightarrow> ('k, 'r, ('j, 'z) tape_scheme) dispatcher \<Rightarrow>
     ('k, 'r, ('j, 'z) tape_scheme) dispatcher"
where
  "replay_dispatch S J next taint cred c auth w =
     (case tape_next J c w of
        (Inr (Some r), w1) \<Rightarrow> (Inr r, w1)
      | (Inr None, w1) \<Rightarrow>
          (case tape_begin J c w1 of
             (Some e, w2) \<Rightarrow> (Inl e, w2)
           | (None, w2) \<Rightarrow> replay_drive S J next taint cred c auth w2)
      | (Inl e, w1) \<Rightarrow>
          if as_open_intent e then replay_drive S J next taint cred c auth w1
          else (Inl e, w1))"

text \<open>
  The layer above replay hands a taint down, which it reads off the world, and notes every
  result it gets (the flow monitor's \<open>Track\<close>, which instantiates \<open>look\<close> and \<open>note\<close>). What it
  notes is not part of the tape.
\<close>

definition tracked ::
    "'r sysapi \<Rightarrow> ('j, 'r) journal_ops \<Rightarrow> ('k, 'r, ('j, 'z) tape_scheme) dispatcher \<Rightarrow>
     (syscall \<Rightarrow> ('j, 'z) tape_scheme \<Rightarrow> taint) \<Rightarrow>
     (syscall \<Rightarrow> 'r \<Rightarrow> ('j, 'z) tape_scheme \<Rightarrow> ('j, 'z) tape_scheme) \<Rightarrow> 'k \<Rightarrow> authorization \<Rightarrow>
     syscall \<Rightarrow> ('j, 'z) tape_scheme \<Rightarrow> (err + 'r) \<times> ('j, 'z) tape_scheme"
where
  "tracked S J next look note cred auth c w =
     (case replay_dispatch S J next (look c w) cred c auth w of
        (Inl e, w1) \<Rightarrow> (Inl e, w1)
      | (Inr r, w1) \<Rightarrow> (Inr r, note c r w1))"

definition note_ok :: "(syscall \<Rightarrow> 'r \<Rightarrow> ('j, 'z) tape_scheme \<Rightarrow> ('j, 'z) tape_scheme) \<Rightarrow> bool" where
  "note_ok note \<longleftrightarrow>
     (\<forall>c r w. tp_journal (note c r w) = tp_journal w \<and> tp_cursor (note c r w) = tp_cursor w \<and>
        tp_pending (note c r w) = tp_pending w \<and>
        (\<forall>n. note c r (w\<lparr>tp_cursor := n\<rparr>) = (note c r w)\<lparr>tp_cursor := n\<rparr>))"

subsection \<open>A guest run\<close>

text \<open>
  A guest is deterministic: its next call is a function of the results it has seen. The client
  of the tape is the guest with the validator in front of it, which answers what it refuses by
  itself and as deterministically, so a client, too, is a function of the results the tape
  served. A quantum ends when the client ends, when a call yields, or when a call returns an
  error (a crash, a divergence, a journal that cannot be written). \<open>pairs\<close> are a journal's
  completed calls, and \<open>follows g\<close> says that a journal records a run of \<open>g\<close>.
\<close>

type_synonym 'r guest = "'r list \<Rightarrow> syscall option"

datatype run_end = Finished | Parked | Crashed err | OutOfSteps

fun run_guest ::
    "nat \<Rightarrow> 'r sysapi \<Rightarrow> (syscall \<Rightarrow> 'w \<Rightarrow> (err + 'r) \<times> 'w) \<Rightarrow> 'r guest \<Rightarrow> 'r list \<Rightarrow> 'w \<Rightarrow>
     run_end \<times> 'r list \<times> 'w"
where
  "run_guest 0 S d g obs w = (OutOfSteps, obs, w)"
| "run_guest (Suc n) S d g obs w =
     (case g obs of
        None \<Rightarrow> (Finished, obs, w)
      | Some c \<Rightarrow>
          (case d c w of
             (Inl e, w1) \<Rightarrow> (Crashed e, obs, w1)
           | (Inr r, w1) \<Rightarrow>
               if status_of S r = StatusYield then (Parked, obs, w1)
               else run_guest n S d g (obs @ [r]) w1))"

fun pairs :: "'r jrecord list \<Rightarrow> (syscall \<times> 'r) list" where
  "pairs (a # b # rs) = (the (jr_syscall a), the (jr_result b)) # pairs rs"
| "pairs _ = []"

lemma pairs_length: "length (pairs rs) = length rs div 2"
  by (induction rs rule: pairs.induct) auto

lemma pairs_append: "even (length xs) \<Longrightarrow> pairs (xs @ ys) = pairs xs @ pairs ys"
  by (induction xs rule: pairs.induct) auto

lemma pairs_nth:
  "i < length rs div 2 \<Longrightarrow> pairs rs ! i = (the (jr_syscall (rs ! (2 * i))), the (jr_result (rs ! (2 * i + 1))))"
proof (induction rs arbitrary: i rule: pairs.induct)
  case (1 a b rs)
  then show ?case by (cases i) auto
qed auto

lemma pairs_snoc: "odd (length rs) \<Longrightarrow> pairs (rs @ [r]) = pairs rs @ [(the (jr_syscall (last rs)), the (jr_result r))]"
  by (induction rs rule: pairs.induct) auto

lemma pairs_snoc_even: "even (length rs) \<Longrightarrow> pairs (rs @ [r]) = pairs rs"
  by (simp add: pairs_append)

definition follows :: "'r guest \<Rightarrow> 'r jrecord list \<Rightarrow> bool" where
  "follows g rs \<longleftrightarrow>
     (\<forall>i < length (pairs rs). g (map snd (take i (pairs rs))) = Some (fst (pairs rs ! i))) \<and>
     (odd (length rs) \<longrightarrow> g (map snd (pairs rs)) = jr_syscall (last rs))"

text \<open>No recorded outcome is a yield: a yield leaves its intent open.\<close>

definition settled :: "'r sysapi \<Rightarrow> 'r jrecord list \<Rightarrow> bool" where
  "settled S rs \<longleftrightarrow> (\<forall>p \<in> set (pairs rs). status_of S (snd p) \<noteq> StatusYield)"

subsection \<open>What the tape keeps\<close>

text \<open>
  Between calls the tape is at a pair boundary, or it owns the open intent at the tail.
\<close>

definition tape_ok :: "('j \<Rightarrow> 'r jrecord list) \<Rightarrow> ('j \<Rightarrow> bool) \<Rightarrow> ('j, 'z) tape_scheme \<Rightarrow> bool" where
  "tape_ok recs ok w \<longleftrightarrow>
     ok (tp_journal w) \<and> wf_records (recs (tp_journal w)) \<and>
     tp_cursor w \<le> length (recs (tp_journal w)) \<and>
     (if tp_pending w then tp_cursor w = length (recs (tp_journal w)) \<and> odd (tp_cursor w)
      else even (tp_cursor w))"

text \<open>The layers below may change anything except the journal's records and the tape.\<close>

definition below_ok ::
    "('j \<Rightarrow> 'r jrecord list) \<Rightarrow> ('j \<Rightarrow> bool) \<Rightarrow> ('k, 'r, ('j, 'z) tape_scheme) dispatcher \<Rightarrow> bool"
where
  "below_ok recs ok next \<longleftrightarrow>
     (\<forall>t k c a w. ok (tp_journal w) \<longrightarrow>
        ok (tp_journal (snd (next t k c a w))) \<and>
        recs (tp_journal (snd (next t k c a w))) = recs (tp_journal w) \<and>
        tp_cursor (snd (next t k c a w)) = tp_cursor w \<and>
        tp_pending (snd (next t k c a w)) = tp_pending w)"

lemma below_okD:
  assumes "below_ok recs ok next" "ok (tp_journal w)" "next t k c a w = (x, w')"
  shows "ok (tp_journal w')" "recs (tp_journal w') = recs (tp_journal w)"
    "tp_cursor w' = tp_cursor w" "tp_pending w' = tp_pending w"
  using assms unfolding below_ok_def by (metis snd_conv)+

text \<open>The open intent of \<open>c\<close> is on the journal: the only worlds a call is run in.\<close>

definition intent_open :: "('j \<Rightarrow> 'r jrecord list) \<Rightarrow> syscall \<Rightarrow> ('j, 'z) tape_scheme \<Rightarrow> bool" where
  "intent_open recs c w \<longleftrightarrow>
     tp_pending w \<and> odd (length (recs (tp_journal w))) \<and>
     jr_syscall (last (recs (tp_journal w))) = Some c"

text \<open>What a call may do to the records.\<close>

definition grows_by :: "'r jrecord list \<Rightarrow> 'r jrecord list \<Rightarrow> 'r jrecord list \<Rightarrow> bool" where
  "grows_by rs ys rs' \<longleftrightarrow> rs' = rs @ ys \<and> length ys \<le> 2"

text \<open>A new quantum's tape over the journal an earlier one left.\<close>

definition rewind :: "('j, 'z) tape_scheme \<Rightarrow> ('j, 'z) tape_scheme" where
  "rewind w = w\<lparr>tp_cursor := 0, tp_pending := False\<rparr>"

text \<open>
  A journal that records a run of \<open>g\<close>, and a tape that has served exactly what the client saw.
\<close>

definition records_run ::
    "('j \<Rightarrow> 'r jrecord list) \<Rightarrow> ('j \<Rightarrow> bool) \<Rightarrow> 'r sysapi \<Rightarrow> 'r guest \<Rightarrow> ('j, 'z) tape_scheme \<Rightarrow> bool"
where
  "records_run recs ok S g w \<longleftrightarrow>
     tape_ok recs ok w \<and> follows g (recs (tp_journal w)) \<and> settled S (recs (tp_journal w))"

definition has_seen :: "('j \<Rightarrow> 'r jrecord list) \<Rightarrow> 'r list \<Rightarrow> ('j, 'z) tape_scheme \<Rightarrow> bool" where
  "has_seen recs obs w \<longleftrightarrow>
     2 * length obs \<le> length (recs (tp_journal w)) \<and>
     obs = map snd (take (length obs) (pairs (recs (tp_journal w))))"

definition synced :: "('j \<Rightarrow> 'r jrecord list) \<Rightarrow> 'r list \<Rightarrow> ('j, 'z) tape_scheme \<Rightarrow> bool" where
  "synced recs obs w \<longleftrightarrow>
     \<not> tp_pending w \<and> tp_cursor w = 2 * length obs \<and> has_seen recs obs w"

lemma pairs_prefix: "\<exists>zs. pairs (rs @ ys) = pairs rs @ zs"
  by (induction rs rule: pairs.induct) auto

lemma has_seen_grow:
  assumes "has_seen recs obs w" "recs (tp_journal w') = recs (tp_journal w) @ ys"
  shows "has_seen recs obs w'"
proof -
  obtain zs where z: "pairs (recs (tp_journal w')) = pairs (recs (tp_journal w)) @ zs"
    using pairs_prefix [of "recs (tp_journal w)" ys] assms(2) by auto
  have "length obs \<le> length (pairs (recs (tp_journal w)))"
    using assms(1) unfolding has_seen_def pairs_length by linarith
  then show ?thesis using assms z by (simp add: has_seen_def)
qed

lemma follows_intent:
  assumes "even (length rs)" "follows g rs" "g (map snd (pairs rs)) = jr_syscall i"
  shows "follows g (rs @ [i])"
  using assms by (simp add: follows_def pairs_snoc_even)

lemma follows_completion:
  assumes "odd (length rs)" "follows g rs" "jr_syscall (last rs) = Some c" "jr_result k = Some r"
  shows "follows g (rs @ [k])"
  using assms by (auto simp: follows_def pairs_snoc nth_append less_Suc_eq)

lemma settled_intent: "even (length rs) \<Longrightarrow> settled S (rs @ [i]) = settled S rs"
  by (simp add: settled_def pairs_snoc_even)

lemma settled_completion:
  "odd (length rs) \<Longrightarrow> jr_result k = Some r \<Longrightarrow> status_of S r \<noteq> StatusYield \<Longrightarrow> settled S rs \<Longrightarrow>
     settled S (rs @ [k])"
  by (simp add: settled_def pairs_snoc)

locale journal_store =
  fixes J :: "('j, 'r) journal_ops"
    and recs :: "'j \<Rightarrow> 'r jrecord list"
    and ok :: "'j \<Rightarrow> bool"
  assumes store_length: "ok j \<Longrightarrow> j_length J j = length (recs j)"
    and store_load: "ok j \<Longrightarrow> i < length (recs j) \<Longrightarrow> j_load J j i = Inr (recs j ! i)"
    and store_append: "ok j \<Longrightarrow> jr_position r = length (recs j) \<Longrightarrow> j_append J r j = (None, j') \<Longrightarrow>
          ok j' \<and> (\<exists>v. recs j' = recs j @ [r\<lparr>jr_revision := v\<rparr>])"
    and store_refuse: "ok j \<Longrightarrow> jr_position r = length (recs j) \<Longrightarrow> j_append J r j = (Some e, j') \<Longrightarrow>
          ok j' \<and> recs j' = recs j"
begin

lemma append_record_ok:
  assumes "ok j" "append_record J r j = (None, j')"
  obtains v where "ok j'" "recs j' = recs j @ [r\<lparr>jr_position := length (recs j), jr_revision := v\<rparr>]"
  using assms store_append [of j "r\<lparr>jr_position := length (recs j)\<rparr>" j']
  by (auto simp: append_record_def store_length)

lemma append_record_err:
  assumes "ok j" "append_record J r j = (Some e, j')"
  shows "ok j' \<and> recs j' = recs j"
  using assms store_refuse [of j "r\<lparr>jr_position := length (recs j)\<rparr>" e j']
  by (auto simp: append_record_def store_length)

lemma verify_loop_iff:
  "ok j \<Longrightarrow> n + m = length (recs j) \<Longrightarrow>
     verify_loop J j (even n) [n..<n + m] = None \<longleftrightarrow> (\<forall>i. n \<le> i \<and> i < n + m \<longrightarrow> record_ok i (recs j ! i))"
proof (induction m arbitrary: n)
  case (Suc m)
  have up: "[n..<n + Suc m] = n # [Suc n..<Suc n + m]"
    by (simp add: upt_rec [of n])
  have all: "(\<forall>i. n \<le> i \<and> i < n + Suc m \<longrightarrow> record_ok i (recs j ! i)) \<longleftrightarrow>
      record_ok n (recs j ! n) \<and> (\<forall>i. Suc n \<le> i \<and> i < Suc n + m \<longrightarrow> record_ok i (recs j ! i))"
    by (metis Suc_leD Suc_leI add_Suc_shift le_add1 le_eq_less_or_eq less_add_Suc1 not_less_eq_eq)
  have "verify_loop J j (even (Suc n)) [Suc n..<Suc n + m] = None \<longleftrightarrow>
      (\<forall>i. Suc n \<le> i \<and> i < Suc n + m \<longrightarrow> record_ok i (recs j ! i))"
    using Suc.IH [of "Suc n"] Suc.prems by (simp del: upt_Suc)
  then show ?case
    unfolding up all using Suc.prems
    by (cases "even n") (auto simp: store_load record_ok_def simp del: upt_Suc)
qed auto

text \<open>\<open>Verify\<close> decides the structure.\<close>

lemma verify_iff: "ok j \<Longrightarrow> verify J j = None \<longleftrightarrow> wf_records (recs j)"
  using verify_loop_iff [of j 0 "length (recs j)"]
  by (simp add: verify_def store_length wf_records_def)

subsection \<open>One call\<close>

lemma record_at:
  assumes "tape_ok recs ok w" "i < length (recs (tp_journal w))"
  shows "j_load J (tp_journal w) i = Inr (recs (tp_journal w) ! i)"
    and "even i \<Longrightarrow> \<exists>c. jr_syscall (recs (tp_journal w) ! i) = Some c"
    and "odd i \<Longrightarrow> \<exists>r. jr_result (recs (tp_journal w) ! i) = Some r"
    and "jr_position (recs (tp_journal w) ! i) = i"
  using assms by (auto simp: tape_ok_def store_load wf_records_def record_ok_def)

text \<open>The four answers of \<open>Next\<close> on a well-formed tape.\<close>

lemma tape_next_fresh:
  "tape_ok recs ok w \<Longrightarrow> tp_cursor w = length (recs (tp_journal w)) \<Longrightarrow> tape_next J c w = (Inr None, w)"
  by (simp add: tape_next_def tape_ok_def store_length)

lemma tape_next_diverged:
  assumes "tape_ok recs ok w" "tp_cursor w < length (recs (tp_journal w))"
    and "jr_syscall (recs (tp_journal w) ! tp_cursor w) = Some b" "b \<noteq> c"
  shows "tape_next J c w = (Inl (ReplayDiverged (tp_cursor w) b c), w)"
  using assms by (simp add: tape_next_def tape_ok_def store_length store_load)

lemma tape_next_open:
  assumes "tape_ok recs ok w" "Suc (tp_cursor w) = length (recs (tp_journal w))"
    and "jr_syscall (recs (tp_journal w) ! tp_cursor w) = Some c"
  shows "tape_next J c w =
    (Inl (OpenIntent (tp_cursor w) c), w\<lparr>tp_cursor := Suc (tp_cursor w), tp_pending := True\<rparr>)"
  using assms record_at(4) [OF assms(1), of "tp_cursor w"]
  by (simp add: tape_next_def tape_ok_def store_length store_load)

lemma tape_next_recorded:
  assumes "tape_ok recs ok w" "Suc (tp_cursor w) < length (recs (tp_journal w))"
    and "jr_syscall (recs (tp_journal w) ! tp_cursor w) = Some c"
    and "jr_result (recs (tp_journal w) ! Suc (tp_cursor w)) = Some r"
  shows "tape_next J c w = (Inr (Some r), w\<lparr>tp_cursor := tp_cursor w + 2\<rparr>)"
  using assms by (simp add: tape_next_def tape_ok_def store_length store_load)

lemma not_pending: "tape_ok recs ok w \<Longrightarrow> tp_cursor w < length (recs (tp_journal w)) \<Longrightarrow> \<not> tp_pending w"
  by (auto simp: tape_ok_def split: if_splits)

lemma cursor_even: "tape_ok recs ok w \<Longrightarrow> \<not> tp_pending w \<Longrightarrow> even (tp_cursor w)"
  by (simp add: tape_ok_def)

text \<open>The five cases of a call.\<close>

lemma call_cases [consumes 1, case_names pending fresh diverged reopened recorded]:
  assumes w: "tape_ok recs ok w"
  obtains
    "tp_pending w" "tp_cursor w = length (recs (tp_journal w))"
  | "\<not> tp_pending w" "tp_cursor w = length (recs (tp_journal w))" "even (tp_cursor w)"
  | b where "\<not> tp_pending w" "tp_cursor w < length (recs (tp_journal w))"
      "jr_syscall (recs (tp_journal w) ! tp_cursor w) = Some b" "b \<noteq> c"
  | "\<not> tp_pending w" "Suc (tp_cursor w) = length (recs (tp_journal w))" "even (tp_cursor w)"
      "jr_syscall (recs (tp_journal w) ! tp_cursor w) = Some c"
  | r where "\<not> tp_pending w" "Suc (tp_cursor w) < length (recs (tp_journal w))" "even (tp_cursor w)"
      "jr_syscall (recs (tp_journal w) ! tp_cursor w) = Some c"
      "jr_result (recs (tp_journal w) ! Suc (tp_cursor w)) = Some r"
proof (cases "tp_cursor w < length (recs (tp_journal w))")
  case False
  then have "tp_cursor w = length (recs (tp_journal w))"
    using w by (simp add: tape_ok_def)
  then show ?thesis using that(1,2) cursor_even [OF w] by blast
next
  case True
  note np = not_pending [OF w True]
  obtain b where b: "jr_syscall (recs (tp_journal w) ! tp_cursor w) = Some b"
    using record_at(2) [OF w True cursor_even [OF w np]] by blast
  show ?thesis
  proof (cases "b = c")
    case False
    then show ?thesis using that(3) np True b by blast
  next
    case bc: True
    show ?thesis
    proof (cases "Suc (tp_cursor w) < length (recs (tp_journal w))")
      case False
      then have "Suc (tp_cursor w) = length (recs (tp_journal w))" using True by simp
      then show ?thesis using that(4) np b bc cursor_even [OF w np] by blast
    next
      case more: True
      obtain r where "jr_result (recs (tp_journal w) ! Suc (tp_cursor w)) = Some r"
        using record_at(3) [OF w more] cursor_even [OF w np] by auto
      then show ?thesis using that(5) np b bc more cursor_even [OF w np] by blast
    qed
  qed
qed

text \<open>The predicates read the tape only.\<close>

lemma tape_cong:
  assumes "tp_journal v = tp_journal w" "tp_cursor v = tp_cursor w" "tp_pending v = tp_pending w"
  shows "tape_ok recs ok v = tape_ok recs ok w" "records_run recs ok S g v = records_run recs ok S g w"
    "synced recs obs v = synced recs obs w" "has_seen recs obs v = has_seen recs obs w"
    "intent_open recs c v = intent_open recs c w"
  using assms by (simp_all only: tape_ok_def records_run_def synced_def has_seen_def intent_open_def)

text \<open>\<open>Begin\<close> and the drive of an open intent.\<close>

lemma begin_ok:
  assumes w: "tape_ok recs ok w" "\<not> tp_pending w" "tp_cursor w = length (recs (tp_journal w))"
    and b: "tape_begin J c w = (None, w')"
  obtains i where "recs (tp_journal w') = recs (tp_journal w) @ [i]" "jr_syscall i = Some c"
    "tape_ok recs ok w'" "intent_open recs c w'" "tp_cursor w' = Suc (tp_cursor w)"
proof -
  let ?rs = "recs (tp_journal w)"
  have ev: "even (length ?rs)" using w by (simp add: tape_ok_def)
  have okj: "ok (tp_journal w)" using w by (simp add: tape_ok_def)
  obtain j where a: "append_record J (intent_record c) (tp_journal w) = (None, j)"
    and w': "w' = w\<lparr>tp_journal := j, tp_cursor := tp_cursor w + 1, tp_pending := True\<rparr>"
    using b w(2) by (auto simp: tape_begin_def split: prod.splits option.splits)
  obtain v where j: "ok j" "recs j = ?rs @ [(intent_record c)\<lparr>jr_position := length ?rs, jr_revision := v\<rparr>]"
    using append_record_ok [OF okj a] by blast
  have "record_ok (length ?rs) ((intent_record c)\<lparr>jr_position := length ?rs, jr_revision := v\<rparr>)"
    using ev by (simp add: record_ok_def intent_record_def)
  then show ?thesis
    using that [of "(intent_record c)\<lparr>jr_position := length ?rs, jr_revision := v\<rparr>"] j w ev
    by (simp add: w' tape_ok_def intent_open_def wf_records_snoc) (simp add: intent_record_def)
qed

lemma begin_err:
  assumes w: "tape_ok recs ok w" and b: "tape_begin J c w = (Some e, w')"
  shows "recs (tp_journal w') = recs (tp_journal w)" "tape_ok recs ok w'"
    "tp_cursor w' = tp_cursor w" "tp_pending w' = tp_pending w"
proof -
  have okj: "ok (tp_journal w)" using w by (simp add: tape_ok_def)
  have "w' = w \<or> (\<exists>j. append_record J (intent_record c) (tp_journal w) = (Some e, j) \<and> w' = w\<lparr>tp_journal := j\<rparr>)"
    using b by (auto simp: tape_begin_def split: prod.splits option.splits if_splits)
  then have "recs (tp_journal w') = recs (tp_journal w) \<and> tape_ok recs ok w' \<and>
      tp_cursor w' = tp_cursor w \<and> tp_pending w' = tp_pending w"
    using w append_record_err [OF okj] by (auto simp: tape_ok_def)
  then show "recs (tp_journal w') = recs (tp_journal w)" "tape_ok recs ok w'"
    "tp_cursor w' = tp_cursor w" "tp_pending w' = tp_pending w" by blast+
qed

lemma drive_cases [consumes 4, case_names unknown yielded settles]:
  assumes w: "tape_ok recs ok w" "intent_open recs c w"
    and d: "replay_drive S J next t cred c a w = (x, w')" and below: "below_ok recs ok next"
  obtains
    e where "x = Inl e" "recs (tp_journal w') = recs (tp_journal w)" "tape_ok recs ok w'"
      "intent_open recs c w'" "tp_cursor w' = tp_cursor w"
  | r where "x = Inr r" "status_of S r = StatusYield" "recs (tp_journal w') = recs (tp_journal w)"
      "tape_ok recs ok w'" "intent_open recs c w'" "tp_cursor w' = tp_cursor w"
  | r k where "x = Inr r" "status_of S r \<noteq> StatusYield" "jr_result k = Some r"
      "recs (tp_journal w') = recs (tp_journal w) @ [k]" "tape_ok recs ok w'"
      "\<not> tp_pending w'" "tp_cursor w' = Suc (tp_cursor w)"
proof -
  obtain y w1 where n: "next t cred c a w = (y, w1)" by fastforce
  have okj: "ok (tp_journal w)" using w by (simp add: tape_ok_def)
  note b = below_okD [OF below okj n]
  have w1: "tape_ok recs ok w1" "intent_open recs c w1"
    using w b by (simp_all add: tape_ok_def intent_open_def)
  show ?thesis
  proof (cases y)
    case (Inl e)
    then have "x = Inl e" "w' = w1" using d n by (simp_all add: replay_drive_def)
    then show ?thesis using that(1) w1 b by simp
  next
    case (Inr r)
    show ?thesis
    proof (cases "status_of S r = StatusYield")
      case True
      then have "x = Inr r" "w' = w1" using d n Inr by (simp_all add: replay_drive_def)
      then show ?thesis using that(2) True w1 b by simp
    next
      case False
      obtain o1 j where ap: "append_record J (completion_record r) (tp_journal w1) = (o1, j)" by fastforce
      show ?thesis
      proof (cases o1)
        case (Some e)
        have "x = Inl e" "w' = w1\<lparr>tp_journal := j\<rparr>"
          using d n Inr False ap Some by (simp_all add: replay_drive_def tape_commit_def)
        then show ?thesis
          using that(1) [of e] append_record_err [OF b(1), of "completion_record r" e j] ap Some w1 b
          by (simp add: tape_ok_def intent_open_def)
      next
        case None
        have xw: "x = Inr r" "w' = w1\<lparr>tp_journal := j, tp_cursor := tp_cursor w1 + 1, tp_pending := False\<rparr>"
          using d n Inr False ap None by (simp_all add: replay_drive_def tape_commit_def)
        obtain v where j: "ok j"
          "recs j = recs (tp_journal w) @ [(completion_record r)\<lparr>jr_position := length (recs (tp_journal w)), jr_revision := v\<rparr>]"
          using append_record_ok [OF b(1)] ap None b(2) by metis
        have odd: "odd (length (recs (tp_journal w)))" "tp_pending w"
          using w by (simp_all add: intent_open_def)
        have rk: "record_ok (length (recs (tp_journal w)))
            ((completion_record r)\<lparr>jr_position := length (recs (tp_journal w)), jr_revision := v\<rparr>)"
          using odd by (simp add: record_ok_def completion_record_def)
        show ?thesis
          by (rule that(3) [where r = r and k =
                "(completion_record r)\<lparr>jr_position := length (recs (tp_journal w)), jr_revision := v\<rparr>"])
            (use xw j rk odd w b False in \<open>simp_all add: tape_ok_def wf_records_snoc completion_record_def\<close>)
      qed
    qed
  qed
qed

text \<open>What a call does, whatever the layers below do with it.\<close>

lemma dispatch_cases [consumes 3, case_names refused stopped served settles]:
  assumes w: "tape_ok recs ok w" and below: "below_ok recs ok next"
    and d: "replay_dispatch S J next t cred c a w = (x, w')"
  obtains
    e where "x = Inl e" "recs (tp_journal w') = recs (tp_journal w)" "tape_ok recs ok w'"
      "tp_cursor w' = tp_cursor w" "tp_pending w' = tp_pending w"
  | "\<not> tp_pending w" "tape_ok recs ok w'" "intent_open recs c w'"
      "\<And>r. x = Inr r \<Longrightarrow> status_of S r = StatusYield"
      "recs (tp_journal w') = recs (tp_journal w) \<and>
         Suc (tp_cursor w) = length (recs (tp_journal w)) \<or>
       (\<exists>i. recs (tp_journal w') = recs (tp_journal w) @ [i] \<and> jr_syscall i = Some c \<and>
         tp_cursor w = length (recs (tp_journal w)))"
  | r where "x = Inr r" "\<not> tp_pending w" "w' = w\<lparr>tp_cursor := tp_cursor w + 2\<rparr>"
      "Suc (tp_cursor w) < length (recs (tp_journal w))" "even (tp_cursor w)"
      "jr_syscall (recs (tp_journal w) ! tp_cursor w) = Some c"
      "jr_result (recs (tp_journal w) ! Suc (tp_cursor w)) = Some r"
  | r ys k where "x = Inr r" "status_of S r \<noteq> StatusYield" "\<not> tp_pending w" "tape_ok recs ok w'"
      "\<not> tp_pending w'" "tp_cursor w' = tp_cursor w + 2" "jr_result k = Some r"
      "recs (tp_journal w') = recs (tp_journal w) @ ys @ [k]"
      "tp_cursor w' = length (recs (tp_journal w'))"
      "ys = [] \<and> jr_syscall (recs (tp_journal w) ! tp_cursor w) = Some c \<or>
       (\<exists>i. ys = [i] \<and> jr_syscall i = Some c)"
  using w
proof (cases rule: call_cases [where c = c])
  case pending
  obtain e where "x = Inl e" "w' = w"
    using d pending tape_next_fresh [OF w]
    by (auto simp: replay_dispatch_def tape_begin_def)
  then show thesis using that(1) w by simp
next
  case (diverged b)
  then have "x = Inl (ReplayDiverged (tp_cursor w) b c)" "w' = w"
    using d tape_next_diverged [OF w, of b c] by (auto simp: replay_dispatch_def)
  then show thesis using that(1) w by simp
next
  case (recorded r)
  then have "x = Inr r" "w' = w\<lparr>tp_cursor := tp_cursor w + 2\<rparr>"
    using d tape_next_recorded [OF w, of c r] by (simp_all add: replay_dispatch_def)
  then show thesis using that(3) recorded by simp
next
  case reopened
  let ?w = "w\<lparr>tp_cursor := Suc (tp_cursor w), tp_pending := True\<rparr>"
  have dr: "replay_drive S J next t cred c a ?w = (x, w')"
    using d tape_next_open [OF w, of c] reopened by (simp add: replay_dispatch_def)
  have ne: "last (recs (tp_journal w)) = recs (tp_journal w) ! tp_cursor w"
    using reopened(2) by (metis Zero_neq_Suc diff_Suc_1 last_conv_nth list.size(3))
  have w1: "tape_ok recs ok ?w" "intent_open recs c ?w"
    using w reopened(1,3,4) ne by (simp_all add: tape_ok_def intent_open_def flip: reopened(2))
  show thesis using w1 dr below
  proof (cases rule: drive_cases)
    case (unknown e)
    then show ?thesis using that(2) reopened by simp
  next
    case (yielded r)
    then show ?thesis using that(2) reopened by simp
  next
    case (settles r k)
    have "tp_cursor w' = length (recs (tp_journal w'))"
      using settles reopened(2) by simp
    then show ?thesis
      using that(4) [where r = r and ys = "[]" and k = k] settles reopened by simp
  qed
next
  case fresh
  obtain o1 w1 where bg: "tape_begin J c w = (o1, w1)" by fastforce
  show thesis
  proof (cases o1)
    case (Some e)
    then have "x = Inl e" "w' = w1"
      using d bg tape_next_fresh [OF w fresh(2)] by (simp_all add: replay_dispatch_def)
    then show ?thesis using that(1) begin_err [OF w] bg Some by blast
  next
    case None
    obtain i where i: "recs (tp_journal w1) = recs (tp_journal w) @ [i]" "jr_syscall i = Some c"
      "tape_ok recs ok w1" "intent_open recs c w1" "tp_cursor w1 = Suc (tp_cursor w)"
      using begin_ok [OF w fresh(1,2)] bg None by blast
    have dr: "replay_drive S J next t cred c a w1 = (x, w')"
      using d bg None tape_next_fresh [OF w fresh(2)] by (simp add: replay_dispatch_def)
    show ?thesis using i(3,4) dr below
    proof (cases rule: drive_cases)
      case (unknown e)
      then show ?thesis using that(2) fresh i by auto
    next
      case (yielded r)
      then show ?thesis using that(2) fresh i by auto
    next
      case (settles r k)
      have "tp_cursor w' = length (recs (tp_journal w'))"
        using settles i fresh(2) by simp
      then show ?thesis
        using that(4) [where r = r and ys = "[i]" and k = k] settles i fresh by simp
    qed
  qed
qed

lemma dispatch_keeps:
  assumes "tape_ok recs ok w" "below_ok recs ok next" "replay_dispatch S J next t cred c a w = (x, w')"
  shows "tape_ok recs ok w'"
  using assms
proof (cases rule: dispatch_cases)
  case (served r)
  then show ?thesis using assms(1) by (simp add: tape_ok_def)
qed

lemma dispatch_grows:
  assumes "tape_ok recs ok w" "below_ok recs ok next" "replay_dispatch S J next t cred c a w = (x, w')"
  shows "\<exists>ys. grows_by (recs (tp_journal w)) ys (recs (tp_journal w'))"
  using assms
proof (cases rule: dispatch_cases)
  case stopped
  then show ?thesis by (fastforce simp: grows_by_def)
next
  case (settles r ys k)
  then show ?thesis by (auto simp: grows_by_def)
qed (auto simp: grows_by_def)

text \<open>A result the guest sees is on the journal, next to the intent of its call.\<close>

lemma dispatch_observed:
  assumes w: "tape_ok recs ok w" and "below_ok recs ok next"
    and "replay_dispatch S J next t cred c a w = (Inr r, w')" "status_of S r \<noteq> StatusYield"
  shows "tp_cursor w' = tp_cursor w + 2 \<and> \<not> tp_pending w' \<and>
    tp_cursor w' \<le> length (recs (tp_journal w')) \<and>
    jr_syscall (recs (tp_journal w') ! tp_cursor w) = Some c \<and>
    jr_result (recs (tp_journal w') ! (tp_cursor w + 1)) = Some r"
  using assms(1-3)
proof (cases rule: dispatch_cases)
  case (settles r' ys k)
  then have r: "r' = r" by simp
  have len: "tp_cursor w + 2 = length (recs (tp_journal w)) + length ys + 1"
    using settles by simp
  then show ?thesis
    using settles(10) settles r by (auto simp: nth_append)
qed (use assms(4) in auto)

lemma dispatch_yields:
  assumes "tape_ok recs ok w" "below_ok recs ok next"
    and "replay_dispatch S J next t cred c a w = (Inr r, w')" "status_of S r = StatusYield"
    and "settled S (recs (tp_journal w))"
  shows "intent_open recs c w'"
  using assms(1-3)
proof (cases rule: dispatch_cases)
  case (served r')
  then have "(c, r) \<in> set (pairs (recs (tp_journal w)))"
    by (auto simp: in_set_conv_nth pairs_length pairs_nth
        intro!: exI [of _ "tp_cursor w div 2"])
  then show ?thesis using assms(4,5) by (auto simp: settled_def)
qed (use assms(4) in auto)

text \<open>
  The layers below run only behind the open intent of the call they run: two of them that
  agree on such worlds give the same dispatcher.
\<close>

lemma dispatch_write_ahead:
  assumes w: "tape_ok recs ok w"
    and agree: "\<And>v. tape_ok recs ok v \<Longrightarrow> intent_open recs c v \<Longrightarrow> next1 t cred c a v = next2 t cred c a v"
  shows "replay_dispatch S J next1 t cred c a w = replay_dispatch S J next2 t cred c a w"
  using w
proof (cases rule: call_cases [where c = c])
  case pending
  then show ?thesis using tape_next_fresh [OF w] by (simp add: replay_dispatch_def tape_begin_def)
next
  case (diverged b)
  then show ?thesis using tape_next_diverged [OF w, of b c] by (simp add: replay_dispatch_def)
next
  case (recorded r)
  then show ?thesis using tape_next_recorded [OF w, of c r] by (simp add: replay_dispatch_def)
next
  case reopened
  let ?w = "w\<lparr>tp_cursor := Suc (tp_cursor w), tp_pending := True\<rparr>"
  have "last (recs (tp_journal w)) = recs (tp_journal w) ! tp_cursor w"
    using reopened(2) by (metis Zero_neq_Suc diff_Suc_1 last_conv_nth list.size(3))
  then have "tape_ok recs ok ?w" "intent_open recs c ?w"
    using w reopened(1,3,4) by (simp_all add: tape_ok_def intent_open_def flip: reopened(2))
  from agree [OF this] show ?thesis
    using tape_next_open [OF w, of c] reopened by (simp add: replay_dispatch_def replay_drive_def)
next
  case fresh
  obtain o1 w1 where bg: "tape_begin J c w = (o1, w1)" by fastforce
  show ?thesis
  proof (cases o1)
    case None
    then have "tape_ok recs ok w1" "intent_open recs c w1"
      using begin_ok [OF w fresh(1,2)] bg by blast+
    from agree [OF this] show ?thesis
      using bg None tape_next_fresh [OF w fresh(2)]
      by (simp add: replay_dispatch_def replay_drive_def)
  qed (use bg tape_next_fresh [OF w fresh(2)] in \<open>simp add: replay_dispatch_def\<close>)
qed

subsection \<open>A quantum\<close>

text \<open>Replay serves the whole record, and nothing below the tape runs meanwhile.\<close>

lemma run_replay_step:
  assumes w: "tape_ok recs ok w" "\<not> tp_pending w" "tp_cursor w = 2 * i"
    and i: "i < length (pairs (recs (tp_journal w)))"
    and g: "follows g (recs (tp_journal w))" and st: "settled S (recs (tp_journal w))"
    and cr: "pairs (recs (tp_journal w)) ! i = (c, r)"
  shows "run_guest (Suc n) S (tracked S J next look note cred a) g
      (map snd (take i (pairs (recs (tp_journal w))))) w =
    run_guest n S (tracked S J next look note cred a) g
      (map snd (take (Suc i) (pairs (recs (tp_journal w))))) (note c r (w\<lparr>tp_cursor := 2 * Suc i\<rparr>))"
proof -
  let ?rs = "recs (tp_journal w)"
  have len: "2 * i + 1 < length ?rs" using i by (simp add: pairs_length)
  have c: "jr_syscall (?rs ! (2 * i)) = Some c"
    using record_at(2) [OF w(1), of "2 * i"] len cr pairs_nth [of i ?rs] i by (auto simp: pairs_length)
  have r: "jr_result (?rs ! Suc (2 * i)) = Some r"
    using record_at(3) [OF w(1), of "Suc (2 * i)"] len cr pairs_nth [of i ?rs] i by (auto simp: pairs_length)
  have gc: "g (map snd (take i (pairs ?rs))) = Some c"
    using g i cr by (simp add: follows_def)
  have ny: "status_of S r \<noteq> StatusYield"
    using st nth_mem [OF i] cr by (auto simp: settled_def)
  have "replay_dispatch S J next (look c w) cred c a w = (Inr r, w\<lparr>tp_cursor := 2 * Suc i\<rparr>)"
    using tape_next_recorded [OF w(1), of c r] w(3) len c r by (simp add: replay_dispatch_def)
  then show ?thesis
    using gc ny i cr by (simp add: tracked_def take_Suc_conv_app_nth)
qed

lemma run_replays:
  assumes w: "tape_ok recs ok w" "\<not> tp_pending w" "tp_cursor w = 2 * i"
    and i: "i + m = length (pairs (recs (tp_journal w)))"
    and g: "follows g (recs (tp_journal w))" and st: "settled S (recs (tp_journal w))"
    and nt: "note_ok note"
  shows "run_guest (m + n) S (tracked S J next look note cred a) g
      (map snd (take i (pairs (recs (tp_journal w))))) w =
    run_guest n S (tracked S J next look note cred a) g (map snd (pairs (recs (tp_journal w))))
      (fold (\<lambda>(c, r). note c r) (drop i (pairs (recs (tp_journal w)))) w
         \<lparr>tp_cursor := 2 * length (pairs (recs (tp_journal w)))\<rparr>)"
  using w i g st
proof (induction m arbitrary: i w)
  case 0
  have upd: "tp_cursor v = k \<Longrightarrow> v\<lparr>tp_cursor := k\<rparr> = v" for v :: "('j, 'z) tape_scheme" and k by auto
  have "tp_cursor w = 2 * length (pairs (recs (tp_journal w)))" using 0 by simp
  from upd [OF this] show ?case using 0(4) by (simp only: add_0 add_0_right take_all drop_all fold_Nil id_apply le_refl)
next
  case (Suc m)
  let ?rs = "recs (tp_journal w)"
  obtain c r where cr: "pairs ?rs ! i = (c, r)" by fastforce
  let ?w = "note c r (w\<lparr>tp_cursor := 2 * Suc i\<rparr>)"
  have i: "i < length (pairs ?rs)" using Suc.prems by simp
  have j: "tp_journal ?w = tp_journal w" "tp_cursor ?w = 2 * Suc i" "\<not> tp_pending ?w"
    and nn: "?w = (note c r w)\<lparr>tp_cursor := 2 * Suc i\<rparr>"
    using nt Suc.prems(2) by (simp_all add: note_ok_def)
  have ok: "tape_ok recs ok ?w"
    using Suc.prems(1) j i by (simp add: tape_ok_def pairs_length)
  have com: "(fold (\<lambda>(c, r). note c r) ps (v\<lparr>tp_cursor := a\<rparr>))\<lparr>tp_cursor := b\<rparr> =
      (fold (\<lambda>(c, r). note c r) ps v)\<lparr>tp_cursor := b\<rparr>" for ps v a b
    using nt by (induction ps arbitrary: v) (auto simp: note_ok_def)
  have "drop i (pairs ?rs) = (c, r) # drop (Suc i) (pairs ?rs)"
    using i cr Cons_nth_drop_Suc by metis
  then have fl: "fold (\<lambda>(c, r). note c r) (drop (Suc i) (pairs ?rs)) ?w\<lparr>tp_cursor := b\<rparr> =
      fold (\<lambda>(c, r). note c r) (drop i (pairs ?rs)) w\<lparr>tp_cursor := b\<rparr>" for b
    by (simp only: nn com fold_Cons comp_apply prod.case)
  show ?case
    using run_replay_step [OF Suc.prems(1-3) i Suc.prems(5,6) cr, of "m + n" "next" look "note" cred a]
      Suc.IH [of ?w "Suc i"] j ok Suc.prems fl
    by simp
qed

text \<open>Live or replayed, a call keeps the record of the client's run.\<close>

lemma dispatch_records:
  assumes w: "records_run recs ok S g w" and sy: "synced recs obs w" and gc: "g obs = Some c"
    and below: "below_ok recs ok next"
    and d: "replay_dispatch S J next t cred c a w = (x, w')"
  shows "records_run recs ok S g w'" "\<exists>ys. recs (tp_journal w') = recs (tp_journal w) @ ys"
    "\<And>r. x = Inr r \<Longrightarrow> status_of S r \<noteq> StatusYield \<Longrightarrow> synced recs (obs @ [r]) w'"
    "\<And>r. x = Inr r \<Longrightarrow> status_of S r = StatusYield \<Longrightarrow> intent_open recs c w' \<and> tp_cursor w' = Suc (2 * length obs)"
proof -
  let ?rs = "recs (tp_journal w)"
  have ok: "tape_ok recs ok w" and fo: "follows g ?rs" and se: "settled S ?rs"
    using w by (simp_all add: records_run_def)
  have cur: "tp_cursor w = 2 * length obs" "\<not> tp_pending w" and seen: "has_seen recs obs w"
    using sy by (simp_all add: synced_def)
  have all: "obs = map snd (pairs ?rs)" "even (length ?rs)" if "tp_cursor w = length ?rs"
  proof -
    have l: "length ?rs = 2 * length obs" using that cur by simp
    then show "even (length ?rs)" by simp
    have "obs = map snd (take (length obs) (pairs ?rs))" using seen by (simp add: has_seen_def)
    moreover have "length (pairs ?rs) = length obs" using l by (simp add: pairs_length)
    ultimately show "obs = map snd (pairs ?rs)" by simp
  qed
  have new: "follows g (?rs @ [i]) \<and> settled S (?rs @ [i])"
    if "tp_cursor w = length ?rs" "jr_syscall i = Some c" for i
    using all [OF that(1)] fo se that gc by (simp add: follows_intent settled_intent)
  from ok below d have "records_run recs ok S g w' \<and> (\<exists>ys. recs (tp_journal w') = ?rs @ ys) \<and>
      (\<forall>r. x = Inr r \<longrightarrow> status_of S r \<noteq> StatusYield \<longrightarrow> synced recs (obs @ [r]) w') \<and>
      (\<forall>r. x = Inr r \<longrightarrow> status_of S r = StatusYield \<longrightarrow>
         intent_open recs c w' \<and> tp_cursor w' = Suc (2 * length obs))"
  proof (cases rule: dispatch_cases)
    case (refused e)
    then show ?thesis using w by (simp add: records_run_def)
  next
    case stopped
    have "tp_cursor w' = Suc (2 * length obs)"
      using stopped(2,3,5) cur by (auto simp: tape_ok_def intent_open_def)
    then show ?thesis
      using stopped new fo se by (auto simp: records_run_def)
  next
    case (served r)
    have lt: "length obs < length (pairs ?rs)" using served(4) cur by (simp add: pairs_length)
    have p: "pairs ?rs ! length obs = (c, r)"
      using served(6,7) cur lt by (simp add: pairs_nth pairs_length)
    have sn: "take (Suc (length obs)) (pairs ?rs) = take (length obs) (pairs ?rs) @ [(c, r)]"
      using lt p by (simp add: take_Suc_conv_app_nth)
    have "status_of S r \<noteq> StatusYield" using se p lt by (metis nth_mem settled_def snd_conv)
    moreover have "synced recs (obs @ [r]) w'"
      using served cur seen sn by (simp add: synced_def has_seen_def)
    moreover have "tape_ok recs ok w'"
      using ok served by (simp add: tape_ok_def)
    ultimately show ?thesis using served fo se by (simp add: records_run_def)
  next
    case (settles r ys k)
    have odd: "odd (length (?rs @ ys))" and lc: "jr_syscall (last (?rs @ ys)) = Some c"
      and pr: "pairs (?rs @ ys) = pairs ?rs" and fy: "follows g (?rs @ ys)" "settled S (?rs @ ys)"
      and ob: "obs = map snd (pairs ?rs)"
    proof -
      have len: "2 * length obs + 2 = length ?rs + length ys + 1"
        using settles(6,8,9) cur by simp
      have "ys = [] \<and> jr_syscall (?rs ! tp_cursor w) = Some c \<or> (\<exists>i. ys = [i] \<and> jr_syscall i = Some c)"
        by (rule settles(10))
      then have "odd (length (?rs @ ys)) \<and> jr_syscall (last (?rs @ ys)) = Some c \<and>
          pairs (?rs @ ys) = pairs ?rs \<and> follows g (?rs @ ys) \<and> settled S (?rs @ ys) \<and>
          obs = map snd (pairs ?rs)"
      proof
        assume y: "ys = [] \<and> jr_syscall (?rs ! tp_cursor w) = Some c"
        then have l: "length ?rs = Suc (2 * length obs)" using len by simp
        then have "last ?rs = ?rs ! tp_cursor w" using cur by (metis diff_Suc_1 last_conv_nth length_0_conv nat.distinct(1))
        moreover have "obs = map snd (pairs ?rs)" using seen l by (simp add: has_seen_def pairs_length)
        ultimately show ?thesis using y l fo se by simp
      next
        assume "\<exists>i. ys = [i] \<and> jr_syscall i = Some c"
        then obtain i where y: "ys = [i]" "jr_syscall i = Some c" by blast
        then have cl: "tp_cursor w = length ?rs" using len cur by simp
        show ?thesis using y new [OF cl y(2)] all [OF cl] by (simp add: pairs_snoc_even)
      qed
      then show "odd (length (?rs @ ys))" "jr_syscall (last (?rs @ ys)) = Some c"
        "pairs (?rs @ ys) = pairs ?rs" "follows g (?rs @ ys)" "settled S (?rs @ ys)"
        "obs = map snd (pairs ?rs)" by blast+
    qed
    have pk: "pairs (recs (tp_journal w')) = pairs ?rs @ [(c, r)]"
      using pairs_snoc [OF odd, of k] lc pr settles(7,8) by simp
    have "follows g (recs (tp_journal w'))" "settled S (recs (tp_journal w'))"
      using follows_completion [OF odd fy(1) lc settles(7)]
        settled_completion [OF odd settles(7,2) fy(2)] settles(8) by simp_all
    moreover have "synced recs (obs @ [r]) w'"
      using settles(5,6,9) cur pk ob by (simp add: synced_def has_seen_def)
    ultimately show ?thesis using settles by (simp add: records_run_def)
  qed
  then show "records_run recs ok S g w'" "\<exists>ys. recs (tp_journal w') = recs (tp_journal w) @ ys"
    "\<And>r. x = Inr r \<Longrightarrow> status_of S r \<noteq> StatusYield \<Longrightarrow> synced recs (obs @ [r]) w'"
    "\<And>r. x = Inr r \<Longrightarrow> status_of S r = StatusYield \<Longrightarrow> intent_open recs c w' \<and> tp_cursor w' = Suc (2 * length obs)"
    by blast+
qed

lemma run_records:
  assumes "records_run recs ok S g w" "synced recs obs w" "below_ok recs ok next" "note_ok note"
    and "run_guest n S (tracked S J next look note cred a) g obs w = (e, obs', w')"
  shows "records_run recs ok S g w' \<and> has_seen recs obs' w' \<and>
    (\<exists>ys. recs (tp_journal w') = recs (tp_journal w) @ ys) \<and>
    (e = Finished \<longrightarrow> g obs' = None) \<and>
    (e = Parked \<longrightarrow> (\<exists>c. g obs' = Some c \<and> intent_open recs c w'))"
  using assms(1,2,5)
proof (induction n arbitrary: obs w)
  case 0
  then show ?case by (simp add: synced_def)
next
  case (Suc n)
  show ?case
  proof (cases "g obs")
    case None
    then show ?thesis using Suc.prems by (simp add: synced_def)
  next
    case (Some c)
    obtain x v where d: "replay_dispatch S J next (look c w) cred c a w = (x, v)" by fastforce
    note dr = dispatch_records [OF Suc.prems(1,2) Some assms(3) d]
    have seen: "has_seen recs obs v"
      using dr(2) has_seen_grow Suc.prems(2) by (auto simp: synced_def)
    have j: "tp_journal (note c r v) = tp_journal v" "tp_cursor (note c r v) = tp_cursor v"
      "tp_pending (note c r v) = tp_pending v" for r
      using assms(4) by (simp_all add: note_ok_def)
    show ?thesis
    proof (cases x)
      case (Inl e')
      then have "e = Crashed e'" "obs' = obs" "w' = v"
        using Suc.prems(3) Some d by (simp_all add: tracked_def)
      then show ?thesis using dr seen by simp
    next
      case (Inr r)
      have tr: "tracked S J next look note cred a c w = (Inr r, note c r v)"
        by (simp add: tracked_def d Inr)
      show ?thesis
      proof (cases "status_of S r = StatusYield")
        case True
        then have "e = Parked" "obs' = obs" "w' = note c r v"
          using Suc.prems(3) Some d Inr by (simp_all add: tracked_def)
        then show ?thesis
          using dr(1,2,4) Inr True seen j Some tape_cong [OF j] by auto
      next
        case False
        then have r: "run_guest n S (tracked S J next look note cred a) g (obs @ [r]) (note c r v) = (e, obs', w')"
          using Suc.prems(3) Some tr False by simp
        have "records_run recs ok S g (note c r v)" "synced recs (obs @ [r]) (note c r v)"
          using dr(1,3) Inr False tape_cong [OF j] by blast+
        from Suc.IH [OF this r] show ?thesis using dr(2) j by auto
      qed
    qed
  qed
qed

text \<open>
  A new quantum over what an earlier one left serves every completed call from the record,
  runs nothing below, and stands where the earlier one stood.
\<close>

lemma run_recovers:
  assumes "records_run recs ok S g w" "note_ok note"
  shows "run_guest (length (pairs (recs (tp_journal w))) + n) S (tracked S J next look note cred a) g [] (rewind w) =
    run_guest n S (tracked S J next look note cred a) g (map snd (pairs (recs (tp_journal w))))
      (fold (\<lambda>(c, r). note c r) (pairs (recs (tp_journal w))) (rewind w)
         \<lparr>tp_cursor := 2 * length (pairs (recs (tp_journal w)))\<rparr>)"
proof -
  have "tape_ok recs ok (rewind w)"
    using assms(1) by (simp add: records_run_def tape_ok_def rewind_def)
  then show ?thesis
    using run_replays [of "rewind w" 0 "length (pairs (recs (tp_journal w)))" g S "note" n "next" look cred a] assms
    by (simp add: rewind_def records_run_def)
qed

end

end
