(* ===== verification/Journal.thy ===== *)
theory Journal
  imports Tape EventLog Utf8 "HOL-Library.Product_Lexorder"
begin

text \<open>
  \<open>internal/agent/journal.go\<close>: every revision of a process's journal over one shared history.
  \<open>history\<close> is \<open>processHistory\<close> (the records by position), \<open>log_journal\<close> is \<open>logJournal\<close> (one
  revision's view of it, and the log it appends to), and \<open>fold_journals\<close> rebuilds the
  histories of a session from its stream.

  The theory provides the tape's \<open>journal_store\<close>: its interpretation \<open>lj\<close> carries every
  lemma of the replay boundary to the journal the runtime runs on.
\<close>

subsection \<open>The history\<close>

type_synonym 'r history = "(nat, 'r jrecord list) gomap"

definition at_pos :: "'r history \<Rightarrow> nat \<Rightarrow> 'r jrecord list" where
  "at_pos h p = (case mget h p of None \<Rightarrow> [] | Some rs \<Rightarrow> rs)"

definition history_add :: "'r jrecord \<Rightarrow> 'r history \<Rightarrow> 'r history" where
  "history_add r h = mput (jr_position r) (at_pos h (jr_position r) @ [r]) h"

text \<open>The loop of \<open>getAt\<close> over the records written at one position.\<close>

fun best_below :: "nat \<Rightarrow> 'r jrecord option \<Rightarrow> 'r jrecord list \<Rightarrow> 'r jrecord option" where
  "best_below m best [] = best"
| "best_below m best (r # rs) =
     (if jr_revision r \<le> m \<and> (case best of None \<Rightarrow> True | Some b \<Rightarrow> jr_revision b < jr_revision r)
      then best_below m (Some r) rs
      else best_below m best rs)"

definition get_at :: "'r history \<Rightarrow> nat \<Rightarrow> nat \<Rightarrow> 'r jrecord option" where
  "get_at h p m = best_below m None (at_pos h p)"

text \<open>The nested loop of \<open>length\<close>, over the map in the order of its list.\<close>

definition length_at :: "nat \<Rightarrow> nat \<times> 'r jrecord list \<Rightarrow> nat \<Rightarrow> nat" where
  "length_at v pw n =
     fold (\<lambda>r n. if jr_revision r = v \<and> n \<le> fst pw then fst pw + 1 else n) (snd pw) n"

definition history_length :: "'r history \<Rightarrow> nat \<Rightarrow> nat \<Rightarrow> nat" where
  "history_length h v fork = fold (length_at v) h fork"

subsection \<open>Entries\<close>

record outcome =
  jo_status :: status
  jo_code :: errno
  jo_result :: bytes
  jo_message :: string
  jo_labels :: "string list"

record entry_view =
  je_position :: nat
  je_revision :: nat
  je_syscall :: syscall
  je_outcome :: outcome

definition encode_outcome :: "'r sysapi \<Rightarrow> 'r \<Rightarrow> outcome" where
  "encode_outcome S r =
     \<lparr>jo_status = status_of S r, jo_code = errno_of S r, jo_result = data_of S r,
      jo_message = message_of S r, jo_labels = labels_of S r\<rparr>"

definition in_flight :: outcome where
  "in_flight = \<lparr>jo_status = StatusYield, jo_code = ErrnoOther '''', jo_result = '''',
                jo_message = ''in flight'', jo_labels = []\<rparr>"

text \<open>The outcome of an intent: the last record its own revision wrote one position later.\<close>

definition outcome_at :: "'r sysapi \<Rightarrow> 'r history \<Rightarrow> nat \<Rightarrow> nat \<Rightarrow> err + outcome" where
  "outcome_at S h p v =
     fold (\<lambda>k acc. case acc of
             Inl e \<Rightarrow> Inl e
           | Inr out \<Rightarrow>
               if jr_revision k = v
               then (case jr_result k of None \<Rightarrow> Inl NilDeref | Some r \<Rightarrow> Inr (encode_outcome S r))
               else Inr out)
       (at_pos h (p + 1)) (Inr in_flight)"

definition entry_of :: "'r sysapi \<Rightarrow> 'r history \<Rightarrow> nat \<Rightarrow> 'r jrecord \<Rightarrow> err + entry_view" where
  "entry_of S h p intent =
     (case jr_syscall intent of
        None \<Rightarrow> Inl NilDeref
      | Some c \<Rightarrow>
          (case outcome_at S h p (jr_revision intent) of
             Inl e \<Rightarrow> Inl e
           | Inr out \<Rightarrow> Inr \<lparr>je_position = p, je_revision = jr_revision intent, je_syscall = c,
                             je_outcome = out\<rparr>))"

fun all_right :: "('e + 'a) list \<Rightarrow> 'e + 'a list" where
  "all_right [] = Inr []"
| "all_right (Inl e # xs) = Inl e"
| "all_right (Inr x # xs) = (case all_right xs of Inl e \<Rightarrow> Inl e | Inr ys \<Rightarrow> Inr (x # ys))"

definition intents :: "'r history \<Rightarrow> (nat \<times> 'r jrecord) list" where
  "intents h = concat (map (\<lambda>(p, rs). map (Pair p) (filter (\<lambda>r. jr_kind r = KindIntent) rs)) h)"

definition entry_key :: "entry_view \<Rightarrow> nat \<times> nat" where
  "entry_key e = (je_position e, je_revision e)"

definition entries :: "'r sysapi \<Rightarrow> 'r history \<Rightarrow> err + entry_view list" where
  "entries S h =
     (case all_right (map (\<lambda>(p, r). entry_of S h p r) (intents h)) of
        Inl e \<Rightarrow> Inl e
      | Inr es \<Rightarrow> Inr (sort_key entry_key es))"

subsection \<open>The journal of one revision\<close>

record ('l, 'r) log_journal =
  lj_log :: 'l
  lj_session :: string
  lj_process :: string
  lj_revision :: nat
  lj_history :: "'r history"
  lj_length :: nat

definition ev_syscall :: string where "ev_syscall = ''syscall.recorded''"

definition new_log_journal ::
    "'l \<Rightarrow> string \<Rightarrow> string \<Rightarrow> nat \<Rightarrow> 'r history \<Rightarrow> nat \<Rightarrow> ('l, 'r) log_journal"
where
  "new_log_journal l session process v h n =
     \<lparr>lj_log = l, lj_session = session, lj_process = process, lj_revision = v,
      lj_history = h, lj_length = n\<rparr>"

definition lj_load :: "('l, 'r) log_journal \<Rightarrow> nat \<Rightarrow> err + 'r jrecord" where
  "lj_load j i =
     (case (if i < lj_length j then get_at (lj_history j) i (lj_revision j) else None) of
        Some r \<Rightarrow> Inr r
      | None \<Rightarrow> Inl (Plain (''journal record not found at index '' @ show_nat i)))"

definition lj_append ::
    "('l, 'd) evlog \<Rightarrow> ('r jrecord \<Rightarrow> err + 'd) \<Rightarrow> 'r jrecord \<Rightarrow> ('l, 'r) log_journal \<Rightarrow>
     err option \<times> ('l, 'r) log_journal"
where
  "lj_append L enc r j =
     (if jr_position r \<noteq> lj_length j then
        (Some (Plain (''invalid journal position '' @ show_nat (jr_position r) @ '' (want '' @
                      show_nat (lj_length j) @ '')'')), j)
      else
        (let stored = r\<lparr>jr_revision := lj_revision j\<rparr> in
         case encode_event enc ev_syscall (lj_process j) (lj_revision j) (el_now L (lj_log j)) stored of
           Inl e \<Rightarrow> (Some e, j)
         | Inr ev \<Rightarrow>
             (case el_append L (lj_session j) ev (lj_log j) of
                (Some e, l) \<Rightarrow> (Some e, j\<lparr>lj_log := l\<rparr>)
              | (None, l) \<Rightarrow>
                  (None, j\<lparr>lj_log := l, lj_history := history_add stored (lj_history j),
                           lj_length := lj_length j + 1\<rparr>))))"

definition log_journal_ops ::
    "('l, 'd) evlog \<Rightarrow> ('r jrecord \<Rightarrow> err + 'd) \<Rightarrow> (('l, 'r) log_journal, 'r) journal_ops"
where
  "log_journal_ops L enc = \<lparr>j_load = lj_load, j_append = lj_append L enc, j_length = lj_length\<rparr>"

text \<open>\<open>forkJournalLocked\<close>'s journal: the next revision over the same history, from an offset.\<close>

definition fork_journal :: "nat \<Rightarrow> ('l, 'r) log_journal \<Rightarrow> ('l, 'r) log_journal" where
  "fork_journal off j =
     new_log_journal (lj_log j) (lj_session j) (lj_process j) (lj_revision j + 1) (lj_history j) off"

subsection \<open>The outermost open section\<close>

text \<open>
  The loop at call number \<open>k\<close>, with \<open>n\<close> calls to go: the position \<open>i\<close> of the code is \<open>2 * k\<close>.
  A load that failed leaves a zero record, and its missing syscall is dereferenced.
\<close>

fun open_begin_loop ::
    "('j, 'r) journal_ops \<Rightarrow> 'j \<Rightarrow> nat \<Rightarrow> nat \<Rightarrow> nat \<Rightarrow> nat \<Rightarrow> err + nat \<times> nat"
where
  "open_begin_loop J j k 0 depth off = Inr (off, depth)"
| "open_begin_loop J j k (Suc n) depth off =
     (case j_load J j (2 * k) of
        Inl _ \<Rightarrow> Inl NilDeref
      | Inr intent \<Rightarrow>
          (case jr_syscall intent of
             None \<Rightarrow> Inl NilDeref
           | Some c \<Rightarrow>
               if sc_name c = sys_begin then
                 open_begin_loop J j (Suc k) n (depth + 1) (if depth = 0 then 2 * k + 2 else off)
               else if sc_name c = sys_commit then
                 open_begin_loop J j (Suc k) n (if 0 < depth then depth - 1 else depth) off
               else open_begin_loop J j (Suc k) n depth off))"

definition outermost_open_begin :: "('j, 'r) journal_ops \<Rightarrow> 'j \<Rightarrow> err + nat \<times> bool" where
  "outermost_open_begin J j =
     (case open_begin_loop J j 0 (j_length J j div 2) 0 0 of
        Inl e \<Rightarrow> Inl e
      | Inr (off, depth) \<Rightarrow> Inr (off, 0 < depth))"

subsection \<open>Folding a stream\<close>

fun fold_journals_loop ::
    "('d \<Rightarrow> err + 'r jrecord) \<Rightarrow> (string, 'r history) gomap \<Rightarrow> 'd event list \<Rightarrow>
     err + (string, 'r history) gomap"
where
  "fold_journals_loop dec hs [] = Inr hs"
| "fold_journals_loop dec hs (ev # evs) =
     (if ev_kind ev \<noteq> ev_syscall then fold_journals_loop dec hs evs
      else case dec (ev_data ev) of
          Inl e \<Rightarrow> Inl (Wrapped ''decode syscall.recorded'' e)
        | Inr r \<Rightarrow>
            fold_journals_loop dec
              (mput (ev_proc ev)
                 (history_add r (case mget hs (ev_proc ev) of None \<Rightarrow> [] | Some h \<Rightarrow> h)) hs) evs)"

definition fold_journals ::
    "('d \<Rightarrow> err + 'r jrecord) \<Rightarrow> 'd event list \<Rightarrow> err + (string, 'r history) gomap"
where
  "fold_journals dec evs = fold_journals_loop dec [] evs"

subsection \<open>What a lookup returns\<close>

lemma at_pos_add [simp]:
  "at_pos (history_add r h) p = (if p = jr_position r then at_pos h p @ [r] else at_pos h p)"
  by (simp add: at_pos_def history_add_def)

lemma best_below_append: "best_below m b (xs @ ys) = best_below m (best_below m b xs) ys"
  by (induction xs arbitrary: b) auto

lemma best_below_sound:
  "best_below m b xs = Some r \<Longrightarrow> b = Some r \<or> r \<in> set xs \<and> jr_revision r \<le> m"
  by (induction xs arbitrary: b) (auto split: if_splits)

lemma best_below_max:
  assumes "best_below m b xs = Some r" "x \<in> set xs" "jr_revision x \<le> m"
  shows "jr_revision x \<le> jr_revision r"
proof -
  have mono: "best_below m (Some y) ys = Some r \<Longrightarrow> jr_revision y \<le> jr_revision r" for y ys
  proof (induction ys arbitrary: y)
    case (Cons z zs)
    then show ?case by (force split: if_splits)
  qed simp
  show ?thesis using assms
  proof (induction xs arbitrary: b)
    case (Cons z zs)
    show ?case
    proof (cases "x = z")
      case True
      then show ?thesis using Cons.prems mono
        by (auto split: if_splits option.splits) (meson le_trans linorder_not_less mono)+
    next
      case False
      then show ?thesis using Cons by (auto split: if_splits)
    qed
  qed simp
qed

lemma best_below_None: "best_below m b xs = None \<longleftrightarrow> b = None \<and> (\<forall>x \<in> set xs. m < jr_revision x)"
proof (induction xs arbitrary: b)
  case (Cons z zs)
  then show ?case by (cases b) (auto simp: not_le)
qed simp

text \<open>A record a later revision wrote is invisible to the views below it.\<close>

lemma get_at_add_other: "m < jr_revision r \<Longrightarrow> get_at (history_add r h) p m = get_at h p m"
  by (simp add: get_at_def best_below_append)

lemma get_at_add_elsewhere: "p \<noteq> jr_position r \<Longrightarrow> get_at (history_add r h) p m = get_at h p m"
  by (simp add: get_at_def)

lemma get_at_add_new:
  assumes "jr_revision r \<le> m" "\<And>x. x \<in> set (at_pos h (jr_position r)) \<Longrightarrow> jr_revision x \<le> m \<Longrightarrow> jr_revision x < jr_revision r"
  shows "get_at (history_add r h) (jr_position r) m = Some r"
proof -
  have "jr_revision b < jr_revision r" if "best_below m None (at_pos h (jr_position r)) = Some b" for b
    using best_below_sound [OF that] assms(2) by blast
  then show ?thesis using assms(1)
    by (auto simp: get_at_def best_below_append split: option.splits)
qed

text \<open>\<open>length\<close> does not depend on the order the map is walked in.\<close>

lemma length_at_eq:
  "length_at v (p, rs) n = (if (\<exists>r \<in> set rs. jr_revision r = v) then max n (p + 1) else n)"
proof -
  have "fold (\<lambda>r n. if jr_revision r = v \<and> n \<le> p then p + 1 else n) rs n =
      (if (\<exists>r \<in> set rs. jr_revision r = v) then max n (p + 1) else n)"
    by (induction rs arbitrary: n) auto
  then show ?thesis by (simp only: length_at_def fst_conv snd_conv)
qed

lemma history_length_le:
  "history_length h v fork \<le> m \<longleftrightarrow>
     fork \<le> m \<and> (\<forall>pw \<in> set h. (\<exists>r \<in> set (snd pw). jr_revision r = v) \<longrightarrow> fst pw < m)"
proof -
  have "fold (length_at v) h n \<le> m \<longleftrightarrow>
     n \<le> m \<and> (\<forall>pw \<in> set h. (\<exists>r \<in> set (snd pw). jr_revision r = v) \<longrightarrow> fst pw < m)" for n
  proof (induction h arbitrary: n)
    case (Cons pw h)
    obtain p rs where pw: "pw = (p, rs)" by fastforce
    have e: "length_at v pw n = (if (\<exists>r \<in> set rs. jr_revision r = v) then max n (p + 1) else n)"
      unfolding pw by (rule length_at_eq)
    show ?case
      using Cons.IH [of "length_at v pw n"] by (auto simp: pw [symmetric] e) (auto simp: pw)
  qed simp
  then show ?thesis by (simp add: history_length_def)
qed

lemma at_pos_in_set: "distinct (map fst h) \<Longrightarrow> (p, rs) \<in> set h \<Longrightarrow> at_pos h p = rs"
  by (simp add: at_pos_def)

lemma at_posD: "r \<in> set (at_pos h p) \<Longrightarrow> (p, at_pos h p) \<in> set h"
  by (auto simp: at_pos_def split: option.splits dest: map_of_SomeD)

lemma history_length_at_pos:
  assumes "distinct (map fst h)"
  shows "history_length h v fork \<le> m \<longleftrightarrow>
    fork \<le> m \<and> (\<forall>p. \<forall>r \<in> set (at_pos h p). jr_revision r = v \<longrightarrow> p < m)"
  unfolding history_length_le using assms
  by (auto dest: at_posD) (metis at_posD fst_conv snd_conv, metis at_pos_in_set surjective_pairing)

lemma distinct_history_add: "distinct (map fst h) \<Longrightarrow> distinct (map fst (history_add r h))"
  by (simp add: history_add_def)

subsection \<open>The journal keeps the tape's contract\<close>

definition lj_ok :: "('l, 'r) log_journal \<Rightarrow> bool" where
  "lj_ok j \<longleftrightarrow>
     distinct (map fst (lj_history j)) \<and>
     (\<forall>p < lj_length j. get_at (lj_history j) p (lj_revision j) \<noteq> None) \<and>
     (\<forall>p. \<forall>r \<in> set (at_pos (lj_history j) p).
        jr_revision r \<le> lj_revision j \<and> (jr_revision r = lj_revision j \<longrightarrow> p < lj_length j))"

definition lj_recs :: "('l, 'r) log_journal \<Rightarrow> 'r jrecord list" where
  "lj_recs j = map (\<lambda>p. the (get_at (lj_history j) p (lj_revision j))) [0..<lj_length j]"

lemma length_lj_recs [simp]: "length (lj_recs j) = lj_length j"
  by (simp add: lj_recs_def)

lemma nth_lj_recs: "p < lj_length j \<Longrightarrow> lj_recs j ! p = the (get_at (lj_history j) p (lj_revision j))"
  by (simp add: lj_recs_def)

lemma new_log_journal_ok: "lj_ok (new_log_journal l s p v [] 0)" "lj_recs (new_log_journal l s p v [] 0) = []"
  by (simp_all add: lj_ok_def new_log_journal_def at_pos_def lj_recs_def)

lemma lj_load_ok:
  assumes "lj_ok j" "i < lj_length j"
  shows "lj_load j i = Inr (lj_recs j ! i)"
proof -
  obtain r where "get_at (lj_history j) i (lj_revision j) = Some r"
    using assms by (auto simp: lj_ok_def)
  then show ?thesis using assms(2) by (simp add: lj_load_def nth_lj_recs)
qed

lemma lj_add_ok:
  fixes j :: "('l, 'r) log_journal" and l :: 'l
  assumes j: "lj_ok j" and p: "jr_position r = lj_length j" and v: "jr_revision r = lj_revision j"
  defines "j' \<equiv> j\<lparr>lj_log := l, lj_history := history_add r (lj_history j), lj_length := lj_length j + 1\<rparr>"
  shows "lj_ok j'" "lj_recs j' = lj_recs j @ [r]"
proof -
  have low: "jr_revision x < jr_revision r"
    if "x \<in> set (at_pos (lj_history j) (jr_position r))" "jr_revision x \<le> lj_revision j" for x
    using j that p v by (auto simp: lj_ok_def order.order_iff_strict)
  have new: "get_at (history_add r (lj_history j)) (lj_length j) (lj_revision j) = Some r"
    using get_at_add_new [of r "lj_revision j" "lj_history j"] low p v by simp
  have old: "get_at (history_add r (lj_history j)) q (lj_revision j) = get_at (lj_history j) q (lj_revision j)"
    if "q < lj_length j" for q
    using that p by (simp add: get_at_add_elsewhere)
  show "lj_ok j'"
    unfolding lj_ok_def j'_def
    using j p v new old
    by (auto simp: lj_ok_def distinct_history_add less_Suc_eq)
  show "lj_recs j' = lj_recs j @ [r]"
    unfolding lj_recs_def j'_def using new old by simp
qed

lemma lj_append_cases [consumes 2, case_names refused stored]:
  assumes "lj_append L enc r j = (x, j')" "jr_position r = lj_length j"
  obtains
    e l where "x = Some e" "j' = j\<lparr>lj_log := l\<rparr>"
  | l where "x = None"
      "j' = j\<lparr>lj_log := l, lj_history := history_add (r\<lparr>jr_revision := lj_revision j\<rparr>) (lj_history j),
             lj_length := lj_length j + 1\<rparr>"
proof -
  have "(\<exists>e l. x = Some e \<and> j' = j\<lparr>lj_log := l\<rparr>) \<or> (\<exists>l. x = None \<and>
      j' = j\<lparr>lj_log := l, lj_history := history_add (r\<lparr>jr_revision := lj_revision j\<rparr>) (lj_history j),
             lj_length := lj_length j + 1\<rparr>)"
  proof (cases "encode_event enc ev_syscall (lj_process j) (lj_revision j) (el_now L (lj_log j))
      (r\<lparr>jr_revision := lj_revision j\<rparr>)")
    case (Inl e)
    then have "x = Some e" "j' = j\<lparr>lj_log := lj_log j\<rparr>"
      using assms by (simp_all add: lj_append_def Let_def)
    then show ?thesis by blast
  next
    case (Inr ev)
    obtain y l where "el_append L (lj_session j) ev (lj_log j) = (y, l)" by fastforce
    then show ?thesis using assms Inr by (cases y) (auto simp: lj_append_def Let_def)
  qed
  then show ?thesis using that by blast
qed

interpretation lj: journal_store "log_journal_ops L enc" lj_recs lj_ok
  for L :: "('l, 'd) evlog" and enc :: "'r jrecord \<Rightarrow> err + 'd"
proof
  fix j :: "('l, 'r) log_journal"
  assume "lj_ok j"
  then show "j_length (log_journal_ops L enc) j = length (lj_recs j)"
    by (simp add: log_journal_ops_def)
next
  fix j :: "('l, 'r) log_journal" and i
  assume "lj_ok j" "i < length (lj_recs j)"
  then show "j_load (log_journal_ops L enc) j i = Inr (lj_recs j ! i)"
    by (simp add: log_journal_ops_def lj_load_ok)
next
  fix j j' :: "('l, 'r) log_journal" and r
  assume j: "lj_ok j" "jr_position r = length (lj_recs j)" "j_append (log_journal_ops L enc) r j = (None, j')"
  then have a: "lj_append L enc r j = (None, j')" "jr_position r = lj_length j"
    by (simp_all add: log_journal_ops_def)
  then show "lj_ok j' \<and> (\<exists>v. lj_recs j' = lj_recs j @ [r\<lparr>jr_revision := v\<rparr>])"
  proof (cases rule: lj_append_cases)
    case (stored l)
    then show ?thesis
      using lj_add_ok [OF j(1), of "r\<lparr>jr_revision := lj_revision j\<rparr>" l] a(2) by auto
  qed simp
next
  fix j j' :: "('l, 'r) log_journal" and r e
  assume j: "lj_ok j" "jr_position r = length (lj_recs j)" "j_append (log_journal_ops L enc) r j = (Some e, j')"
  then have a: "lj_append L enc r j = (Some e, j')" "jr_position r = lj_length j"
    by (simp_all add: log_journal_ops_def)
  then show "lj_ok j' \<and> lj_recs j' = lj_recs j"
    using j(1) by (cases rule: lj_append_cases) (auto simp: lj_ok_def lj_recs_def)
qed

subsection \<open>Forks\<close>

lemma best_below_bound:
  assumes "\<forall>x \<in> set xs. jr_revision x \<le> v" "v \<le> m"
  shows "best_below m b xs = best_below v b xs"
  using assms(1)
proof (induction xs arbitrary: b)
  case (Cons x xs)
  then have "jr_revision x \<le> m" using assms(2) by auto
  then show ?case using Cons by auto
qed simp

lemma fork_journal_ok:
  assumes j: "lj_ok j" and off: "off \<le> lj_length j"
  shows "lj_ok (fork_journal off j)" "lj_recs (fork_journal off j) = take off (lj_recs j)"
proof -
  have g: "get_at (lj_history j) p (lj_revision j + 1) = get_at (lj_history j) p (lj_revision j)" for p
    unfolding get_at_def using j by (intro best_below_bound) (auto simp: lj_ok_def)
  show "lj_ok (fork_journal off j)"
    using j off g by (fastforce simp: lj_ok_def fork_journal_def new_log_journal_def)
  show "lj_recs (fork_journal off j) = take off (lj_recs j)"
    using off g by (simp add: lj_recs_def fork_journal_def new_log_journal_def take_map take_upt)
qed

lemma fork_append_isolated:
  assumes "append_record (log_journal_ops L enc) r (fork_journal off j) = (None, j')"
    and "m \<le> lj_revision j"
  shows "get_at (lj_history j') p m = get_at (lj_history j) p m"
proof -
  have "lj_append L enc (r\<lparr>jr_position := off\<rparr>) (fork_journal off j) = (None, j')"
    "jr_position (r\<lparr>jr_position := off\<rparr>) = lj_length (fork_journal off j)"
    using assms(1) by (simp_all add: append_record_def log_journal_ops_def fork_journal_def new_log_journal_def)
  then show ?thesis
  proof (cases rule: lj_append_cases)
    case (stored l)
    then show ?thesis
      using assms(2)
        get_at_add_other [of m "r\<lparr>jr_position := off, jr_revision := lj_revision j + 1\<rparr>" "lj_history j" p]
      by (simp add: fork_journal_def new_log_journal_def)
  qed (simp_all add: fork_journal_def new_log_journal_def)
qed

subsection \<open>What JSON makes of a journal\<close>

text \<open>
  A record is logged as JSON, and JSON does not keep every value: \<open>cf\<close> and \<open>rf\<close> are what encoding
  and then decoding makes of a syscall and of a result (the encoder compacts the raw messages in
  them and replaces what is not UTF-8). Positions, revisions and the presence of a payload are kept.
\<close>

fun json_kind :: "kind \<Rightarrow> kind" where
  "json_kind (KindOther s) = KindOther (json_text s)"
| "json_kind k = k"

definition json_record :: "(syscall \<Rightarrow> syscall) \<Rightarrow> ('r \<Rightarrow> 'r) \<Rightarrow> 'r jrecord \<Rightarrow> 'r jrecord" where
  "json_record cf rf r =
     r\<lparr>jr_kind := json_kind (jr_kind r), jr_syscall := map_option cf (jr_syscall r),
       jr_result := map_option rf (jr_result r)\<rparr>"

definition json_history :: "(syscall \<Rightarrow> syscall) \<Rightarrow> ('r \<Rightarrow> 'r) \<Rightarrow> 'r history \<Rightarrow> 'r history" where
  "json_history cf rf h = map (\<lambda>(p, rs). (p, map (json_record cf rf) rs)) h"

definition json_journal :: "(syscall \<Rightarrow> syscall) \<Rightarrow> ('r \<Rightarrow> 'r) \<Rightarrow> ('l, 'r) log_journal \<Rightarrow> ('l, 'r) log_journal" where
  "json_journal cf rf j = j\<lparr>lj_history := json_history cf rf (lj_history j)\<rparr>"

lemma json_kind_eq [simp]:
  "json_kind k = KindIntent \<longleftrightarrow> k = KindIntent" "json_kind k = KindCompletion \<longleftrightarrow> k = KindCompletion"
  by (cases k; simp)+

lemma json_record_simps [simp]:
  "jr_position (json_record cf rf r) = jr_position r" "jr_revision (json_record cf rf r) = jr_revision r"
  "jr_kind (json_record cf rf r) = json_kind (jr_kind r)"
  "jr_syscall (json_record cf rf r) = map_option cf (jr_syscall r)"
  "jr_result (json_record cf rf r) = map_option rf (jr_result r)"
  by (simp_all add: json_record_def)

lemma json_history_Nil [simp]: "json_history cf rf [] = []"
  by (simp add: json_history_def)

lemma at_pos_json [simp]: "at_pos (json_history cf rf h) p = map (json_record cf rf) (at_pos h p)"
proof -
  have "mget (json_history cf rf h) p = map_option (map (json_record cf rf)) (mget h p)"
    by (simp add: json_history_def map_of_map)
  then show ?thesis by (simp add: at_pos_def split: option.split)
qed

lemma json_history_add: "json_history cf rf (history_add r h) = history_add (json_record cf rf r) (json_history cf rf h)"
proof -
  have "map (\<lambda>(p, rs). (p, map g rs)) (mput k v m) = mput k (map g v) (map (\<lambda>(p, rs). (p, map g rs)) m)"
    for g :: "'a jrecord \<Rightarrow> 'a jrecord" and k v and m :: "'a history"
    by (induction m) auto
  then show ?thesis unfolding history_add_def at_pos_json json_record_simps by (simp add: json_history_def)
qed

lemma get_at_json: "get_at (json_history cf rf h) p m = map_option (json_record cf rf) (get_at h p m)"
proof -
  have "best_below m (map_option g b) (map g rs) = map_option g (best_below m b rs)"
    if "\<And>r. jr_revision (g r) = jr_revision r" for g :: "'a jrecord \<Rightarrow> 'a jrecord" and b rs
    by (induction rs arbitrary: b) (auto simp: that split: option.splits simp flip: option.map(2))
  from this [of "json_record cf rf" None] show ?thesis by (simp add: get_at_def)
qed

lemma history_length_json [simp]: "history_length (json_history cf rf h) v f = history_length h v f"
proof -
  have "length_at v (p, map (json_record cf rf) rs) n = length_at v (p, rs) n" for p rs n
    by (simp add: length_at_eq)
  then have "fold (length_at v) (json_history cf rf h) f = fold (length_at v) h f"
    unfolding json_history_def by (induction h arbitrary: f) auto
  then show ?thesis by (simp add: history_length_def)
qed

lemma json_history_keys: "map fst (json_history cf rf h) = map fst h"
  by (simp add: json_history_def comp_def case_prod_unfold)

lemma json_journal_simps [simp]:
  "lj_log (json_journal cf rf j) = lj_log j" "lj_session (json_journal cf rf j) = lj_session j"
  "lj_process (json_journal cf rf j) = lj_process j" "lj_revision (json_journal cf rf j) = lj_revision j"
  "lj_length (json_journal cf rf j) = lj_length j" "lj_history (json_journal cf rf j) = json_history cf rf (lj_history j)"
  by (simp_all add: json_journal_def)

lemma json_journal_ok [simp]: "lj_ok (json_journal cf rf j) = lj_ok j"
  by (simp add: lj_ok_def json_history_keys get_at_json)

lemma json_journal_recs:
  assumes "lj_ok j"
  shows "lj_recs (json_journal cf rf j) = map (json_record cf rf) (lj_recs j)"
proof -
  have "the (get_at (lj_history (json_journal cf rf j)) p (lj_revision j)) =
      json_record cf rf (the (get_at (lj_history j) p (lj_revision j)))" if "p < lj_length j" for p
    using assms that by (auto simp: lj_ok_def get_at_json)
  then show ?thesis by (simp add: lj_recs_def)
qed

lemma json_wf_records [simp]: "wf_records (map (json_record cf rf) rs) = wf_records rs"
  by (simp add: wf_records_def record_ok_def)

text \<open>
  The round trip of a codec: what the encoder accepts decodes to its JSON form. Values JSON keeps
  are their own form, and only they come back as they were.
\<close>

definition codec_ok ::
    "('r jrecord \<Rightarrow> err + 'd) \<Rightarrow> ('d \<Rightarrow> err + 'r jrecord) \<Rightarrow> (syscall \<Rightarrow> syscall) \<Rightarrow> ('r \<Rightarrow> 'r) \<Rightarrow> bool"
where
  "codec_ok enc dec cf rf \<longleftrightarrow> (\<forall>r d. enc r = Inr d \<longrightarrow> dec d = Inr (json_record cf rf r))"

text \<open>
  A recorded call is served after a restart only if JSON keeps it: the replay compares the call's
  bytes with those of the recorded form, and refuses any other as a divergence.
\<close>

lemma json_replay:
  assumes "lj_ok j" "i < lj_length j" "jr_syscall (lj_recs j ! i) = Some c"
  shows "cf c \<noteq> c \<Longrightarrow> tape_next (log_journal_ops L enc) c \<lparr>tp_journal = json_journal cf rf j, tp_cursor = i, tp_pending = False\<rparr> =
      (Inl (ReplayDiverged i (cf c) c), \<lparr>tp_journal = json_journal cf rf j, tp_cursor = i, tp_pending = False\<rparr>)"
    "cf c = c \<Longrightarrow> i + 1 < lj_length j \<Longrightarrow> jr_result (lj_recs j ! (i + 1)) = Some r \<Longrightarrow>
       tape_next (log_journal_ops L enc) c \<lparr>tp_journal = json_journal cf rf j, tp_cursor = i, tp_pending = False\<rparr> =
      (Inr (Some (rf r)), \<lparr>tp_journal = json_journal cf rf j, tp_cursor = i + 2, tp_pending = False\<rparr>)"
proof -
  have ld: "lj_load (json_journal cf rf j) k = Inr (json_record cf rf (lj_recs j ! k))" if "k < lj_length j" for k
    using lj_load_ok [of "json_journal cf rf j" k] assms(1) that by (simp add: json_journal_recs)
  show "cf c \<noteq> c \<Longrightarrow> tape_next (log_journal_ops L enc) c \<lparr>tp_journal = json_journal cf rf j, tp_cursor = i, tp_pending = False\<rparr> =
      (Inl (ReplayDiverged i (cf c) c), \<lparr>tp_journal = json_journal cf rf j, tp_cursor = i, tp_pending = False\<rparr>)"
    using assms(2,3) ld by (simp add: tape_next_def log_journal_ops_def)
  show "cf c = c \<Longrightarrow> i + 1 < lj_length j \<Longrightarrow> jr_result (lj_recs j ! (i + 1)) = Some r \<Longrightarrow>
       tape_next (log_journal_ops L enc) c \<lparr>tp_journal = json_journal cf rf j, tp_cursor = i, tp_pending = False\<rparr> =
      (Inr (Some (rf r)), \<lparr>tp_journal = json_journal cf rf j, tp_cursor = i + 2, tp_pending = False\<rparr>)"
    using assms(2,3) ld by (simp add: tape_next_def log_journal_ops_def)
qed

subsection \<open>Rebuilding a journal from its stream\<close>

text \<open>\<open>restoreSession\<close>'s journal of a process whose last recorded state has this revision and fork offset.\<close>

definition history_in :: "string \<Rightarrow> (string, 'r history) gomap \<Rightarrow> 'r history" where
  "history_in p hs = (case mget hs p of None \<Rightarrow> [] | Some h \<Rightarrow> h)"

definition restore_journal ::
    "('d \<Rightarrow> err + 'r jrecord) \<Rightarrow> 'd event list \<Rightarrow> 'l \<Rightarrow> string \<Rightarrow> string \<Rightarrow> nat \<Rightarrow> nat \<Rightarrow>
     err + ('l, 'r) log_journal"
where
  "restore_journal dec evs l session process v fork =
     (case fold_journals dec evs of
        Inl e \<Rightarrow> Inl e
      | Inr hs \<Rightarrow>
          let h = history_in process hs
          in Inr (new_log_journal l session process v h (history_length h v fork)))"

text \<open>
  What happens to a journal and its stream while the process lives: records appended at the
  tail, forks, and events of other kinds or processes on the same stream. The second
  component is the fork offset the process's state records.
\<close>

datatype ('r, 'd) journal_change = JAppend "'r jrecord" | JFork nat | JOther "'d event"

fun journal_step ::
    "('l, 'd) evlog \<Rightarrow> ('r jrecord \<Rightarrow> err + 'd) \<Rightarrow> ('r, 'd) journal_change \<Rightarrow>
     ('l, 'r) log_journal \<times> nat \<Rightarrow> ('l, 'r) log_journal \<times> nat"
where
  "journal_step L enc (JAppend r) (j, f) = (snd (append_record (log_journal_ops L enc) r j), f)"
| "journal_step L enc (JFork off) (j, f) = (if off \<le> lj_length j then (fork_journal off j, off) else (j, f))"
| "journal_step L enc (JOther ev) (j, f) = (j\<lparr>lj_log := snd (el_append L (lj_session j) ev (lj_log j))\<rparr>, f)"

definition foreign :: "('d \<Rightarrow> err + 'r jrecord) \<Rightarrow> string \<Rightarrow> ('r, 'd) journal_change \<Rightarrow> bool" where
  "foreign dec p s \<longleftrightarrow>
     (case s of
        JOther ev \<Rightarrow> ev_kind ev \<noteq> ev_syscall \<or> ev_proc ev \<noteq> p \<and> \<not> isl (dec (ev_data ev))
      | _ \<Rightarrow> True)"

lemma fold_journals_loop_append:
  "fold_journals_loop dec hs (xs @ ys) =
     (case fold_journals_loop dec hs xs of Inl e \<Rightarrow> Inl e | Inr hs' \<Rightarrow> fold_journals_loop dec hs' ys)"
  by (induction dec hs xs rule: fold_journals_loop.induct) (auto split: sum.splits)

definition logged ::
    "('l, 'd) evlog \<Rightarrow> ('d \<Rightarrow> err + 'r jrecord) \<Rightarrow> (syscall \<Rightarrow> syscall) \<Rightarrow> ('r \<Rightarrow> 'r) \<Rightarrow> ('l, 'r) log_journal \<times> nat \<Rightarrow> bool"
where
  "logged L dec cf rf jf \<longleftrightarrow>
     (case jf of (j, f) \<Rightarrow>
        lj_ok j \<and>
        (\<exists>hs. fold_journals dec (stream L (lj_session j) (lj_log j)) = Inr hs \<and>
              history_in (lj_process j) hs = json_history cf rf (lj_history j)) \<and>
        history_length (lj_history j) (lj_revision j) f = lj_length j)"

lemma logged_restores:
  assumes "logged L dec cf rf (j, f)"
  shows "restore_journal dec (stream L (lj_session j) (lj_log j)) (lj_log j) (lj_session j)
    (lj_process j) (lj_revision j) f = Inr (json_journal cf rf j)"
  using assms by (auto simp: logged_def restore_journal_def new_log_journal_def json_journal_def Let_def)

lemma stream_other:
  assumes "log_laws L" "foreign dec p (JOther ev)" and hs: "fold_journals dec (stream L s l) = Inr hs"
    and a: "el_append L s ev l = (x, l')"
  shows "\<exists>hs'. fold_journals dec (stream L s l') = Inr hs' \<and> history_in p hs' = history_in p hs"
proof (cases x)
  case (Some e)
  then show ?thesis using log_append_err [OF assms(1)] a hs by metis
next
  case None
  obtain n where n: "stream L s l' = stream L s l @ [ev\<lparr>ev_seq := n\<rparr>]"
    using log_append_ok [OF assms(1)] a None by metis
  then show ?thesis
    using hs assms(2)
    by (auto simp: fold_journals_def fold_journals_loop_append foreign_def history_in_def isl_def
        split: sum.splits)
qed

lemma lj_add_length:
  assumes j: "lj_ok j" and p: "jr_position r = lj_length j" and v: "jr_revision r = lj_revision j"
    and f: "history_length (lj_history j) (lj_revision j) f = lj_length j"
  shows "history_length (history_add r (lj_history j)) (lj_revision j) f = Suc (lj_length j)"
proof -
  have d: "distinct (map fst (lj_history j))" "distinct (map fst (history_add r (lj_history j)))"
    using j by (simp_all add: lj_ok_def distinct_history_add)
  have old: "history_length (lj_history j) (lj_revision j) f \<le> m \<longleftrightarrow> lj_length j \<le> m" for m
    by (simp add: f)
  have "history_length (history_add r (lj_history j)) (lj_revision j) f \<le> m \<longleftrightarrow> Suc (lj_length j) \<le> m" for m
    using old [of m] unfolding history_length_at_pos [OF d(1)] history_length_at_pos [OF d(2)]
    using p v by (auto split: if_splits) 
  then show ?thesis by (meson antisym order_refl)
qed

lemma logged_append:
  assumes L: "log_laws L" and C: "codec_ok enc dec cf rf" and lg: "logged L dec cf rf (j, f)"
  shows "logged L dec cf rf (snd (append_record (log_journal_ops L enc) r j), f)"
proof -
  have ok: "lj_ok j" and len: "history_length (lj_history j) (lj_revision j) f = lj_length j"
    using lg by (simp_all add: logged_def)
  obtain hs where hs: "fold_journals dec (stream L (lj_session j) (lj_log j)) = Inr hs"
    "history_in (lj_process j) hs = json_history cf rf (lj_history j)"
    using lg by (auto simp: logged_def)
  let ?r = "r\<lparr>jr_position := lj_length j, jr_revision := lj_revision j\<rparr>"
  show ?thesis
  proof (cases "encode_event enc ev_syscall (lj_process j) (lj_revision j) (el_now L (lj_log j)) ?r")
    case (Inl e)
    then show ?thesis
      using lg by (simp add: append_record_def log_journal_ops_def lj_append_def Let_def)
  next
    case (Inr ev)
    then have ev: "ev_kind ev = ev_syscall" "ev_proc ev = lj_process j" "dec (ev_data ev) = Inr (json_record cf rf ?r)"
      using C by (auto simp: encode_event_def codec_ok_def split: sum.splits)
    obtain x l where a: "el_append L (lj_session j) ev (lj_log j) = (x, l)" by fastforce
    show ?thesis
    proof (cases x)
      case (Some e)
      then have "stream L (lj_session j) l = stream L (lj_session j) (lj_log j)"
        using log_append_err [OF L] a by metis
      then show ?thesis
        using lg Inr a Some
        by (auto simp: append_record_def log_journal_ops_def lj_append_def Let_def logged_def lj_ok_def)
    next
      case None
      obtain n where n: "stream L (lj_session j) l = stream L (lj_session j) (lj_log j) @ [ev\<lparr>ev_seq := n\<rparr>]"
        using log_append_ok [OF L] a None by metis
      have j': "snd (append_record (log_journal_ops L enc) r j) =
          j\<lparr>lj_log := l, lj_history := history_add ?r (lj_history j), lj_length := lj_length j + 1\<rparr>"
        using Inr a None by (simp add: append_record_def log_journal_ops_def lj_append_def Let_def)
      have "fold_journals dec (stream L (lj_session j) l) =
          Inr (mput (lj_process j) (history_add (json_record cf rf ?r) (history_in (lj_process j) hs)) hs)"
        using hs(1) n ev by (simp add: fold_journals_def fold_journals_loop_append history_in_def)
      moreover have "lj_ok (j\<lparr>lj_log := l, lj_history := history_add ?r (lj_history j), lj_length := lj_length j + 1\<rparr>)"
        using lj_add_ok(1) [OF ok, of ?r l] by simp
      ultimately show ?thesis
        unfolding j' logged_def using lj_add_length [OF ok, of ?r f] len hs(2)
        by (simp add: history_in_def json_history_add)
    qed
  qed
qed

lemma logged_fork:
  assumes lg: "logged L dec cf rf (j, f)" and off: "off \<le> lj_length j"
  shows "logged L dec cf rf (fork_journal off j, off)"
proof -
  have ok: "lj_ok j" using lg by (simp add: logged_def)
  then have d: "distinct (map fst (lj_history j))" and none: "\<And>p r. r \<in> set (at_pos (lj_history j) p) \<Longrightarrow> jr_revision r \<noteq> Suc (lj_revision j)"
    by (fastforce simp: lj_ok_def)+
  have "history_length (lj_history j) (Suc (lj_revision j)) off \<le> m \<longleftrightarrow> off \<le> m" for m
    using none by (auto simp: history_length_at_pos [OF d])
  then have "history_length (lj_history j) (Suc (lj_revision j)) off = off" by (meson antisym order_refl)
  then show ?thesis
    using lg fork_journal_ok(1) [OF ok off]
    by (auto simp: logged_def fork_journal_def new_log_journal_def)
qed

lemma logged_step:
  assumes "log_laws L" "codec_ok enc dec cf rf" "logged L dec cf rf (j, f)" "foreign dec (lj_process j) s"
  shows "logged L dec cf rf (journal_step L enc s (j, f))"
proof (cases s)
  case (JAppend r)
  then show ?thesis using logged_append [OF assms(1-3)] by simp
next
  case (JFork off)
  then show ?thesis using logged_fork [OF assms(3)] assms(3) by simp
next
  case (JOther ev)
  obtain x l where a: "el_append L (lj_session j) ev (lj_log j) = (x, l)" by fastforce
  obtain hs where "fold_journals dec (stream L (lj_session j) (lj_log j)) = Inr hs"
    "history_in (lj_process j) hs = json_history cf rf (lj_history j)"
    using assms(3) by (auto simp: logged_def)
  then show ?thesis
    using stream_other [OF assms(1) _ _ a] assms(3,4) JOther a
    by (fastforce simp: logged_def lj_ok_def)
qed

lemma journal_step_names:
  "lj_process (fst (journal_step L enc s (j, f))) = lj_process j"
  "lj_session (fst (journal_step L enc s (j, f))) = lj_session j"
  by (cases s; auto simp: append_record_def log_journal_ops_def lj_append_def Let_def fork_journal_def
      new_log_journal_def split: sum.splits prod.splits option.splits)+

lemma logged_steps:
  assumes "log_laws L" "codec_ok enc dec cf rf" "logged L dec cf rf (j, f)" "list_all (foreign dec (lj_process j)) ss"
  shows "logged L dec cf rf (fold (journal_step L enc) ss (j, f))"
  using assms(3,4)
proof (induction ss arbitrary: j f)
  case (Cons s ss)
  obtain j' f' where s: "journal_step L enc s (j, f) = (j', f')" by fastforce
  have "lj_process j' = lj_process j" using journal_step_names(1) [of L enc s j f] s by simp
  then show ?case
    using Cons logged_step [OF assms(1,2) Cons.prems(1), of s] s by simp
qed simp

subsection \<open>The section a process stopped in\<close>

text \<open>The nesting depth after a run of completed calls; a commit outside every section is ignored.\<close>

fun depth_after :: "nat \<Rightarrow> syscall list \<Rightarrow> nat" where
  "depth_after d [] = d"
| "depth_after d (c # cs) =
     depth_after (if sc_name c = sys_begin then d + 1 else if sc_name c = sys_commit then d - 1 else d) cs"

lemma depth_after_append: "depth_after d (xs @ ys) = depth_after (depth_after d xs) ys"
  by (induction d xs rule: depth_after.induct) auto

lemma begin_not_commit [simp]: "sys_begin \<noteq> sys_commit" "sys_commit \<noteq> sys_begin"
  by (simp_all add: sys_names)

text \<open>\<open>off\<close> is one past the completion of the begin that is open since and was outermost then.\<close>

definition opens_at :: "syscall list \<Rightarrow> nat \<Rightarrow> nat \<Rightarrow> bool" where
  "opens_at cs m off \<longleftrightarrow>
     (\<exists>k < m. off = 2 * k + 2 \<and> sc_name (cs ! k) = sys_begin \<and> depth_after 0 (take k cs) = 0 \<and>
        (\<forall>i. k < i \<and> i \<le> m \<longrightarrow> 0 < depth_after 0 (take i cs)))"

lemma opens_at_Suc: "opens_at cs m off \<Longrightarrow> 0 < depth_after 0 (take (Suc m) cs) \<Longrightarrow> opens_at cs (Suc m) off"
  unfolding opens_at_def using le_Suc_eq less_SucI by metis

context journal_store
begin

lemma open_begin_loop_spec:
  assumes "ok j" "wf_records (recs j)"
    and "k + n = length (pairs (recs j))"
    and "depth = depth_after 0 (take k (map fst (pairs (recs j))))"
    and "0 < depth \<longrightarrow> opens_at (map fst (pairs (recs j))) k off"
  shows "\<exists>off'. open_begin_loop J j k n depth off = Inr (off', depth_after 0 (map fst (pairs (recs j)))) \<and>
    (0 < depth_after 0 (map fst (pairs (recs j))) \<longrightarrow>
       opens_at (map fst (pairs (recs j))) (length (pairs (recs j))) off')"
  using assms(3-5)
proof (induction n arbitrary: k depth off)
  case 0
  then show ?case by simp
next
  case (Suc n)
  let ?cs = "map fst (pairs (recs j))"
  have k: "k < length (pairs (recs j))" using Suc.prems(1) by simp
  then have lt: "2 * k < length (recs j)" "k < length (recs j) div 2" by (simp_all add: pairs_length)
  obtain c where c: "jr_syscall (recs j ! (2 * k)) = Some c"
    using assms(2) lt(1) by (fastforce simp: wf_records_def record_ok_def)
  have ck: "?cs ! k = c" using k lt c by (simp add: pairs_nth)
  have ld: "j_load J j (2 * k) = Inr (recs j ! (2 * k))" using assms(1) lt by (simp add: store_load)
  let ?d = "if sc_name c = sys_begin then depth + 1 else if sc_name c = sys_commit then depth - 1 else depth"
  let ?o = "if sc_name c = sys_begin \<and> depth = 0 then 2 * k + 2 else off"
  have "take (Suc k) ?cs = take k ?cs @ [c]"
    using k ck take_Suc_conv_app_nth [of k ?cs] by simp
  then have d: "?d = depth_after 0 (take (Suc k) ?cs)"
    using Suc.prems(2) by (simp add: depth_after_append)
  have o: "0 < ?d \<longrightarrow> opens_at ?cs (Suc k) ?o"
  proof
    assume pos: "0 < ?d"
    show "opens_at ?cs (Suc k) ?o"
    proof (cases "depth = 0")
      case True
      then have b: "sc_name c = sys_begin" using pos by (auto split: if_splits)
      have "0 < depth_after 0 (take i ?cs)" if "k < i" "i \<le> Suc k" for i
      proof -
        have "i = Suc k" using that by simp
        then show ?thesis using pos d by simp
      qed
      then show ?thesis
        unfolding opens_at_def using True b Suc.prems(2) ck by (intro exI [of _ k]) simp
    next
      case False
      then show ?thesis using Suc.prems(3) opens_at_Suc pos d by auto
    qed
  qed
  have "open_begin_loop J j k (Suc n) depth off = open_begin_loop J j (Suc k) n ?d ?o"
    using ld c by auto
  then show ?case using Suc.IH [OF _ d o] Suc.prems(1) by simp
qed

lemma outermost_open_begin_spec:
  assumes "ok j" "wf_records (recs j)"
  shows "\<exists>off. outermost_open_begin J j = Inr (off, 0 < depth_after 0 (map fst (pairs (recs j)))) \<and>
    (0 < depth_after 0 (map fst (pairs (recs j))) \<longrightarrow>
       opens_at (map fst (pairs (recs j))) (length (pairs (recs j))) off)"
  using open_begin_loop_spec [OF assms, of 0 "length (recs j) div 2" 0 0] assms(1)
  by (auto simp: outermost_open_begin_def store_length pairs_length)

lemma opens_at_bound:
  assumes "opens_at (map fst (pairs (recs j))) (length (pairs (recs j))) off"
  shows "off \<le> length (recs j)" "even off" "2 \<le> off"
proof -
  obtain k where "off = 2 * k + 2" "k < length (pairs (recs j))"
    using assms unfolding opens_at_def by blast
  then show "off \<le> length (recs j)" "even off" "2 \<le> off" by (auto simp: pairs_length)
qed

end

subsection \<open>Entries of a history\<close>

text \<open>The outcome an entry shows: its own revision's completion, or none yet.\<close>

definition shown_outcome :: "'r sysapi \<Rightarrow> 'r history \<Rightarrow> nat \<Rightarrow> nat \<Rightarrow> outcome" where
  "shown_outcome S h p v =
     (case filter (\<lambda>k. jr_revision k = v) (at_pos h (p + 1)) of
        [] \<Rightarrow> in_flight
      | ks \<Rightarrow> encode_outcome S (the (jr_result (last ks))))"

definition wf_history :: "'r history \<Rightarrow> bool" where
  "wf_history h \<longleftrightarrow>
     distinct (map fst h) \<and>
     (\<forall>p. \<forall>r \<in> set (at_pos h p). (jr_kind r = KindIntent \<longrightarrow> even p \<and> jr_syscall r \<noteq> None) \<and>
        (jr_kind r \<noteq> KindIntent \<longrightarrow> odd p \<and> jr_result r \<noteq> None))"

lemma outcome_at_shown:
  assumes "\<forall>k \<in> set (at_pos h (p + 1)). jr_result k \<noteq> None"
  shows "outcome_at S h p v = Inr (shown_outcome S h p v)"
proof -
  have "fold (\<lambda>k acc. case acc of Inl e \<Rightarrow> Inl e | Inr out \<Rightarrow>
          if jr_revision k = v then (case jr_result k of None \<Rightarrow> Inl NilDeref | Some r \<Rightarrow> Inr (encode_outcome S r))
          else Inr out) ks (Inr out) =
      Inr (case filter (\<lambda>k. jr_revision k = v) ks of [] \<Rightarrow> out
           | ks \<Rightarrow> encode_outcome S (the (jr_result (last ks))))"
    if "\<forall>k \<in> set ks. jr_result k \<noteq> None" for ks out
    using that
  proof (induction ks arbitrary: out)
    case (Cons k ks)
    obtain r where "jr_result k = Some r" using Cons.prems by auto
    then show ?case using Cons by (auto split: list.splits)
  qed simp
  then show ?thesis using assms by (simp add: outcome_at_def shown_outcome_def)
qed

lemma all_right_map_Inr: "all_right (map (\<lambda>x. Inr (f x)) xs) = Inr (map f xs)"
  by (induction xs) auto

lemma set_intents:
  assumes "distinct (map fst h)"
  shows "(p, r) \<in> set (intents h) \<longleftrightarrow> r \<in> set (at_pos h p) \<and> jr_kind r = KindIntent"
  using assms by (auto simp: intents_def at_pos_def split: option.splits dest: map_of_SomeD)

definition view_of :: "'r sysapi \<Rightarrow> 'r history \<Rightarrow> nat \<times> 'r jrecord \<Rightarrow> entry_view" where
  "view_of S h pr =
     \<lparr>je_position = fst pr, je_revision = jr_revision (snd pr), je_syscall = the (jr_syscall (snd pr)),
      je_outcome = shown_outcome S h (fst pr) (jr_revision (snd pr))\<rparr>"

lemma entries_eq:
  assumes "wf_history h"
  shows "entries S h = Inr (sort_key entry_key (map (view_of S h) (intents h)))"
proof -
  have "entry_of S h p r = Inr (view_of S h (p, r))" if "(p, r) \<in> set (intents h)" for p r
  proof -
    have "r \<in> set (at_pos h p)" "jr_kind r = KindIntent"
      using that set_intents assms by (auto simp: wf_history_def)
    then have r: "jr_syscall r \<noteq> None" "even p" using assms unfolding wf_history_def by blast+
    have "jr_result k \<noteq> None" if "k \<in> set (at_pos h (p + 1))" for k
      using assms that r(2) unfolding wf_history_def by (metis even_plus_one_iff)
    then show ?thesis
      using r(1) by (auto simp: entry_of_def view_of_def outcome_at_shown)
  qed
  then have "map (\<lambda>(p, r). entry_of S h p r) (intents h) = map (\<lambda>x. Inr (view_of S h x)) (intents h)"
    by auto
  then show ?thesis unfolding entries_def by (simp only: all_right_map_Inr sum.case)
qed

subsection \<open>A journal on which witnesses evaluate\<close>

type_synonym demo_journal = "(demo_result jrecord mem_log, demo_result) log_journal"

definition demo_ops :: "(demo_journal, demo_result) journal_ops" where
  "demo_ops = log_journal_ops mem_evlog Inr"

definition demo_start :: "demo_journal tape" where
  "demo_start = new_tape (new_log_journal \<lparr>ml_events = [], ml_now = 0, ml_full = False\<rparr> ''s'' ''p'' 1 [] 0)"

definition demo_next :: "(unit, demo_result, demo_journal tape) dispatcher" where
  "demo_next = (\<lambda>t k c a w. (Inr (mk_result demo_sys (sc_name c)), w))"

definition demo_guest :: "demo_result guest" where
  "demo_guest obs =
     (case obs of
        [] \<Rightarrow> Some \<lparr>sc_name = sys_begin, sc_args = ''''\<rparr>
      | [_] \<Rightarrow> Some \<lparr>sc_name = ''a'', sc_args = ''1''\<rparr>
      | _ \<Rightarrow> None)"

definition demo_chain :: "syscall \<Rightarrow> demo_journal tape \<Rightarrow> (err + demo_result) \<times> demo_journal tape" where
  "demo_chain = tracked demo_sys demo_ops demo_next (\<lambda>c w. []) (\<lambda>c r w. w) () no_auth"

definition demo_end :: "demo_journal tape" where
  "demo_end = snd (snd (run_guest 3 demo_sys demo_chain demo_guest [] demo_start))"

lemma demo_start_runs: "records_run lj_recs lj_ok demo_sys demo_guest demo_start" "synced lj_recs [] demo_start"
  by (simp_all add: records_run_def tape_ok_def demo_start_def new_tape_def new_log_journal_ok
      follows_def settled_def synced_def has_seen_def)

lemma demo_next_below: "below_ok lj_recs lj_ok demo_next"
  by (simp add: below_ok_def demo_next_def)

lemma demo_note: "note_ok (\<lambda>c r (w :: demo_journal tape). w)"
  by (simp add: note_ok_def)

lemma demo_end_eq:
  "run_guest 3 demo_sys demo_chain demo_guest [] demo_start =
     (Finished, [mk_result demo_sys sys_begin, mk_result demo_sys ''a''], demo_end)"
  by (simp add: demo_end_def) code_simp

lemma demo_end_runs: "records_run lj_recs lj_ok demo_sys demo_guest demo_end"
  using lj.run_records [OF demo_start_runs demo_next_below demo_note
      demo_end_eq [unfolded demo_chain_def demo_ops_def]] by simp

lemma demo_end_ok: "tape_ok lj_recs lj_ok demo_end" "lj_ok (tp_journal demo_end)"
    "wf_records (lj_recs (tp_journal demo_end))"
  using demo_end_runs unfolding records_run_def tape_ok_def by blast+

lemma demo_end_pairs:
  "pairs (lj_recs (tp_journal demo_end)) =
     [(\<lparr>sc_name = sys_begin, sc_args = ''''\<rparr>, mk_result demo_sys sys_begin),
      (\<lparr>sc_name = ''a'', sc_args = ''1''\<rparr>, mk_result demo_sys ''a'')]"
  by code_simp

subsection \<open>Properties\<close>

text \<open>C1. Journal before execute: on the runtime's journal, the layers below replay run a call
  only in a world whose journal ends in that call's open intent. Two sets of layers that agree
  on such worlds cannot be told apart through the replay dispatcher, whatever else they do.\<close>

theorem write_ahead:
  fixes w :: "(('l, 'r) log_journal, 'z) tape_scheme"
  assumes "tape_ok lj_recs lj_ok w"
    and "\<forall>v. tape_ok lj_recs lj_ok v \<and> intent_open lj_recs c v \<longrightarrow> next1 t k c a v = next2 t k c a v"
  shows "replay_dispatch S (log_journal_ops L enc) next1 t k c a w =
    replay_dispatch S (log_journal_ops L enc) next2 t k c a w"
  by (rule lj.dispatch_write_ahead [OF assms(1)]) (simp add: assms(2))

text \<open>A driver that fails unless an intent is open is never caught out.\<close>

theorem write_ahead_witness:
  "replay_dispatch demo_sys demo_ops demo_next [] () \<lparr>sc_name = ''b'', sc_args = ''''\<rparr> no_auth demo_end =
   replay_dispatch demo_sys demo_ops
     (\<lambda>t k c a w. if tp_pending w then demo_next t k c a w else (Inl (Plain ''no intent''), w))
     [] () \<lparr>sc_name = ''b'', sc_args = ''''\<rparr> no_auth demo_end"
  unfolding demo_ops_def
  by (rule write_ahead [OF demo_end_ok(1)]) (simp add: intent_open_def)

text \<open>C2. Journal before observe: whatever the layers below do, a result that the replay
  dispatcher hands up (other than a yield) is on the journal when the guest sees it, as the
  completion next to its own call's intent, and the tape stands behind it with no intent
  open. It served no more and no less than that pair.\<close>

theorem journal_before_observe:
  fixes w :: "(('l, 'r) log_journal, 'z) tape_scheme"
  assumes "tape_ok lj_recs lj_ok w" "below_ok lj_recs lj_ok next"
    and "replay_dispatch S (log_journal_ops L enc) next t k c a w = (Inr r, w')"
    and "status_of S r \<noteq> StatusYield"
  shows "tape_ok lj_recs lj_ok w' \<and>
    tp_cursor w' = tp_cursor w + 2 \<and> \<not> tp_pending w' \<and>
    tp_cursor w' \<le> length (lj_recs (tp_journal w')) \<and>
    jr_syscall (lj_recs (tp_journal w') ! tp_cursor w) = Some c \<and>
    jr_result (lj_recs (tp_journal w') ! (tp_cursor w + 1)) = Some r"
  using lj.dispatch_keeps [OF assms(1-3)] lj.dispatch_observed [OF assms] by blast

theorem journal_before_observe_witness:
  "\<exists>w'. replay_dispatch demo_sys demo_ops demo_next [] () \<lparr>sc_name = ''a'', sc_args = ''1''\<rparr> no_auth demo_start =
     (Inr (mk_result demo_sys ''a''), w') \<and>
   jr_syscall (lj_recs (tp_journal w') ! 0) = Some \<lparr>sc_name = ''a'', sc_args = ''1''\<rparr> \<and>
   jr_result (lj_recs (tp_journal w') ! 1) = Some (mk_result demo_sys ''a'')"
proof -
  let ?d = "replay_dispatch demo_sys demo_ops demo_next [] () \<lparr>sc_name = ''a'', sc_args = ''1''\<rparr> no_auth demo_start"
  have "fst ?d = Inr (mk_result demo_sys ''a'')" by code_simp
  then obtain w' where d: "?d = (Inr (mk_result demo_sys ''a''), w')" by (metis prod.collapse)
  have "tape_ok lj_recs lj_ok demo_start" using demo_start_runs by (simp add: records_run_def)
  moreover have "status_of demo_sys (mk_result demo_sys ''a'') \<noteq> StatusYield" "tp_cursor demo_start = 0"
    by (simp_all add: demo_sys_def demo_start_def new_tape_def)
  ultimately have "jr_syscall (lj_recs (tp_journal w') ! 0) = Some \<lparr>sc_name = ''a'', sc_args = ''1''\<rparr> \<and>
      jr_result (lj_recs (tp_journal w') ! 1) = Some (mk_result demo_sys ''a'')"
    using journal_before_observe [OF _ demo_next_below d [unfolded demo_ops_def]] by (metis add_0)
  with d show ?thesis by blast
qed

text \<open>C4. A quantum, however it ends and whatever the layers below return, leaves a
  well-formed journal that records a run of its guest: earlier records stay, the guest saw
  exactly the recorded results in order, a quantum that parked did so behind the open intent
  of the call that yielded, and no yield is ever recorded as an outcome.\<close>

theorem quantum_is_recorded:
  fixes w :: "(('l, 'r) log_journal, 'z) tape_scheme"
  assumes "records_run lj_recs lj_ok S g w" "synced lj_recs obs w"
    and "below_ok lj_recs lj_ok next" "note_ok note"
    and "run_guest n S (tracked S (log_journal_ops L enc) next look note cred a) g obs w = (e, obs', w')"
  shows "records_run lj_recs lj_ok S g w' \<and> has_seen lj_recs obs' w' \<and>
    (\<exists>ys. lj_recs (tp_journal w') = lj_recs (tp_journal w) @ ys) \<and>
    (e = Finished \<longrightarrow> g obs' = None) \<and>
    (e = Parked \<longrightarrow> (\<exists>c. g obs' = Some c \<and> intent_open lj_recs c w'))"
  by (rule lj.run_records [OF assms])

theorem quantum_is_recorded_witness:
  "records_run lj_recs lj_ok demo_sys demo_guest demo_end \<and>
   demo_guest [mk_result demo_sys sys_begin, mk_result demo_sys ''a''] = None"
  using quantum_is_recorded [OF demo_start_runs demo_next_below demo_note
      demo_end_eq [unfolded demo_chain_def demo_ops_def]] by blast

text \<open>C3. Recovery: a new quantum over a journal that records a run of the guest serves every
  completed call from the record and reaches the point the earlier run had reached, with the
  same observations. Nothing below replay runs meanwhile (the layers are arbitrary here), the
  journal is untouched, and the only change to the world is what the monitor above notes of
  the recorded results, so the taint is rebuilt from the journal.\<close>

theorem replay_recovers:
  fixes w :: "(('l, 'r) log_journal, 'z) tape_scheme"
  assumes "records_run lj_recs lj_ok S g w" "note_ok note"
  shows "run_guest (length (pairs (lj_recs (tp_journal w))) + n) S
      (tracked S (log_journal_ops L enc) next look note cred a) g [] (rewind w) =
    run_guest n S (tracked S (log_journal_ops L enc) next look note cred a) g
      (map snd (pairs (lj_recs (tp_journal w))))
      (fold (\<lambda>(c, r). note c r) (pairs (lj_recs (tp_journal w))) (rewind w)
         \<lparr>tp_cursor := 2 * length (pairs (lj_recs (tp_journal w)))\<rparr>)"
  by (rule lj.run_recovers [OF assms])

text \<open>Replaying the demonstration's record with layers that only fail ends as the first run did.\<close>

theorem replay_recovers_witness:
  "fst (run_guest 3 demo_sys
     (tracked demo_sys demo_ops (\<lambda>t k c a w. (Inl (Plain ''down''), w)) (\<lambda>c w. []) (\<lambda>c r w. w) () no_auth)
     demo_guest [] (rewind demo_end)) = Finished"
proof -
  let ?ch = "tracked demo_sys demo_ops (\<lambda>t k c a w. (Inl (Plain ''down''), w)) (\<lambda>c w. []) (\<lambda>c r w. w) () no_auth"
  have len: "length (pairs (lj_recs (tp_journal demo_end))) + 1 = 3"
    by (simp only: demo_end_pairs) simp
  have "fst (run_guest 1 demo_sys ?ch demo_guest (map snd (pairs (lj_recs (tp_journal demo_end)))) X) = Finished" for X
    by (simp add: demo_end_pairs demo_guest_def)
  then show ?thesis
    using replay_recovers [OF demo_end_runs demo_note, of 1 mem_evlog Inr
        "\<lambda>t k c a w. (Inl (Plain ''down''), w)" "\<lambda>c w. []" "()" no_auth]
    unfolding len demo_ops_def by (simp only:)
qed

text \<open>C19. \<open>Verify\<close> accepts a journal exactly when its records are in position order and
  alternate intent (with its syscall) and completion (with its result), so that an open intent
  can only be the last record.\<close>

theorem verify_decides_structure:
  assumes "lj_ok j"
  shows "verify (log_journal_ops L enc) j = None \<longleftrightarrow> wf_records (lj_recs j)"
  by (rule lj.verify_iff [OF assms])

theorem verify_decides_structure_witness:
  "verify demo_ops (tp_journal demo_end) = None \<longleftrightarrow> wf_records (lj_recs (tp_journal demo_end))"
  unfolding demo_ops_def by (rule verify_decides_structure [OF demo_end_ok(2)])

text \<open>C17. A fork is the exact prefix: the new revision's journal holds the old one's records
  below the offset and nothing else, and what the new revision then writes is invisible to
  every view at the old revision or below, so history is never rewritten.\<close>

theorem fork_is_isolated_prefix:
  assumes "lj_ok j" "off \<le> lj_length j"
    and "append_record (log_journal_ops L enc) r (fork_journal off j) = (None, j')"
  shows "lj_ok j' \<and>
    (\<exists>v. lj_recs j' = take off (lj_recs j) @ [r\<lparr>jr_position := off, jr_revision := v\<rparr>]) \<and>
    (\<forall>p m. m \<le> lj_revision j \<longrightarrow> get_at (lj_history j') p m = get_at (lj_history j) p m)"
proof -
  note f = fork_journal_ok [OF assms(1,2)]
  obtain v where "lj_ok j'" "lj_recs j' = lj_recs (fork_journal off j) @
      [r\<lparr>jr_position := length (lj_recs (fork_journal off j)), jr_revision := v\<rparr>]"
    using lj.append_record_ok [OF f(1) assms(3)] by blast
  moreover have "length (lj_recs (fork_journal off j)) = off"
    by (simp add: fork_journal_def new_log_journal_def)
  ultimately show ?thesis using f(2) fork_append_isolated [OF assms(3)] by auto
qed

theorem fork_is_isolated_prefix_witness:
  "\<exists>j'. append_record demo_ops (intent_record \<lparr>sc_name = ''b'', sc_args = ''''\<rparr>)
      (fork_journal 2 (tp_journal demo_end)) = (None, j') \<and>
    get_at (lj_history j') 2 1 = get_at (lj_history (tp_journal demo_end)) 2 1"
proof -
  let ?a = "append_record demo_ops (intent_record \<lparr>sc_name = ''b'', sc_args = ''''\<rparr>)
      (fork_journal 2 (tp_journal demo_end))"
  have "fst ?a = None" by code_simp
  then have a: "?a = (None, snd ?a)" by (metis prod.collapse)
  have "2 \<le> lj_length (tp_journal demo_end)" "(1::nat) \<le> lj_revision (tp_journal demo_end)" by code_simp+
  then have "get_at (lj_history (snd ?a)) 2 1 = get_at (lj_history (tp_journal demo_end)) 2 1"
    using fork_is_isolated_prefix [OF demo_end_ok(2) _ a [unfolded demo_ops_def]]
    unfolding demo_ops_def by blast
  with a show ?thesis by blast
qed

text \<open>C16. The log is the whole journal, in its JSON form: after any sequence of appends (that
  succeed or are refused), forks, and events of other kinds or other processes on the same
  stream, folding the stream and opening the journal at the recorded revision and fork offset,
  as a restart does, gives back the journal in memory record by record, each in the form JSON
  gives its call and its result, in every revision and with the same length. So what the
  journal then serves is decided by those forms: a recorded call that JSON keeps is answered
  with the form of its recorded result, and a call that JSON does not keep (its arguments were
  compacted, say) is refused as a divergence from the journal's own record of it.\<close>

theorem journal_restores:
  fixes L :: "('l, 'd) evlog" and enc :: "'r jrecord \<Rightarrow> err + 'd"
  assumes "log_laws L" "codec_ok enc dec cf rf"
    and "fold_journals dec (stream L s l) = Inr hs" "history_in p hs = []"
    and "list_all (foreign dec p) ss"
    and "fold (journal_step L enc) ss (new_log_journal l s p v [] 0, 0) = (j, f)"
  shows "\<exists>j'. restore_journal dec (stream L (lj_session j) (lj_log j)) (lj_log j) (lj_session j)
      (lj_process j) (lj_revision j) f = Inr j' \<and>
    j' = j\<lparr>lj_history := json_history cf rf (lj_history j)\<rparr> \<and>
    lj_recs j' = map (json_record cf rf) (lj_recs j) \<and>
    (\<forall>i c. i < lj_length j \<and> jr_syscall (lj_recs j ! i) = Some c \<and> cf c \<noteq> c \<longrightarrow>
       fst (tape_next (log_journal_ops L enc) c \<lparr>tp_journal = j', tp_cursor = i, tp_pending = False\<rparr>) =
         Inl (ReplayDiverged i (cf c) c)) \<and>
    (\<forall>i c r. i + 1 < lj_length j \<and> jr_syscall (lj_recs j ! i) = Some c \<and> cf c = c \<and>
       jr_result (lj_recs j ! (i + 1)) = Some r \<longrightarrow>
       fst (tape_next (log_journal_ops L enc) c \<lparr>tp_journal = j', tp_cursor = i, tp_pending = False\<rparr>) = Inr (Some (rf r)))"
proof -
  have "logged L dec cf rf (new_log_journal l s p v [] 0, 0)"
    using assms(3,4) new_log_journal_ok(1)
    by (auto simp: logged_def new_log_journal_def history_length_def)
  then have "logged L dec cf rf (fold (journal_step L enc) ss (new_log_journal l s p v [] 0, 0))"
    using logged_steps [OF assms(1,2)] assms(5) by (simp add: new_log_journal_def)
  then have lg: "logged L dec cf rf (j, f)" by (simp add: assms(6))
  then have ok: "lj_ok j" by (simp add: logged_def)
  show ?thesis
    by (rule exI [of _ "json_journal cf rf j"])
      (simp add: logged_restores [OF lg] json_journal_recs [OF ok] json_replay [OF ok] json_journal_def [symmetric])
qed

text \<open>A codec that compacts a call's arguments, and a journal it does not keep.\<close>

definition demo_form :: "syscall \<Rightarrow> syscall" where
  "demo_form c = \<lparr>sc_name = json_text (sc_name c), sc_args = strip_ws False (sc_args c)\<rparr>"

definition demo_decode :: "demo_result jrecord \<Rightarrow> err + demo_result jrecord" where
  "demo_decode r = Inr (json_record demo_form id r)"

definition demo_changes :: "(demo_result, demo_result jrecord) journal_change list" where
  "demo_changes =
     [JAppend (intent_record \<lparr>sc_name = ''a'', sc_args = ''1''\<rparr>),
      JAppend (completion_record (mk_result demo_sys ''x'')), JFork 0,
      JOther \<lparr>ev_seq = 0, ev_kind = ''process.state'', ev_time = 0, ev_proc = ''p'', ev_rev = 2,
              ev_data = intent_record \<lparr>sc_name = '''', sc_args = ''''\<rparr>\<rparr>,
      JAppend (intent_record \<lparr>sc_name = ''b'', sc_args = ''[1, 2]''\<rparr>)]"

theorem journal_restores_witness:
  "let l = \<lparr>ml_events = [], ml_now = 0, ml_full = False\<rparr>;
       jf = fold (journal_step mem_evlog Inr) demo_changes (new_log_journal l ''s'' ''p'' 1 [] 0, 0)
   in \<exists>j'. restore_journal demo_decode (stream mem_evlog ''s'' (lj_log (fst jf))) (lj_log (fst jf)) ''s'' ''p'' 2 0 = Inr j' \<and>
      fst (tape_next (log_journal_ops mem_evlog Inr) \<lparr>sc_name = ''b'', sc_args = ''[1, 2]''\<rparr>
             \<lparr>tp_journal = j', tp_cursor = 0, tp_pending = False\<rparr>) =
        Inl (ReplayDiverged 0 \<lparr>sc_name = ''b'', sc_args = ''[1,2]''\<rparr> \<lparr>sc_name = ''b'', sc_args = ''[1, 2]''\<rparr>)"
proof -
  let ?l = "\<lparr>ml_events = [], ml_now = 0, ml_full = False\<rparr> :: demo_result jrecord mem_log"
  let ?jf = "fold (journal_step mem_evlog Inr) demo_changes (new_log_journal ?l ''s'' ''p'' 1 [] 0, 0)"
  let ?c = "\<lparr>sc_name = ''b'', sc_args = ''[1, 2]''\<rparr>"
  have len: "lj_length (fst ?jf) = 1" "lj_session (fst ?jf) = ''s''" "lj_process (fst ?jf) = ''p''"
    "lj_revision (fst ?jf) = 2" "snd ?jf = 0" by code_simp+
  have c: "jr_syscall (lj_recs (fst ?jf) ! 0) = Some ?c" by code_simp
  have kept: "json_text ''b'' = ''b''" by (rule json_keptD [OF ascii_kept]) simp
  have f: "demo_form ?c = \<lparr>sc_name = ''b'', sc_args = ''[1,2]''\<rparr>" by (simp add: demo_form_def kept json_ws_def)
  have e: "fold (journal_step mem_evlog Inr) demo_changes (new_log_journal ?l ''s'' ''p'' 1 [] 0, 0) = (fst ?jf, snd ?jf)"
    by (rule prod.collapse [symmetric])
  have "codec_ok Inr demo_decode demo_form id" by (simp add: codec_ok_def demo_decode_def)
  moreover have "fold_journals demo_decode (stream mem_evlog ''s'' ?l) = Inr []"
    by (simp add: fold_journals_def stream_def mem_evlog_def)
  moreover have "history_in ''p'' [] = ([] :: demo_result history)" by (simp add: history_in_def)
  moreover have "list_all (foreign demo_decode ''p'') demo_changes"
    by (simp add: demo_changes_def foreign_def ev_syscall_def)
  ultimately obtain j' where "restore_journal demo_decode (stream mem_evlog (lj_session (fst ?jf)) (lj_log (fst ?jf)))
      (lj_log (fst ?jf)) (lj_session (fst ?jf)) (lj_process (fst ?jf)) (lj_revision (fst ?jf)) (snd ?jf) = Inr j'"
    "\<forall>i c. i < lj_length (fst ?jf) \<and> jr_syscall (lj_recs (fst ?jf) ! i) = Some c \<and> demo_form c \<noteq> c \<longrightarrow>
       fst (tape_next (log_journal_ops mem_evlog Inr) c \<lparr>tp_journal = j', tp_cursor = i, tp_pending = False\<rparr>) =
         Inl (ReplayDiverged i (demo_form c) c)"
    using journal_restores [OF mem_evlog_laws _ _ _ _ e] by blast
  then show ?thesis unfolding len Let_def using c f by (intro exI [of _ j']) simp
qed

text \<open>C18. \<open>outermostOpenBegin\<close> finds the section the program stopped in: on a well-formed
  journal it never faults; it reports an open section exactly when the begins of the
  completed calls outnumber the commits that close them; and then the offset it returns is one
  past the completion of a sys.begin that was at the outermost level and that nothing later
  closed. Forking there keeps that begin and everything before it, and drops the rest.\<close>

theorem open_section_found:
  assumes "lj_ok j" "wf_records (lj_recs j)"
  shows "\<exists>off. outermost_open_begin (log_journal_ops L enc) j =
      Inr (off, 0 < depth_after 0 (map fst (pairs (lj_recs j)))) \<and>
    (0 < depth_after 0 (map fst (pairs (lj_recs j))) \<longrightarrow>
       opens_at (map fst (pairs (lj_recs j))) (length (pairs (lj_recs j))) off \<and>
       lj_recs (fork_journal off j) = take off (lj_recs j))"
proof -
  obtain off where off: "outermost_open_begin (log_journal_ops L enc) j =
      Inr (off, 0 < depth_after 0 (map fst (pairs (lj_recs j))))"
    "0 < depth_after 0 (map fst (pairs (lj_recs j))) \<longrightarrow>
       opens_at (map fst (pairs (lj_recs j))) (length (pairs (lj_recs j))) off"
    using lj.outermost_open_begin_spec [OF assms] by blast
  have fork: "lj_recs (fork_journal off j) = take off (lj_recs j)"
    if "opens_at (map fst (pairs (lj_recs j))) (length (pairs (lj_recs j))) off"
    using lj.opens_at_bound(1) [OF that] by (intro fork_journal_ok(2) [OF assms(1)]) simp
  show ?thesis
    by (rule exI [of _ off], intro conjI impI) (use off(1) in assumption, use off(2) in blast, use off(2) fork in blast)
qed

theorem open_section_found_witness:
  "outermost_open_begin demo_ops (tp_journal demo_end) = Inr (2, True) \<and>
   0 < depth_after 0 (map fst (pairs (lj_recs (tp_journal demo_end))))"
proof -
  have e: "outermost_open_begin demo_ops (tp_journal demo_end) = Inr (2, True)" by code_simp
  then show ?thesis
    using open_section_found [OF demo_end_ok(2,3), of mem_evlog Inr] unfolding demo_ops_def by auto
qed

text \<open>C20. The listing of a history is complete and ordered: every intent ever journaled, in
  every revision, appears as one entry with its own revision's outcome (in flight while there
  is none), nothing else does, and the entries are in order of position, then revision.\<close>

theorem entries_are_the_intents:
  assumes "wf_history h"
  shows "\<exists>es. entries S h = Inr es \<and> sorted (map entry_key es) \<and>
    length es = length (intents h) \<and>
    set es = {view_of S h (p, r) | p r. r \<in> set (at_pos h p) \<and> jr_kind r = KindIntent}"
proof -
  have "set (map (view_of S h) (intents h)) =
      {view_of S h (p, r) | p r. r \<in> set (at_pos h p) \<and> jr_kind r = KindIntent}"
    using assms set_intents [of h] by (force simp: wf_history_def)
  then show ?thesis using entries_eq [OF assms, of S] by simp
qed

theorem entries_are_the_intents_witness:
  "\<exists>es. entries demo_sys (lj_history (tp_journal demo_end)) = Inr es \<and> length es = 2"
proof -
  have h: "lj_history (tp_journal demo_end) =
      [(0, [\<lparr>jr_position = 0, jr_kind = KindIntent, jr_revision = 1,
             jr_syscall = Some \<lparr>sc_name = sys_begin, sc_args = ''''\<rparr>, jr_result = None\<rparr>]),
       (1, [\<lparr>jr_position = 1, jr_kind = KindCompletion, jr_revision = 1, jr_syscall = None,
             jr_result = Some (mk_result demo_sys sys_begin)\<rparr>]),
       (2, [\<lparr>jr_position = 2, jr_kind = KindIntent, jr_revision = 1,
             jr_syscall = Some \<lparr>sc_name = ''a'', sc_args = ''1''\<rparr>, jr_result = None\<rparr>]),
       (3, [\<lparr>jr_position = 3, jr_kind = KindCompletion, jr_revision = 1, jr_syscall = None,
             jr_result = Some (mk_result demo_sys ''a'')\<rparr>])]"
    by code_simp
  have "wf_history (lj_history (tp_journal demo_end))"
    unfolding h by (auto simp: wf_history_def at_pos_def split: if_splits)
  moreover have "length (intents (lj_history (tp_journal demo_end))) = 2"
    unfolding h by (simp add: intents_def)
  ultimately show ?thesis using entries_are_the_intents by metis
qed

end
