(* ===== verification/Capability.thy ===== *)
theory Capability
  imports SysApi
begin

text \<open>
  The capability vocabulary: \<open>capability/capability.go\<close>, \<open>labels.go\<close>, \<open>context.go\<close> and
  \<open>table.go\<close>. A table is one process's whole grant. The lemmas show what a declared label set
  normalizes to, that \<open>Add\<close>, \<open>Reserve\<close> and \<open>Hide\<close> keep the table well formed, and what a
  call resolves to.
\<close>

subsection \<open>Vocabulary (capability.go)\<close>

record key =
  k_syscall :: string
  k_operation :: string

definition key_string :: "key \<Rightarrow> string" where
  "key_string k =
     (if k_operation k = '''' then k_syscall k else k_syscall k @ ''/'' @ k_operation k)"

text \<open>
  An entry. An empty \<open>e_input\<close> is no schema; \<open>e_prompt\<close> is nil or a rendering; the handler gets
  the context's taint and the call, and acts on the world \<open>'w\<close>.
\<close>

record ('r, 'w) entry =
  e_key :: key
  e_discriminator :: string
  e_description :: string
  e_input :: bytes
  e_labels :: "string list"
  e_forbid :: "string list"
  e_require_approval :: bool
  e_prompt :: "(syscall \<Rightarrow> string) option"
  e_handler :: "taint \<Rightarrow> syscall \<Rightarrow> 'w \<Rightarrow> (err + 'r) \<times> 'w"

record ('r, 'w) family =
  f_description :: string
  f_entries :: "('r, 'w) entry list"

record descriptor =
  d_name :: string
  d_description :: string
  d_input :: bytes
  d_hidden :: bool

subsection \<open>Labels (labels.go, context.go)\<close>

definition syscall_label_prefix :: string where
  "syscall_label_prefix = ''syscall:''"

fun collect_labels :: "string \<Rightarrow> string list \<Rightarrow> err + string list" where
  "collect_labels what [] = Inr []"
| "collect_labels what (label # ls) =
     (let l = trim_space label in
      if l = '''' then collect_labels what ls
      else if has_prefix l syscall_label_prefix then
        Inl (Plain (what @ '' label '' @ quote l @ '' uses the reserved '' @
                    quote syscall_label_prefix @ '' prefix''))
      else (case collect_labels what ls of Inl e \<Rightarrow> Inl e | Inr out \<Rightarrow> Inr (l # out)))"

definition normalize_labels :: "string \<Rightarrow> string list \<Rightarrow> err + string list" where
  "normalize_labels what ls =
     (case collect_labels what ls of
        Inl e \<Rightarrow> Inl e
      | Inr out \<Rightarrow> Inr (remdups_adj (sort out)))"

text \<open>\<open>Taint.Labels\<close>.\<close>

definition taint_labels :: "taint \<Rightarrow> string list" where
  "taint_labels t = sort (mkeys t)"

lemma set_taint_labels [simp]: "set (taint_labels t) = dom (mget t)"
  by (simp add: taint_labels_def)

lemma not_reserved_Nil [simp]: "\<not> has_prefix [] syscall_label_prefix"
  by (simp add: has_prefix_def syscall_label_prefix_def)

lemma collect_labels_eq:
  "\<forall>l \<in> set ls. \<not> has_prefix (trim_space l) syscall_label_prefix \<Longrightarrow>
   collect_labels what ls = Inr (filter (\<lambda>l. l \<noteq> []) (map trim_space ls))"
  by (induction ls) (simp_all add: Let_def)



lemma collect_labels_Inl:
  "(\<exists>e. collect_labels what ls = Inl e) \<longleftrightarrow>
   (\<exists>l \<in> set ls. has_prefix (trim_space l) syscall_label_prefix)"
proof (induction ls)
  case (Cons a ls)
  then show ?case
    by (cases "collect_labels what ls"; cases "trim_space a = ''''") (simp_all add: Let_def)
qed simp

subsection \<open>The table (table.go)\<close>

record route =
  r_discriminator :: string
  r_descriptor :: descriptor

record ('r, 'w) table =
  t_entries :: "(key, ('r, 'w) entry) gomap"
  t_routes :: "(string, route) gomap"
  t_reserved :: "(string, descriptor) gomap"
  t_order :: "string list"

definition new_table :: "('r, 'w) table" where
  "new_table = \<lparr>t_entries = [], t_routes = [], t_reserved = [], t_order = []\<rparr>"

text \<open>\<open>Family.served\<close>: the loop over the entries, and the two values it agrees on.\<close>

fun check_served :: "string \<Rightarrow> string \<Rightarrow> ('r, 'w) entry list \<Rightarrow> err option" where
  "check_served sc disc [] = None"
| "check_served sc disc (e # es) =
     (if k_syscall (e_key e) \<noteq> sc then
        Some (Plain (''family mixes syscalls '' @ quote sc @ '' and '' @ quote (k_syscall (e_key e))))
      else if e_discriminator e \<noteq> disc then
        Some (Plain (''syscall '' @ quote sc @ '' tells its cases apart by '' @ quote disc @
                     '' and '' @ quote (e_discriminator e) @ '' at once''))
      else if disc = '''' \<and> k_operation (e_key e) \<noteq> '''' then
        Some (Plain (''operation '' @ key_string (e_key e) @
                     '' names a case but declares no discriminator to select it''))
      else check_served sc disc es)"

definition served :: "('r, 'w) family \<Rightarrow> err + (string \<times> string)" where
  "served f =
     (case f_entries f of
        [] \<Rightarrow> Inl (Plain ''a family must grant at least one operation'')
      | e # _ \<Rightarrow>
          (let sc = k_syscall (e_key e); disc = e_discriminator e in
           case check_served sc disc (f_entries f) of
             Some x \<Rightarrow> Inl x
           | None \<Rightarrow> Inr (sc, disc)))"

text \<open>The distinct schemas of the entries, in order; \<^term>\<open>None\<close> when one accepts anything.\<close>

fun schema_branches :: "bytes list \<Rightarrow> ('r, 'w) entry list \<Rightarrow> bytes list option" where
  "schema_branches acc [] = Some acc"
| "schema_branches acc (e # es) =
     (if e_input e = '''' then None
      else schema_branches (if e_input e \<in> set acc then acc else acc @ [e_input e]) es)"

text \<open>
  \<open>json.Marshal\<close> of a list of raw messages: each is compacted with HTML escaping, and an
  invalid one fails the whole, which the code ignores.
\<close>

definition html_chunk :: "bytes \<Rightarrow> bytes" where
  "html_chunk c =
     (if c = ''<'' then [CHR 0x5C] @ ''u003c''
      else if c = ''>'' then [CHR 0x5C] @ ''u003e''
      else if c = ''&'' then [CHR 0x5C] @ ''u0026''
      else if c = [CHR 0xE2, CHR 0x80, CHR 0xA8] then [CHR 0x5C] @ ''u2028''
      else if c = [CHR 0xE2, CHR 0x80, CHR 0xA9] then [CHR 0x5C] @ ''u2029''
      else c)"

definition marshal_raws :: "bytes list \<Rightarrow> bytes" where
  "marshal_raws bs =
     (if list_all json_valid bs then
        ''['' @ join '','' (map (\<lambda>b. concat (map html_chunk (rune_chunks (strip_ws False b)))) bs) @ '']''
      else '''')"

definition menu_schema :: "('r, 'w) entry list \<Rightarrow> bytes" where
  "menu_schema es =
     (case schema_branches [] es of
        None \<Rightarrow> ''''
      | Some [b] \<Rightarrow> b
      | Some bs \<Rightarrow> ''{'' @ [CHR 0x22] @ ''oneOf'' @ [CHR 0x22] @ '':'' @ marshal_raws bs @ ''}'')"

text \<open>The loop of \<open>Table.Add\<close>: it stops at an operation granted twice, what it stored stays.\<close>

fun add_entries ::
    "('r, 'w) entry list \<Rightarrow> (key, ('r, 'w) entry) gomap \<Rightarrow> err option \<times> (key, ('r, 'w) entry) gomap"
where
  "add_entries [] m = (None, m)"
| "add_entries (e # es) m =
     (if mget m (e_key e) \<noteq> None then
        (Some (Plain (''operation '' @ key_string (e_key e) @ '' is granted twice'')), m)
      else add_entries es (mput (e_key e) e m))"

definition table_add :: "('r, 'w) family \<Rightarrow> ('r, 'w) table \<Rightarrow> err option \<times> ('r, 'w) table" where
  "table_add f t =
     (case served f of
        Inl e \<Rightarrow> (Some e, t)
      | Inr (sc, disc) \<Rightarrow>
          if mget (t_routes t) sc \<noteq> None then
            (Some (Plain (''syscall '' @ quote sc @ '' is served twice'')), t)
          else if mget (t_reserved t) sc \<noteq> None then
            (Some (Plain (''syscall '' @ quote sc @ '' is already reserved by a layer above'')), t)
          else
            (case add_entries (f_entries f) (t_entries t) of
               (Some e, m) \<Rightarrow> (Some e, t\<lparr>t_entries := m\<rparr>)
             | (None, m) \<Rightarrow>
                 (None,
                  t\<lparr>t_entries := m,
                    t_routes := mput sc
                      \<lparr>r_discriminator = disc,
                       r_descriptor = \<lparr>d_name = sc, d_description = f_description f,
                                       d_input = menu_schema (f_entries f), d_hidden = False\<rparr>\<rparr>
                      (t_routes t),
                    t_order := t_order t @ [sc]\<rparr>)))"

definition table_reserve :: "descriptor \<Rightarrow> ('r, 'w) table \<Rightarrow> err option \<times> ('r, 'w) table" where
  "table_reserve d t =
     (if mget (t_routes t) (d_name d) \<noteq> None then
        (Some (Plain (''syscall '' @ quote (d_name d) @ '' is already served by a handler'')), t)
      else if mget (t_reserved t) (d_name d) \<noteq> None then
        (Some (Plain (''syscall '' @ quote (d_name d) @ '' is reserved twice'')), t)
      else (None, t\<lparr>t_reserved := mput (d_name d) d (t_reserved t), t_order := t_order t @ [d_name d]\<rparr>))"

definition table_hide :: "string \<Rightarrow> ('r, 'w) table \<Rightarrow> ('r, 'w) table" where
  "table_hide sc t =
     (case mget (t_routes t) sc of
        None \<Rightarrow> t
      | Some r \<Rightarrow>
          t\<lparr>t_routes := mput sc (r\<lparr>r_descriptor := (r_descriptor r)\<lparr>d_hidden := True\<rparr>\<rparr>) (t_routes t)\<rparr>)"

text \<open>
  \<open>caseName\<close>. \<open>null\<close> decodes into a nil map and into an empty string without an error; of two
  members with the discriminator's name the later one counts.
\<close>

definition case_name :: "string \<Rightarrow> bytes \<Rightarrow> err + string" where
  "case_name disc args =
     (if disc = '''' then Inr ''''
      else
        let malformed = Inl (Plain (''arguments must be an object with a string '' @ quote disc)) in
        case unmarshal args of
          None \<Rightarrow> malformed
        | Some JNull \<Rightarrow> Inr ''''
        | Some (JObj ms) \<Rightarrow>
            (case map_of (rev ms) disc of
               None \<Rightarrow> Inr ''''
             | Some (JStr s) \<Rightarrow> Inr s
             | Some JNull \<Rightarrow> Inr ''''
             | Some _ \<Rightarrow> malformed)
        | Some _ \<Rightarrow> malformed)"

text \<open>\<open>Operations\<close>, sorted.\<close>

definition operations :: "('r, 'w) table \<Rightarrow> string \<Rightarrow> string list" where
  "operations t sc =
     sort (map k_operation (filter (\<lambda>k. k_syscall k = sc \<and> k_operation k \<noteq> '''') (mkeys (t_entries t))))"

definition resolve :: "('r, 'w) table \<Rightarrow> syscall \<Rightarrow> err + ('r, 'w) entry" where
  "resolve t c =
     (case mget (t_routes t) (sc_name c) of
        None \<Rightarrow> Inl (DenialError (sc_name c) '''' [])
      | Some r \<Rightarrow>
          (case case_name (r_discriminator r) (sc_args c) of
             Inl e \<Rightarrow> Inl (ArgsError (sc_name c) (err_text e))
           | Inr oper \<Rightarrow>
               (case mget (t_entries t) \<lparr>k_syscall = sc_name c, k_operation = oper\<rparr> of
                  None \<Rightarrow> Inl (DenialError (sc_name c) oper (operations t (sc_name c)))
                | Some e \<Rightarrow> Inr e)))"

text \<open>\<open>Table.Labels\<close>.\<close>

definition call_labels :: "('r, 'w) table \<Rightarrow> syscall \<Rightarrow> string list" where
  "call_labels t c = (case resolve t c of Inl _ \<Rightarrow> [] | Inr e \<Rightarrow> e_labels e)"

text \<open>\<open>Table.Descriptor\<close> and \<open>Table.Descriptors\<close>.\<close>

definition descriptor_of :: "('r, 'w) table \<Rightarrow> string \<Rightarrow> descriptor option" where
  "descriptor_of t sc =
     (case mget (t_routes t) sc of
        Some r \<Rightarrow> Some (r_descriptor r)
      | None \<Rightarrow> mget (t_reserved t) sc)"

definition descriptors :: "('r, 'w) table \<Rightarrow> descriptor list" where
  "descriptors t = List.map_filter (descriptor_of t) (t_order t)"

text \<open>\<open>Table.Entries\<close>, sorted by key.\<close>

definition sorted_entries :: "('r, 'w) table \<Rightarrow> ('r, 'w) entry list" where
  "sorted_entries t = sort_key (\<lambda>e. key_string (e_key e)) (map snd (t_entries t))"

subsection \<open>Well-formed tables\<close>

definition routes_ok :: "('r, 'w) table \<Rightarrow> bool" where
  "routes_ok t \<longleftrightarrow>
     (\<forall>sc r. mget (t_routes t) sc = Some r \<longrightarrow> d_name (r_descriptor r) = sc) \<and>
     (\<forall>sc d. mget (t_reserved t) sc = Some d \<longrightarrow> d_name d = sc)"

text \<open>Every entry stands under its own key, on a routed syscall, selected by the route's property.\<close>

definition entries_ok :: "('r, 'w) table \<Rightarrow> bool" where
  "entries_ok t \<longleftrightarrow>
     (\<forall>k e. mget (t_entries t) k = Some e \<longrightarrow>
        e_key e = k \<and>
        (\<exists>r. mget (t_routes t) (k_syscall k) = Some r \<and> e_discriminator e = r_discriminator r \<and>
             (r_discriminator r = '''' \<longrightarrow> k_operation k = '''')))"

definition served_ok :: "('r, 'w) table \<Rightarrow> bool" where
  "served_ok t \<longleftrightarrow>
     (\<forall>sc \<in> dom (mget (t_routes t)). \<exists>k \<in> dom (mget (t_entries t)). k_syscall k = sc)"

definition wf_table :: "('r, 'w) table \<Rightarrow> bool" where
  "wf_table t \<longleftrightarrow>
     distinct (t_order t) \<and>
     set (t_order t) = dom (mget (t_routes t)) \<union> dom (mget (t_reserved t)) \<and>
     dom (mget (t_routes t)) \<inter> dom (mget (t_reserved t)) = {} \<and>
     routes_ok t \<and> entries_ok t \<and> served_ok t"

lemmas wf_table_defs = wf_table_def routes_ok_def entries_ok_def served_ok_def

lemma wf_new_table [simp, inv_laws]: "wf_table new_table"
  by (simp add: wf_table_defs new_table_def)

subsection \<open>What the operations do\<close>

lemma check_served_None:
  "check_served sc disc es = None \<longleftrightarrow>
   (\<forall>e \<in> set es. k_syscall (e_key e) = sc \<and> e_discriminator e = disc \<and>
                   (disc = '''' \<longrightarrow> k_operation (e_key e) = ''''))"
  by (induction es) auto

lemma served_Inr:
  assumes "served f = Inr (sc, disc)"
  shows "f_entries f \<noteq> []"
    and "\<forall>e \<in> set (f_entries f). k_syscall (e_key e) = sc \<and> e_discriminator e = disc \<and>
                   (disc = '''' \<longrightarrow> k_operation (e_key e) = '''')"
  using assms
  by (auto simp: served_def Let_def check_served_None simp del: check_served.simps
           split: list.splits option.splits)

lemma add_entries_other:
  "add_entries es m = (x, m') \<Longrightarrow> k \<notin> e_key ` set es \<Longrightarrow> mget m' k = mget m k"
  by (induction es arbitrary: m) (auto split: if_splits)

lemma add_entries_None:
  "add_entries es m = (None, m') \<Longrightarrow> e \<in> set es \<Longrightarrow> mget m' (e_key e) = Some e"
proof (induction es arbitrary: m)
  case (Cons a es)
  then have step: "add_entries es (mput (e_key a) a m) = (None, m')"
    by (auto split: if_splits)
  have new: "e_key b \<noteq> e_key a" if "b \<in> set es" for b
  proof
    assume eq: "e_key b = e_key a"
    have "add_entries xs n \<noteq> (None, m')"
      if "b \<in> set xs" "mget n (e_key b) \<noteq> None" for xs n
      using that by (induction xs arbitrary: n) auto
    from this [OF that, of "mput (e_key a) a m"] step eq show False by simp
  qed
  show ?case
  proof (cases "e = a")
    case True
    have "mget m' (e_key a) = mget (mput (e_key a) a m) (e_key a)"
      by (rule add_entries_other [OF step]) (use new in force)
    then show ?thesis using True by simp
  next
    case False
    then show ?thesis using Cons.IH [OF step] Cons.prems by simp
  qed
qed simp

lemma add_entries_dom:
  "add_entries es m = (None, m') \<Longrightarrow> dom (mget m') = dom (mget m) \<union> e_key ` set es"
  (is "?A \<Longrightarrow> _")
proof (rule set_eqI)
  fix k assume a: ?A
  show "k \<in> dom (mget m') \<longleftrightarrow> k \<in> dom (mget m) \<union> e_key ` set es"
    by (cases "k \<in> e_key ` set es")
      (use add_entries_None [OF a] add_entries_other [OF a, of k] in auto)
qed

lemma table_add_None:
  assumes "table_add f t = (None, t')"
  obtains sc disc m where "served f = Inr (sc, disc)"
    and "mget (t_routes t) sc = None" and "mget (t_reserved t) sc = None"
    and "add_entries (f_entries f) (t_entries t) = (None, m)"
    and "t' = t\<lparr>t_entries := m,
            t_routes := mput sc
              \<lparr>r_discriminator = disc,
               r_descriptor = \<lparr>d_name = sc, d_description = f_description f,
                               d_input = menu_schema (f_entries f), d_hidden = False\<rparr>\<rparr> (t_routes t),
            t_order := t_order t @ [sc]\<rparr>"
  using assms by (auto simp: table_add_def split: sum.splits prod.splits option.splits if_splits)

lemma table_add_wf [inv_laws]:
  assumes wf: "wf_table t" and add: "table_add f t = (None, t')"
  shows "wf_table t'"
proof -
  obtain sc disc m where s: "served f = Inr (sc, disc)"
    and fresh: "mget (t_routes t) sc = None" "mget (t_reserved t) sc = None"
    and a: "add_entries (f_entries f) (t_entries t) = (None, m)"
    and t': "t' = t\<lparr>t_entries := m,
            t_routes := mput sc
              \<lparr>r_discriminator = disc,
               r_descriptor = \<lparr>d_name = sc, d_description = f_description f,
                               d_input = menu_schema (f_entries f), d_hidden = False\<rparr>\<rparr> (t_routes t),
            t_order := t_order t @ [sc]\<rparr>"
    using add by (rule table_add_None)
  note es = served_Inr [OF s]
  have "routes_ok t'" using wf by (auto simp: wf_table_def routes_ok_def t')
  moreover have "entries_ok t'"
    unfolding entries_ok_def
  proof (intro allI impI)
    fix k e assume k: "mget (t_entries t') k = Some e"
    show "e_key e = k \<and> (\<exists>r. mget (t_routes t') (k_syscall k) = Some r \<and>
            e_discriminator e = r_discriminator r \<and> (r_discriminator r = '''' \<longrightarrow> k_operation k = ''''))"
    proof (cases "k \<in> e_key ` set (f_entries f)")
      case True
      then obtain b where "b \<in> set (f_entries f)" "k = e_key b" by auto
      then show ?thesis using add_entries_None [OF a] k es(2) by (auto simp: t')
    next
      case False
      then have "mget (t_entries t) k = Some e" using add_entries_other [OF a] k by (simp add: t')
      then show ?thesis using wf fresh by (fastforce simp: wf_table_def entries_ok_def t')
    qed
  qed
  moreover have "served_ok t'"
  proof -
    obtain b where "b \<in> set (f_entries f)" using es(1) by (cases "f_entries f") auto
    then have "e_key b \<in> dom (mget m)" "k_syscall (e_key b) = sc"
      using add_entries_None [OF a] es(2) by auto
    moreover have "dom (mget (t_entries t)) \<subseteq> dom (mget m)" using add_entries_dom [OF a] by simp
    ultimately show ?thesis using wf by (auto simp: wf_table_def served_ok_def t') blast+
  qed
  ultimately show ?thesis using wf fresh by (auto simp: wf_table_def t' domIff)
qed

lemma table_reserve_wf [inv_laws]:
  assumes wf: "wf_table t" and r: "table_reserve d t = (None, t')"
  shows "wf_table t'"
proof -
  have fresh: "mget (t_routes t) (d_name d) = None" "mget (t_reserved t) (d_name d) = None"
    and t': "t' = t\<lparr>t_reserved := mput (d_name d) d (t_reserved t), t_order := t_order t @ [d_name d]\<rparr>"
    using r by (simp_all add: table_reserve_def split: if_split_asm)
  have "routes_ok t'" using wf by (auto simp: wf_table_def routes_ok_def t')
  moreover have "entries_ok t'" "served_ok t'"
    using wf by (simp_all add: wf_table_def entries_ok_def served_ok_def t')
  ultimately show ?thesis using wf fresh by (auto simp: wf_table_def t' domIff)
qed

lemma table_hide_wf [inv_laws]: "wf_table t \<Longrightarrow> wf_table (table_hide sc t)"
proof (cases "mget (t_routes t) sc")
  case (Some r)
  assume wf: "wf_table t"
  let ?t = "table_hide sc t"
  have t: "?t = t\<lparr>t_routes := mput sc (r\<lparr>r_descriptor := (r_descriptor r)\<lparr>d_hidden := True\<rparr>\<rparr>) (t_routes t)\<rparr>"
    using Some by (simp add: table_hide_def)
  have "routes_ok ?t" using wf Some by (auto simp: wf_table_def routes_ok_def t)
  moreover have "entries_ok ?t" using wf Some by (fastforce simp: wf_table_def entries_ok_def t)
  moreover have "served_ok ?t"
    using wf Some domI [of "mget (t_routes t)" sc r] unfolding wf_table_def served_ok_def t by simp
  ultimately show ?thesis using wf Some by (auto simp: wf_table_def t)
qed (simp add: table_hide_def)

lemma key_eta: "k_syscall k = s \<Longrightarrow> \<lparr>k_syscall = s, k_operation = k_operation k\<rparr> = k"
  by (cases k) simp

lemma operations_eq:
  "operations t sc = sorted_list_of_set {oper. oper \<noteq> '''' \<and>
     \<lparr>k_syscall = sc, k_operation = oper\<rparr> \<in> dom (mget (t_entries t))}"
proof -
  let ?ks = "filter (\<lambda>k. k_syscall k = sc \<and> k_operation k \<noteq> '''') (mkeys (t_entries t))"
  have "inj_on k_operation (set ?ks)" by (rule inj_onI) (simp add: key.equality)
  then have d: "distinct (map k_operation ?ks)" by (simp add: distinct_map)
  have "set (map k_operation ?ks) = {oper. oper \<noteq> '''' \<and>
     \<lparr>k_syscall = sc, k_operation = oper\<rparr> \<in> dom (mget (t_entries t))}" (is "_ = ?R")
  proof (intro equalityI subsetI)
    fix oper assume "oper \<in> set (map k_operation ?ks)"
    then obtain k where k: "k \<in> set ?ks" and "oper = k_operation k" by auto
    moreover have "k_syscall k = sc" using k by simp
    ultimately show "oper \<in> ?R" using k by (simp add: key_eta)
  next
    fix oper assume "oper \<in> ?R"
    then have "\<lparr>k_syscall = sc, k_operation = oper\<rparr> \<in> set ?ks" by simp
    then show "oper \<in> set (map k_operation ?ks)" by (force simp del: filter_set)
  qed
  then show ?thesis
    using sorted_list_of_set_sort_remdups [of "map k_operation ?ks"] distinct_remdups_id [OF d]
    by (simp only: operations_def)
qed

text \<open>A syscall that is not routed is denied, whatever the entries hold.\<close>

lemma resolve_cong:
  assumes "mget (t_routes t') (sc_name c) = mget (t_routes t) (sc_name c)"
    and "mget (t_routes t) (sc_name c) = None \<or>
         (\<forall>k. k_syscall k = sc_name c \<longrightarrow> mget (t_entries t') k = mget (t_entries t) k)"
  shows "resolve t' c = resolve t c"
proof (cases "mget (t_routes t) (sc_name c)")
  case (Some r)
  then have "\<forall>k. k_syscall k = sc_name c \<longrightarrow> mget (t_entries t') k = mget (t_entries t) k"
    using assms(2) by simp
  then have "operations t' (sc_name c) = operations t (sc_name c)"
    and "\<And>oper. mget (t_entries t') \<lparr>k_syscall = sc_name c, k_operation = oper\<rparr> =
                mget (t_entries t) \<lparr>k_syscall = sc_name c, k_operation = oper\<rparr>"
    by (simp_all add: operations_eq dom_def)
  then show ?thesis using assms(1) by (simp add: resolve_def cong: option.case_cong sum.case_cong)
qed (use assms(1) in \<open>simp add: resolve_def\<close>)

subsection \<open>A concrete table\<close>

definition demo_entry ::
    "string \<Rightarrow> string list \<Rightarrow> string list \<Rightarrow> (syscall \<Rightarrow> 'w \<Rightarrow> 'r \<times> 'w) \<Rightarrow> ('r, 'w) entry" where
  "demo_entry name ls forbidden run =
     \<lparr>e_key = \<lparr>k_syscall = name, k_operation = ''''\<rparr>, e_discriminator = '''', e_description = '''',
      e_input = '''', e_labels = ls, e_forbid = forbidden, e_require_approval = False, e_prompt = None,
      e_handler = (\<lambda>_ c w. map_prod Inr id (run c w))\<rparr>"

definition demo_op :: "string \<Rightarrow> string \<Rightarrow> (syscall \<Rightarrow> 'w \<Rightarrow> 'r \<times> 'w) \<Rightarrow> ('r, 'w) entry" where
  "demo_op name oper run =
     \<lparr>e_key = \<lparr>k_syscall = name, k_operation = oper\<rparr>, e_discriminator = ''op'', e_description = '''',
      e_input = '''', e_labels = [], e_forbid = [], e_require_approval = True, e_prompt = None,
      e_handler = (\<lambda>_ c w. map_prod Inr id (run c w))\<rparr>"

definition demo_family :: "('r, 'w) entry list \<Rightarrow> ('r, 'w) family" where
  "demo_family es = \<lparr>f_description = '''', f_entries = es\<rparr>"

text \<open>A source of untrusted data, a sink that forbids it, and a store with two operations.\<close>

definition demo_table :: "(syscall \<Rightarrow> 'w \<Rightarrow> 'r \<times> 'w) \<Rightarrow> ('r, 'w) table" where
  "demo_table run =
     snd (table_add (demo_family [demo_op ''store'' ''get'' run, demo_op ''store'' ''put'' run])
       (snd (table_add (demo_family [demo_entry ''k8s.delete'' [] [''web''] run])
          (snd (table_add (demo_family [demo_entry ''internet.read'' [''web''] [] run]) new_table)))))"

lemmas demo_table_eval =
  demo_table_def demo_family_def demo_entry_def demo_op_def table_add_def served_def new_table_def
  menu_schema_def

lemma demo_table_unfold:
  "demo_table run =
     \<lparr>t_entries = [(\<lparr>k_syscall = ''internet.read'', k_operation = ''''\<rparr>, demo_entry ''internet.read'' [''web''] [] run),
                   (\<lparr>k_syscall = ''k8s.delete'', k_operation = ''''\<rparr>, demo_entry ''k8s.delete'' [] [''web''] run),
                   (\<lparr>k_syscall = ''store'', k_operation = ''get''\<rparr>, demo_op ''store'' ''get'' run),
                   (\<lparr>k_syscall = ''store'', k_operation = ''put''\<rparr>, demo_op ''store'' ''put'' run)],
      t_routes = map (\<lambda>(s, d). (s, \<lparr>r_discriminator = d, r_descriptor =
                       \<lparr>d_name = s, d_description = '''', d_input = '''', d_hidden = False\<rparr>\<rparr>))
                   [(''internet.read'', ''''), (''k8s.delete'', ''''), (''store'', ''op'')],
      t_reserved = [], t_order = [''internet.read'', ''k8s.delete'', ''store'']\<rparr>"
  by (simp add: demo_table_eval)

lemma table_add_wf_snd: "fst (table_add f t) = None \<Longrightarrow> wf_table t \<Longrightarrow> wf_table (snd (table_add f t))"
  using table_add_wf by (metis prod.collapse)

lemma demo_table_wf: 
  "wf_table (demo_table run)"
proof -

  let ?t1 = "snd (table_add (demo_family [demo_entry ''internet.read'' [''web''] [] run]) new_table)"
  let ?t2 = "snd (table_add (demo_family [demo_entry ''k8s.delete'' [] [''web''] run]) ?t1)"
  have "wf_table ?t1" by (rule table_add_wf_snd) (simp_all add: demo_table_eval wf_table_defs)
  then have "wf_table ?t2" by (rule table_add_wf_snd [rotated]) (simp add: demo_table_eval)
  then show ?thesis unfolding demo_table_def
    by (rule table_add_wf_snd [rotated]) (simp add: demo_table_eval)
qed

text \<open>A handler that reports success and leaves its mark on the world.\<close>

definition demo_run :: "syscall \<Rightarrow> syscall list \<Rightarrow> demo_result \<times> syscall list" where
  "demo_run c w = (mk_result demo_sys (sc_name c), w @ [c])"

subsection \<open>Properties\<close>

text \<open>A declared label set normalizes to the sorted, duplicate-free list of its trimmed,
  non-empty labels, none in the reserved \<open>syscall:\<close> namespace, and normalizing again changes
  nothing; it is refused exactly when a trimmed label is in that namespace.\<close>

theorem normalize_labels_canonical:
  "case normalize_labels what ls of
     Inl _ \<Rightarrow> \<exists>l. l \<in> set ls \<and> has_prefix (trim_space l) syscall_label_prefix
   | Inr out \<Rightarrow>
       sorted out \<and> distinct out \<and> set out = trim_space ` set ls - {''''} \<and>
       \<not> (\<exists>l. l \<in> set out \<and> has_prefix l syscall_label_prefix) \<and>
       normalize_labels what out = Inr out"
proof (cases "\<exists>l \<in> set ls. has_prefix (trim_space l) syscall_label_prefix")
  case True
  then obtain e where "collect_labels what ls = Inl e" using collect_labels_Inl [of what ls] by blast
  then show ?thesis using True by (auto simp: normalize_labels_def)
next
  case False
  define kept where "kept = filter (\<lambda>l. l \<noteq> []) (map trim_space ls)"
  have c: "normalize_labels what ls = Inr (remdups_adj (sort kept))"
    using False by (simp add: normalize_labels_def collect_labels_eq kept_def)
  have kept: "set kept = trim_space ` set ls - {''''}" by (auto simp: kept_def)
  have clean: "map trim_space out = out \<and> filter (\<lambda>l. l \<noteq> []) out = out \<and>
      (\<forall>l \<in> set out. \<not> has_prefix (trim_space l) syscall_label_prefix)"
    if "set out = set kept" for out
  proof -
    have all: "trim_space l = l" "l \<noteq> []" "\<not> has_prefix (trim_space l) syscall_label_prefix"
      if "l \<in> set out" for l
      using that \<open>set out = set kept\<close> False kept by auto
    have "map trim_space out = out" by (rule map_idI) (rule all(1))
    moreover have "filter (\<lambda>l. l \<noteq> []) out = out" using all(2) by (simp add: filter_id_conv)
    ultimately show ?thesis using all(3) by blast
  qed
  have again: "collect_labels what (remdups_adj (sort kept)) = Inr (remdups_adj (sort kept))"
    using clean [of "remdups_adj (sort kept)"] by (simp add: collect_labels_eq)
  have "remdups_adj (sort (remdups_adj (sort kept))) = remdups_adj (sort kept)"
    by (simp add: sorted_sort_id remdups_adj_strict)
  then have idem: "normalize_labels what (remdups_adj (sort kept)) = Inr (remdups_adj (sort kept))"
    using again by (simp add: normalize_labels_def)
  have "\<not> (\<exists>l. l \<in> set (remdups_adj (sort kept)) \<and> has_prefix l syscall_label_prefix)"
    using False kept by auto
  then show ?thesis
    unfolding c sum.case using idem kept by simp
qed

text \<open>Every way the grant table grows or changes (\<open>Add\<close> and \<open>Reserve\<close> when they succeed,
  \<open>Hide\<close>) keeps it well formed: the menu order lists each admitted syscall once, no syscall is both
  routed and reserved, every entry stands under its own key on a routed syscall and is selected by
  that route's discriminator, and every routed syscall has an entry.\<close>

theorem table_operations_wf:
  assumes "wf_table t"
  shows "(\<forall>f t'. table_add f t = (None, t') \<longrightarrow> wf_table t') \<and>
         (\<forall>d t'. table_reserve d t = (None, t') \<longrightarrow> wf_table t') \<and>
         (\<forall>sc. wf_table (table_hide sc t))"
  using assms by (blast intro: inv_laws)

theorem table_operations_wf_witness: "wf_table (table_hide ''store'' (demo_table demo_run))"
  using table_operations_wf [OF demo_table_wf, of demo_run] by blast

text \<open>C21. Resolution is sound: the entry a call resolves to is the table's own entry for the
  call's syscall and for the operation its arguments name through that entry's discriminator, and
  the syscall is served by a handler: a syscall reserved by a layer above resolves to nothing.\<close>

theorem resolve_sound:
  assumes "wf_table t" and "resolve t c = Inr e"
  shows "mget (t_entries t) (e_key e) = Some e \<and> k_syscall (e_key e) = sc_name c \<and>
         case_name (e_discriminator e) (sc_args c) = Inr (k_operation (e_key e)) \<and>
         mget (t_reserved t) (sc_name c) = None"
proof -
  obtain r oper where r: "mget (t_routes t) (sc_name c) = Some r"
    and oper: "case_name (r_discriminator r) (sc_args c) = Inr oper"
    and e: "mget (t_entries t) \<lparr>k_syscall = sc_name c, k_operation = oper\<rparr> = Some e"
    using assms(2) by (auto simp: resolve_def split: option.splits sum.splits)
  have k: "e_key e = \<lparr>k_syscall = sc_name c, k_operation = oper\<rparr>"
    and disc: "e_discriminator e = r_discriminator r"
    using assms(1) e r by (fastforce simp: wf_table_def entries_ok_def)+
  have "mget (t_reserved t) (sc_name c) = None"
    using assms(1) r by (auto simp: wf_table_def)
  then show ?thesis using k disc oper e by simp
qed

theorem resolve_sound_witness:
  "k_syscall (e_key (demo_entry ''internet.read'' [''web''] [] demo_run)) = ''internet.read''"
proof -
  have "resolve (demo_table demo_run) \<lparr>sc_name = ''internet.read'', sc_args = ''x''\<rparr> =
        Inr (demo_entry ''internet.read'' [''web''] [] demo_run)"
    by (simp add: resolve_def demo_table_unfold case_name_def)
  from resolve_sound [OF demo_table_wf this] show ?thesis by simp
qed

text \<open>C22. A family that \<open>Add\<close> accepts is served whole and alone: every entry of it is what a call
  to its syscall resolves to when the arguments name its operation, and no call to any other
  syscall resolves differently than before. A family that \<open>Add\<close> refuses changes what no call
  resolves to, although the entries it stored before the refusal stay in the table.\<close>

theorem table_add_resolves:
  "case table_add f t of
     (None, t') \<Rightarrow>
       (\<forall>e c. e \<in> set (f_entries f) \<longrightarrow> sc_name c = k_syscall (e_key e) \<longrightarrow>
          case_name (e_discriminator e) (sc_args c) = Inr (k_operation (e_key e)) \<longrightarrow>
          resolve t' c = Inr e) \<and>
       (\<forall>c. \<not> (\<exists>e \<in> set (f_entries f). sc_name c = k_syscall (e_key e)) \<longrightarrow> resolve t' c = resolve t c)
   | (Some _, t') \<Rightarrow> (\<forall>c. resolve t' c = resolve t c)"
proof (cases "table_add f t")
  case (Pair x t')
  show ?thesis
  proof (cases x)
    case None
    then have "table_add f t = (None, t')" using Pair by simp
    then obtain sc disc m where s: "served f = Inr (sc, disc)"
      and fresh: "mget (t_routes t) sc = None" "mget (t_reserved t) sc = None"
      and a: "add_entries (f_entries f) (t_entries t) = (None, m)"
      and t': "t' = t\<lparr>t_entries := m,
            t_routes := mput sc
              \<lparr>r_discriminator = disc,
               r_descriptor = \<lparr>d_name = sc, d_description = f_description f,
                               d_input = menu_schema (f_entries f), d_hidden = False\<rparr>\<rparr> (t_routes t),
            t_order := t_order t @ [sc]\<rparr>"
      by (rule table_add_None)
    note es = served_Inr [OF s]
    have "resolve t' c = Inr e"
      if e: "e \<in> set (f_entries f)" and c: "sc_name c = k_syscall (e_key e)"
        and n: "case_name (e_discriminator e) (sc_args c) = Inr (k_operation (e_key e))" for e c
    proof -
      have "k_syscall (e_key e) = sc" "e_discriminator e = disc" using e es(2) by auto
      then show ?thesis
        using c n add_entries_None [OF a e] by (simp add: resolve_def t' key_eta)
    qed
    moreover have "resolve t' c = resolve t c"
      if c: "\<not> (\<exists>e \<in> set (f_entries f). sc_name c = k_syscall (e_key e))" for c
    proof -
      have "sc_name c \<noteq> sc" using c es by (cases "f_entries f") auto
      moreover have "mget m k = mget (t_entries t) k" if "k_syscall k = sc_name c" for k
        by (rule add_entries_other [OF a]) (use that c in force)
      ultimately show ?thesis by (intro resolve_cong) (simp_all add: t')
    qed
    ultimately show ?thesis using Pair None by simp
  next
    case (Some err)
    have "resolve t' c = resolve t c" for c
    proof (cases "t' = t")
      case False
      then obtain sc disc m where s: "served f = Inr (sc, disc)"
        and fresh: "mget (t_routes t) sc = None"
        and a: "add_entries (f_entries f) (t_entries t) = (Some err, m)"
        and t': "t' = t\<lparr>t_entries := m\<rparr>"
        using Pair Some by (auto simp: table_add_def split: sum.splits prod.splits if_splits option.splits)
      show ?thesis
      proof (cases "sc_name c = sc")
        case False
        have "mget m k = mget (t_entries t) k" if "k_syscall k = sc_name c" for k
          by (rule add_entries_other [OF a]) (use that False served_Inr(2) [OF s] in force)
        then show ?thesis by (intro resolve_cong) (simp_all add: t')
      qed (simp add: resolve_cong fresh t')
    qed simp
    then show ?thesis using Pair Some by simp
  qed
qed

theorem table_add_resolves_witness:
  "resolve (snd (table_add (demo_family [demo_op ''mail'' ''send'' demo_run]) (demo_table demo_run)))
     \<lparr>sc_name = ''mail'', sc_args = [CHR ''{'', CHR 0x22] @ ''op'' @ [CHR 0x22, CHR '':'', CHR 0x22] @
        ''send'' @ [CHR 0x22, CHR ''}'']\<rparr> = Inr (demo_op ''mail'' ''send'' demo_run)"
  (is "resolve ?t' ?c = _")
proof -
  let ?f = "demo_family [demo_op ''mail'' ''send'' demo_run]" and ?e = "demo_op ''mail'' ''send'' demo_run"
  obtain t' where add: "table_add ?f (demo_table demo_run) = (None, t')"
    by (simp add: demo_table_unfold demo_family_def demo_op_def table_add_def served_def menu_schema_def)
  have "unmarshal (sc_args ?c) = Some (JObj [(''op'', JStr ''send'')])"
    by (simp add: unmarshal_def max_nesting_def skip_ws_def json_ws_def unquote.simps)
  then have args: "case_name (e_discriminator ?e) (sc_args ?c) = Inr (k_operation (e_key ?e))"
    by (simp add: case_name_def demo_op_def)
  have e: "?e \<in> set (f_entries ?f)" and c: "sc_name ?c = k_syscall (e_key ?e)"
    by (simp_all add: demo_family_def demo_op_def)
  note all = table_add_resolves [of ?f "demo_table demo_run", unfolded add prod.case option.case]
  have "resolve t' ?c = Inr ?e" by (rule all [THEN conjunct1, rule_format, OF e c args])
  then show ?thesis by (simp add: add)
qed

lemma descriptors_admitted:
  assumes "wf_table t"
  shows "map d_name (descriptors t) = t_order t" "sc \<in> set (t_order t) \<longleftrightarrow> descriptor_of t sc \<noteq> None"
proof -
  have named: "descriptor_of t sc = Some d \<Longrightarrow> d_name d = sc" for sc d
    using assms by (auto simp: wf_table_def routes_ok_def descriptor_of_def split: option.splits)
  have admitted: "sc \<in> set (t_order t) \<longleftrightarrow> descriptor_of t sc \<noteq> None" for sc
    using assms by (auto simp: wf_table_def descriptor_of_def split: option.splits)
  have "map d_name (List.map_filter (descriptor_of t) xs) = xs" if "set xs \<subseteq> set (t_order t)" for xs
    using that by (induction xs) (auto simp: admitted List.map_filter_simps dest: named)
  from this [of "t_order t"] show "map d_name (descriptors t) = t_order t" by (simp add: descriptors_def)
  show "sc \<in> set (t_order t) \<longleftrightarrow> descriptor_of t sc \<noteq> None" by (rule admitted)
qed

text \<open>The table is the grant: its descriptors, which the Validator enforces and the guest's
  menu shows, list every admitted syscall exactly once, in the order they were added, and a
  syscall has a descriptor exactly when it is routed or reserved.\<close>

theorem descriptors_are_the_grant:
  assumes "wf_table t"
  shows "map d_name (descriptors t) = t_order t \<and> distinct (t_order t) \<and>
         (\<forall>sc. sc \<in> set (t_order t) \<longleftrightarrow> descriptor_of t sc \<noteq> None)"
  using assms descriptors_admitted [OF assms] by (simp add: wf_table_def)

theorem descriptors_are_the_grant_witness:
  "map d_name (descriptors (demo_table demo_run)) = [''internet.read'', ''k8s.delete'', ''store'']"
  using descriptors_are_the_grant [OF demo_table_wf, of demo_run] by (simp add: demo_table_unfold)

end
