(* ===== verification/Routing.thy ===== *)
theory Routing
  imports Capability "HOL-Library.Sublist"
begin

text \<open>
  The bottom of the dispatcher chain, \<open>capability/dispatcher.go\<close>: routing, the approval gate,
  and the prompt a human decides on. The lemmas show when a handler runs, and that the prompt
  names every label that would cross and where it came from.
\<close>

subsection \<open>Crossing taint\<close>

definition crossing_taint :: "('r, 'w) entry \<Rightarrow> taint \<Rightarrow> taint" where
  "crossing_taint e taint =
     foldl (\<lambda>crossing label.
              case mget taint label of
                Some sources \<Rightarrow> mput label sources crossing
              | None \<Rightarrow> crossing)
       [] (e_forbid e)"

lemma crossing_fold:
  "mget (foldl (\<lambda>crossing label.
              case mget taint label of
                Some sources \<Rightarrow> mput label sources crossing
              | None \<Rightarrow> crossing) acc ls) l =
   (if l \<in> set ls \<and> mget taint l \<noteq> None then mget taint l else mget acc l)"
  by (induction ls arbitrary: acc) (auto split: option.splits)

lemma mget_crossing_taint:
  "mget (crossing_taint e taint) l = (if l \<in> set (e_forbid e) then mget taint l else None)"
  by (simp add: crossing_taint_def crossing_fold)

lemma crossing_taint_empty:
  "crossing_taint e taint = [] \<longleftrightarrow> set (e_forbid e) \<inter> dom (mget taint) = {}"
proof -
  have "crossing_taint e taint = [] \<longleftrightarrow> (\<forall>l. mget (crossing_taint e taint) l = None)"
    by (metis map_of.simps(1) map_of_eq_empty_iff fun_upd_idem_iff ext)
  then show ?thesis by (auto simp: mget_crossing_taint domIff)
qed

subsection \<open>The prompt\<close>

definition newline :: string where
  "newline = [CHR 0x0A]"

definition approval_prompt_args_limit :: nat where
  "approval_prompt_args_limit = 4096"

definition approval_sources_shown :: nat where
  "approval_sources_shown = 5"

text \<open>\<open>compactArgs\<close>.\<close>

definition compact_args :: "bytes \<Rightarrow> string" where
  "compact_args raw =
     (if blank raw then ''''
      else case compact raw of None \<Rightarrow> quote raw | Some s \<Rightarrow> s)"

definition source_lines :: "string list \<Rightarrow> string" where
  "source_lines sources =
     concat (map (\<lambda>s. newline @ ''- '' @ s) (take approval_sources_shown sources)) @
     (if approval_sources_shown < length sources
      then newline @ ''- '' @ show_nat (length sources - approval_sources_shown) @ '' more calls''
      else '''')"

definition label_block :: "taint \<Rightarrow> string \<Rightarrow> string" where
  "label_block crossing label =
     newline @ label @ '' came from:'' @
     source_lines (case mget crossing label of Some ss \<Rightarrow> ss | None \<Rightarrow> [])"

definition crossing_notice :: "taint \<Rightarrow> string" where
  "crossing_notice crossing =
     (let labels = taint_labels crossing in
      ''This run has read data labeled '' @ join '', '' labels @
      ''. This call can send that data out of the run.'' @
      concat (map (label_block crossing) labels))"

text \<open>A long detail is cut at a rune boundary, and the cut says how much is missing.\<close>

definition cut_detail :: "string \<Rightarrow> string" where
  "cut_detail detail =
     (if approval_prompt_args_limit < length detail then
        let cut = cut_back detail approval_prompt_args_limit in
        take cut detail @ ellipsis @ '' ('' @ show_nat (length detail - cut) @
          '' more bytes; the task'' @ [CHR 0x27] @ ''s syscall holds them all)''
      else detail)"

definition approval_prompt :: "('r, 'w) entry \<Rightarrow> syscall \<Rightarrow> taint \<Rightarrow> string" where
  "approval_prompt e c crossing =
     (let head = ''Approve '' @ key_string (e_key e) @
            (if e_description e \<noteq> '''' then '': '' @ e_description e else '''') @
            (if crossing \<noteq> [] then newline @ crossing_notice crossing else '''');
          detail =
            (case e_prompt e of
               Some render \<Rightarrow> render c
             | None \<Rightarrow> if compact_args (sc_args c) \<noteq> '''' then ''args: '' @ compact_args (sc_args c) else '''')
      in if detail = '''' then head else head @ newline @ cut_detail detail)"

subsection \<open>Dispatch\<close>

definition cap_dispatch :: "'r sysapi \<Rightarrow> ('r, 'w) table \<Rightarrow> ('k, 'r, 'w) dispatcher" where
  "cap_dispatch S t taint cred c auth w =
     (case resolve t c of
        Inl err \<Rightarrow>
          (case err of
             ArgsError _ _ \<Rightarrow> (Inr (mk_failcode S ErrnoInvalidArgs (err_text err)), w)
           | _ \<Rightarrow> (Inr (mk_failcode S ErrnoDenied (err_text err)), w))
      | Inr e \<Rightarrow>
          (let crossing = crossing_taint e taint in
           if (e_require_approval e \<or> crossing \<noteq> []) \<and> au_decision auth \<noteq> Approved
           then (Inr (mk_yield S (approval_prompt e c crossing)), w)
           else e_handler e taint c w))"

text \<open>What the gate asks for, as a condition on the entry and the taint alone.\<close>

definition needs_approval :: "('r, 'w) entry \<Rightarrow> taint \<Rightarrow> bool" where
  "needs_approval e taint \<longleftrightarrow>
     e_require_approval e \<or> (\<exists>l. l \<in> set (e_forbid e) \<and> l \<in> dom (mget taint))"

lemma needs_approval_crossing:
  "needs_approval e taint \<longleftrightarrow> e_require_approval e \<or> crossing_taint e taint \<noteq> []"
  by (auto simp: needs_approval_def crossing_taint_empty)

lemma cap_dispatch_refused:
  "resolve t c = Inl err \<Longrightarrow>
   cap_dispatch S t taint cred c auth w =
     (Inr (mk_failcode S (case err of ArgsError _ _ \<Rightarrow> ErrnoInvalidArgs | _ \<Rightarrow> ErrnoDenied) (err_text err)), w)"
  by (simp add: cap_dispatch_def split: err.split)

lemma cap_dispatch_gate:
  "resolve t c = Inr e \<Longrightarrow>
   cap_dispatch S t taint cred c auth w =
     (if needs_approval e taint \<and> au_decision auth \<noteq> Approved
      then (Inr (mk_yield S (approval_prompt e c (crossing_taint e taint))), w)
      else e_handler e taint c w)"
  by (simp add: cap_dispatch_def needs_approval_crossing Let_def)

subsection \<open>Properties\<close>

text \<open>C13. The approval gate. A call that resolves to no entry fails and touches nothing. A call
  to an entry that requires approval, or that forbids a label the run has observed, touches
  nothing and yields unless a human approved this very call. Every other call is exactly one run
  of the entry's handler.\<close>

theorem approval_gate:
  assumes "sys_laws S"
  shows "case resolve t c of
      Inl _ \<Rightarrow> \<exists>r. cap_dispatch S t taint cred c auth w = (Inr r, w) \<and> status_of S r = StatusFailed
    | Inr e \<Rightarrow>
        if (e_require_approval e \<or> (\<exists>l. l \<in> set (e_forbid e) \<and> l \<in> dom (mget taint))) \<and>
           au_decision auth \<noteq> Approved
        then \<exists>r. cap_dispatch S t taint cred c auth w = (Inr r, w) \<and> status_of S r = StatusYield
        else cap_dispatch S t taint cred c auth w = e_handler e taint c w"
proof (cases "resolve t c")
  case (Inl err)
  then show ?thesis using assms by (simp add: cap_dispatch_refused sys_laws_status)
next
  case (Inr e)
  then show ?thesis using assms
    by (simp add: cap_dispatch_gate needs_approval_def [symmetric] sys_laws_status)
qed

theorem approval_gate_witness:
  "\<exists>r. cap_dispatch demo_sys (demo_table demo_run) [(''web'', [''internet.read''])] ()
         \<lparr>sc_name = ''k8s.delete'', sc_args = ''''\<rparr> no_auth [] = (Inr r, []) \<and>
       status_of demo_sys r = StatusYield"
proof -
  have "resolve (demo_table demo_run) \<lparr>sc_name = ''k8s.delete'', sc_args = ''''\<rparr> =
        Inr (demo_entry ''k8s.delete'' [] [''web''] demo_run)"
    by (simp add: resolve_def demo_table_unfold case_name_def)
  then show ?thesis
    using approval_gate [OF demo_sys_laws, where t = "demo_table demo_run" and
        c = "\<lparr>sc_name = ''k8s.delete'', sc_args = ''''\<rparr>" and
        taint = "[(''web'', [''internet.read''])]" and cred = "()" and auth = no_auth and w = "[]"]
    by (simp add: demo_entry_def no_auth_def)
qed

lemma sublist_in_left: "sublist s a \<Longrightarrow> sublist s (a @ b)"
  by (meson sublist_append_rightI sublist_order.order.trans)

lemma sublist_in_right: "sublist s b \<Longrightarrow> sublist s (a @ b)"
  by (meson sublist_append_leftI sublist_order.order.trans)

lemma sublist_concat_map: "x \<in> set xs \<Longrightarrow> sublist s (f x) \<Longrightarrow> sublist s (concat (map f xs))"
  by (induction xs) (auto intro: sublist_in_left sublist_in_right)

lemma prompt_holds_notice:
  assumes "crossing \<noteq> []"
  shows "sublist (crossing_notice crossing) (approval_prompt e c crossing)"
proof -
  have head: "sublist (crossing_notice crossing)
      (a @ b @ d @ (if crossing \<noteq> [] then newline @ crossing_notice crossing else ''''))" for a b d
    using assms by (auto intro!: sublist_in_right)
  show ?thesis
    unfolding approval_prompt_def Let_def
    by (split if_split) (intro conjI impI sublist_in_left head)
qed

lemma notice_holds_block:
  "label \<in> dom (mget crossing) \<Longrightarrow> sublist (label_block crossing label) (crossing_notice crossing)"
  unfolding crossing_notice_def Let_def
  by (intro sublist_in_right sublist_concat_map [of label]) simp_all

text \<open>A human who approves a crossing sees what it carries: the prompt names every label of
  the run that the operation forbids, each with the first five calls that produced it, however
  long the call's own detail is.\<close>

theorem prompt_names_crossing:
  assumes "label \<in> set (e_forbid e)" and "mget taint label = Some sources"
    and "i < length sources" and "i < 5"
  shows "sublist (newline @ label @ '' came from:'') (approval_prompt e c (crossing_taint e taint)) \<and>
         sublist (newline @ ''- '' @ sources ! i) (approval_prompt e c (crossing_taint e taint))"
proof -
  let ?x = "crossing_taint e taint"
  have l: "mget ?x label = Some sources" using assms(1,2) by (simp add: mget_crossing_taint)
  then have "?x \<noteq> []" by auto
  then have "sublist (label_block ?x label) (approval_prompt e c ?x)"
    using prompt_holds_notice notice_holds_block l sublist_order.order.trans by blast
  moreover have "sublist (newline @ label @ '' came from:'') (label_block ?x label)"
    unfolding label_block_def by (metis append.assoc sublist_append_rightI sublist_order.order.refl)
  moreover have "sublist (newline @ ''- '' @ sources ! i) (label_block ?x label)"
  proof -
    have "sources ! i \<in> set (take 5 sources)"
      using assms(3,4) by (metis length_take min_less_iff_conj nth_mem nth_take)
    then have "sublist (newline @ ''- '' @ sources ! i) (source_lines sources)"
      unfolding source_lines_def approval_sources_shown_def
      by - (rule sublist_in_left, rule sublist_concat_map, assumption, simp)
    then show ?thesis
      unfolding label_block_def l option.case by (intro sublist_in_right)
  qed
  ultimately show ?thesis by (meson sublist_order.order.trans)
qed

theorem prompt_names_crossing_witness:
  "sublist (newline @ ''- '' @ ''internet.read'')
     (approval_prompt (demo_entry ''k8s.delete'' [] [''web''] demo_run)
        \<lparr>sc_name = ''k8s.delete'', sc_args = ''''\<rparr>
        (crossing_taint (demo_entry ''k8s.delete'' [] [''web''] demo_run) [(''web'', [''internet.read''])]))"
  using prompt_names_crossing [where label = "''web''" and e = "demo_entry ''k8s.delete'' [] [''web''] demo_run"
      and taint = "[(''web'', [''internet.read''])]" and sources = "[''internet.read'']" and i = 0
      and c = "\<lparr>sc_name = ''k8s.delete'', sc_args = ''''\<rparr>"]
  by (simp add: demo_entry_def)

end
