(* ===== verification/Monitor.thy ===== *)
theory Monitor
  imports Journal Routing
begin

text \<open>
  The reference monitor around a process's chain (\<open>monitor/\<close>): the Validator (\<open>validate.go\<close>),
  the taint of every process revision (\<open>taints.go\<close>), the flow monitor's \<open>Track\<close> and \<open>Stamp\<close>
  on the two sides of replay (\<open>flow.go\<close>), and their order (\<open>stack.go\<close>).

  The world of the chain here is the tape's, with the taints of all processes and the
  Validator's cache of compiled schemas. The JSON Schema package is not in the repository: its
  parser, compiler and validator are the fields of \<open>schema_api\<close>.
\<close>

subsection \<open>Taints\<close>

type_synonym 'k taints = "('k, taint) gomap"

definition taint_of :: "'k taints \<Rightarrow> 'k \<Rightarrow> taint" where
  "taint_of ts pid = (case mget ts pid of None \<Rightarrow> [] | Some t \<Rightarrow> t)"

definition forget_process :: "'k \<Rightarrow> 'k taints \<Rightarrow> 'k taints" where
  "forget_process pid ts = mdel pid ts"

definition sources_of :: "taint \<Rightarrow> string \<Rightarrow> string list" where
  "sources_of t label = (case mget t label of None \<Rightarrow> [] | Some ss \<Rightarrow> ss)"

definition observe_label :: "string \<Rightarrow> string \<Rightarrow> taint \<Rightarrow> taint" where
  "observe_label src label t =
     (if src \<in> set (sources_of t label) then t else mput label (sources_of t label @ [src]) t)"

definition observe :: "'k \<Rightarrow> string list \<Rightarrow> string \<Rightarrow> 'k taints \<Rightarrow> 'k taints" where
  "observe pid labels src ts =
     (if labels = [] then ts
      else mput pid (fold (observe_label src) labels (taint_of ts pid)) ts)"

definition snapshot :: "'k \<Rightarrow> 'k taints \<Rightarrow> string list" where
  "snapshot pid ts = taint_labels (taint_of ts pid)"

subsection \<open>The world\<close>

record ('j, 'k, 's) mworld = "'j tape" +
  mw_taints :: "'k taints"
  mw_schemas :: "(bytes, 's) gomap"

subsection \<open>Flow\<close>

definition source_limit :: nat where
  "source_limit = 200"

definition source :: "syscall \<Rightarrow> string" where
  "source c =
     (case compact (sc_args c) of
        None \<Rightarrow> sc_name c
      | Some args \<Rightarrow>
          if args = '''' then sc_name c
          else
            let text = sc_name c @ '' '' @ args in
            if length text \<le> source_limit then text
            else take (cut_back text source_limit) text @ ellipsis)"

definition track_dispatch ::
    "'r sysapi \<Rightarrow> ('k, 'r, ('j, 'k, 's, 'z) mworld_scheme) dispatcher \<Rightarrow>
     ('k, 'r, ('j, 'k, 's, 'z) mworld_scheme) dispatcher"
where
  "track_dispatch S next taint cred c auth w =
     (if control_call c then next taint cred c auth w
      else case next (taint_of (mw_taints w) cred) cred c auth w of
          (Inl e, w1) \<Rightarrow> (Inl e, w1)
        | (Inr r, w1) \<Rightarrow>
            (Inr r, w1\<lparr>mw_taints := observe cred (labels_of S r) (source c) (mw_taints w1)\<rparr>))"

definition stamp_dispatch :: "'r sysapi \<Rightarrow> ('r, 'h) table \<Rightarrow> ('k, 'r, 'w) dispatcher \<Rightarrow> ('k, 'r, 'w) dispatcher" where
  "stamp_dispatch S T next taint cred c auth w =
     (case next taint cred c auth w of
        (Inl e, w1) \<Rightarrow> (Inl e, w1)
      | (Inr r, w1) \<Rightarrow>
          if control_call c then (Inr r, w1)
          else (Inr (with_labels S r ((syscall_label_prefix @ sc_name c) # call_labels T c)), w1))"

subsection \<open>The Validator\<close>

record ('s, 'v) schema_api =
  sa_decode :: "bytes \<Rightarrow> err + 'v"
  sa_compile :: "'v \<Rightarrow> err + 's"
  sa_validate :: "'s \<Rightarrow> 'v \<Rightarrow> err option"

text \<open>\<open>compiled\<close>: the cached schema, or parse it, add it as a resource and compile it.\<close>

definition compiled ::
    "('s, 'v) schema_api \<Rightarrow> bytes \<Rightarrow> (bytes, 's) gomap \<Rightarrow> (err + 's) \<times> (bytes, 's) gomap"
where
  "compiled A raw schemas =
     (case mget schemas raw of
        Some s \<Rightarrow> (Inr s, schemas)
      | None \<Rightarrow>
          (case sa_decode A raw of
             Inl e \<Rightarrow> (Inl e, schemas)
           | Inr doc \<Rightarrow>
               (case sa_compile A doc of
                  Inl e \<Rightarrow> (Inl e, schemas)
                | Inr s \<Rightarrow> (Inr s, mput raw s schemas))))"

definition validator_dispatch ::
    "('s, 'v) schema_api \<Rightarrow> 'r sysapi \<Rightarrow> ('r, 'h) table \<Rightarrow>
     ('k, 'r, ('j, 'k, 's, 'z) mworld_scheme) dispatcher \<Rightarrow>
     ('k, 'r, ('j, 'k, 's, 'z) mworld_scheme) dispatcher"
where
  "validator_dispatch A S T next taint cred c auth w =
     (if control_call c then next taint cred c auth w
      else case descriptor_of T (sc_name c) of
          None \<Rightarrow>
            (Inr (mk_failcode S ErrnoDenied
                    (''capability '' @ quote (sc_name c) @ '' is not granted'')), w)
        | Some granted \<Rightarrow>
            if d_input granted = '''' then next taint cred c auth w
            else case compiled A (d_input granted) (mw_schemas w) of
                (Inl e, m) \<Rightarrow>
                  (Inl (Wrapped (''capability '' @ quote (sc_name c) @ '' input schema'') e),
                   w\<lparr>mw_schemas := m\<rparr>)
              | (Inr s, m) \<Rightarrow>
                  let w1 = w\<lparr>mw_schemas := m\<rparr>;
                      args = (if sc_args c = '''' then ''null'' else sc_args c)
                  in case sa_decode A args of
                       Inl e \<Rightarrow> (Inr (mk_failcode S ErrnoInvalidArgs (''decode args: '' @ err_text e)), w1)
                     | Inr inst \<Rightarrow>
                         (case sa_validate A s inst of
                            Some e \<Rightarrow>
                              (Inr (mk_failcode S ErrnoInvalidArgs
                                      (''args rejected by '' @ quote (sc_name c) @ '' input schema: '' @ err_text e)),
                               w1)
                          | None \<Rightarrow> next taint cred c auth w1))"

subsection \<open>The stack\<close>

definition wrap ::
    "('s, 'v) schema_api \<Rightarrow> 'r sysapi \<Rightarrow> ('j, 'r) journal_ops \<Rightarrow> ('r, 'h) table \<Rightarrow>
     ('k, 'r, ('j, 'k, 's, 'z) mworld_scheme) dispatcher \<Rightarrow>
     ('k, 'r, ('j, 'k, 's, 'z) mworld_scheme) dispatcher"
where
  "wrap A S J T beneath =
     validator_dispatch A S T (track_dispatch S (replay_dispatch S J (stamp_dispatch S T beneath)))"

subsection \<open>The Validator's verdict\<close>

text \<open>What the Validator decides, without its cache: \<open>None\<close> lets the call through.\<close>

definition compile_schema :: "('s, 'v) schema_api \<Rightarrow> bytes \<Rightarrow> err + 's" where
  "compile_schema A raw = (case sa_decode A raw of Inl e \<Rightarrow> Inl e | Inr doc \<Rightarrow> sa_compile A doc)"

definition verdict :: "('s, 'v) schema_api \<Rightarrow> 'r sysapi \<Rightarrow> ('r, 'h) table \<Rightarrow> syscall \<Rightarrow> (err + 'r) option" where
  "verdict A S T c =
     (if control_call c then None
      else case descriptor_of T (sc_name c) of
          None \<Rightarrow>
            Some (Inr (mk_failcode S ErrnoDenied
                         (''capability '' @ quote (sc_name c) @ '' is not granted'')))
        | Some granted \<Rightarrow>
            if d_input granted = [] then None
            else case compile_schema A (d_input granted) of
                Inl e \<Rightarrow> Some (Inl (Wrapped (''capability '' @ quote (sc_name c) @ '' input schema'') e))
              | Inr s \<Rightarrow>
                  (case sa_decode A (if sc_args c = [] then ''null'' else sc_args c) of
                     Inl e \<Rightarrow> Some (Inr (mk_failcode S ErrnoInvalidArgs (''decode args: '' @ err_text e)))
                   | Inr inst \<Rightarrow>
                       (case sa_validate A s inst of
                          Some e \<Rightarrow>
                            Some (Inr (mk_failcode S ErrnoInvalidArgs
                              (''args rejected by '' @ quote (sc_name c) @ '' input schema: '' @ err_text e)))
                        | None \<Rightarrow> None)))"

definition cache_ok :: "('s, 'v) schema_api \<Rightarrow> (bytes, 's) gomap \<Rightarrow> bool" where
  "cache_ok A m \<longleftrightarrow> (\<forall>raw s. mget m raw = Some s \<longrightarrow> compile_schema A raw = Inr s)"

lemma compiled_cache:
  assumes "cache_ok A m"
  shows "\<exists>m'. compiled A raw m = (compile_schema A raw, m') \<and> cache_ok A m'"
proof (cases "mget m raw")
  case (Some s)
  then show ?thesis using assms by (auto simp: compiled_def cache_ok_def)
next
  case None
  then show ?thesis using assms
    by (auto simp: compiled_def compile_schema_def cache_ok_def split: sum.splits)
qed

text \<open>The cache is transparent.\<close>

lemma validator_verdict:
  assumes "cache_ok A (mw_schemas w)"
  shows "\<exists>m. cache_ok A m \<and> (\<forall>next. validator_dispatch A S T next taint cred c auth w =
    (case verdict A S T c of
       Some x \<Rightarrow> (x, w\<lparr>mw_schemas := m\<rparr>)
     | None \<Rightarrow> next taint cred c auth (w\<lparr>mw_schemas := m\<rparr>)))"
proof -
  have same: "w\<lparr>mw_schemas := mw_schemas w\<rparr> = w" by simp
  show ?thesis
  proof (cases "\<exists>d. \<not> control_call c \<and> descriptor_of T (sc_name c) = Some d \<and> d_input d \<noteq> []")
    case False
    then show ?thesis
      using assms by (intro exI [of _ "mw_schemas w"])
        (auto simp: validator_dispatch_def verdict_def split: option.splits)
  next
    case True
    then obtain d where d: "\<not> control_call c" "descriptor_of T (sc_name c) = Some d" "d_input d \<noteq> []" by blast
    obtain m where m: "compiled A (d_input d) (mw_schemas w) = (compile_schema A (d_input d), m)" "cache_ok A m"
      using compiled_cache [OF assms] by blast
    show ?thesis
      using d m by (intro exI [of _ m])
        (simp add: validator_dispatch_def verdict_def Let_def split: sum.splits option.splits)
  qed
qed

lemma verdict_refuses:
  assumes "sys_laws S" "verdict A S T c = Some (Inr r)"
  shows "status_of S r = StatusFailed \<and> errno_of S r \<in> {ErrnoDenied, ErrnoInvalidArgs}"
  using assms(2) sys_laws_status(4) [OF assms(1)] assms(1)
  by (auto simp: verdict_def sys_laws_def split: if_splits option.splits sum.splits)

subsection \<open>Taint grows, and is rebuilt by replay\<close>

lemma sources_observe_label:
  "sources_of (observe_label src label t) l =
     (if l = label \<and> src \<notin> set (sources_of t l) then sources_of t l @ [src] else sources_of t l)"
  by (auto simp: observe_label_def sources_of_def split: option.splits)

lemma dom_observe_label:
  "dom (mget (observe_label src label t)) =
     (if src \<in> set (sources_of t label) then dom (mget t) else insert label (dom (mget t)))"
  by (auto simp: observe_label_def)

lemma sources_observe_labels:
  "set (sources_of (fold (observe_label src) labels t) l) =
     (if l \<in> set labels then insert src (set (sources_of t l)) else set (sources_of t l))"
proof (induction labels arbitrary: t)
  case (Cons a labels)
  have "set (sources_of (observe_label src a t) l) =
      (if l = a then insert src (set (sources_of t l)) else set (sources_of t l))"
    by (auto simp: sources_observe_label)
  then show ?case using Cons.IH [of "observe_label src a t"] by auto
qed simp

lemma sources_in_dom: "s \<in> set (sources_of t l) \<Longrightarrow> l \<in> dom (mget t)"
  by (cases "mget t l") (auto simp: sources_of_def)

lemma taint_of_observe:
  "taint_of (observe pid labels src ts) q =
     (if q = pid then fold (observe_label src) labels (taint_of ts q) else taint_of ts q)"
  by (auto simp: taint_of_def observe_def)

text \<open>What \<open>Track\<close> notes of one result.\<close>

definition note_taint :: "'r sysapi \<Rightarrow> 'k \<Rightarrow> syscall \<Rightarrow> 'r \<Rightarrow> 'k taints \<Rightarrow> 'k taints" where
  "note_taint S cred c r ts =
     (if control_call c then ts else observe cred (labels_of S r) (source c) ts)"

definition track_look :: "'k \<Rightarrow> taint \<Rightarrow> syscall \<Rightarrow> ('j, 'k, 's, 'z) mworld_scheme \<Rightarrow> taint" where
  "track_look cred taint c w = (if control_call c then taint else taint_of (mw_taints w) cred)"

definition track_note ::
    "'r sysapi \<Rightarrow> 'k \<Rightarrow> syscall \<Rightarrow> 'r \<Rightarrow> ('j, 'k, 's, 'z) mworld_scheme \<Rightarrow> ('j, 'k, 's, 'z) mworld_scheme"
where
  "track_note S cred c r w = w\<lparr>mw_taints := note_taint S cred c r (mw_taints w)\<rparr>"

lemma track_note_ok: "note_ok (track_note S cred)"
  by (simp add: note_ok_def track_note_def)

lemma track_is_tracked:
  "track_dispatch S (replay_dispatch S J next) taint cred c auth w =
     tracked S J next (track_look cred taint) (track_note S cred) cred auth c w"
proof (cases "control_call c")
  case True
  have same: "w1\<lparr>mw_taints := mw_taints w1\<rparr> = w1" for w1 :: "('a, 'b, 'c, 'd) mworld_scheme" by simp
  show ?thesis
    using True by (auto simp: track_dispatch_def tracked_def track_look_def track_note_def note_taint_def
        split: prod.splits sum.splits)
next
  case False
  then show ?thesis
    by (auto simp: track_dispatch_def tracked_def track_look_def track_note_def note_taint_def
        split: prod.splits sum.splits)
qed

text \<open>An observation of the world that is no part of the tape.\<close>

definition off_tape :: "(('j, 'z) tape_scheme \<Rightarrow> 'x) \<Rightarrow> bool" where
  "off_tape v \<longleftrightarrow>
     (\<forall>w j m b. v (w\<lparr>tp_journal := j\<rparr>) = v w \<and> v (w\<lparr>tp_cursor := m\<rparr>) = v w \<and> v (w\<lparr>tp_pending := b\<rparr>) = v w)"

lemma off_tape_steps:
  assumes "off_tape v"
  shows "v (snd (tape_next J c w)) = v w" "v (snd (tape_begin J c w)) = v w" "v (snd (tape_commit J r w)) = v w"
proof -
  have u: "v (w\<lparr>tp_journal := j\<rparr>) = v w" "v (w\<lparr>tp_cursor := m\<rparr>) = v w" "v (w\<lparr>tp_pending := b\<rparr>) = v w"
    for w j m b using assms by (simp_all add: off_tape_def)
  show "v (snd (tape_next J c w)) = v w"
    by (simp add: tape_next_def u split: sum.split option.split)
  show "v (snd (tape_begin J c w)) = v w"
    by (simp add: tape_begin_def u split: prod.split option.split)
  show "v (snd (tape_commit J r w)) = v w"
    by (simp add: tape_commit_def u split: prod.split option.split)
qed

lemma off_tape_dispatch:
  assumes v: "off_tape v" and n: "\<And>t k c a w. v (snd (next t k c a w)) = v w"
  shows "v (snd (replay_dispatch S J next t cred c a w)) = v w"
proof -
  have drive: "v (snd (replay_drive S J next t cred c a u)) = v u" for u
  proof -
    obtain y u1 where nx: "next t cred c a u = (y, u1)" by fastforce
    have u1: "v u1 = v u" using n [of t cred c a u] nx by simp
    show ?thesis
    proof (cases y)
      case (Inr r)
      obtain z u2 where "tape_commit J r u1 = (z, u2)" by fastforce
      then show ?thesis
        using off_tape_steps(3) [OF v, of J r u1] nx Inr u1
        by (cases z) (simp_all add: replay_drive_def)
    qed (simp add: replay_drive_def nx u1)
  qed
  obtain x u where x: "tape_next J c w = (x, u)" by fastforce
  obtain y u' where y: "tape_begin J c u = (y, u')" by fastforce
  have "v u = v w" "v u' = v u"
    using off_tape_steps(1) [OF v, of J c w] off_tape_steps(2) [OF v, of J c u] x y by simp_all
  then show ?thesis
    using drive [of u] drive [of u'] x y
    by (simp add: replay_dispatch_def split: sum.split option.split)
qed

context journal_store
begin

text \<open>
  An observation of the world that only \<open>note\<close> changes is a fold over the calls served; a run that
  parks has noted the yield as well.
\<close>

lemma run_noted:
  assumes "records_run recs ok S g w" "synced recs obs w" "below_ok recs ok next" "note_ok note"
    and run: "run_guest n S (tracked S J next look note cred a) g obs w = (e, obs', w')"
    and v_next: "\<And>t k c a w. v (snd (next t k c a w)) = v w"
    and v_note: "\<And>c r w. v (note c r w) = upd c r (v w)"
    and v_tape: "off_tape v"
  shows "length obs \<le> length obs' \<and>
    (let y = fold (\<lambda>(c, r). upd c r) (drop (length obs) (take (length obs') (pairs (recs (tp_journal w'))))) (v w) in
     if e = Parked then \<exists>c r. g obs' = Some c \<and> status_of S r = StatusYield \<and> v w' = upd c r y else v w' = y)"
  using assms(1,2) run
proof (induction n arbitrary: obs w)
  case 0
  then show ?case by simp
next
  case (Suc n)
  note v_dispatch = off_tape_dispatch [of v "next", OF v_tape v_next, of S J _ cred _ a w]
  show ?case
  proof (cases "g obs")
    case None
    then show ?thesis using Suc.prems by simp
  next
    case (Some c)
    obtain x u where d: "replay_dispatch S J next (look c w) cred c a w = (x, u)" by fastforce
    note dr = dispatch_records [OF Suc.prems(1,2) Some assms(3) d]
    have vu: "v u = v w" using v_dispatch [of "look c w" c] d by simp
    show ?thesis
    proof (cases x)
      case (Inl e')
      then have "e = Crashed e'" "obs' = obs" "w' = u"
        using Suc.prems(3) Some d by (simp_all add: tracked_def)
      then show ?thesis using vu by simp
    next
      case (Inr r)
      have tr: "tracked S J next look note cred a c w = (Inr r, note c r u)"
        by (simp add: tracked_def d Inr)
      show ?thesis
      proof (cases "status_of S r = StatusYield")
        case True
        then have "e = Parked" "obs' = obs" "w' = note c r u" using Suc.prems(3) Some tr by simp_all
        then show ?thesis using True Some vu v_note by auto
      next
        case ny: False
        have j: "tp_journal (note c r u) = tp_journal u" "tp_cursor (note c r u) = tp_cursor u"
          "tp_pending (note c r u) = tp_pending u"
          using assms(4) by (simp_all add: note_ok_def)
        have r: "run_guest n S (tracked S J next look note cred a) g (obs @ [r]) (note c r u) = (e, obs', w')"
          using Suc.prems(3) Some tr ny by simp
        have st: "records_run recs ok S g (note c r u)" "synced recs (obs @ [r]) (note c r u)"
          using dr(1,3) Inr ny tape_cong [OF j] by blast+
        note ih = Suc.IH [OF st r]
        have rec: "records_run recs ok S g w'" "has_seen recs obs' w'"
          "\<exists>ys. recs (tp_journal w') = recs (tp_journal (note c r u)) @ ys"
          using run_records [OF st assms(3,4) r] by blast+
        have lt: "length obs < length obs'" using ih by simp
        have "length obs' \<le> length (pairs (recs (tp_journal w')))"
          using rec(2) unfolding has_seen_def pairs_length by linarith
        then have lt': "length obs < length (pairs (recs (tp_journal w')))" using lt by simp
        have ob: "obs @ [r] = map snd (take (Suc (length obs)) (pairs (recs (tp_journal w'))))"
        proof -
          have "has_seen recs (obs @ [r]) w'"
            using st(2) rec(3) has_seen_grow unfolding synced_def by blast
          then show ?thesis by (simp add: has_seen_def)
        qed
        then have ob': "obs @ [r] = map snd (take (length obs) (pairs (recs (tp_journal w')))) @
            [snd (pairs (recs (tp_journal w')) ! length obs)]"
          using lt' by (simp add: take_Suc_conv_app_nth)
        then have o1: "map snd (take (length obs) (pairs (recs (tp_journal w')))) = obs" by simp
        have "g (map snd (take (length obs) (pairs (recs (tp_journal w'))))) =
            Some (fst (pairs (recs (tp_journal w')) ! length obs))"
          using rec(1) lt' unfolding records_run_def follows_def by blast
        then have "g obs = Some (fst (pairs (recs (tp_journal w')) ! length obs))"
          unfolding o1 .
        then have cr: "pairs (recs (tp_journal w')) ! length obs = (c, r)"
          using ob' Some by (simp add: prod_eq_iff)
        have "drop (length obs) (take (length obs') (pairs (recs (tp_journal w')))) =
            (c, r) # drop (Suc (length obs)) (take (length obs') (pairs (recs (tp_journal w'))))"
          using lt lt' cr Cons_nth_drop_Suc [of "length obs" "take (length obs') (pairs (recs (tp_journal w')))"]
          by simp
        then show ?thesis using ih vu v_note lt by simp
      qed
    qed
  qed
qed

end

subsection \<open>A monitored world on which witnesses evaluate\<close>

type_synonym demo_mworld = "(demo_journal, unit, bytes) mworld"

definition demo_mstart :: demo_mworld where
  "demo_mstart =
     \<lparr>tp_journal = new_log_journal \<lparr>ml_events = [], ml_now = 0, ml_full = False\<rparr> ''s'' ''p'' 1 [] 0,
      tp_cursor = 0, tp_pending = False, mw_taints = [], mw_schemas = []\<rparr>"

definition demo_schemas :: "(bytes, bytes) schema_api" where
  "demo_schemas = \<lparr>sa_decode = Inr, sa_compile = Inr, sa_validate = (\<lambda>s v. None)\<rparr>"

definition demo_beneath :: "(unit, demo_result, demo_mworld) dispatcher" where
  "demo_beneath = (\<lambda>t k c a w. (Inr (mk_result demo_sys (sc_name c)), w))"

definition demo_grant :: "(demo_result, syscall list) table" where
  "demo_grant = demo_table demo_run"

abbreviation demo_read :: syscall where
  "demo_read \<equiv> \<lparr>sc_name = ''internet.read'', sc_args = ''1''\<rparr>"

definition demo_reader :: "demo_result guest" where
  "demo_reader obs = (case obs of [] \<Rightarrow> Some demo_read | _ \<Rightarrow> None)"

lemma demo_grant_wf: "wf_table demo_grant"
  by (simp add: demo_grant_def demo_table_wf)

lemma demo_cache: "cache_ok demo_schemas (mw_schemas demo_mstart)"
  by (simp add: cache_ok_def demo_mstart_def)

lemma demo_mstart_runs:
  "records_run lj_recs lj_ok demo_sys g demo_mstart" "synced lj_recs [] demo_mstart"
  by (simp_all add: records_run_def tape_ok_def demo_mstart_def new_log_journal_ok
      follows_def settled_def synced_def has_seen_def)

subsection \<open>Properties\<close>

text \<open>C6. Complete mediation: for every call, journal and set of layers, the wrapped chain
  either refuses the call by the Validator's verdict, a function of the table, the schemas and
  the call alone, and then neither the tape, the taints nor anything below is touched; or
  the call is a control marker or names a granted capability, and it goes on to the layers
  below with the world unchanged. Only the schema cache may grow in between, it stays a cache,
  and it never changes a verdict. A refusal is a failed result with a denied or invalid-args
  code, never an error.\<close>

theorem complete_mediation:
  assumes "sys_laws S" "wf_table T" "cache_ok A (mw_schemas w)"
  shows "\<exists>m. cache_ok A m \<and>
    (case verdict A S T c of
       Some x \<Rightarrow> (\<forall>J beneath. wrap A S J T beneath taint cred c auth w = (x, w\<lparr>mw_schemas := m\<rparr>)) \<and>
         (\<forall>r. x = Inr r \<longrightarrow> status_of S r = StatusFailed \<and> errno_of S r \<in> {ErrnoDenied, ErrnoInvalidArgs})
     | None \<Rightarrow> (control_call c \<or> sc_name c \<in> set (t_order T)) \<and>
         (\<forall>J beneath. wrap A S J T beneath taint cred c auth w =
            track_dispatch S (replay_dispatch S J (stamp_dispatch S T beneath)) taint cred c auth
              (w\<lparr>mw_schemas := m\<rparr>)))"
proof -
  obtain m where m: "cache_ok A m" "\<And>next. validator_dispatch A S T next taint cred c auth w =
      (case verdict A S T c of Some x \<Rightarrow> (x, w\<lparr>mw_schemas := m\<rparr>)
       | None \<Rightarrow> next taint cred c auth (w\<lparr>mw_schemas := m\<rparr>))"
    using validator_verdict [OF assms(3), of S T taint cred c auth] by blast
  have "descriptor_of T (sc_name c) \<noteq> None \<Longrightarrow> sc_name c \<in> set (t_order T)"
    using assms(2) by (auto simp: descriptor_of_def wf_table_def split: option.splits)
  then have "verdict A S T c = None \<Longrightarrow> control_call c \<or> sc_name c \<in> set (t_order T)"
    by (auto simp: verdict_def split: option.splits if_splits)
  then show ?thesis
    using m verdict_refuses [OF assms(1), of A T c]
    by (intro exI [of _ m]) (auto simp: wrap_def split: option.split)
qed

theorem complete_mediation_witness:
  "\<exists>m r. wrap demo_schemas demo_sys demo_ops demo_grant demo_beneath [] ()
      \<lparr>sc_name = ''shell'', sc_args = ''''\<rparr> no_auth demo_mstart = (Inr r, demo_mstart\<lparr>mw_schemas := m\<rparr>) \<and>
    status_of demo_sys r = StatusFailed"
proof -
  have "descriptor_of demo_grant ''shell'' = None"
    by (simp add: demo_grant_def demo_table_unfold descriptor_of_def)
  then obtain r where "verdict demo_schemas demo_sys demo_grant \<lparr>sc_name = ''shell'', sc_args = ''''\<rparr> = Some (Inr r)"
    by (simp add: verdict_def control_call_def sys_names)
  then show ?thesis
    using complete_mediation [OF demo_sys_laws demo_grant_wf demo_cache,
        of "\<lparr>sc_name = ''shell'', sc_args = ''''\<rparr>" "[]" "()" no_auth] by auto
qed

text \<open>C15. Provenance: every result that passes the stamp, except a control marker's, carries
  the label of the syscall that produced it, every label its operation declares, and every
  label the handler gave it; its status and data are the handler's. This is the result that
  is journaled, so a replay hands the same labels up.\<close>

theorem results_carry_provenance:
  assumes "sys_laws S" and "\<not> control_call c" and "next taint cred c auth w = (Inr r0, w')"
  shows "\<exists>r. stamp_dispatch S T next taint cred c auth w = (Inr r, w') \<and>
    set (labels_of S r) =
      insert (syscall_label_prefix @ sc_name c) (set (call_labels T c) \<union> set (labels_of S r0)) \<and>
    status_of S r = status_of S r0 \<and> data_of S r = data_of S r0"
  using assms by (simp add: stamp_dispatch_def sys_laws_def Un_commute)

theorem results_carry_provenance_witness:
  "\<exists>r w'. stamp_dispatch demo_sys demo_grant demo_beneath [] () demo_read no_auth demo_mstart = (Inr r, w') \<and>
     ''web'' \<in> set (labels_of demo_sys r)"
proof -
  have "\<not> control_call demo_read" by (simp add: control_call_def sys_names)
  moreover have "''web'' \<in> set (call_labels demo_grant demo_read)"
    by (simp add: call_labels_def resolve_def demo_grant_def demo_table_unfold case_name_def demo_entry_def)
  moreover have "demo_beneath [] () demo_read no_auth demo_mstart = (Inr (mk_result demo_sys ''internet.read''), demo_mstart)"
    by (simp add: demo_beneath_def)
  ultimately show ?thesis
    using results_carry_provenance [OF demo_sys_laws, of demo_read demo_beneath "[]" "()" no_auth demo_mstart _ _ demo_grant] by auto
qed

text \<open>Taint only grows: after a call the caller sees the result of, the run's taint holds
  every label of that result with the call as a source, keeps every label and source it had,
  and no other process revision's taint changes.\<close>

theorem taint_grows:
  assumes "\<not> control_call c" "next (taint_of (mw_taints w) cred) cred c auth w = (x, w1)"
    and "mw_taints w1 = mw_taints w"
    and "track_dispatch S next taint cred c auth w = (Inr r, w')"
  shows "(\<forall>l \<in> set (labels_of S r). source c \<in> set (sources_of (taint_of (mw_taints w') cred) l)) \<and>
    (\<forall>l. set (sources_of (taint_of (mw_taints w) cred) l) \<subseteq> set (sources_of (taint_of (mw_taints w') cred) l)) \<and>
    (\<forall>k. k \<noteq> cred \<longrightarrow> taint_of (mw_taints w') k = taint_of (mw_taints w) k)"
proof -
  have "mw_taints w' = observe cred (labels_of S r) (source c) (mw_taints w)"
    using assms by (auto simp: track_dispatch_def split: sum.splits)
  then show ?thesis by (auto simp: taint_of_observe sources_observe_labels)
qed

theorem taint_grows_witness:
  "\<exists>r w'. track_dispatch demo_sys (stamp_dispatch demo_sys demo_grant demo_beneath) [] () demo_read no_auth demo_mstart = (Inr r, w') \<and>
     (\<forall>l \<in> set (labels_of demo_sys r). source demo_read \<in> set (sources_of (taint_of (mw_taints w') ()) l))"
proof -
  have c: "\<not> control_call demo_read" by (simp add: control_call_def sys_names)
  obtain r where r: "stamp_dispatch demo_sys demo_grant demo_beneath (taint_of (mw_taints demo_mstart) ()) () demo_read no_auth demo_mstart =
      (Inr r, demo_mstart)"
    using c by (simp add: stamp_dispatch_def demo_beneath_def)
  obtain w' where w': "track_dispatch demo_sys (stamp_dispatch demo_sys demo_grant demo_beneath) [] () demo_read no_auth demo_mstart =
      (Inr r, w')"
    using r c by (simp add: track_dispatch_def)
  show ?thesis using taint_grows [OF c r refl w'] w' by blast
qed

text \<open>C14. The taint is a function of what a quantum's guest was served: however it ends, every
  taint it leaves is the taint it started with, folded over the recorded pairs its guest
  consumed, live or replayed. So replay rebuilds exactly the taint the earlier quantum had,
  and a restart launders nothing. Only a quantum that parks leaves more than the journal
  records: the yield it parked on, which is not recorded, has been noted as well.\<close>

theorem taint_is_rebuilt:
  fixes w :: "(('l, 'r) log_journal, 'k, 's, 'z) mworld_scheme"
  assumes "records_run lj_recs lj_ok S g w" "synced lj_recs [] w"
    and "below_ok lj_recs lj_ok beneath" "\<forall>t k c a v. mw_taints (snd (beneath t k c a v)) = mw_taints v"
    and "run_guest n S
          (\<lambda>c. track_dispatch S (replay_dispatch S (log_journal_ops L enc) beneath) taint cred c a)
          g [] w = (e, obs, w')"
  shows "let recorded = fold (\<lambda>(c, r). note_taint S cred c r) (take (length obs) (pairs (lj_recs (tp_journal w')))) (mw_taints w) in
    if e = Parked then \<exists>c r. g obs = Some c \<and> status_of S r = StatusYield \<and> mw_taints w' = note_taint S cred c r recorded
    else mw_taints w' = recorded"
proof -
  have "run_guest n S (tracked S (log_journal_ops L enc) beneath (track_look cred taint) (track_note S cred) cred a)
      g [] w = (e, obs, w')"
    using assms(5) by (simp add: track_is_tracked [abs_def] fun_eq_iff cong: if_cong)
  from lj.run_noted [OF assms(1,2,3) track_note_ok this, where v = mw_taints and upd = "note_taint S cred"]
  show ?thesis
    using assms(4) by (simp add: off_tape_def track_note_def)
qed

definition demo_mrun :: "run_end \<times> demo_result list \<times> demo_mworld" where
  "demo_mrun = run_guest 2 demo_sys
     (\<lambda>c. track_dispatch demo_sys (replay_dispatch demo_sys (log_journal_ops mem_evlog Inr)
            (stamp_dispatch demo_sys demo_grant demo_beneath)) [] () c no_auth) demo_reader [] demo_mstart"

lemma demo_stamped_below:
  "below_ok lj_recs lj_ok (stamp_dispatch demo_sys demo_grant demo_beneath)"
  "mw_taints (snd (stamp_dispatch demo_sys demo_grant demo_beneath t k c a v)) = mw_taints v"
  by (simp_all add: below_ok_def stamp_dispatch_def demo_beneath_def)

theorem taint_is_rebuilt_witness:
  "\<exists>obs w'. demo_mrun = (Finished, obs, w') \<and> ''web'' \<in> set (snapshot () (mw_taints w')) \<and>
    mw_taints w' =
      fold (\<lambda>(c, r). note_taint demo_sys () c r) (take (length obs) (pairs (lj_recs (tp_journal w')))) []"
proof -
  obtain obs w' where r: "demo_mrun = (Finished, obs, w')" and web: "''web'' \<in> set (snapshot () (mw_taints w'))"
  proof -
    have "fst demo_mrun = Finished" "''web'' \<in> set (snapshot () (mw_taints (snd (snd demo_mrun))))"
      by code_simp+
    then show ?thesis using that by (metis prod.collapse)
  qed
  have "mw_taints w' = fold (\<lambda>(c, r). note_taint demo_sys () c r)
      (take (length obs) (pairs (lj_recs (tp_journal w')))) (mw_taints demo_mstart)"
    using taint_is_rebuilt [OF demo_mstart_runs(1,2) demo_stamped_below(1) _ r [unfolded demo_mrun_def]]
      demo_stamped_below(2) by (simp add: Let_def)
  moreover have "mw_taints demo_mstart = []" by (simp add: demo_mstart_def)
  ultimately show ?thesis using r web by metis
qed

lemma cut_back_max: "cut_back s n < i \<Longrightarrow> i \<le> n \<Longrightarrow> \<not> rune_start (s ! i)"
  by (induction n) (auto simp: le_Suc_eq split: if_splits)

text \<open>A source names its call and stays short: a call without arguments (or whose
  arguments are not JSON) is named by its name alone; otherwise the source is the name and the
  compacted arguments when they fit 200 bytes, and else their longest prefix of at most 200
  bytes that ends at a rune boundary, followed by the three-byte ellipsis.\<close>

theorem source_is_bounded:
  "length (source c) \<le> max (length (sc_name c)) 203 \<and>
   (case compact (sc_args c) of
      None \<Rightarrow> source c = sc_name c
    | Some args \<Rightarrow>
        let text = (if args = [] then sc_name c else sc_name c @ '' '' @ args) in
        source c = text \<or>
        200 < length text \<and>
        (\<exists>n. n \<le> 200 \<and> source c = take n text @ ellipsis \<and> (n = 0 \<or> rune_start (text ! n)) \<and>
             \<not> (\<exists>i. n < i \<and> i \<le> 200 \<and> rune_start (text ! i))))"
proof (cases "compact (sc_args c)")
  case None
  then show ?thesis by (simp add: source_def)
next
  case (Some args)
  show ?thesis
  proof (cases "args = [] \<or> length (sc_name c @ '' '' @ args) \<le> source_limit")
    case True
    then show ?thesis using Some by (auto simp: source_def source_limit_def Let_def)
  next
    case False
    let ?t = "sc_name c @ '' '' @ args"
    have src: "source c = take (cut_back ?t 200) ?t @ ellipsis"
      using False Some by (simp add: source_def source_limit_def Let_def)
    have "length (source c) \<le> 203"
      using cut_back_le [of ?t 200] by (simp add: src ellipsis_def)
    moreover have "\<exists>n. n \<le> 200 \<and> source c = take n ?t @ ellipsis \<and> (n = 0 \<or> rune_start (?t ! n)) \<and>
        \<not> (\<exists>i. n < i \<and> i \<le> 200 \<and> rune_start (?t ! i))"
      using src cut_back_le cut_back_boundary cut_back_max by blast
    moreover have "200 < length ?t" using False by (simp add: source_limit_def)
    ultimately show ?thesis using Some False by (simp add: Let_def)
  qed
qed

end
