(* ===== verification/Transition.thy ===== *)
theory Transition
  imports Main
begin

text \<open>
  The two contracts a transition system of this development can keep: an invariant, which its
  starting states have and its steps keep, and an abstraction, under which a step is a step of
  an abstract system or none. The task store, the guest pool and the runtime interpret them.
\<close>

locale invariant_system =
  fixes start :: "'s \<Rightarrow> bool"
    and step :: "'s \<Rightarrow> 's \<Rightarrow> bool"
    and good :: "'s \<Rightarrow> bool"
  assumes start_good: "start s \<Longrightarrow> good s"
    and step_good: "good s \<Longrightarrow> step s s' \<Longrightarrow> good s'"
begin

lemma run_good: "step\<^sup>*\<^sup>* s s' \<Longrightarrow> good s \<Longrightarrow> good s'"
  by (induction rule: rtranclp_induct) (auto intro: step_good)

lemma reached_good: "start s \<Longrightarrow> step\<^sup>*\<^sup>* s s' \<Longrightarrow> good s'"
  using run_good start_good by blast

text \<open>What every step keeps of what came before holds of whole runs.\<close>

lemma run_keeps:
  assumes "step\<^sup>*\<^sup>* s s'" "good s"
    and refl: "\<And>a. R a a" and trans: "\<And>a b c. R a b \<Longrightarrow> R b c \<Longrightarrow> R a c"
    and one: "\<And>a b. good a \<Longrightarrow> step a b \<Longrightarrow> R a b"
  shows "R s s'"
  using assms(1)
proof (induction rule: rtranclp_induct)
  case base
  show ?case by (rule refl)
next
  case (step a b)
  show ?case by (rule trans [OF step.IH one [OF run_good [OF step.hyps(1) assms(2)] step.hyps(2)]])
qed

end

locale simulating_system = invariant_system +
  fixes view :: "'s \<Rightarrow> 'a"
    and abstract_step :: "'a \<Rightarrow> 'a \<Rightarrow> bool"
  assumes step_simulates: "good s \<Longrightarrow> step s s' \<Longrightarrow> view s' = view s \<or> abstract_step (view s) (view s')"
begin

lemma run_simulates: "step\<^sup>*\<^sup>* s s' \<Longrightarrow> good s \<Longrightarrow> abstract_step\<^sup>*\<^sup>* (view s) (view s')"
  by (rule run_keeps [where R = "\<lambda>a b. abstract_step\<^sup>*\<^sup>* (view a) (view b)"])
    (use step_simulates in \<open>fastforce+\<close>)

end

end
