(* ===== verification/TaskStore.thy ===== *)
theory TaskStore
  imports Durable Monitor Transition "HOL-Library.Word"
begin

text \<open>
  Durable tasks: the timer's arithmetic (\<open>internal/agent/timer.go\<close>), the store of task records
  over the event log (\<open>taskstore.go\<close>), the layer that turns a yield into a task and serves its
  resolution (\<open>task/task.go\<close>), and the timer layer.

  A Go \<open>Duration\<close> is a signed 64-bit count of nanoseconds, so products of durations are
  computed in \<^typ>\<open>64 word\<close>, where they wrap as they do in the code.
\<close>

subsection \<open>Durations\<close>

definition nano :: int where "nano = 1"
definition millisecond :: int where "millisecond = 1000000"
definition second :: int where "second = 1000000000"
definition hour :: int where "hour = 3600 * second"

text \<open>\<open>time.Duration(n) * unit\<close>.\<close>

definition duration_mul :: "int \<Rightarrow> int \<Rightarrow> int" where
  "duration_mul n unit = sint (word_of_int n * word_of_int unit :: 64 word)"

lemma duration_mul_fits:
  "- (2 ^ 63) \<le> n * u \<Longrightarrow> n * u < 2 ^ 63 \<Longrightarrow> duration_mul n u = n * u"
  unfolding duration_mul_def wi_hom_mult by (subst signed_of_int) (simp add: signed_take_bit_int_eq_self_iff)

text \<open>\<open>Duration.String\<close>: \<open>frac_digits p v\<close> are the last \<open>p\<close> decimals of \<open>v\<close> without trailing zeros.\<close>

fun frac_digits :: "nat \<Rightarrow> nat \<Rightarrow> string" where
  "frac_digits 0 v = ''''"
| "frac_digits (Suc p) v =
     (if v mod 10 ^ Suc p = 0 then ''''
      else digit (v div 10 ^ p mod 10) # frac_digits p v)"

definition fmt_frac :: "nat \<Rightarrow> nat \<Rightarrow> string" where
  "fmt_frac p v =
     show_nat (v div 10 ^ p) @ (if v mod 10 ^ p = 0 then '''' else ''.'' @ frac_digits p v)"

definition duration_string :: "int \<Rightarrow> string" where
  "duration_string d =
     (let u = nat \<bar>d\<bar>; sign = (if d < 0 then ''-'' else '''') in
      if u = 0 then ''0s''
      else if u < 1000 then sign @ fmt_frac 0 u @ ''ns''
      else if u < 1000000 then sign @ fmt_frac 3 u @ [CHR 0xC2, CHR 0xB5] @ ''s''
      else if u < 1000000000 then sign @ fmt_frac 6 u @ ''ms''
      else
        let secs = u div 1000000000; mins = secs div 60; hours = mins div 60;
            tail = fmt_frac 9 (secs mod 60 * 1000000000 + u mod 1000000000) @ ''s'' in
        sign @
        (if 0 < hours then show_nat hours @ ''h'' @ show_nat (mins mod 60) @ ''m'' @ tail
         else if 0 < mins then show_nat mins @ ''m'' @ tail
         else tail))"

subsection \<open>Timer requests\<close>

record timer_request =
  tr_seconds :: int
  tr_label :: string

definition decode_timer_request :: "bytes \<Rightarrow> timer_request option" where
  "decode_timer_request args =
     (case (unmarshal_field as_int64 ''duration_seconds'' 0 args, unmarshal_field as_string ''label'' '''' args) of
        ((n, True), (l, True)) \<Rightarrow> Some \<lparr>tr_seconds = n, tr_label = l\<rparr>
      | _ \<Rightarrow> None)"

definition timer_task_request :: "task_record \<Rightarrow> timer_request option" where
  "timer_task_request r =
     (if sc_name (tk_syscall r) \<noteq> timer_syscall then None
      else decode_timer_request (sc_args (tk_syscall r)))"

definition timer_fire_at :: "task_record \<Rightarrow> instant option" where
  "timer_fire_at r =
     map_option (\<lambda>q. tk_created r + duration_mul (tr_seconds q) second) (timer_task_request r)"

definition timer_fired :: "task_record \<Rightarrow> bytes option" where
  "timer_fired r =
     map_option (\<lambda>q. marshal (JObj [(''label'', JStr (tr_label q)), (''status'', JStr ''fired'')]))
       (timer_task_request r)"

text \<open>\<open>due\<close>: a timer's fire time, or an approval's expiry, has come.\<close>

definition due :: "task_record \<Rightarrow> instant \<Rightarrow> bool" where
  "due r now \<longleftrightarrow>
     tk_state r = Pending \<and>
     (case timer_fire_at r of
        Some t \<Rightarrow> t \<le> now
      | None \<Rightarrow> (case tk_expires r of None \<Rightarrow> False | Some t \<Rightarrow> t \<le> now))"

subsection \<open>The store\<close>

record 'l task_store =
  ts_records :: "(string, task_record) gomap"
  ts_log :: 'l

definition store_seed :: "task_record list \<Rightarrow> 'l task_store \<Rightarrow> 'l task_store" where
  "store_seed rs s = s\<lparr>ts_records := fold (\<lambda>r. mput (tk_id r) r) rs (ts_records s)\<rparr>"

definition find_task :: "(string, task_record) gomap \<Rightarrow> process_context \<Rightarrow> int \<Rightarrow> task_record option" where
  "find_task m scope position =
     List.find (\<lambda>r. tk_scope r = scope \<and> tk_position r = position) (map snd m)"

definition store_append ::
    "('l, 'd) evlog \<Rightarrow> (instant \<Rightarrow> task_record \<Rightarrow> err + 'd event) \<Rightarrow> task_record \<Rightarrow> 'l \<Rightarrow> err option \<times> 'l"
where
  "store_append L event r l =
     (case event (el_now L l) r of
        Inl e \<Rightarrow> (Some e, l)
      | Inr ev \<Rightarrow> el_append L (pc_session (tk_scope r)) ev l)"

definition store_create ::
    "('l, 'd) evlog \<Rightarrow> 'd durable_codec \<Rightarrow> task_record \<Rightarrow> 'l task_store \<Rightarrow> err option \<times> 'l task_store"
where
  "store_create L D r s =
     (if mget (ts_records s) (tk_id r) \<noteq> None then (Some TaskConflict, s)
      else case store_append L (task_created_event D) r (ts_log s) of
          (Some e, l) \<Rightarrow> (Some e, s\<lparr>ts_log := l\<rparr>)
        | (None, l) \<Rightarrow> (None, s\<lparr>ts_records := mput (tk_id r) r (ts_records s), ts_log := l\<rparr>))"

definition store_list :: "(string, task_record) gomap \<Rightarrow> string \<Rightarrow> task_record list" where
  "store_list m process_id =
     sort_key tk_created (filter (\<lambda>r. pc_process (tk_scope r) = process_id) (map snd m))"

definition same_resolution :: "authorization \<Rightarrow> authorization \<Rightarrow> bool" where
  "same_resolution a b \<longleftrightarrow>
     au_decision a = au_decision b \<and> au_data a = au_data b \<and> au_reason a = au_reason b"

definition store_resolve ::
    "('l, 'd) evlog \<Rightarrow> 'd durable_codec \<Rightarrow> string \<Rightarrow> bytes \<Rightarrow> authorization \<Rightarrow> instant \<Rightarrow>
     'l task_store \<Rightarrow> (err + task_record) \<times> 'l task_store"
where
  "store_resolve L D tid token_hash resolution now s =
     (case mget (ts_records s) tid of
        None \<Rightarrow> (Inl TaskNotFound, s)
      | Some r \<Rightarrow>
          if tk_token_hash r \<noteq> token_hash then (Inl TaskUnauthorized, s)
          else if tk_state r \<noteq> Pending then
            (if same_resolution (tk_resolution r) resolution then (Inr r, s) else (Inl TaskConflict, s))
          else if (case tk_expires r of None \<Rightarrow> False | Some t \<Rightarrow> t \<le> now) then (Inl TaskGone, s)
          else
            let r1 = r\<lparr>tk_state := au_decision resolution, tk_resolution := resolution,
                       tk_resolved := Some now\<rparr> in
            case store_append L (task_resolved_event D) r1 (ts_log s) of
              (Some e, l) \<Rightarrow> (Inl e, s\<lparr>ts_log := l\<rparr>)
            | (None, l) \<Rightarrow>
                (Inr r1, s\<lparr>ts_records := mput tid r1 (ts_records s), ts_log := l\<rparr>))"

definition store_due :: "(string, task_record) gomap \<Rightarrow> instant \<Rightarrow> string list" where
  "store_due m now = map tk_id (filter (\<lambda>r. due r now) (map snd m))"

definition expired_resolution :: authorization where
  "expired_resolution =
     \<lparr>au_decision = Expired, au_data = '''',
      au_reason = ''no resolution before the task'' @ [CHR 0x27] @ ''s deadline'', au_actor = ''aurora''\<rparr>"

definition deadline_resolution :: "task_record \<Rightarrow> authorization" where
  "deadline_resolution r =
     (case timer_fired r of
        Some fired \<Rightarrow> \<lparr>au_decision = Completed, au_data = fired, au_reason = '''', au_actor = ''timer''\<rparr>
      | None \<Rightarrow> expired_resolution)"

text \<open>A missing record is the zero record, which is never pending.\<close>

definition store_settle ::
    "('l, 'd) evlog \<Rightarrow> 'd durable_codec \<Rightarrow> string \<Rightarrow> instant \<Rightarrow> 'l task_store \<Rightarrow> err option \<times> 'l task_store"
where
  "store_settle L D tid now s =
     (case mget (ts_records s) tid of
        None \<Rightarrow> (None, s)
      | Some r \<Rightarrow>
          if \<not> due r now then (None, s)
          else
            let r1 = r\<lparr>tk_resolution := deadline_resolution r,
                       tk_state := au_decision (deadline_resolution r), tk_resolved := Some now\<rparr> in
            case store_append L (task_resolved_event D) r1 (ts_log s) of
              (Some e, l) \<Rightarrow> (Some e, s\<lparr>ts_log := l\<rparr>)
            | (None, l) \<Rightarrow> (None, s\<lparr>ts_records := mput tid r1 (ts_records s), ts_log := l\<rparr>))"

subsection \<open>The life of a task\<close>

text \<open>The decisions \<open>ResolveTask\<close> lets through.\<close>

definition resolvable_decision :: "decision \<Rightarrow> bool" where
  "resolvable_decision d \<longleftrightarrow> d \<in> {Approved, Completed, TaskFailed, Denied, Cancelled}"

definition store_wf :: "'l task_store \<Rightarrow> bool" where
  "store_wf s \<longleftrightarrow>
     distinct (map fst (ts_records s)) \<and> (\<forall>(k, r) \<in> set (ts_records s). tk_id r = k) \<and>
     inj_on (\<lambda>r. (tk_scope r, tk_position r)) (snd ` set (ts_records s))"

text \<open>A pending record settles once: its state, resolution and time change together.\<close>

definition settles :: "task_record \<Rightarrow> task_record \<Rightarrow> bool" where
  "settles r r' \<longleftrightarrow>
     tk_state r = Pending \<and>
     (\<exists>a t. au_decision a \<noteq> Pending \<and>
        r' = r\<lparr>tk_state := au_decision a, tk_resolution := a, tk_resolved := Some t\<rparr>)"

text \<open>
  What happens to the store: the task layer creates a record for a scope and position that has
  none, a resolver and the sweep settle records, and the log gets events of other kinds.
\<close>

inductive store_step :: "('l, 'd) evlog \<Rightarrow> 'd durable_codec \<Rightarrow> 'l task_store \<Rightarrow> 'l task_store \<Rightarrow> bool"
  for L D where
  create: "tk_state r = Pending \<Longrightarrow> find_task (ts_records s) (tk_scope r) (tk_position r) = None \<Longrightarrow>
     store_create L D r s = (x, s') \<Longrightarrow> store_step L D s s'"
| resolve: "resolvable_decision (au_decision a) \<Longrightarrow>
     store_resolve L D tid h a now s = (y, s') \<Longrightarrow> store_step L D s s'"
| settle: "store_settle L D tid now s = (x, s') \<Longrightarrow> store_step L D s s'"
| other: "ev_kind ev \<noteq> ev_task_created \<Longrightarrow> ev_kind ev \<noteq> ev_task_resolved \<Longrightarrow>
     (\<And>f. \<exists>f'. fold_event D ev f = Inr f') \<Longrightarrow>
     el_append L sid ev (ts_log s) = (x, l) \<Longrightarrow> store_step L D s (s\<lparr>ts_log := l\<rparr>)"

text \<open>What a step does to the records: nothing, or one insertion of a fresh or a settled record.\<close>

definition upserts :: "'l task_store \<Rightarrow> 'l task_store \<Rightarrow> task_record \<Rightarrow> bool" where
  "upserts s s' r \<longleftrightarrow>
     ts_records s' = mput (tk_id r) r (ts_records s) \<and>
     (mget (ts_records s) (tk_id r) = None \<and> tk_state r = Pending \<and>
        find_task (ts_records s) (tk_scope r) (tk_position r) = None \<or>
      (\<exists>r0. mget (ts_records s) (tk_id r) = Some r0 \<and> settles r0 r))"

lemma store_wf_id: "store_wf s \<Longrightarrow> mget (ts_records s) k = Some r \<Longrightarrow> tk_id r = k"
  by (auto simp: store_wf_def dest: map_of_SomeD)

lemma deadline_decides: "au_decision (deadline_resolution r) \<in> {Completed, Expired}"
  by (simp add: deadline_resolution_def expired_resolution_def split: option.split)

lemma store_create_cases:
  assumes "store_create L D r s = (x, s')"
  obtains l where "s' = s\<lparr>ts_log := l\<rparr>" "x \<noteq> None" "store_append L (task_created_event D) r (ts_log s) = (x, l)"
  | "s' = s" "x = Some TaskConflict"
  | l where "x = None" "store_append L (task_created_event D) r (ts_log s) = (None, l)"
      "mget (ts_records s) (tk_id r) = None"
      "s' = s\<lparr>ts_records := mput (tk_id r) r (ts_records s), ts_log := l\<rparr>"
proof (cases "mget (ts_records s) (tk_id r)")
  case (Some r0)
  then show ?thesis using assms that(2) by (simp add: store_create_def)
next
  case n: None
  obtain y l where y: "store_append L (task_created_event D) r (ts_log s) = (y, l)" by fastforce
  show ?thesis
  proof (cases y)
    case None
    then have "x = None" "s' = s\<lparr>ts_records := mput (tk_id r) r (ts_records s), ts_log := l\<rparr>"
      using assms n y by (simp_all add: store_create_def)
    then show ?thesis using y None n that(3) by blast
  next
    case (Some e)
    then have "x = Some e" "s' = s\<lparr>ts_log := l\<rparr>"
      using assms n y by (simp_all add: store_create_def)
    then show ?thesis using y Some that(1) by blast
  qed
qed

lemma store_settle_cases:
  assumes "store_settle L D tid now s = (x, s')"
  obtains "s' = s" "x = None"
  | r l e where "store_append L (task_resolved_event D) r (ts_log s) = (Some e, l)" "x = Some e" "s' = s\<lparr>ts_log := l\<rparr>"
  | r r' l where "x = None" "mget (ts_records s) tid = Some r" "due r now"
      "r' = r\<lparr>tk_resolution := deadline_resolution r, tk_state := au_decision (deadline_resolution r), tk_resolved := Some now\<rparr>"
      "store_append L (task_resolved_event D) r' (ts_log s) = (None, l)"
      "s' = s\<lparr>ts_records := mput tid r' (ts_records s), ts_log := l\<rparr>"
proof (cases "\<exists>r. mget (ts_records s) tid = Some r \<and> due r now")
  case False
  then have "s' = s" "x = None"
    using assms by (cases "mget (ts_records s) tid"; simp add: store_settle_def)+
  then show ?thesis by (rule that(1))
next
  case True
  then obtain r where r: "mget (ts_records s) tid = Some r" "due r now" by blast
  let ?r = "r\<lparr>tk_resolution := deadline_resolution r, tk_state := au_decision (deadline_resolution r), tk_resolved := Some now\<rparr>"
  obtain y l where y: "store_append L (task_resolved_event D) ?r (ts_log s) = (y, l)" by fastforce
  show ?thesis
  proof (cases y)
    case None
    then have "x = None" "s' = s\<lparr>ts_records := mput tid ?r (ts_records s), ts_log := l\<rparr>"
      using assms r y by (simp_all add: store_settle_def Let_def)
    then show ?thesis using r y None that(3) by blast
  next
    case (Some e)
    then have "x = Some e" "s' = s\<lparr>ts_log := l\<rparr>"
      using assms r y by (simp_all add: store_settle_def Let_def)
    then show ?thesis using y Some that(2) by blast
  qed
qed

lemma store_resolve_cases:
  assumes "store_resolve L D tid h a now s = (y, s')"
  obtains "s' = s" "\<forall>r. y = Inr r \<longrightarrow> mget (ts_records s) tid = Some r \<and> tk_state r \<noteq> Pending \<and>
      tk_token_hash r = h \<and> same_resolution (tk_resolution r) a"
  | r l e where "store_append L (task_resolved_event D) r (ts_log s) = (Some e, l)" "y = Inl e" "s' = s\<lparr>ts_log := l\<rparr>"
  | r r' l where "y = Inr r'" "mget (ts_records s) tid = Some r" "tk_state r = Pending" "tk_token_hash r = h"
      "\<forall>t. tk_expires r = Some t \<longrightarrow> now < t"
      "r' = r\<lparr>tk_state := au_decision a, tk_resolution := a, tk_resolved := Some now\<rparr>"
      "store_append L (task_resolved_event D) r' (ts_log s) = (None, l)"
      "s' = s\<lparr>ts_records := mput tid r' (ts_records s), ts_log := l\<rparr>"
proof (cases "\<exists>r. mget (ts_records s) tid = Some r \<and> tk_state r = Pending \<and> tk_token_hash r = h \<and>
    (\<forall>t. tk_expires r = Some t \<longrightarrow> now < t)")
  case False
  then have "s' = s \<and> (\<forall>r. y = Inr r \<longrightarrow> mget (ts_records s) tid = Some r \<and> tk_state r \<noteq> Pending \<and>
      tk_token_hash r = h \<and> same_resolution (tk_resolution r) a)"
  proof (cases "mget (ts_records s) tid")
    case None
    then show ?thesis using assms by (auto simp: store_resolve_def)
  next
    case r: (Some r)
    show ?thesis
    proof (cases "tk_token_hash r = h \<and> tk_state r = Pending")
      case True
      then obtain t where "tk_expires r = Some t" "t \<le> now" using False r by (auto simp: not_less)
      then show ?thesis using assms r True by (auto simp: store_resolve_def)
    next
      case False
      then show ?thesis using assms r by (auto simp: store_resolve_def split: if_splits)
    qed
  qed
  then show ?thesis using that(1) by blast
next
  case True
  then obtain r where r: "mget (ts_records s) tid = Some r" "tk_state r = Pending" "tk_token_hash r = h"
    "\<forall>t. tk_expires r = Some t \<longrightarrow> now < t" by blast
  have ex: "\<not> (case tk_expires r of None \<Rightarrow> False | Some t \<Rightarrow> t \<le> now)"
    using r(4) by (auto split: option.splits)
  let ?r = "r\<lparr>tk_state := au_decision a, tk_resolution := a, tk_resolved := Some now\<rparr>"
  obtain z l where z: "store_append L (task_resolved_event D) ?r (ts_log s) = (z, l)" by fastforce
  show ?thesis
  proof (cases z)
    case None
    then have "y = Inr ?r" "s' = s\<lparr>ts_records := mput tid ?r (ts_records s), ts_log := l\<rparr>"
      using assms r ex z by (simp_all add: store_resolve_def Let_def)
    then show ?thesis using r z None that(3) by blast
  next
    case (Some e)
    then have "y = Inl e" "s' = s\<lparr>ts_log := l\<rparr>"
      using assms r ex z by (simp_all add: store_resolve_def Let_def)
    then show ?thesis using z Some that(2) by blast
  qed
qed

text \<open>A step changes nothing but the log, or upserts one record it has logged.\<close>

lemma store_step_cases:
  assumes "store_step L D s s'" "store_wf s"
  obtains "ts_records s' = ts_records s"
  | r where "upserts s s' r"
  using assms(1)
proof cases
  case (create r x)
  from create(3) show ?thesis
  proof (cases rule: store_create_cases)
    case (3 l)
    then have "upserts s s' r" using create(1,2) by (simp add: upserts_def)
    then show ?thesis by (rule that(2))
  qed (auto intro: that(1))
next
  case (resolve a tid h now y)
  from resolve(2) show ?thesis
  proof (cases rule: store_resolve_cases)
    case (3 r r' l)
    have ne: "au_decision a \<noteq> Pending" using resolve(1) by (auto simp: resolvable_decision_def)
    have "tk_id r = tid" using store_wf_id [OF assms(2) 3(2)] .
    then have "upserts s s' r'"
      using 3 ne by (auto simp: upserts_def settles_def)
    then show ?thesis by (rule that(2))
  qed (auto intro: that(1))
next
  case (settle tid now x)
  from settle(1) show ?thesis
  proof (cases rule: store_settle_cases)
    case (3 r r' l)
    have ne: "au_decision (deadline_resolution r) \<noteq> Pending" using deadline_decides [of r] by auto
    have "tk_id r = tid" using store_wf_id [OF assms(2) 3(2)] .
    moreover have "settles r r'" using 3(3,4) ne
      by (auto simp: settles_def due_def intro!: exI [of _ "deadline_resolution r"] exI [of _ now])
    ultimately have "upserts s s' r'" using 3 by (auto simp: upserts_def)
    then show ?thesis by (rule that(2))
  qed (auto intro: that(1))
next
  case (other ev sid x l)
  then show ?thesis using that(1) by simp
qed

lemma settles_keeps: "settles r r' \<Longrightarrow> tk_id r' = tk_id r \<and> tk_scope r' = tk_scope r \<and> tk_position r' = tk_position r \<and>
    tk_syscall r' = tk_syscall r \<and> tk_token_hash r' = tk_token_hash r \<and> tk_created r' = tk_created r \<and>
    tk_expires r' = tk_expires r \<and> tk_state r' \<noteq> Pending"
  by (auto simp: settles_def)

lemma settles_pending: "settles r r' \<Longrightarrow> tk_state r = Pending"
  by (simp add: settles_def)

lemma settles_once: "settles r r1 \<Longrightarrow> settles r1 r2 \<Longrightarrow> False"
  using settles_keeps settles_pending by blast

lemma find_task_None:
  "find_task m scope pos = None \<longleftrightarrow> (\<forall>r \<in> snd ` set m. \<not> (tk_scope r = scope \<and> tk_position r = pos))"
  by (auto simp: find_task_def find_None_iff)

lemma set_mput_values: "distinct (map fst m) \<Longrightarrow> snd ` set (mput k v m) = insert v (snd ` {x \<in> set m. fst x \<noteq> k})"
proof -
  assume d: "distinct (map fst m)"
  have "(a, b) \<in> set (mput k v m) \<longleftrightarrow> (a, b) = (k, v) \<or> a \<noteq> k \<and> (a, b) \<in> set m" for a b
  proof -
    have "(a, b) \<in> set (mput k v m) \<longleftrightarrow> mget (mput k v m) a = Some b"
      using d by (intro map_of_eq_Some_iff [symmetric]) simp
    then show ?thesis using d by (auto simp: map_of_eq_Some_iff)
  qed
  then show ?thesis by force
qed

lemma upserts_wf:
  assumes "upserts s s' r" "store_wf s"
  shows "store_wf s'"
proof -
  let ?m = "ts_records s" and ?id = "\<lambda>r. (tk_scope r, tk_position r)"
  have d: "distinct (map fst ?m)" and k: "\<And>a b. (a, b) \<in> set ?m \<Longrightarrow> tk_id b = a"
    and inj: "inj_on ?id (snd ` set ?m)" using assms(2) unfolding store_wf_def by auto
  have m': "ts_records s' = mput (tk_id r) r ?m" using assms(1) by (simp add: upserts_def)
  have vals: "snd ` set (ts_records s') = insert r (snd ` {x \<in> set ?m. fst x \<noteq> tk_id r})"
    unfolding m' by (rule set_mput_values [OF d])
  have fresh: "?id q \<noteq> ?id r" if "(a, q) \<in> set ?m" "a \<noteq> tk_id r" for a q
  proof (cases "mget ?m (tk_id r)")
    case None
    then have "find_task ?m (tk_scope r) (tk_position r) = None" using assms(1) by (auto simp: upserts_def)
    then show ?thesis using that(1) by (force simp: find_task_None)
  next
    case (Some r0)
    then have r0: "settles r0 r" "(tk_id r, r0) \<in> set ?m" using assms(1) by (auto simp: upserts_def dest: map_of_SomeD)
    have "q \<noteq> r0" using that k r0(2) by blast
    then have "?id q \<noteq> ?id r0" using inj that(1) r0(2) unfolding inj_on_def by (metis image_eqI snd_conv)
    then show ?thesis using settles_keeps [OF r0(1)] by simp
  qed
  have "inj_on ?id (snd ` set (ts_records s'))"
    unfolding vals using fresh inj by (fastforce simp: inj_on_def)
  moreover have "distinct (map fst (ts_records s'))" using d by (simp add: m')
  moreover have "\<forall>(a, b) \<in> set (ts_records s'). tk_id b = a"
    using k by (auto simp: m' dest!: mput_values)
  ultimately show ?thesis unfolding store_wf_def by blast
qed

lemma store_step_wf: "store_step L D s s' \<Longrightarrow> store_wf s \<Longrightarrow> store_wf s'"
  by (erule store_step_cases, assumption) (simp add: store_wf_def, rule upserts_wf)

lemma find_result: "List.find P xs = Some x \<Longrightarrow> x \<in> set xs \<and> P x"
  by (auto simp: find_Some_iff)

lemma find_task_unique:
  assumes "store_wf s" "mget (ts_records s) k = Some r"
  shows "find_task (ts_records s) (tk_scope r) (tk_position r) = Some r"
proof -
  have r: "r \<in> snd ` set (ts_records s)" using assms(2) by (force dest: map_of_SomeD)
  have "find_task (ts_records s) (tk_scope r) (tk_position r) \<noteq> None" using r by (simp add: find_task_None) blast
  then obtain q where q: "find_task (ts_records s) (tk_scope r) (tk_position r) = Some q" by blast
  have "q \<in> set (map snd (ts_records s)) \<and> tk_scope q = tk_scope r \<and> tk_position q = tk_position r"
    using find_result [OF q [unfolded find_task_def]] .
  then have "q \<in> snd ` set (ts_records s)" "(tk_scope q, tk_position q) = (tk_scope r, tk_position r)" by simp_all
  then have "q = r" using assms(1) r unfolding store_wf_def by (metis (no_types, lifting) inj_onD)
  then show ?thesis using q by simp
qed

text \<open>A settled record is final; a pending one stays or settles.\<close>

lemma store_step_record:
  assumes "store_step L D s s'" "store_wf s" "mget (ts_records s) k = Some r"
  shows "\<exists>r'. mget (ts_records s') k = Some r' \<and> (r' = r \<or> settles r r')"
  using assms(1,2)
proof (cases rule: store_step_cases)
  case (2 q)
  then show ?thesis using assms(3) by (cases "k = tk_id q") (auto simp: upserts_def)
qed (use assms(3) in simp)


subsection \<open>The log holds every task\<close>

text \<open>The records of one session, and what a store and its log agree on.\<close>

definition session_tasks :: "string \<Rightarrow> (string, task_record) gomap \<Rightarrow> string \<Rightarrow> task_record option" where
  "session_tasks sid m k =
     (case mget m k of
        Some r \<Rightarrow> if pc_session (tk_scope r) = sid then Some r else None
      | None \<Rightarrow> None)"

text \<open>What the log holds of them is their JSON form.\<close>

definition logged_tasks ::
    "'r json_forms \<Rightarrow> string \<Rightarrow> (string, task_record) gomap \<Rightarrow> string \<Rightarrow> task_record option"
where
  "logged_tasks F sid m k = map_option (task_form F) (session_tasks sid m k)"

text \<open>Identifiers that JSON keeps: the task layer makes no others.\<close>

definition tasks_kept :: "'l task_store \<Rightarrow> bool" where
  "tasks_kept s \<longleftrightarrow> (\<forall>k r. mget (ts_records s) k = Some r \<longrightarrow> json_kept (tk_id r))"

definition no_states :: folded where
  "no_states = \<lparr>fd_session = zero_session, fd_processes = [], fd_tasks = []\<rparr>"

definition tasks_logged :: "('l, 'd) evlog \<Rightarrow> 'd durable_codec \<Rightarrow> 'r json_forms \<Rightarrow> 'l task_store \<Rightarrow> bool" where
  "tasks_logged L D F s \<longleftrightarrow>
     (\<forall>sid. \<exists>f. fold_events D (stream L sid (ts_log s)) no_states = Inr f \<and>
        distinct (map fst (fd_tasks f)) \<and> (\<forall>x \<in> set (fd_tasks f). tk_id (snd x) = fst x) \<and>
        mget (fd_tasks f) = logged_tasks F sid (ts_records s))"

lemma fold_events_snoc:
  "fold_events D (evs @ [ev]) f =
     (case fold_events D evs f of Inl e \<Rightarrow> Inl e | Inr g \<Rightarrow> fold_event D ev g)"
  by (induction evs arbitrary: f) (auto split: sum.splits)

lemma fold_event_seq [simp]: "fold_event D (ev\<lparr>ev_seq := n\<rparr>) f = fold_event D ev f"
  by (cases "cd_dec_task D (ev_data ev)") (simp_all add: fold_event_def)

lemma fold_event_task:
  assumes "codec_laws D F" "task_event D kind now r = Inr ev"
    and "kind = ev_task_created \<or> kind = ev_task_resolved"
  shows "fold_event D ev f = Inr (f\<lparr>fd_tasks := mput (json_text (tk_id r)) (task_form F r) (fd_tasks f)\<rparr>)"
proof -
  obtain d where d: "cd_enc_task D \<lparr>td_record = r, td_token_hash = tk_token_hash r\<rparr> = Inr d"
    "ev_kind ev = kind" "ev_data ev = d"
    using assms(2) by (auto simp: task_event_def encode_event_def split: sum.splits)
  then have "cd_dec_task D d = Inr \<lparr>td_record = (task_form F r)\<lparr>tk_token_hash := []\<rparr>, td_token_hash = tk_token_hash r\<rparr>"
    using assms(1) by (fastforce simp: codec_laws_def)
  moreover have token: "(task_form F r)\<lparr>tk_token_hash := tk_token_hash r\<rparr> = task_form F r" by (simp add: task_form_def)
  ultimately show ?thesis using d assms(3) by (auto simp: fold_event_def Let_def token)
qed

lemma fold_event_other:
  "fold_event D ev f = Inr f' \<Longrightarrow> ev_kind ev \<noteq> ev_task_created \<Longrightarrow> ev_kind ev \<noteq> ev_task_resolved \<Longrightarrow>
     fd_tasks f' = fd_tasks f"
  by (auto simp: fold_event_def split: if_splits sum.splits)

lemma session_tasks_put:
  "session_tasks sid (mput k r m) =
     (if pc_session (tk_scope r) = sid then (session_tasks sid m)(k \<mapsto> r) else (session_tasks sid m)(k := None))"
  by (rule ext) (simp add: session_tasks_def)

lemma logged_tasks_put:
  "logged_tasks F sid (mput k r m) =
     (if pc_session (tk_scope r) = sid then (logged_tasks F sid m)(k \<mapsto> task_form F r) else (logged_tasks F sid m)(k := None))"
  by (rule ext) (simp add: logged_tasks_def session_tasks_put)

text \<open>One logged upsert: the fold of its session gains the record, the others do not change.\<close>

lemma tasks_logged_upsert:
  assumes laws: "log_laws L" "codec_laws D F" and lg: "tasks_logged L D F s"
    and a: "store_append L (task_event D kind) r (ts_log s) = (None, l)"
    and kind: "kind = ev_task_created \<or> kind = ev_task_resolved"
    and old: "\<forall>r0. mget (ts_records s) (tk_id r) = Some r0 \<longrightarrow> pc_session (tk_scope r0) = pc_session (tk_scope r)"
    and kept: "json_kept (tk_id r)"
  shows "tasks_logged L D F (s\<lparr>ts_records := mput (tk_id r) r (ts_records s), ts_log := l\<rparr>)"
proof -
  let ?sid = "pc_session (tk_scope r)"
  obtain ev where ev: "task_event D kind (el_now L (ts_log s)) r = Inr ev" "el_append L ?sid ev (ts_log s) = (None, l)"
    using a by (auto simp: store_append_def split: sum.splits)
  obtain n where n: "stream L ?sid l = stream L ?sid (ts_log s) @ [ev\<lparr>ev_seq := n\<rparr>]"
    "\<And>s'. s' \<noteq> ?sid \<Longrightarrow> stream L s' l = stream L s' (ts_log s)"
    using log_append_ok [OF laws(1) ev(2)] by metis
  show ?thesis
    unfolding tasks_logged_def
  proof
    fix sid
    obtain f where f: "fold_events D (stream L sid (ts_log s)) no_states = Inr f"
      "distinct (map fst (fd_tasks f))" "\<forall>x \<in> set (fd_tasks f). tk_id (snd x) = fst x"
      "mget (fd_tasks f) = logged_tasks F sid (ts_records s)"
      using lg unfolding tasks_logged_def by meson
    show "\<exists>f. fold_events D (stream L sid (ts_log (s\<lparr>ts_records := mput (tk_id r) r (ts_records s), ts_log := l\<rparr>))) no_states = Inr f \<and>
        distinct (map fst (fd_tasks f)) \<and> (\<forall>x \<in> set (fd_tasks f). tk_id (snd x) = fst x) \<and>
        mget (fd_tasks f) = logged_tasks F sid (ts_records (s\<lparr>ts_records := mput (tk_id r) r (ts_records s), ts_log := l\<rparr>))"
    proof (cases "sid = ?sid")
      case True
      have "tk_id (task_form F r) = tk_id r" using kept by (simp add: json_keptD)
      then have "\<forall>x \<in> set (mput (tk_id r) (task_form F r) (fd_tasks f)). tk_id (snd x) = fst x"
        using f(3) by (metis mput_values prod.collapse fst_conv snd_conv)
      then show ?thesis
        using True f n(1) fold_event_task [OF laws(2) ev(1) kind] json_keptD [OF kept]
        by (simp add: fold_events_snoc logged_tasks_put)
    next
      case False
      have "logged_tasks F sid (ts_records s) (tk_id r) = None"
        using old False by (auto simp: logged_tasks_def session_tasks_def split: option.splits)
      then show ?thesis using False f n(2) by (simp add: logged_tasks_put fun_upd_idem)
    qed
  qed
qed


lemma tasks_logged_stream:
  assumes "tasks_logged L D F s" "\<And>sid. stream L sid l = stream L sid (ts_log s)"
  shows "tasks_logged L D F (s\<lparr>ts_log := l\<rparr>)"
  using assms by (simp add: tasks_logged_def)

lemma store_append_failed:
  assumes "log_laws L" "store_append L event r l = (Some e, l')"
  shows "stream L sid l' = stream L sid l"
  using assms by (auto simp: store_append_def log_append_err split: sum.splits)

lemma tasks_logged_other:
  assumes laws: "log_laws L" and lg: "tasks_logged L D F s"
    and kind: "ev_kind ev \<noteq> ev_task_created" "ev_kind ev \<noteq> ev_task_resolved"
    and dec: "\<And>f. \<exists>f'. fold_event D ev f = Inr f'"
    and a: "el_append L sid0 ev (ts_log s) = (x, l)"
  shows "tasks_logged L D F (s\<lparr>ts_log := l\<rparr>)"
proof (cases x)
  case (Some e)
  then have "stream L sid l = stream L sid (ts_log s)" for sid using log_append_err [OF laws] a by blast
  then show ?thesis by (rule tasks_logged_stream [OF lg])
next
  case None
  obtain n where n: "stream L sid0 l = stream L sid0 (ts_log s) @ [ev\<lparr>ev_seq := n\<rparr>]"
    "\<And>s'. s' \<noteq> sid0 \<Longrightarrow> stream L s' l = stream L s' (ts_log s)"
    using log_append_ok [OF laws] a None by metis
  show ?thesis
    unfolding tasks_logged_def
  proof
    fix sid
    obtain f where f: "fold_events D (stream L sid (ts_log s)) no_states = Inr f"
      "distinct (map fst (fd_tasks f))" "\<forall>x \<in> set (fd_tasks f). tk_id (snd x) = fst x"
      "mget (fd_tasks f) = logged_tasks F sid (ts_records s)"
      using lg unfolding tasks_logged_def by meson
    obtain f' where f': "fold_event D ev f = Inr f'" using dec by blast
    have "fd_tasks f' = fd_tasks f" by (rule fold_event_other [OF f' kind])
    then show "\<exists>f. fold_events D (stream L sid (ts_log (s\<lparr>ts_log := l\<rparr>))) no_states = Inr f \<and>
        distinct (map fst (fd_tasks f)) \<and> (\<forall>x \<in> set (fd_tasks f). tk_id (snd x) = fst x) \<and>
        mget (fd_tasks f) = logged_tasks F sid (ts_records (s\<lparr>ts_log := l\<rparr>))"
      using f f' n by (cases "sid = sid0") (simp_all add: fold_events_snoc)
  qed
qed

lemma tasks_keptD: "tasks_kept s \<Longrightarrow> mget (ts_records s) k = Some r \<Longrightarrow> json_kept (tk_id r)"
  by (simp add: tasks_kept_def)

text \<open>Records stay, so what is kept in the end was kept before.\<close>

lemma tasks_kept_before:
  assumes "store_step L D s s'" "store_wf s" "tasks_kept s'"
  shows "tasks_kept s"
  unfolding tasks_kept_def
proof (intro allI impI)
  fix k r assume r: "mget (ts_records s) k = Some r"
  obtain r' where "mget (ts_records s') k = Some r'" "r' = r \<or> settles r r'"
    using store_step_record [OF assms(1,2) r] by blast
  then show "json_kept (tk_id r)" using tasks_keptD [OF assms(3)] settles_keeps [of r r'] by metis
qed

lemma tasks_logged_step:
  assumes laws: "log_laws L" "codec_laws D F" and "store_wf s" and lg: "tasks_logged L D F s"
    and "store_step L D s s'" and kept: "tasks_kept s'"
  shows "tasks_logged L D F s'"
  using assms(5)
proof cases
  case (create r x)
  from create(3) show ?thesis
  proof (cases rule: store_create_cases)
    case (1 l)
    then show ?thesis using tasks_logged_stream [OF lg] store_append_failed [OF laws(1)] by (metis not_Some_eq)
  next
    case 2
    then show ?thesis using lg by simp
  next
    case (3 l)
    have "json_kept (tk_id r)" using tasks_keptD [OF kept, of "tk_id r" r] 3(4) by simp
    then show ?thesis
      using tasks_logged_upsert [OF laws lg 3(2) [unfolded task_created_event_def]] 3 by simp
  qed
next
  case (resolve a tid h now y)
  from resolve(2) show ?thesis
  proof (cases rule: store_resolve_cases)
    case 1
    then show ?thesis using lg by simp
  next
    case (2 r l e)
    then show ?thesis using tasks_logged_stream [OF lg] store_append_failed [OF laws(1)] by metis
  next
    case (3 r r' l)
    have "tk_id r = tid" using store_wf_id [OF assms(3) 3(2)] .
    moreover have "json_kept (tk_id r')" using tasks_keptD [OF kept, of tid r'] 3(8) by simp
    ultimately show ?thesis
      using tasks_logged_upsert [OF laws lg 3(7) [unfolded task_resolved_event_def]] 3 by simp
  qed
next
  case (settle tid now x)
  from settle(1) show ?thesis
  proof (cases rule: store_settle_cases)
    case 1
    then show ?thesis using lg by simp
  next
    case (2 r l e)
    then show ?thesis using tasks_logged_stream [OF lg] store_append_failed [OF laws(1)] by metis
  next
    case (3 r r' l)
    have "tk_id r = tid" using store_wf_id [OF assms(3) 3(2)] .
    moreover have "json_kept (tk_id r')" using tasks_keptD [OF kept, of tid r'] 3(6) by simp
    ultimately show ?thesis
      using tasks_logged_upsert [OF laws lg 3(5) [unfolded task_resolved_event_def]] 3 by simp
  qed
next
  case (other ev sid x l)
  then show ?thesis using tasks_logged_other [OF laws(1) lg other(2,3) other(4) other(5)] by simp
qed

lemma seed_get:
  assumes "distinct (map tk_id rs)"
  shows "mget (ts_records (store_seed rs s)) k =
    (case List.find (\<lambda>r. tk_id r = k) rs of Some r \<Rightarrow> Some r | None \<Rightarrow> mget (ts_records s) k)"
  using assms
proof (induction rs arbitrary: s)
  case (Cons r rs)
  have "store_seed (r # rs) s = store_seed rs (s\<lparr>ts_records := mput (tk_id r) r (ts_records s)\<rparr>)"
    by (simp add: store_seed_def)
  moreover have "List.find (\<lambda>q. tk_id q = tk_id r) rs = None"
    using Cons.prems by (force simp: find_None_iff image_iff)
  ultimately show ?case using Cons by (auto split: option.split)
qed (simp add: store_seed_def)

text \<open>The store as a transition system: it stays well formed, and its log keeps holding it.\<close>

interpretation store: invariant_system store_wf "store_step L D" store_wf for L D
  by unfold_locales (auto intro: store_step_wf)

interpretation logged: invariant_system
    "\<lambda>s. log_laws L \<and> codec_laws D F \<and> store_wf s \<and> (tasks_kept s \<longrightarrow> tasks_logged L D F s)" "store_step L D"
    "\<lambda>s. log_laws L \<and> codec_laws D F \<and> store_wf s \<and> (tasks_kept s \<longrightarrow> tasks_logged L D F s)" for L D F
  by unfold_locales (auto intro: store_step_wf tasks_logged_step tasks_kept_before)

text \<open>Settling a record is final, so over a run a record stays or settles once.\<close>

lemma store_run_record:
  assumes "(store_step L D)\<^sup>*\<^sup>* s s'" "store_wf s" "mget (ts_records s) k = Some r"
  shows "\<exists>r'. mget (ts_records s') k = Some r' \<and> (r' = r \<or> settles r r')"
proof -
  let ?R = "\<lambda>a b. \<forall>r. mget (ts_records a) k = Some r \<longrightarrow> (\<exists>r'. mget (ts_records b) k = Some r' \<and> (r' = r \<or> settles r r'))"
  have "?R s s'"
  proof (rule store.run_keeps [OF assms(1,2), of ?R])
    show "?R a c" if "?R a b" "?R b c" for a b c
      using that settles_once by blast
  qed (use store_step_record in blast)+
  then show ?thesis using assms(3) by blast
qed

text \<open>
  Seeding a store from the fold of a session's stream: it gains exactly the session's records, in
  their JSON form.
\<close>

lemma seed_projection:
  fixes L :: "('l, 'd) evlog"
  assumes "tasks_logged L D F s"
  obtains f where "fold_events D (stream L sid (ts_log s)) no_states = Inr f"
    "\<And>(s0 :: 'l task_store) k. mget (ts_records (store_seed (pj_tasks (project f)) s0)) k =
       (case logged_tasks F sid (ts_records s) k of Some r \<Rightarrow> Some r | None \<Rightarrow> mget (ts_records s0) k)"
proof -
  obtain f where f: "fold_events D (stream L sid (ts_log s)) no_states = Inr f"
    "distinct (map fst (fd_tasks f))" "\<forall>x \<in> set (fd_tasks f). tk_id (snd x) = fst x"
    "mget (fd_tasks f) = logged_tasks F sid (ts_records s)"
    using assms unfolding tasks_logged_def by meson
  let ?ts = "sort_key tk_created (map snd (fd_tasks f))"
  have ids: "map tk_id (map snd (fd_tasks f)) = map fst (fd_tasks f)" using f(3) by (simp add: comp_def)
  then have d: "distinct (map tk_id (map snd (fd_tasks f)))" using f(2) by (simp only:)
  have "distinct (map tk_id (sort_key key rs)) = distinct (map tk_id rs)" for key :: "task_record \<Rightarrow> instant" and rs
    by (simp add: distinct_map)
  then have dt: "distinct (map tk_id ?ts)" using d by blast
  have found: "List.find (\<lambda>r. tk_id r = k) ?ts = logged_tasks F sid (ts_records s) k" for k
  proof (cases "logged_tasks F sid (ts_records s) k")
    case None
    then have "k \<notin> fst ` set (fd_tasks f)" using f(4) by (metis mget_NoneD)
    then show ?thesis using None f(3) by (auto simp: find_None_iff)
  next
    case (Some r)
    then have kr: "(k, r) \<in> set (fd_tasks f)" using f(4) by (metis mget_in_set)
    then have "tk_id r = k" "r \<in> set ?ts" using f(3) by force+
    then obtain q where q: "List.find (\<lambda>r. tk_id r = k) ?ts = Some q" by (cases "List.find (\<lambda>r. tk_id r = k) ?ts") (auto simp: find_None_iff)
    then have "q \<in> snd ` set (fd_tasks f)" "tk_id q = k" using find_result [OF q] by simp_all
    then have "(k, q) \<in> set (fd_tasks f)" using f(3) by force
    then have "q = r" using kr f(2) by (metis map_of_eq_Some_iff option.inject)
    then show ?thesis using q Some by simp
  qed
  have "pj_tasks (project f) = ?ts" by (simp add: project_def Let_def)
  then show ?thesis using seed_get [OF dt] found by (intro that [OF f(1)]) simp
qed

subsection \<open>Properties\<close>

text \<open>A task on which the witnesses evaluate.\<close>

definition demo_task :: "string \<Rightarrow> int \<Rightarrow> task_record" where
  "demo_task tid pos =
     \<lparr>tk_scope = \<lparr>pc_session = ''s'', pc_process = ''p'', pc_revision = 1\<rparr>, tk_id = tid, tk_position = pos,
      tk_syscall = \<lparr>sc_name = ''mail.send'', sc_args = ''{}''\<rparr>, tk_summary = ''Approve mail.send'',
      tk_state = Pending, tk_token_hash = ''h'', tk_resolution = no_auth, tk_created = 10,
      tk_expires = Some 100, tk_resolved = None\<rparr>"

definition demo_approval :: authorization where
  "demo_approval = \<lparr>au_decision = Approved, au_data = ''{ }'', au_reason = ''fine'', au_actor = ''alice''\<rparr>"

definition demo_store :: "payload mem_log task_store" where
  "demo_store = \<lparr>ts_records = [], ts_log = \<lparr>ml_events = [], ml_now = 10, ml_full = False\<rparr>\<rparr>"

definition demo_created :: "payload mem_log task_store" where
  "demo_created = snd (store_create mem_evlog demo_codec (demo_task ''t'' 4) demo_store)"

definition demo_resolved :: "payload mem_log task_store" where
  "demo_resolved = snd (store_resolve mem_evlog demo_codec ''t'' ''h'' demo_approval 20 demo_created)"

lemmas demo_task_defs =
  demo_created_def demo_resolved_def demo_store_def demo_task_def demo_approval_def no_auth_def
  store_create_def store_resolve_def store_append_def task_created_event_def task_resolved_event_def
  task_event_def encode_event_def demo_codec_def mem_evlog_def Let_def

lemma demo_created_step: "store_step mem_evlog demo_codec demo_store demo_created"
proof (rule store_step.create)
  show "store_create mem_evlog demo_codec (demo_task ''t'' 4) demo_store = (None, demo_created)"
    by (simp add: demo_task_defs)
qed (simp_all add: demo_task_def find_task_def demo_store_def)

lemma demo_resolved_step: "store_step mem_evlog demo_codec demo_created demo_resolved"
proof (rule store_step.resolve)
  show "store_resolve mem_evlog demo_codec ''t'' ''h'' demo_approval 20 demo_created =
      (fst (store_resolve mem_evlog demo_codec ''t'' ''h'' demo_approval 20 demo_created), demo_resolved)"
    by (simp add: demo_resolved_def)
qed (simp add: resolvable_decision_def demo_approval_def)

text \<open>C28. A task is settled once. Whatever happens to the store (creations, resolutions, deadlines,
  appends that fail, events of other kinds), a task keeps its identity, its call and its token,
  stays the only task of its process revision and journal position, and once it is decided
  its record never changes again.\<close>

theorem task_is_final:
  assumes "store_wf s" and "(store_step L D)\<^sup>*\<^sup>* s s'" and "mget (ts_records s) k = Some r"
  shows "\<exists>r'. mget (ts_records s') k = Some r' \<and> (tk_state r \<noteq> Pending \<longrightarrow> r' = r) \<and>
    tk_scope r' = tk_scope r \<and> tk_position r' = tk_position r \<and> tk_syscall r' = tk_syscall r \<and>
    tk_token_hash r' = tk_token_hash r \<and> tk_expires r' = tk_expires r \<and>
    find_task (ts_records s') (tk_scope r) (tk_position r) = Some r'"
proof -
  obtain r' where r': "store_wf s'" "mget (ts_records s') k = Some r'" "r' = r \<or> settles r r'"
    using store.run_good [OF assms(2,1)] store_run_record [OF assms(2,1,3)] by blast
  have found: "find_task (ts_records s') (tk_scope r') (tk_position r') = Some r'"
    by (rule find_task_unique [OF r'(1,2)])
  have keep: "tk_scope r' = tk_scope r \<and> tk_position r' = tk_position r \<and> tk_syscall r' = tk_syscall r \<and>
      tk_token_hash r' = tk_token_hash r \<and> tk_expires r' = tk_expires r"
    using r'(3) settles_keeps [of r r'] by blast
  moreover have "tk_state r \<noteq> Pending \<longrightarrow> r' = r" using r'(3) settles_pending [of r r'] by blast
  ultimately show ?thesis using r'(2) found by metis
qed

theorem task_is_final_witness:
  "\<exists>r'. mget (ts_records demo_resolved) ''t'' = Some r' \<and>
     find_task (ts_records demo_resolved) \<lparr>pc_session = ''s'', pc_process = ''p'', pc_revision = 1\<rparr> 4 = Some r'"
proof -
  have wf: "store_wf demo_created" by (simp add: demo_task_defs store_wf_def)
  have "mget (ts_records demo_created) ''t'' = Some (demo_task ''t'' 4)" by (simp add: demo_task_defs)
  from task_is_final [OF wf r_into_rtranclp [where r = "store_step mem_evlog demo_codec", OF demo_resolved_step] this]
  show ?thesis by (auto simp: demo_task_def)
qed


text \<open>C29. Only the holder of a task's token decides it, in time and once. A call to \<open>Resolve\<close> that
  changes any record found the task pending, with that token's hash and before its expiry. When
  it succeeds the task carries the caller's decision; from then on the same decision returns
  the same record, another one is a conflict, and another token is refused, at any time and
  without a change.\<close>

theorem resolve_is_authorized:
  assumes "store_resolve L D tid h a now s = (y, s')" and "au_decision a \<noteq> Pending"
  shows "(ts_records s' \<noteq> ts_records s \<longrightarrow>
      (\<exists>r. mget (ts_records s) tid = Some r \<and> tk_state r = Pending \<and> tk_token_hash r = h \<and>
           (\<forall>t. tk_expires r = Some t \<longrightarrow> now < t))) \<and>
    (\<forall>r'. y = Inr r' \<longrightarrow>
       mget (ts_records s') tid = Some r' \<and> same_resolution (tk_resolution r') a \<and>
       (\<forall>a2 t2. store_resolve L D tid h a2 t2 s' =
          (if same_resolution (tk_resolution r') a2 then Inr r' else Inl TaskConflict, s')) \<and>
       (\<forall>h2 a2 t2. h2 \<noteq> h \<longrightarrow> store_resolve L D tid h2 a2 t2 s' = (Inl TaskUnauthorized, s')))"
proof -
  have again: "(\<forall>a2 t2. store_resolve L D tid h a2 t2 s' =
          (if same_resolution (tk_resolution r') a2 then Inr r' else Inl TaskConflict, s')) \<and>
       (\<forall>h2 a2 t2. h2 \<noteq> h \<longrightarrow> store_resolve L D tid h2 a2 t2 s' = (Inl TaskUnauthorized, s'))"
    if "mget (ts_records s') tid = Some r'" "tk_token_hash r' = h" "tk_state r' \<noteq> Pending" for r'
    using that by (simp add: store_resolve_def)
  from assms(1) show ?thesis
  proof (cases rule: store_resolve_cases)
    case 1
    then show ?thesis using again by simp
  next
    case (2 r l e)
    then show ?thesis by simp
  next
    case (3 r r' l)
    have "mget (ts_records s') tid = Some r'" "tk_token_hash r' = h" "tk_state r' \<noteq> Pending"
      "same_resolution (tk_resolution r') a"
      using 3(4,6,8) assms(2) by (simp_all add: same_resolution_def)
    then show ?thesis using 3(1-5) again [of r'] by blast
  qed
qed

theorem resolve_is_authorized_witness:
  "store_resolve mem_evlog demo_codec ''t'' ''x'' demo_approval 30 demo_resolved =
     (Inl TaskUnauthorized, demo_resolved)"
proof -
  let ?r = "(demo_task ''t'' 4)\<lparr>tk_state := Approved, tk_resolution := demo_approval, tk_resolved := Some 20\<rparr>"
  have "store_resolve mem_evlog demo_codec ''t'' ''h'' demo_approval 20 demo_created = (Inr ?r, demo_resolved)"
    by (simp add: demo_task_defs)
  from resolve_is_authorized [OF this] show ?thesis by (simp add: demo_approval_def)
qed



end
