(* ===== verification/Layers.thy ===== *)
theory Layers
  imports TaskStore
begin

text \<open>
  The layers between replay and the drivers (\<open>internal/agent/\<close>): the section markers
  (\<open>savepoint.go\<close>), clock and entropy (\<open>world.go\<close>), the agent protocol (\<open>lifecycle.go\<close>), the task
  layer (\<open>task/task.go\<close>), progress reports (\<open>progress.go\<close>) and the timer (\<open>timer.go\<close>), each with
  the syscalls it reserves in the process's table.

  The world of the chain here is the monitor's over the runtime's journal, with the task records
  and whatever the drivers keep. The journal and the task store write to one log: \<open>on_store\<close>
  runs a store operation on the journal's log. Entropy is a parameter over the driver's world.
\<close>

subsection \<open>The world of the chain\<close>

record ('l, 'r, 'k, 's, 'x) cworld = "(('l, 'r) log_journal, 'k, 's) mworld" +
  cw_tasks :: "(string, task_record) gomap"
  cw_ext :: 'x

definition on_store :: "('l task_store \<Rightarrow> 'a \<times> 'l task_store) \<Rightarrow> ('l, 'r, 'k, 's, 'x) cworld \<Rightarrow> 'a \<times> ('l, 'r, 'k, 's, 'x) cworld" where
  "on_store f w =
     (case f \<lparr>ts_records = cw_tasks w, ts_log = lj_log (tp_journal w)\<rparr> of
        (x, s) \<Rightarrow> (x, w\<lparr>tp_journal := (tp_journal w)\<lparr>lj_log := ts_log s\<rparr>, cw_tasks := ts_records s\<rparr>))"

definition chain_now :: "('l, 'd) evlog \<Rightarrow> ('l, 'r, 'k, 's, 'x) cworld \<Rightarrow> instant" where
  "chain_now L w = el_now L (lj_log (tp_journal w))"

text \<open>\<open>n\<close> random bytes, or a failure of the source.\<close>

type_synonym 'x entropy = "nat \<Rightarrow> 'x \<Rightarrow> (err + bytes) \<times> 'x"

definition draw :: "'x entropy \<Rightarrow> nat \<Rightarrow> ('l, 'r, 'k, 's, 'x) cworld \<Rightarrow> (err + bytes) \<times> ('l, 'r, 'k, 's, 'x) cworld" where
  "draw E n w = (case E n (cw_ext w) of (x, e) \<Rightarrow> (x, w\<lparr>cw_ext := e\<rparr>))"

subsection \<open>Section markers\<close>

definition savepoint_dispatch :: "'r sysapi \<Rightarrow> ('k, 'r, 'w) dispatcher \<Rightarrow> ('k, 'r, 'w) dispatcher" where
  "savepoint_dispatch S next taint cred c auth w =
     (if sc_name c = sys_begin \<or> sc_name c = sys_commit then (Inr (mk_result S ''{}''), w)
      else next taint cred c auth w)"

subsection \<open>Clock and entropy\<close>

definition reserve_all :: "descriptor list \<Rightarrow> ('r, 'w) table \<Rightarrow> err option \<times> ('r, 'w) table" where
  "reserve_all ds t =
     foldl (\<lambda>(x, t) d. case x of None \<Rightarrow> table_reserve d t | Some e \<Rightarrow> (Some e, t)) (None, t) ds"

definition empty_object_schema :: bytes where
  \<open>empty_object_schema = ''{"type":"object","additionalProperties":false}''\<close>

definition random_schema :: bytes where
  \<open>random_schema =
     ''{"type":"object","properties":{"bytes":{"type":"integer","minimum":1,"maximum":64}},"additionalProperties":false}''\<close>

definition world_descriptors :: "descriptor list" where
  "world_descriptors =
     [\<lparr>d_name = sys_now,
       d_description = ''read the wall clock (journaled: replay returns the recorded time)'',
       d_input = empty_object_schema, d_hidden = True\<rparr>,
      \<lparr>d_name = sys_random,
       d_description = ''draw random bytes, 16 by default (journaled: replay returns the recorded bytes)'',
       d_input = random_schema, d_hidden = True\<rparr>]"

definition now_payload :: "instant \<Rightarrow> bytes" where
  "now_payload t = marshal (JObj [(''unix_ms'', JNum (show_int (t div millisecond)))])"

text \<open>A negative size, which the schema excludes, panics in \<open>make\<close>.\<close>

definition world_dispatch ::
    "'r sysapi \<Rightarrow> ('l, 'd) evlog \<Rightarrow> 'x entropy \<Rightarrow> ('k, 'r, ('l, 'r, 'k, 's, 'x) cworld) dispatcher \<Rightarrow>
     ('k, 'r, ('l, 'r, 'k, 's, 'x) cworld) dispatcher"
where
  "world_dispatch S L E next taint cred c auth w =
     (if sc_name c = sys_now then (Inr (mk_result S (now_payload (chain_now L w))), w)
      else if sc_name c = sys_random then
        (case unmarshal_field as_int64 ''bytes'' 16 (sc_args c) of
           (_, False) \<Rightarrow> (Inr (mk_failcode S ErrnoInvalidArgs (''decode sys.random: '' @ err_text json_error)), w)
         | (n, True) \<Rightarrow>
             if n < 0 then (Inl (Plain ''makeslice: len out of range''), w)
             else case draw E (nat n) w of
                 (Inl e, w1) \<Rightarrow> (Inr (mk_fail S (''sys.random: '' @ err_text e)), w1)
               | (Inr raw, w1) \<Rightarrow>
                   (Inr (mk_result S (marshal (JObj [(''hex'', JStr (hex_encode raw))]))), w1))
      else next taint cred c auth w)"


subsection \<open>The agent protocol\<close>

text \<open>\<open>HistoryMessage\<close> (\<open>api.go\<close>).\<close>

record history_message =
  hm_role :: string
  hm_content :: string
  hm_labels :: "string list"

record lifecycle =
  lc_input :: string
  lc_history :: "history_message list"
  lc_skills :: "skill list"
  lc_attempt :: nat
  lc_validate :: "string \<Rightarrow> err option"

definition lifecycle_descriptors :: "descriptor list" where
  "lifecycle_descriptors =
     [\<lparr>d_name = sys_input,
       d_description = ''fetch this process'' @ [CHR 0x27] @ ''s input, prior history, and the visible capability menu'',
       d_input = '''', d_hidden = True\<rparr>,
      \<lparr>d_name = sys_output,
       d_description = ''record this process'' @ [CHR 0x27] @ ''s final answer on the journal'',
       d_input = '''', d_hidden = True\<rparr>,
      \<lparr>d_name = sys_abort, d_description = ''abandon the open section and re-run it from its sys.begin'',
       d_input = '''', d_hidden = True\<rparr>]"

definition history_labels :: "history_message list \<Rightarrow> string list" where
  "history_labels hs = concat (map hm_labels hs)"

definition guest_history :: "history_message list \<Rightarrow> (string \<times> string) list" where
  "guest_history hs = map (\<lambda>m. (hm_role m, hm_content m)) hs"

definition visible_capabilities :: "descriptor list \<Rightarrow> descriptor list" where
  "visible_capabilities ds = filter (\<lambda>d. \<not> d_hidden d) ds"

text \<open>
  \<open>json.Marshal\<close> of \<open>agentInput\<close>: members in the order of the fields, those marked
  \<open>omitempty\<close> left out when empty. A raw schema is compacted with HTML escaping, an absent one
  is \<open>null\<close>, and one that is not JSON fails the whole document, which the code ignores.
\<close>

definition json_object :: "(bytes \<times> bytes) list \<Rightarrow> bytes" where
  "json_object ms = ''{'' @ join '','' (map (\<lambda>(k, v). encode_string k @ '':'' @ v) ms) @ ''}''"

definition json_array :: "bytes list \<Rightarrow> bytes" where
  "json_array vs = ''['' @ join '','' vs @ '']''"

definition json_member :: "bool \<Rightarrow> bytes \<Rightarrow> bytes \<Rightarrow> (bytes \<times> bytes) list" where
  "json_member present k v = (if present then [(k, v)] else [])"

definition marshal_raw :: "bytes \<Rightarrow> bytes" where
  "marshal_raw b =
     (if b = '''' then ''null'' else concat (map html_chunk (rune_chunks (strip_ws False b))))"

definition marshal_descriptor :: "descriptor \<Rightarrow> bytes" where
  "marshal_descriptor d =
     json_object
       ([(''name'', encode_string (d_name d)), (''description'', encode_string (d_description d)),
         (''input_schema'', marshal_raw (d_input d))] @ json_member (d_hidden d) ''hidden'' ''true'')"

definition marshal_skill :: "skill \<Rightarrow> bytes" where
  "marshal_skill s =
     json_object
       ([(''name'', encode_string (sk_name s))] @
        json_member (sk_description s \<noteq> '''') ''description'' (encode_string (sk_description s)) @
        json_member (sk_instructions s \<noteq> '''') ''instructions'' (encode_string (sk_instructions s)))"

definition marshal_message :: "string \<times> string \<Rightarrow> bytes" where
  "marshal_message m =
     json_object [(''role'', encode_string (fst m)), (''content'', encode_string (snd m))]"

definition agent_input :: "lifecycle \<Rightarrow> descriptor list \<Rightarrow> bytes" where
  "agent_input l ds =
     (let hs = guest_history (lc_history l); caps = visible_capabilities ds in
      if list_all (\<lambda>d. d_input d = '''' \<or> json_valid (d_input d)) caps
      then json_object
        ([(''input'', encode_string (lc_input l))] @
         json_member (hs \<noteq> []) ''history'' (json_array (map marshal_message hs)) @
         json_member (caps \<noteq> []) ''capabilities'' (json_array (map marshal_descriptor caps)) @
         json_member (lc_skills l \<noteq> []) ''skills'' (json_array (map marshal_skill (lc_skills l))) @
         json_member (lc_attempt l \<noteq> 0) ''attempt'' (show_nat (lc_attempt l)))
      else '''')"

definition ok_payload :: bytes where
  \<open>ok_payload = ''{"ok":true}''\<close>

definition lifecycle_dispatch ::
    "'r sysapi \<Rightarrow> lifecycle \<Rightarrow> ('r, 'h) table \<Rightarrow> ('k, 'r, 'w) dispatcher \<Rightarrow> ('k, 'r, 'w) dispatcher"
where
  "lifecycle_dispatch S l T next taint cred c auth w =
     (if sc_name c = sys_input then
        (Inr (with_labels S (mk_result S (agent_input l (descriptors T))) (history_labels (lc_history l))), w)
      else if sc_name c = sys_output then
        (case unmarshal_field as_string ''answer'' '''' (sc_args c) of
           (_, False) \<Rightarrow> (Inr (mk_failcode S ErrnoInvalidArgs (''decode sys.output: '' @ err_text json_error)), w)
         | (answer, True) \<Rightarrow>
             (case lc_validate l answer of
                Some e \<Rightarrow> (Inr (mk_failcode S ErrnoInvalidArgs (err_text e)), w)
              | None \<Rightarrow> (Inr (mk_result S ok_payload), w)))
      else if sc_name c = sys_abort then
        (if sc_args c \<noteq> '''' \<and> \<not> snd (unmarshal_field as_string ''reason'' '''' (sc_args c)) then
           (Inr (mk_failcode S ErrnoInvalidArgs (''decode sys.abort: '' @ err_text json_error)), w)
         else (Inr (mk_result S ok_payload), w))
      else next taint cred c auth w)"

subsection \<open>Progress reports\<close>

definition progress_descriptor :: descriptor where
  "progress_descriptor =
     \<lparr>d_name = sys_log, d_description = ''report a short progress message to the user while working'',
      d_input = '''', d_hidden = True\<rparr>"

definition progress_dispatch :: "'r sysapi \<Rightarrow> ('k, 'r, 'w) dispatcher \<Rightarrow> ('k, 'r, 'w) dispatcher" where
  "progress_dispatch S next taint cred c auth w =
     (if sc_name c = sys_log then
        (if snd (unmarshal_field as_string ''message'' '''' (sc_args c)) then (Inr (mk_result S ''{}''), w)
         else (Inr (mk_failcode S ErrnoInvalidArgs (''decode sys.log: '' @ err_text json_error)), w))
      else next taint cred c auth w)"

subsection \<open>The timer\<close>

definition default_max_timer :: int where
  "default_max_timer = 24 * hour"

text \<open>The bound of a grant. A configuration that does not decode leaves the default.\<close>

definition timer_max :: "bytes \<Rightarrow> int" where
  "timer_max config =
     (let ms = (if config = '''' then 0 else fst (unmarshal_field as_int64 max_duration_field 0 config));
          d = duration_mul ms millisecond in
      if d \<le> 0 then default_max_timer else d)"

definition timer_schema :: "int \<Rightarrow> bytes" where
  \<open>timer_schema max_seconds =
     ''{"type":"object","properties":{"duration_seconds":{"type":"integer","minimum":1,"maximum":'' @
     show_int max_seconds @
     ''},"label":{"type":"string"}},"required":["duration_seconds"],"additionalProperties":false}''\<close>

definition timer_descriptor :: "grant \<Rightarrow> descriptor" where
  "timer_descriptor g =
     \<lparr>d_name = timer_syscall,
      d_description =
        ''Set a relative timer and be replayed when it fires. The process pauses until the duration elapses, then continues. Maximum '' @
        duration_string (timer_max (g_config g)) @ ''.'',
      d_input = timer_schema (timer_max (g_config g) div second), d_hidden = g_hidden g\<rparr>"

definition timer_dispatch :: "'r sysapi \<Rightarrow> ('k, 'r, 'w) dispatcher \<Rightarrow> ('k, 'r, 'w) dispatcher" where
  "timer_dispatch S next taint cred c auth w =
     (if sc_name c \<noteq> timer_syscall then next taint cred c auth w
      else case decode_timer_request (sc_args c) of
          None \<Rightarrow>
            (Inr (mk_failcode S ErrnoInvalidArgs (''decode sys.timer request: '' @ err_text json_error)), w)
        | Some q \<Rightarrow>
            let duration = duration_string (duration_mul (tr_seconds q) second) in
            if tr_label q \<noteq> '''' then (Inr (mk_yield S (''Timer for '' @ duration @ '': '' @ tr_label q)), w)
            else (Inr (mk_yield S (''Timer for '' @ duration)), w))"


subsection \<open>The task layer\<close>

text \<open>What \<open>task.Dispatcher\<close> is configured with; the time to live is a duration.\<close>

record task_config =
  tc_crypto :: crypto
  tc_secret :: bytes
  tc_ttl :: int

definition random_task_id :: "'x entropy \<Rightarrow> ('l, 'r, 'k, 's, 'x) cworld \<Rightarrow> (err + string) \<times> ('l, 'r, 'k, 's, 'x) cworld" where
  "random_task_id E w =
     (case draw E 16 w of
        (Inl e, w1) \<Rightarrow> (Inl e, w1)
      | (Inr raw, w1) \<Rightarrow> (Inr (''task_'' @ hex_encode raw), w1))"

definition new_task ::
    "task_config \<Rightarrow> process_context \<Rightarrow> int \<Rightarrow> syscall \<Rightarrow> string \<Rightarrow> instant \<Rightarrow> string \<Rightarrow> task_record"
where
  "new_task C cred position c summary now tid =
     stamp_task_token (tc_crypto C) (tc_secret C)
       \<lparr>tk_scope = cred, tk_id = tid, tk_position = position, tk_syscall = c, tk_summary = summary,
        tk_state = Pending, tk_token_hash = '''', tk_resolution = no_auth, tk_created = now,
        tk_expires = (if 0 < tc_ttl C \<and> sc_name c \<noteq> sys_timer then Some (now + tc_ttl C) else None),
        tk_resolved = None\<rparr>"

text \<open>\<open>cmp.Or(reason, default)\<close>.\<close>

definition reason_or :: "string \<Rightarrow> string \<Rightarrow> string" where
  "reason_or reason fallback = (if reason = '''' then fallback else reason)"

definition task_resume ::
    "'r sysapi \<Rightarrow> ('l, 'd) evlog \<Rightarrow> (process_context, 'r, ('l, 'r, process_context, 's, 'x) cworld) dispatcher \<Rightarrow>
     taint \<Rightarrow> process_context \<Rightarrow> task_record \<Rightarrow> ('l, 'r, process_context, 's, 'x) cworld \<Rightarrow>
     (err + 'r) \<times> ('l, 'r, process_context, 's, 'x) cworld"
where
  "task_resume S L next taint cred r w =
     (case tk_state r of
        Pending \<Rightarrow>
          (if (case tk_expires r of None \<Rightarrow> False | Some t \<Rightarrow> t \<le> chain_now L w)
           then (Inr (mk_failcode S ErrnoExpired ''external task expired''), w)
           else (Inr (mk_yield S (tk_id r)), w))
      | Approved \<Rightarrow> next taint cred (tk_syscall r) (tk_resolution r) w
      | Completed \<Rightarrow> (Inr (mk_result S (au_data (tk_resolution r))), w)
      | Denied \<Rightarrow>
          (Inr (mk_failcode S ErrnoDenied (reason_or (au_reason (tk_resolution r)) ''external task denied'')), w)
      | TaskFailed \<Rightarrow>
          (Inr (mk_failcode S ErrnoInternal (reason_or (au_reason (tk_resolution r)) ''external task failed'')), w)
      | Cancelled \<Rightarrow> (Inr (mk_failcode S ErrnoDenied ''external task cancelled''), w)
      | Expired \<Rightarrow> (Inr (mk_failcode S ErrnoExpired ''external task expired''), w)
      | OtherState s \<Rightarrow> (Inl (Plain (''unsupported task state '' @ quote s)), w))"

definition task_dispatch ::
    "'r sysapi \<Rightarrow> ('l, 'd) evlog \<Rightarrow> 'd durable_codec \<Rightarrow> 'x entropy \<Rightarrow> task_config \<Rightarrow>
     (process_context, 'r, ('l, 'r, process_context, 's, 'x) cworld) dispatcher \<Rightarrow>
     (process_context, 'r, ('l, 'r, process_context, 's, 'x) cworld) dispatcher"
where
  "task_dispatch S L D E C next taint cred c auth w =
     (let position = int (lj_length (tp_journal w)) - 1 in
      case find_task (cw_tasks w) cred position of
        Some r \<Rightarrow> task_resume S L next taint cred r w
      | None \<Rightarrow>
          (case next taint cred c auth w of
             (Inl e, w1) \<Rightarrow> (Inl e, w1)
           | (Inr r, w1) \<Rightarrow>
               if status_of S r \<noteq> StatusYield then (Inr r, w1)
               else
                 (let now = chain_now L w1 in
                  case random_task_id E w1 of
                    (Inl e, w2) \<Rightarrow> (Inl e, w2)
                  | (Inr tid, w2) \<Rightarrow>
                      (let record = new_task C cred position c (message_of S r) now tid in
                       case on_store (store_create L D record) w2 of
                         (Some e, w3) \<Rightarrow> (Inl e, w3)
                       | (None, w3) \<Rightarrow> (Inr (mk_yield S (tk_id record)), w3)))))"


subsection \<open>What the layers keep\<close>

text \<open>A store operation writes the log and the tasks only.\<close>

lemma on_store_keeps:
  assumes "on_store f w = (x, w')"
  obtains l ts where "w' = w\<lparr>tp_journal := (tp_journal w)\<lparr>lj_log := l\<rparr>, cw_tasks := ts\<rparr>"
    "f \<lparr>ts_records = cw_tasks w, ts_log = lj_log (tp_journal w)\<rparr> = (x, \<lparr>ts_records = ts, ts_log = l\<rparr>)"
proof -
  obtain s where s: "f \<lparr>ts_records = cw_tasks w, ts_log = lj_log (tp_journal w)\<rparr> = (x, s)"
    "w' = w\<lparr>tp_journal := (tp_journal w)\<lparr>lj_log := ts_log s\<rparr>, cw_tasks := ts_records s\<rparr>"
    using assms by (auto simp: on_store_def split: prod.splits)
  show ?thesis by (rule that [OF s(2)]) (simp add: s(1))
qed

lemma lj_log_update [simp]:
  "lj_recs (j\<lparr>lj_log := l\<rparr>) = lj_recs j" "lj_ok (j\<lparr>lj_log := l\<rparr>) = lj_ok j"
  by (simp_all add: lj_recs_def lj_ok_def)

lemma draw_keeps:
  assumes "draw E n w = (x, w')"
  obtains e where "w' = w\<lparr>cw_ext := e\<rparr>"
  using assms by (auto simp: draw_def split: prod.splits)

lemma random_task_id_keeps:
  assumes "random_task_id E w = (x, w')"
  obtains e where "w' = w\<lparr>cw_ext := e\<rparr>"
proof -
  obtain y u where y: "draw E 16 w = (y, u)" by fastforce
  then have "w' = u" using assms by (cases y) (simp_all add: random_task_id_def)
  then show ?thesis using draw_keeps [OF y] that by blast
qed

lemma random_task_id_kept:
  assumes "random_task_id E w = (Inr tid, w')"
  shows "json_kept tid"
proof -
  obtain raw where "tid = ''task_'' @ hex_encode raw"
    using assms by (auto simp: random_task_id_def split: sum.splits prod.splits)
  then show ?thesis using id_kept [of "''task_''" raw] by simp
qed

text \<open>The four ways a call leaves the task layer.\<close>

lemma task_dispatch_cases:
  fixes w :: "('l, 'r, process_context, 's, 'x) cworld"
  assumes "task_dispatch S L D E C next taint cred c auth w = (y, w')"
  obtains
    r where "find_task (cw_tasks w) cred (int (lj_length (tp_journal w)) - 1) = Some r"
      "task_resume S L next taint cred r w = (y, w')"
  | "find_task (cw_tasks w) cred (int (lj_length (tp_journal w)) - 1) = None"
      "next taint cred c auth w = (y, w')" "\<And>r. y = Inr r \<Longrightarrow> status_of S r \<noteq> StatusYield"
  | r w1 x e where "find_task (cw_tasks w) cred (int (lj_length (tp_journal w)) - 1) = None"
      "next taint cred c auth w = (Inr r, w1)" "status_of S r = StatusYield"
      "y = Inl e" "w' = w1\<lparr>cw_ext := x\<rparr>"
  | r w1 x q o1 l ts where "find_task (cw_tasks w) cred (int (lj_length (tp_journal w)) - 1) = None"
      "next taint cred c auth w = (Inr r, w1)" "status_of S r = StatusYield"
      "q = new_task C cred (int (lj_length (tp_journal w)) - 1) c (message_of S r) (chain_now L w1) (tk_id q)"
      "store_create L D q \<lparr>ts_records = cw_tasks w1, ts_log = lj_log (tp_journal w1)\<rparr> =
         (o1, \<lparr>ts_records = ts, ts_log = l\<rparr>)"
      "y = (case o1 of None \<Rightarrow> Inr (mk_yield S (tk_id q)) | Some e \<Rightarrow> Inl e)"
      "w' = w1\<lparr>cw_ext := x, tp_journal := (tp_journal w1)\<lparr>lj_log := l\<rparr>, cw_tasks := ts\<rparr>"
      "json_kept (tk_id q)"
proof -
  let ?pos = "int (lj_length (tp_journal w)) - 1"
  show thesis
  proof (cases "find_task (cw_tasks w) cred ?pos")
    case (Some r)
    then show ?thesis using assms by (intro that(1)) (simp_all add: task_dispatch_def Let_def)
  next
    case None
    obtain z w1 where n: "next taint cred c auth w = (z, w1)" by fastforce
    show ?thesis
    proof (cases "\<exists>r. z = Inr r \<and> status_of S r = StatusYield")
      case False
      then have "z = y" "w1 = w'" using assms None n by (cases z; simp add: task_dispatch_def Let_def)+
      then show ?thesis using that(2) None n False by blast
    next
      case True
      then obtain r where r: "z = Inr r" "status_of S r = StatusYield" by blast
      obtain i w2 where i: "random_task_id E w1 = (i, w2)" by fastforce
      obtain x where x: "w2 = w1\<lparr>cw_ext := x\<rparr>" using random_task_id_keeps [OF i] by blast
      show ?thesis
      proof (cases i)
        case (Inl e)
        then have "y = Inl e" "w' = w2" using assms None n r i by (simp_all add: task_dispatch_def Let_def)
        then show ?thesis using that(3) None n r x by blast
      next
        case (Inr tid)
        let ?q = "new_task C cred ?pos c (message_of S r) (chain_now L w1) tid"
        obtain o1 w3 where st: "on_store (store_create L D ?q) w2 = (o1, w3)" by fastforce
        obtain l ts where l: "w3 = w2\<lparr>tp_journal := (tp_journal w2)\<lparr>lj_log := l\<rparr>, cw_tasks := ts\<rparr>"
          "store_create L D ?q \<lparr>ts_records = cw_tasks w2, ts_log = lj_log (tp_journal w2)\<rparr> =
             (o1, \<lparr>ts_records = ts, ts_log = l\<rparr>)"
          using on_store_keeps [OF st] by metis
        have id: "tk_id ?q = tid" by (simp add: new_task_def stamp_task_token_def)
        have "y = (case o1 of None \<Rightarrow> Inr (mk_yield S (tk_id ?q)) | Some e \<Rightarrow> Inl e)" "w' = w3"
          using assms None n r i Inr st id by (cases o1; simp add: task_dispatch_def Let_def)+
        then show ?thesis using that(4) [of r w1 ?q o1 ts l x] None n r l x id random_task_id_kept [OF i [unfolded Inr]] by simp
      qed
    qed
  qed
qed


text \<open>
  Layers below replay that leave the journal's records and the tape alone, and those that keep
  the tasks as well (the drivers).
\<close>

abbreviation below_tape :: "('k, 'r, ('l, 'r, 'k, 's, 'x) cworld) dispatcher \<Rightarrow> bool" where
  "below_tape \<equiv> below_ok lj_recs lj_ok"

definition below_tasks :: "('k, 'r, ('l, 'r, 'k, 's, 'x) cworld) dispatcher \<Rightarrow> bool" where
  "below_tasks next \<longleftrightarrow> (\<forall>t k c a w. cw_tasks (snd (next t k c a w)) = cw_tasks w)"

named_theorems layer_laws \<open>what each layer keeps of the tape and the tasks\<close>

lemma savepoint_keeps [layer_laws]:
  "below_ok recs ok next \<Longrightarrow> below_ok recs ok (savepoint_dispatch S next)"
  "below_tasks next \<Longrightarrow> below_tasks (savepoint_dispatch S next)"
  by (simp_all add: below_ok_def below_tasks_def savepoint_dispatch_def)

lemma lifecycle_keeps [layer_laws]:
  "below_ok recs ok next \<Longrightarrow> below_ok recs ok (lifecycle_dispatch S l T next)"
  "below_tasks next \<Longrightarrow> below_tasks (lifecycle_dispatch S l T next)"
  by (simp_all add: below_ok_def below_tasks_def lifecycle_dispatch_def case_prod_unfold split: bool.split option.split)

lemma progress_keeps [layer_laws]:
  "below_ok recs ok next \<Longrightarrow> below_ok recs ok (progress_dispatch S next)"
  "below_tasks next \<Longrightarrow> below_tasks (progress_dispatch S next)"
  by (simp_all add: below_ok_def below_tasks_def progress_dispatch_def)

lemma timer_keeps [layer_laws]:
  "below_ok recs ok next \<Longrightarrow> below_ok recs ok (timer_dispatch S next)"
  "below_tasks next \<Longrightarrow> below_tasks (timer_dispatch S next)"
  by (simp_all add: below_ok_def below_tasks_def timer_dispatch_def Let_def split: option.split)

lemma stamp_keeps [layer_laws]:
  "below_ok recs ok next \<Longrightarrow> below_ok recs ok (stamp_dispatch S T next)"
  "below_tasks next \<Longrightarrow> below_tasks (stamp_dispatch S T next)"
  by (simp_all add: below_ok_def below_tasks_def stamp_dispatch_def case_prod_unfold split: sum.split)

lemma draw_view:
  "draw E n w = (x, w') \<Longrightarrow> tp_journal w' = tp_journal w \<and> tp_cursor w' = tp_cursor w \<and>
     tp_pending w' = tp_pending w \<and> cw_tasks w' = cw_tasks w"
  by (auto elim!: draw_keeps)

lemma world_view:
  assumes "world_dispatch S L E next t k c a w = (x, w')" "sc_name c = sys_now \<or> sc_name c = sys_random"
  shows "tp_journal w' = tp_journal w \<and> tp_cursor w' = tp_cursor w \<and> tp_pending w' = tp_pending w \<and>
    cw_tasks w' = cw_tasks w"
proof -
  have "w' = w \<or> (\<exists>n y. draw E n w = (y, w'))"
    using assms by (auto simp: world_dispatch_def split: if_splits prod.splits bool.splits sum.splits)
  then show ?thesis using draw_view by metis
qed

lemma world_keeps [layer_laws]:
  "below_tape next \<Longrightarrow> below_tape (world_dispatch S L E next)"
  "below_tasks next \<Longrightarrow> below_tasks (world_dispatch S L E next)"
proof -
  have pass: "world_dispatch S L E next t k c a w = next t k c a w" if "\<not> (sc_name c = sys_now \<or> sc_name c = sys_random)" for t k c a w
    using that by (simp add: world_dispatch_def)
  show "below_tape next \<Longrightarrow> below_tape (world_dispatch S L E next)"
    unfolding below_ok_def using pass world_view by (metis prod.collapse)
  show "below_tasks next \<Longrightarrow> below_tasks (world_dispatch S L E next)"
    unfolding below_tasks_def using pass world_view by (metis prod.collapse)
qed

lemma task_resume_cases:
  assumes "task_resume S L next taint cred r w = (y, w')"
  shows "w' = w \<and> tk_state r \<noteq> Approved \<or>
    tk_state r = Approved \<and> next taint cred (tk_syscall r) (tk_resolution r) w = (y, w')"
  using assms by (cases "tk_state r") (auto simp: task_resume_def split: if_splits)

lemma task_keeps [layer_laws]:
  assumes "below_tape next"
  shows "below_tape (task_dispatch S L D E C next)"
proof -
  have "lj_ok (tp_journal w') \<and> lj_recs (tp_journal w') = lj_recs (tp_journal w) \<and>
      tp_cursor w' = tp_cursor w \<and> tp_pending w' = tp_pending w"
    if ok: "lj_ok (tp_journal w)" and d: "task_dispatch S L D E C next t k c a w = (y, w')"
    for t k c a y w w'
    using d
  proof (cases rule: task_dispatch_cases)
    case (1 r)
    show ?thesis
    proof (cases "tk_state r = Approved")
      case True
      then have "next t k (tk_syscall r) (tk_resolution r) w = (y, w')"
        using task_resume_cases [OF 1(2)] by simp
      then show ?thesis using below_okD [OF assms ok] by simp
    next
      case False
      then show ?thesis using task_resume_cases [OF 1(2)] ok by simp
    qed
  next
    case 2
    then show ?thesis using below_okD [OF assms ok 2(2)] by simp
  next
    case (3 r w1 x e)
    then show ?thesis using below_okD [OF assms ok 3(2)] by simp
  next
    case (4 r w1 x q o1 l ts)
    then show ?thesis using below_okD [OF assms ok 4(2)] by simp
  qed
  then show ?thesis unfolding below_ok_def by (metis prod.collapse)
qed

text \<open>
  Every task of a process revision names the call its journal records at the task's position.
\<close>

definition tasks_match :: "process_context \<Rightarrow> 'r jrecord list \<Rightarrow> (string, task_record) gomap \<Rightarrow> bool" where
  "tasks_match cred rs ts \<longleftrightarrow>
     (\<forall>k r. mget ts k = Some r \<and> tk_scope r = cred \<longrightarrow>
        0 \<le> tk_position r \<and> nat (tk_position r) < length rs \<and>
        jr_syscall (rs ! nat (tk_position r)) = Some (tk_syscall r))"

lemma tasks_match_append: "tasks_match cred rs ts \<Longrightarrow> tasks_match cred (rs @ ys) ts"
  by (fastforce simp: tasks_match_def nth_append)

lemma intent_at_tail:
  assumes "intent_open lj_recs c w"
  shows "lj_length (tp_journal w) \<noteq> 0"
    "jr_syscall (lj_recs (tp_journal w) ! (lj_length (tp_journal w) - 1)) = Some c"
proof -
  have "odd (lj_length (tp_journal w))" using assms by (simp add: intent_open_def)
  then show "lj_length (tp_journal w) \<noteq> 0" by (rule contrapos_pn) simp
  then show "jr_syscall (lj_recs (tp_journal w) ! (lj_length (tp_journal w) - 1)) = Some c"
    using assms by (simp add: intent_open_def last_conv_nth flip: length_0_conv)
qed

lemma task_match_tail:
  assumes "tasks_match cred (lj_recs (tp_journal w)) ts" "distinct (map fst ts)" "intent_open lj_recs c w"
    and "find_task ts cred (int (lj_length (tp_journal w)) - 1) = Some r"
  shows "tk_syscall r = c"
proof -
  have r: "r \<in> set (map snd ts)" "tk_scope r = cred" "tk_position r = int (lj_length (tp_journal w)) - 1"
    using find_result [OF assms(4) [unfolded find_task_def]] by simp_all
  then obtain k where "mget ts k = Some r" using assms(2) by (force simp: map_of_eq_Some_iff)
  then have "jr_syscall (lj_recs (tp_journal w) ! nat (tk_position r)) = Some (tk_syscall r)"
    using assms(1) r(2) unfolding tasks_match_def by blast
  moreover have "nat (tk_position r) = lj_length (tp_journal w) - 1" using r(3) by simp
  ultimately show ?thesis using intent_at_tail(2) [OF assms(3)] by simp
qed


lemma tasks_match_put:
  assumes "tasks_match cred rs ts" "tk_scope q = cred \<longrightarrow>
      0 \<le> tk_position q \<and> nat (tk_position q) < length rs \<and> jr_syscall (rs ! nat (tk_position q)) = Some (tk_syscall q)"
  shows "tasks_match cred rs (mput k q ts)"
  using assms by (auto simp: tasks_match_def)

text \<open>Behind the open intent of the call it is given, the task layer keeps the tasks matched.\<close>

lemma task_matches:
  assumes nx: "below_tape next" "below_tasks next" and ok: "lj_ok (tp_journal w)"
    and io: "intent_open lj_recs c w" and m: "tasks_match cred (lj_recs (tp_journal w)) (cw_tasks w)"
    and d: "task_dispatch S L D E C next t cred c a w = (y, w')"
  shows "tasks_match cred (lj_recs (tp_journal w')) (cw_tasks w')"
  using d
proof (cases rule: task_dispatch_cases)
  case (1 r)
  have "w' = w \<or> (\<exists>c a. next t cred c a w = (y, w'))" using task_resume_cases [OF 1(2)] by blast
  then show ?thesis
  proof
    assume "\<exists>c a. next t cred c a w = (y, w')"
    then obtain c a where n: "next t cred c a w = (y, w')" by blast
    then show ?thesis using m below_okD(2) [OF nx(1) ok n] nx(2) by (metis below_tasks_def snd_conv)
  qed (use m in simp)
next
  case 2
  then show ?thesis using m below_okD(2) [OF nx(1) ok 2(2)] nx(2) by (metis below_tasks_def snd_conv)
next
  case (3 r w1 x e)
  then show ?thesis
    using m below_okD(2) [OF nx(1) ok 3(2)] nx(2) by (simp add: below_tasks_def) (metis snd_conv)
next
  case (4 r w1 x q o1 l ts)
  have w1: "lj_recs (tp_journal w1) = lj_recs (tp_journal w)" "cw_tasks w1 = cw_tasks w"
    using below_okD(2) [OF nx(1) ok 4(2)] nx(2) 4(2) by (simp, metis below_tasks_def snd_conv)
  have q: "tk_scope q = cred" "tk_position q = int (lj_length (tp_journal w)) - 1" "tk_syscall q = c"
    by (subst 4(4), simp add: new_task_def stamp_task_token_def)+
  have n0: "0 < lj_length (tp_journal w)" using intent_at_tail(1) [OF io] by simp
  then have "nat (tk_position q) = lj_length (tp_journal w) - 1" "0 \<le> tk_position q"
    using q(2) by (simp_all add: nat_diff_distrib)
  then have put: "tasks_match cred (lj_recs (tp_journal w)) (mput (tk_id q) q (cw_tasks w))"
    using tasks_match_put [OF m, of q "tk_id q"] intent_at_tail(2) [OF io] q n0 by simp
  have "ts = cw_tasks w1 \<or> ts = mput (tk_id q) q (cw_tasks w1)"
    using 4(5) by (cases rule: store_create_cases) simp_all
  then show ?thesis using m put w1 by (auto simp: 4(7))
qed


text \<open>
  A predicate on the records and on something off the tape, that longer records keep and the
  layers below keep behind the open intent of their call, is kept by replay.
\<close>

context journal_store
begin

lemma drive_invariant:
  assumes w: "tape_ok recs ok w" "intent_open recs c w" and below: "below_ok recs ok next" and v: "off_tape v"
    and mono: "\<And>rs ys x. P rs x \<Longrightarrow> P (rs @ ys) x"
    and keeps: "\<And>y u. next t cred c a w = (y, u) \<Longrightarrow> P (recs (tp_journal u)) (v u)"
    and d: "replay_drive S J next t cred c a w = (x, w')"
  shows "P (recs (tp_journal w')) (v w')"
proof -
  obtain y u where n: "next t cred c a w = (y, u)" by fastforce
  have p: "P (recs (tp_journal u)) (v u)" by (rule keeps [OF n])
  have oku: "ok (tp_journal u)" using below_okD(1) [OF below _ n] w(1) by (simp add: tape_ok_def)
  show ?thesis
  proof (cases "\<exists>r. y = Inr r \<and> status_of S r \<noteq> StatusYield")
    case False
    then have "w' = u" using d n by (cases y) (simp_all add: replay_drive_def)
    then show ?thesis using p by simp
  next
    case True
    then obtain r where r: "y = Inr r" "status_of S r \<noteq> StatusYield" by blast
    obtain o1 u2 where c2: "tape_commit J r u = (o1, u2)" by fastforce
    obtain o2 j where ap: "append_record J (completion_record r) (tp_journal u) = (o2, j)" by fastforce
    have "w' = u2" using d n r c2 by (cases o1) (simp_all add: replay_drive_def)
    moreover have "v u2 = v u" using off_tape_steps(3) [OF v, of J r u] c2 by simp
    moreover have "\<exists>ys. recs (tp_journal u2) = recs (tp_journal u) @ ys"
    proof (cases o2)
      case None
      then have "tp_journal u2 = j" using c2 ap by (auto simp: tape_commit_def)
      then show ?thesis using append_record_ok [OF oku] ap None by metis
    next
      case (Some e)
      then have "tp_journal u2 = j" using c2 ap by (auto simp: tape_commit_def)
      then show ?thesis using append_record_err [OF oku] ap Some by (metis append_Nil2)
    qed
    ultimately show ?thesis using mono p by metis
  qed
qed

lemma dispatch_invariant:
  assumes w: "tape_ok recs ok w" and below: "below_ok recs ok next" and v: "off_tape v"
    and mono: "\<And>rs ys x. P rs x \<Longrightarrow> P (rs @ ys) x"
    and keeps: "\<And>y u0 u. tape_ok recs ok u0 \<Longrightarrow> intent_open recs c u0 \<Longrightarrow> P (recs (tp_journal u0)) (v u0) \<Longrightarrow>
      next t cred c a u0 = (y, u) \<Longrightarrow> P (recs (tp_journal u)) (v u)"
    and p: "P (recs (tp_journal w)) (v w)"
    and d: "replay_dispatch S J next t cred c a w = (x, w')"
  shows "P (recs (tp_journal w')) (v w')"
  using w
proof (cases rule: call_cases [where c = c])
  case pending
  then have "w' = w" using d tape_next_fresh [OF w] by (auto simp: replay_dispatch_def tape_begin_def)
  then show ?thesis using p by simp
next
  case (diverged b)
  then have "w' = w" using d tape_next_diverged [OF w, of b c] by (auto simp: replay_dispatch_def)
  then show ?thesis using p by simp
next
  case (recorded r)
  then have "w' = w\<lparr>tp_cursor := tp_cursor w + 2\<rparr>"
    using d tape_next_recorded [OF w, of c r] by (simp add: replay_dispatch_def)
  then show ?thesis using p v by (simp add: off_tape_def)
next
  case reopened
  let ?w = "w\<lparr>tp_cursor := Suc (tp_cursor w), tp_pending := True\<rparr>"
  have dr: "replay_drive S J next t cred c a ?w = (x, w')"
    using d tape_next_open [OF w, of c] reopened by (simp add: replay_dispatch_def)
  have "last (recs (tp_journal w)) = recs (tp_journal w) ! tp_cursor w"
    using reopened(2) by (metis Zero_neq_Suc diff_Suc_1 last_conv_nth list.size(3))
  then have w1: "tape_ok recs ok ?w" "intent_open recs c ?w"
    using w reopened(1,3,4) by (simp_all add: tape_ok_def intent_open_def flip: reopened(2))
  have "P (recs (tp_journal ?w)) (v ?w)" using p v by (simp add: off_tape_def)
  then show ?thesis using drive_invariant [OF w1 below v, of P t cred a S x w'] mono keeps [OF w1] dr by blast
next
  case fresh
  obtain o1 w1 where bg: "tape_begin J c w = (o1, w1)" by fastforce
  have vw1: "v w1 = v w" using off_tape_steps(2) [OF v, of J c w] bg by simp
  show ?thesis
  proof (cases o1)
    case (Some e)
    then have "w' = w1" using d bg tape_next_fresh [OF w fresh(2)] by (simp add: replay_dispatch_def)
    then show ?thesis using p vw1 begin_err(1) [OF w] bg Some by metis
  next
    case None
    obtain i where i: "recs (tp_journal w1) = recs (tp_journal w) @ [i]" "tape_ok recs ok w1" "intent_open recs c w1"
      using begin_ok [OF w fresh(1,2)] bg None by metis
    have "P (recs (tp_journal w1)) (v w1)" using mono [OF p] i(1) vw1 by simp
    moreover have "replay_drive S J next t cred c a w1 = (x, w')"
      using d bg None tape_next_fresh [OF w fresh(2)] by (simp add: replay_dispatch_def)
    ultimately show ?thesis using drive_invariant [OF i(2,3) below v, of P t cred a S x w'] mono keeps [OF i(2,3)] by blast
  qed
qed

end


subsection \<open>Properties\<close>

lemma duration_mul_range: "duration_mul n u < 2 ^ 63" "- (2 ^ 63) \<le> duration_mul n u"
  using sint_lt [of "word_of_int n * word_of_int u :: 64 word"] sint_ge [of "word_of_int n * word_of_int u :: 64 word"]
  by (simp_all add: duration_mul_def)

text \<open>C35. Within its bound a timer fires when it was asked to. Whatever a grant's configuration
  says, the bound is positive; every duration the schema admits is computed without wrapping
  and stays within the bound; and a configured bound that fits a duration is exact.\<close>

theorem timer_bound_exact:
  "0 < timer_max config \<and>
   (\<forall>n. 1 \<le> n \<and> n \<le> timer_max config div second \<longrightarrow>
      duration_mul n second = n * second \<and> n * second \<le> timer_max config) \<and>
   (\<forall>ms. 0 < ms \<and> ms * millisecond < 2 ^ 63 \<longrightarrow> timer_max (marshal_timer ms) = ms * millisecond)"
proof -
  have pos: "0 < timer_max config" and small: "timer_max config < 2 ^ 63"
    using duration_mul_range(1) by (simp_all add: timer_max_def default_max_timer_def hour_def second_def Let_def)
  have "duration_mul n second = n * second \<and> n * second \<le> timer_max config"
    if "1 \<le> n" "n \<le> timer_max config div second" for n
  proof -
    have "n * second \<le> timer_max config div second * second"
      using that(2) by (intro mult_right_mono) (simp_all add: second_def)
    also have "\<dots> \<le> timer_max config" using pos by (simp add: second_def)
    finally have le: "n * second \<le> timer_max config" .
    then have "duration_mul n second = n * second"
      using small that(1) by (intro duration_mul_fits) (simp_all add: second_def)
    then show ?thesis using le by simp
  qed
  moreover have "timer_max (marshal_timer ms) = ms * millisecond"
    if "0 < ms" "ms * millisecond < 2 ^ 63" for ms
    using that duration_mul_fits [of ms millisecond] unmarshal_marshal_timer [of ms]
    by (simp add: timer_max_def Let_def millisecond_def marshal_timer_def)
  ultimately show ?thesis using pos by blast
qed

theorem timer_bound_exact_witness:
  "duration_mul 86400 second = 86400 * second \<and> 86400 * second \<le> timer_max []"
proof -
  have d: "timer_max [] div second = 86400"
    by (simp add: timer_max_def default_max_timer_def hour_def second_def duration_mul_def Let_def)
  show ?thesis using timer_bound_exact [of "[]"] d by (metis order_refl one_le_numeral)
qed

text \<open>C36. What a configured bound becomes that does not fit a duration: the manifest accepts every
  positive bound of 64 bits, and one whose nanoseconds do not fit wraps. The bound in force is
  then the product modulo 64 bits, when that is a positive duration, and the default of a day
  otherwise; it is never what was configured. (One bound of some 585 years leaves less than a
  second, and so a schema that no timer satisfies.)\<close>

theorem timer_bound_wraps:
  assumes "0 < ms" and "ms < 2 ^ 63" and "2 ^ 63 \<le> ms * millisecond"
  shows "normalize_timer_settings (marshal_timer ms) = Inr (marshal_timer ms) \<and>
    timer_max (marshal_timer ms) =
      (let d = ms * millisecond mod 2 ^ 64 in if 0 < d \<and> d < 2 ^ 63 then d else default_max_timer) \<and>
    timer_max (marshal_timer ms) \<noteq> ms * millisecond"
proof -
  let ?d = "ms * millisecond mod 2 ^ 64"
  have d: "0 \<le> ?d" "?d < 2 ^ 64" by simp_all
  have "duration_mul ms millisecond = (ms * millisecond + 2 ^ 63) mod 2 ^ 64 - 2 ^ 63"
    unfolding duration_mul_def wi_hom_mult by (subst signed_of_int) (simp add: signed_take_bit_eq_take_bit_shift take_bit_eq_mod)
  also have "(ms * millisecond + 2 ^ 63) mod 2 ^ 64 = (?d + 2 ^ 63) mod 2 ^ 64" by (simp add: mod_add_left_eq)
  also have "\<dots> = (if ?d < 2 ^ 63 then ?d + 2 ^ 63 else ?d - 2 ^ 63)"
  proof (cases "?d < 2 ^ 63")
    case False
    have "(?d + 2 ^ 63) mod 2 ^ 64 = (?d - 2 ^ 63 + 2 ^ 64) mod 2 ^ 64" by (rule arg_cong [where f = "\<lambda>x. x mod 2 ^ 64"]) simp
    also have "\<dots> = (?d - 2 ^ 63) mod 2 ^ 64" by (rule mod_add_self2)
    also have "\<dots> = ?d - 2 ^ 63" using d False by (intro mod_pos_pos_trivial) simp_all
    finally show ?thesis using False by (simp only: if_False)
  next
    case True
    then show ?thesis using d by (simp only: if_True) (intro mod_pos_pos_trivial, simp_all)
  qed
  finally have w: "duration_mul ms millisecond = (if ?d < 2 ^ 63 then ?d else ?d - 2 ^ 64)" by simp
  have t: "timer_max (marshal_timer ms) =
      (let x = duration_mul ms millisecond in if x \<le> 0 then default_max_timer else x)"
    using unmarshal_marshal_timer [of ms] assms(1,2) by (simp add: timer_max_def marshal_timer_def)
  have "timer_max (marshal_timer ms) = (if 0 < ?d \<and> ?d < 2 ^ 63 then ?d else default_max_timer)"
    unfolding t w Let_def using d by auto
  moreover have "timer_max (marshal_timer ms) < 2 ^ 63"
    unfolding t Let_def using duration_mul_range(1) [of ms millisecond]
    by (simp add: default_max_timer_def hour_def second_def)
  ultimately show ?thesis using normalize_marshal_timer [OF assms(1,2)] assms(3) by (simp add: Let_def)
qed

theorem timer_bound_wraps_witness:
  "normalize_timer_settings (marshal_timer 9223372036855) = Inr (marshal_timer 9223372036855) \<and>
   timer_max (marshal_timer 9223372036855) = default_max_timer \<and>
   timer_max (marshal_timer 18446744073710) div second = 0"
  using timer_bound_wraps [of 9223372036855] timer_bound_wraps [of 18446744073710]
  by (simp add: millisecond_def second_def)

end
