(* ===== verification/Chain.thy ===== *)
theory Chain
  imports Layers
begin

text \<open>
  A process's dispatcher chain for one quantum (\<open>internal/agent/chain.go\<close>): the table the
  dispatcher provider fills, reconciled with the manifest; the runtime's own layers, each of
  which reserves what it serves; the journal's structure check; and the monitor around it all.

  The lemmas follow authority through the assembly (what the table can name) and through a
  call (what a human's approval runs).
\<close>

subsection \<open>Assembly\<close>

definition reconcile_grants :: "descriptor list \<Rightarrow> manifest \<Rightarrow> err option" where
  "reconcile_grants advertised m =
     (let granted = map g_syscall (leaf_syscalls m);
          leaked = filter (\<lambda>n. n \<notin> set granted) (map d_name advertised) in
      if leaked \<noteq> []
      then Some (Invalid (''dispatcher provider advertises capabilities the manifest did not grant: '' @
                          join '', '' (sort leaked)))
      else None)"

definition timer_grant :: "manifest \<Rightarrow> grant" where
  "timer_grant m =
     (case find_syscall m timer_syscall of
        Some g \<Rightarrow> g
      | None \<Rightarrow> \<lparr>g_syscall = timer_syscall, g_hidden = False, g_config = ''''\<rparr>)"

text \<open>The descriptors the runtime's layers reserve, in the order they are built.\<close>

definition runtime_descriptors :: "manifest \<Rightarrow> descriptor list" where
  "runtime_descriptors m =
     [timer_descriptor (timer_grant m), progress_descriptor] @ lifecycle_descriptors @ world_descriptors"

definition build_table :: "manifest \<Rightarrow> ('r, 'w) table \<Rightarrow> err + ('r, 'w) table" where
  "build_table m t0 =
     (case reconcile_grants (descriptors t0) m of
        Some e \<Rightarrow> Inl e
      | None \<Rightarrow>
          (case reserve_all (runtime_descriptors m) t0 of
             (Some e, _) \<Rightarrow> Inl e
           | (None, t) \<Rightarrow> Inr t))"

definition drivers_dispatch :: "'r sysapi \<Rightarrow> ('r, 'w) table \<Rightarrow> ('k, 'r, 'w) dispatcher" where
  "drivers_dispatch S T = progress_dispatch S (timer_dispatch S (cap_dispatch S T))"

definition protocol_dispatch ::
    "'r sysapi \<Rightarrow> ('l, 'd) evlog \<Rightarrow> 'd durable_codec \<Rightarrow> 'x entropy \<Rightarrow> task_config \<Rightarrow> lifecycle \<Rightarrow> ('r, 'h) table \<Rightarrow>
     (process_context, 'r, ('l, 'r, process_context, 's, 'x) cworld) dispatcher \<Rightarrow>
     (process_context, 'r, ('l, 'r, process_context, 's, 'x) cworld) dispatcher"
where
  "protocol_dispatch S L D E C l T drivers =
     savepoint_dispatch S (world_dispatch S L E (lifecycle_dispatch S l T (task_dispatch S L D E C drivers)))"

text \<open>The tape and the Validator's cache are new with every chain.\<close>

definition fresh_quantum :: "('l, 'r, 'k, 's, 'x) cworld \<Rightarrow> ('l, 'r, 'k, 's, 'x) cworld" where
  "fresh_quantum w = w\<lparr>tp_cursor := 0, tp_pending := False, mw_schemas := []\<rparr>"

definition new_dispatcher ::
    "('s, 'v) schema_api \<Rightarrow> 'r sysapi \<Rightarrow> ('l, 'd) evlog \<Rightarrow> 'd durable_codec \<Rightarrow> ('r jrecord \<Rightarrow> err + 'd) \<Rightarrow>
     'x entropy \<Rightarrow> task_config \<Rightarrow> lifecycle \<Rightarrow> manifest \<Rightarrow>
     err + ('r, ('l, 'r, process_context, 's, 'x) cworld) table \<Rightarrow> ('l, 'r) log_journal \<Rightarrow>
     err + (process_context, 'r, ('l, 'r, process_context, 's, 'x) cworld) dispatcher"
where
  "new_dispatcher A S L D enc E C l m provided journal =
     (case provided of
        Inl e \<Rightarrow> Inl e
      | Inr t0 \<Rightarrow>
          (case build_table m t0 of
             Inl e \<Rightarrow> Inl e
           | Inr T \<Rightarrow>
               (case verify (log_journal_ops L enc) journal of
                  Some e \<Rightarrow> Inl (Wrapped ''journal integrity check failed'' e)
                | None \<Rightarrow>
                    Inr (wrap A S (log_journal_ops L enc) T
                           (protocol_dispatch S L D E C l T (drivers_dispatch S T))))))"

subsection \<open>What the assembled table names\<close>

definition protocol_names :: "string list" where
  "protocol_names = [sys_timer, sys_log, sys_input, sys_output, sys_abort, sys_now, sys_random]"

lemma runtime_descriptor_names: "map d_name (runtime_descriptors m) = protocol_names"
  by (simp add: runtime_descriptors_def protocol_names_def lifecycle_descriptors_def world_descriptors_def
      timer_descriptor_def progress_descriptor_def timer_syscall_def)

lemma protocol_names_distinct: "distinct protocol_names"
  by (simp add: protocol_names_def sys_names)

lemma reserve_all_Cons:
  "reserve_all (d # ds) t =
     (case table_reserve d t of (None, t1) \<Rightarrow> reserve_all ds t1 | (Some e, t1) \<Rightarrow> (Some e, t1))"
proof -
  have stuck: "foldl (\<lambda>(x, t) d. case x of None \<Rightarrow> table_reserve d t | Some e \<Rightarrow> (Some e, t)) (Some e, u) ds = (Some e, u)"
    for e u by (induction ds) simp_all
  show ?thesis by (simp add: reserve_all_def stuck split: prod.split option.split)
qed

lemma reserve_all_Nil [simp]: "reserve_all [] t = (None, t)"
  by (simp add: reserve_all_def)

lemma reserve_all_ok:
  assumes "wf_table t" "reserve_all ds t = (x, t')" "distinct (map d_name ds)"
  shows "wf_table t' \<and> mget (t_routes t') = mget (t_routes t) \<and>
    (x = None \<longrightarrow> set (t_order t') = set (t_order t) \<union> d_name ` set ds \<and>
       (\<forall>d \<in> set ds. mget (t_reserved t') (d_name d) = Some d) \<and>
       (\<forall>n. n \<notin> d_name ` set ds \<longrightarrow> mget (t_reserved t') n = mget (t_reserved t) n)) \<and>
    (x \<noteq> None \<longrightarrow> (\<exists>d \<in> set ds. d_name d \<in> set (t_order t)))"
  using assms
proof (induction ds arbitrary: t)
  case (Cons d ds)
  obtain y t1 where y: "table_reserve d t = (y, t1)" by fastforce
  show ?case
  proof (cases y)
    case (Some e)
    then have "t1 = t" "d_name d \<in> set (t_order t)"
      using y Cons.prems(1) by (auto simp: table_reserve_def wf_table_def split: if_splits)
    then show ?thesis using Cons.prems y Some by (auto simp: reserve_all_Cons)
  next
    case None
    then have t1: "t1 = t\<lparr>t_reserved := mput (d_name d) d (t_reserved t), t_order := t_order t @ [d_name d]\<rparr>"
      using y by (auto simp: table_reserve_def split: if_splits)
    have wf1: "wf_table t1" using table_reserve_wf [OF Cons.prems(1)] y None by blast
    have r: "reserve_all ds t1 = (x, t')" using Cons.prems(2) y None by (simp add: reserve_all_Cons)
    have "distinct (map d_name ds)" using Cons.prems(3) by simp
    note ih = Cons.IH [OF wf1 r this]
    have routes: "mget (t_routes t1) = mget (t_routes t)" by (simp add: t1)
    show ?thesis
    proof (cases x)
      case (Some e)
      then obtain d' where d': "d' \<in> set ds" "d_name d' \<in> set (t_order t1)" using ih by auto
      then have "d_name d' \<noteq> d_name d" using Cons.prems(3) by (metis distinct.simps(2) image_eqI list.map(2) list.set_map)
      then have "\<exists>d' \<in> set (d # ds). d_name d' \<in> set (t_order t)" using d' by (auto simp: t1)
      then show ?thesis using ih Some routes by simp
    next
      case n: None
      have fresh: "d_name d \<notin> d_name ` set ds" using Cons.prems(3) by simp
      show ?thesis using ih n routes fresh by (auto simp: t1)
    qed
  qed
qed simp


lemma build_table_cases:
  assumes wf: "wf_table t0"
  shows "case build_table m t0 of
      Inr T \<Rightarrow>
        wf_table T \<and> set (t_order t0) \<subseteq> g_syscall ` set (leaf_syscalls m) \<and>
        set (t_order T) = set (t_order t0) \<union> set protocol_names \<and> mget (t_routes T) = mget (t_routes t0) \<and>
        (\<forall>d \<in> set (runtime_descriptors m). mget (t_reserved T) (d_name d) = Some d)
    | Inl _ \<Rightarrow>
        \<not> set (t_order t0) \<subseteq> g_syscall ` set (leaf_syscalls m) \<or> set (t_order t0) \<inter> set protocol_names \<noteq> {}"
proof -
  have names: "map d_name (descriptors t0) = t_order t0"
    using descriptors_admitted(1) [OF wf] .
  have leaked: "reconcile_grants (descriptors t0) m = None \<longleftrightarrow> set (t_order t0) \<subseteq> g_syscall ` set (leaf_syscalls m)"
    by (auto simp: reconcile_grants_def names filter_empty_conv Let_def)
  obtain x T where r: "reserve_all (runtime_descriptors m) t0 = (x, T)" by fastforce
  have d: "distinct (map d_name (runtime_descriptors m))"
    by (simp only: runtime_descriptor_names protocol_names_distinct)
  have img: "d_name ` set (runtime_descriptors m) = set protocol_names"
    by (metis list.set_map runtime_descriptor_names)
  note ok = reserve_all_ok [OF wf r d, unfolded img]
  show ?thesis
  proof (cases "reconcile_grants (descriptors t0) m")
    case (Some e)
    then show ?thesis using leaked by (simp add: build_table_def)
  next
    case None
    show ?thesis
    proof (cases x)
      case (Some e)
      then have "\<exists>d \<in> set (runtime_descriptors m). d_name d \<in> set (t_order t0)" using ok by simp
      then have "set (t_order t0) \<inter> set protocol_names \<noteq> {}" using img by blast
      then show ?thesis using None Some r by (simp add: build_table_def)
    next
      case n: None
      then show ?thesis using None ok r leaked by (simp add: build_table_def)
    qed
  qed
qed


subsection \<open>What an approval runs\<close>

lemma drivers_keep [layer_laws]:
  "below_tape (cap_dispatch S T) \<Longrightarrow> below_tape (drivers_dispatch S T)"
  "below_tasks (cap_dispatch S T) \<Longrightarrow> below_tasks (drivers_dispatch S T)"
  by (simp_all add: drivers_dispatch_def layer_laws)

lemma protocol_keeps [layer_laws]:
  "below_tape drivers \<Longrightarrow> below_tape (protocol_dispatch S L D E C l T drivers)"
  by (simp add: protocol_dispatch_def layer_laws)

text \<open>A routed call passes the progress and the timer layer by.\<close>

lemma drivers_routed:
  assumes "wf_table T" "mget (t_reserved T) sys_log \<noteq> None" "mget (t_reserved T) sys_timer \<noteq> None"
    and "resolve T c = Inr e"
  shows "drivers_dispatch S T taint cred c a w = cap_dispatch S T taint cred c a w"
proof -
  have "mget (t_reserved T) (sc_name c) = None"
    using assms(1,4) by (auto simp: wf_table_def resolve_def domIff split: option.splits sum.splits)
  then have "sc_name c \<noteq> sys_log" "sc_name c \<noteq> sys_timer" using assms(2,3) by auto
  then show ?thesis by (simp add: drivers_dispatch_def progress_dispatch_def timer_dispatch_def timer_syscall_def)
qed

lemma chain_routed:
  assumes "wf_table t0" "build_table m t0 = Inr T" "resolve T c = Inr e"
  shows "drivers_dispatch S T taint cred c a w = cap_dispatch S T taint cred c a w"
proof -
  have T: "wf_table T" "\<forall>d \<in> set (runtime_descriptors m). mget (t_reserved T) (d_name d) = Some d"
    using build_table_cases [OF assms(1), of m] assms(2) by simp_all
  have "\<exists>d \<in> set (runtime_descriptors m). d_name d = n" if "n \<in> set protocol_names" for n
    using that by (metis runtime_descriptor_names imageE list.set_map)
  then have "mget (t_reserved T) sys_log \<noteq> None" "mget (t_reserved T) sys_timer \<noteq> None"
    using T(2) by (force simp: protocol_names_def)+
  then show ?thesis by (rule drivers_routed [OF T(1) _ _ assms(3)])
qed

text \<open>The layers above the task layer only pass a call on, or answer it without the tasks.\<close>

lemma protocol_tasks:
  assumes "protocol_dispatch S L D E C l T drivers t cred c a w = (y, w')"
  obtains "tp_journal w' = tp_journal w" "cw_tasks w' = cw_tasks w"
  | "task_dispatch S L D E C drivers t cred c a w = (y, w')"
proof (cases "sc_name c = sys_begin \<or> sc_name c = sys_commit \<or> sc_name c = sys_input \<or> sc_name c = sys_output \<or> sc_name c = sys_abort")
  case True
  have "tp_journal w' = tp_journal w \<and> cw_tasks w' = cw_tasks w"
  proof -
    have "w' = w" using assms True
      by (auto simp: protocol_dispatch_def savepoint_dispatch_def world_dispatch_def lifecycle_dispatch_def sys_names
          split: prod.splits bool.splits option.splits if_splits)
    then show ?thesis by simp
  qed
  then show ?thesis using that(1) by blast
next
  case False
  show ?thesis
  proof (cases "sc_name c = sys_now \<or> sc_name c = sys_random")
    case True
    then have "world_dispatch S L E (lifecycle_dispatch S l T (task_dispatch S L D E C drivers)) t cred c a w = (y, w')"
      using assms False by (simp add: protocol_dispatch_def savepoint_dispatch_def)
    from world_view [OF this True] show ?thesis using that(1) by blast
  next
    case other: False
    then show ?thesis using assms False that(2)
      by (simp add: protocol_dispatch_def savepoint_dispatch_def world_dispatch_def lifecycle_dispatch_def)
  qed
qed

lemma protocol_matches:
  assumes nx: "below_tape drivers" "below_tasks drivers" and ok: "lj_ok (tp_journal w)"
    and io: "intent_open lj_recs c w" and m: "tasks_match cred (lj_recs (tp_journal w)) (cw_tasks w)"
    and d: "protocol_dispatch S L D E C l T drivers t cred c a w = (y, w')"
  shows "tasks_match cred (lj_recs (tp_journal w')) (cw_tasks w')"
  using d
proof (cases rule: protocol_tasks)
  case 1
  then show ?thesis using m by simp
next
  case 2
  then show ?thesis by (rule task_matches [OF nx ok io m])
qed

lemma stamp_world: "snd (stamp_dispatch S T next t k c a w) = snd (next t k c a w)"
  by (simp add: stamp_dispatch_def case_prod_unfold split: sum.split)


subsection \<open>Properties\<close>

text \<open>C31. A process's authority is its manifest. The chain's table is built exactly when the
  provider serves only what the manifest grants and none of the runtime's own names. Then it is
  well formed; whatever the Validator lets through is a section marker, one of the runtime's
  protocol calls, or a syscall the manifest grants; and no protocol call resolves to a
  driver's handler, so a layer that did not intercept its own call would fail closed.\<close>

theorem chain_confined:
  assumes "wf_table t0"
  shows "case build_table m t0 of
      Inl _ \<Rightarrow>
        \<not> (set (t_order t0) \<subseteq> g_syscall ` set (leaf_syscalls m) \<and> set (t_order t0) \<inter> set protocol_names = {})
    | Inr T \<Rightarrow>
        set (t_order t0) \<subseteq> g_syscall ` set (leaf_syscalls m) \<and> wf_table T \<and>
        (\<forall>c. verdict A S T c = None \<longrightarrow>
           control_call c \<or> sc_name c \<in> set protocol_names \<or> sc_name c \<in> g_syscall ` set (leaf_syscalls m)) \<and>
        (\<forall>c. sc_name c \<in> set protocol_names \<longrightarrow> isl (resolve T c))"
proof (cases "build_table m t0")
  case (Inl e)
  then show ?thesis using build_table_cases [OF assms, of m] by auto
next
  case (Inr T)
  then have T: "wf_table T" "set (t_order t0) \<subseteq> g_syscall ` set (leaf_syscalls m)"
    "set (t_order T) = set (t_order t0) \<union> set protocol_names"
    "\<forall>d \<in> set (runtime_descriptors m). mget (t_reserved T) (d_name d) = Some d"
    using build_table_cases [OF assms, of m] by simp_all
  have through: "control_call c \<or> sc_name c \<in> set (t_order T)" if "verdict A S T c = None" for c
    using that descriptors_admitted(2) [OF T(1), of "sc_name c"]
    by (auto simp: verdict_def split: option.splits if_splits)
  have closed: "isl (resolve T c)" if n: "sc_name c \<in> set protocol_names" for c
  proof -
    obtain d where "d \<in> set (runtime_descriptors m)" "d_name d = sc_name c"
      using n by (metis runtime_descriptor_names imageE list.set_map)
    then have "sc_name c \<in> dom (mget (t_reserved T))" using T(4) by force
    then have "mget (t_routes T) (sc_name c) = None" using T(1) unfolding wf_table_def by blast
    then show ?thesis by (simp add: resolve_def)
  qed
  show ?thesis using Inr T(1,2,3) through closed by (simp add: subset_iff) blast
qed


text \<open>A chain on which the witnesses evaluate: one syscall, which needs approval and leaves its mark.\<close>

datatype demo_data = DemoPayload payload | DemoRecord "demo_result jrecord"

definition demo_chain_codec :: "demo_data durable_codec" where
  "demo_chain_codec =
     \<lparr>cd_enc_session = (\<lambda>s. Inr (DemoPayload (SessionData s))),
      cd_dec_session = (\<lambda>d. case d of DemoPayload x \<Rightarrow> cd_dec_session demo_codec x | _ \<Rightarrow> Inl json_error),
      cd_enc_process = (\<lambda>p. Inr (DemoPayload (ProcessData p))),
      cd_dec_process = (\<lambda>d. case d of DemoPayload x \<Rightarrow> cd_dec_process demo_codec x | _ \<Rightarrow> Inl json_error),
      cd_enc_task = (\<lambda>t. Inr (DemoPayload (TaskData t))),
      cd_dec_task = (\<lambda>d. case d of DemoPayload x \<Rightarrow> cd_dec_task demo_codec x | _ \<Rightarrow> Inl json_error)\<rparr>"

type_synonym demo_cworld = "(demo_data mem_log, demo_result, process_context, bytes, syscall list) cworld"

definition demo_mail_run :: "syscall \<Rightarrow> demo_cworld \<Rightarrow> demo_result \<times> demo_cworld" where
  "demo_mail_run c w = (mk_result demo_sys ''sent'', w\<lparr>cw_ext := cw_ext w @ [c]\<rparr>)"

definition demo_mail :: "(demo_result, demo_cworld) entry" where
  "demo_mail = (demo_entry ''mail.send'' [] [] demo_mail_run)\<lparr>e_require_approval := True\<rparr>"

definition demo_provided :: "(demo_result, demo_cworld) table" where
  "demo_provided = snd (table_add (demo_family [demo_mail]) new_table)"

definition demo_mail_manifest :: manifest where
  "demo_mail_manifest =
     \<lparr>m_version = 4, m_program = ''agent'', m_history = None,
      m_syscalls = [\<lparr>g_syscall = ''mail.send'', g_hidden = False, g_config = ''''\<rparr>], m_skills = []\<rparr>"

definition demo_cred :: process_context where
  "demo_cred = \<lparr>pc_session = ''s'', pc_process = ''p'', pc_revision = 1\<rparr>"

definition demo_config :: task_config where
  "demo_config = \<lparr>tc_crypto = \<lparr>cr_sha256 = (\<lambda>b. b), cr_hmac = (\<lambda>k b. b)\<rparr>, tc_secret = ''k'', tc_ttl = 0\<rparr>"

definition demo_entropy :: "syscall list entropy" where
  "demo_entropy n x = (Inr (replicate n CHR ''a''), x)"

definition demo_cstart :: demo_cworld where
  "demo_cstart =
     \<lparr>tp_journal = new_log_journal \<lparr>ml_events = [], ml_now = 7, ml_full = False\<rparr> ''s'' ''p'' 1 [] 0,
      tp_cursor = 0, tp_pending = False, mw_taints = [], mw_schemas = [], cw_tasks = [], cw_ext = []\<rparr>"

abbreviation demo_send :: syscall where
  "demo_send \<equiv> \<lparr>sc_name = ''mail.send'', sc_args = ''1''\<rparr>"

definition demo_intent :: demo_cworld where
  "demo_intent = snd (tape_begin (log_journal_ops mem_evlog (Inr \<circ> DemoRecord)) demo_send demo_cstart)"

lemma demo_provided_wf: "wf_table demo_provided"
  unfolding demo_provided_def
  by (rule table_add_wf_snd [OF _ wf_new_table]) (simp add: demo_mail_def demo_table_eval)

lemma demo_provided_order: "t_order demo_provided = [''mail.send'']"
  by (simp add: demo_provided_def demo_mail_def demo_table_eval)

lemma demo_mail_granted: "g_syscall ` set (leaf_syscalls demo_mail_manifest) = {''mail.send''}"
  by (simp add: demo_mail_manifest_def leaf_syscalls_def runtime_served_def timer_syscall_def sys_timer_def)

lemma demo_not_protocol: "''mail.send'' \<notin> set protocol_names"
  by (simp add: protocol_names_def sys_names)

theorem chain_confined_witness:
  "\<exists>T. build_table demo_mail_manifest demo_provided = Inr T \<and> wf_table T \<and>
     isl (resolve T \<lparr>sc_name = sys_log, sc_args = ''''\<rparr>)"
proof (cases "build_table demo_mail_manifest demo_provided")
  case (Inl e)
  then show ?thesis
    using chain_confined [OF demo_provided_wf, of demo_mail_manifest] demo_not_protocol
    by (simp add: demo_provided_order demo_mail_granted)
next
  case (Inr T)
  have "sys_log \<in> set protocol_names" by (simp add: protocol_names_def)
  then show ?thesis
    using Inr chain_confined [OF demo_provided_wf, where m = demo_mail_manifest and A = demo_schemas and S = demo_sys]
    by simp
qed

text \<open>C32. A call that needs a human's approval runs its handler only behind a task a human
  approved, and then it is the approved call. Below replay, in any world where the call's
  intent is the journal's tail and the tasks name journaled calls: with no task at this
  process revision and position, the call touches no handler, and an answer is a yield on a
  new pending task for this very call, carrying the prompt; with a task, the task's call is
  this call, and it goes to the drivers, under the human's resolution, only when the task is
  approved; otherwise nothing in the world changes.\<close>

theorem approval_needs_task:
  assumes "sys_laws S" "wf_table t0" "build_table m t0 = Inr T"
    and "resolve T c = Inr e" "needs_approval e taint" "au_decision auth \<noteq> Approved"
    and "intent_open lj_recs c w" "tasks_match cred (lj_recs (tp_journal w)) (cw_tasks w)"
    and "distinct (map fst (cw_tasks w))"
    and "task_dispatch S L D E C (drivers_dispatch S T) taint cred c auth w = (y, w')"
  shows "case find_task (cw_tasks w) cred (int (lj_length (tp_journal w)) - 1) of
      None \<Rightarrow>
        (\<exists>x l ts. w' = w\<lparr>cw_ext := x, tp_journal := (tp_journal w)\<lparr>lj_log := l\<rparr>, cw_tasks := ts\<rparr>) \<and>
        (\<forall>r. y = Inr r \<longrightarrow>
           (\<exists>q. r = mk_yield S (tk_id q) \<and> mget (cw_tasks w') (tk_id q) = Some q \<and> tk_state q = Pending \<and>
                tk_scope q = cred \<and> tk_syscall q = c \<and>
                tk_summary q = approval_prompt e c (crossing_taint e taint)))
    | Some r \<Rightarrow>
        tk_syscall r = c \<and>
        (if tk_state r = Approved
         then drivers_dispatch S T taint cred c (tk_resolution r) w = (y, w')
         else w' = w)"
proof -
  have asks: "drivers_dispatch S T taint cred c auth w = (Inr (mk_yield S (approval_prompt e c (crossing_taint e taint))), w)"
    using chain_routed [OF assms(2-4), of S taint cred auth w] assms(4-6)
    by (simp add: cap_dispatch_def needs_approval_crossing Let_def)
  from assms(10) show ?thesis
  proof (cases rule: task_dispatch_cases)
    case (1 r)
    have "tk_syscall r = c" by (rule task_match_tail [OF assms(8,9,7) 1(1)])
    then show ?thesis using 1(1) task_resume_cases [OF 1(2)] by auto
  next
    case 2
    then show ?thesis using asks sys_laws_status(2) [OF assms(1)] by auto
  next
    case (3 r w1 x e')
    then have "w1 = w" using asks by simp
    then have "w' = w\<lparr>cw_ext := x, tp_journal := (tp_journal w)\<lparr>lj_log := lj_log (tp_journal w)\<rparr>, cw_tasks := cw_tasks w\<rparr>"
      using 3(5) by simp
    then have "\<exists>x l ts. w' = w\<lparr>cw_ext := x, tp_journal := (tp_journal w)\<lparr>lj_log := l\<rparr>, cw_tasks := ts\<rparr>"
      by blast
    then show ?thesis using 3(1,4) by simp
  next
    case (4 r w1 x q o1 l ts)
    have w1: "w1 = w" "message_of S r = approval_prompt e c (crossing_taint e taint)"
      using 4(2) asks assms(1) by (auto simp: sys_laws_def)
    have q: "tk_state q = Pending" "tk_scope q = cred" "tk_syscall q = c"
      "tk_summary q = approval_prompt e c (crossing_taint e taint)"
      by (subst 4(4), simp add: new_task_def stamp_task_token_def w1)+
    have "mget ts (tk_id q) = Some q" if "o1 = None"
      using 4(5) that by (cases rule: store_create_cases) simp_all
    then show ?thesis using 4(1,6,7) q w1(1) by (cases o1) auto
  qed
qed


lemma demo_chain_T:
  obtains T where "build_table demo_mail_manifest demo_provided = Inr T" "wf_table T"
    "resolve T demo_send = Inr demo_mail"
proof (cases "build_table demo_mail_manifest demo_provided")
  case (Inl e)
  then show ?thesis
    using build_table_cases [OF demo_provided_wf, of demo_mail_manifest] demo_not_protocol
    by (simp add: demo_provided_order demo_mail_granted)
next
  case (Inr T)
  have "t_entries T = t_entries demo_provided"
  proof -
    have res: "t_entries (snd (table_reserve d t)) = t_entries t" for d and t :: "(demo_result, demo_cworld) table"
      by (simp add: table_reserve_def)
    have "t_entries (snd (reserve_all ds t)) = t_entries t" for ds and t :: "(demo_result, demo_cworld) table"
    proof (induction ds arbitrary: t)
      case (Cons d ds)
      obtain y t1 where y: "table_reserve d t = (y, t1)" by fastforce
      then show ?case using res [of d t] Cons.IH [of t1] by (cases y) (simp_all add: reserve_all_Cons)
    qed simp
    then show ?thesis
      using Inr by (auto simp: build_table_def split: option.splits prod.splits) (metis snd_conv)
  qed
  moreover have T: "mget (t_routes T) = mget (t_routes demo_provided)" "wf_table T"
    using Inr build_table_cases [OF demo_provided_wf, of demo_mail_manifest] by simp_all
  ultimately have "resolve T demo_send = resolve demo_provided demo_send"
    unfolding resolve_def operations_def by (simp only:)
  moreover have "resolve demo_provided demo_send = Inr demo_mail"
    by (simp add: resolve_def demo_provided_def demo_mail_def demo_table_eval case_name_def)
  ultimately show ?thesis using that Inr T(2) by simp
qed

lemma demo_intent_open: "intent_open lj_recs demo_send demo_intent" "cw_tasks demo_intent = []"
    "\<not> ml_full (lj_log (tp_journal demo_intent))"
  by code_simp+

theorem approval_needs_task_witness:
  "\<exists>T y w' q. build_table demo_mail_manifest demo_provided = Inr T \<and>
     task_dispatch demo_sys mem_evlog demo_chain_codec demo_entropy demo_config (drivers_dispatch demo_sys T)
       [] demo_cred demo_send no_auth demo_intent = (Inr y, w') \<and>
     mget (cw_tasks w') (tk_id q) = Some q \<and> tk_syscall q = demo_send"
proof -
  obtain T where T: "build_table demo_mail_manifest demo_provided = Inr T" "wf_table T"
    "resolve T demo_send = Inr demo_mail" by (rule demo_chain_T)
  let ?d = "task_dispatch demo_sys mem_evlog demo_chain_codec demo_entropy demo_config (drivers_dispatch demo_sys T)
       [] demo_cred demo_send no_auth demo_intent"
  obtain y w' where d: "?d = (y, w')" by fastforce
  have na: "needs_approval demo_mail []" by (simp add: needs_approval_def demo_mail_def)
  have "find_task (cw_tasks demo_intent) demo_cred pos = None" for pos
    by (simp add: demo_intent_open(2) find_task_def)
  moreover have "tasks_match demo_cred rs (cw_tasks demo_intent)" for rs
    by (simp add: tasks_match_def demo_intent_open(2))
  ultimately have q: "\<forall>r. y = Inr r \<longrightarrow> (\<exists>q. mget (cw_tasks w') (tk_id q) = Some q \<and> tk_syscall q = demo_send)"
    using approval_needs_task [OF demo_sys_laws demo_provided_wf T(1,3) na _ demo_intent_open(1) _ _ d]
    by (simp add: demo_intent_open(2) no_auth_def) blast
  have dr: "drivers_dispatch demo_sys T [] demo_cred demo_send no_auth demo_intent =
      (Inr (mk_yield demo_sys (approval_prompt demo_mail demo_send [])), demo_intent)"
    using chain_routed [OF demo_provided_wf T(1,3), of demo_sys "[]" demo_cred no_auth demo_intent] T(3)
    by (simp add: cap_dispatch_def demo_mail_def crossing_taint_def demo_entry_def no_auth_def Let_def)
  have "\<exists>r. y = Inr r"
    using arg_cong [OF d, of fst] demo_intent_open(2,3)
    by (simp add: task_dispatch_def dr find_task_def random_task_id_def draw_def demo_entropy_def Let_def
        sys_laws_status(2) [OF demo_sys_laws] on_store_def store_create_def store_append_def
        task_created_event_def task_event_def encode_event_def)
      (auto simp: demo_chain_codec_def mem_evlog_def)
  then show ?thesis using T(1) d q by blast
qed


text \<open>C33. Tasks stay with their calls. Through a whole call of the chain below the monitor (replay,
  the stamp, the protocol layers, the task layer), whatever the drivers answer and whether the
  call is served from the record, journaled fresh, refused or left open, every task of the
  process revision names the call its journal records at the task's position. So a resolution
  can only ever reach the call it was asked for.\<close>

theorem tasks_name_journaled_calls:
  assumes "tape_ok lj_recs lj_ok w" "below_tape drivers" "below_tasks drivers"
    and "tasks_match cred (lj_recs (tp_journal w)) (cw_tasks w)"
    and "replay_dispatch S (log_journal_ops L enc)
           (stamp_dispatch S T (protocol_dispatch S L D E C l T drivers)) taint cred c auth w = (y, w')"
  shows "tasks_match cred (lj_recs (tp_journal w')) (cw_tasks w')"
proof (rule lj.dispatch_invariant [OF assms(1) _ _ _ _ _ assms(5), where v = cw_tasks and P = "tasks_match cred"])
  show "below_tape (stamp_dispatch S T (protocol_dispatch S L D E C l T drivers))"
    by (simp add: layer_laws assms(2))
  show "off_tape cw_tasks" by (simp add: off_tape_def)
next
  fix y0 u0 u
  assume u0: "tape_ok lj_recs lj_ok u0" "intent_open lj_recs c u0"
    "tasks_match cred (lj_recs (tp_journal u0)) (cw_tasks u0)"
    "stamp_dispatch S T (protocol_dispatch S L D E C l T drivers) taint cred c auth u0 = (y0, u)"
  obtain y1 where "protocol_dispatch S L D E C l T drivers taint cred c auth u0 = (y1, u)"
    using u0(4) stamp_world [of S T "protocol_dispatch S L D E C l T drivers" taint cred c auth u0]
    by (metis prod.collapse snd_conv)
  moreover have "lj_ok (tp_journal u0)" using u0(1) by (simp add: tape_ok_def)
  ultimately show "tasks_match cred (lj_recs (tp_journal u)) (cw_tasks u)"
    using protocol_matches [OF assms(2,3) _ u0(2,3)] by blast
qed (use assms(4) tasks_match_append in blast)+

definition demo_lc :: lifecycle where
  "demo_lc =
     \<lparr>lc_input = ''hi'', lc_history = [\<lparr>hm_role = ''user'', hm_content = ''x'', hm_labels = [''web'']\<rparr>],
      lc_skills = [], lc_attempt = 1, lc_validate = Map.empty\<rparr>"

definition demo_below ::
    "(process_context, demo_result, demo_cworld) dispatcher \<Rightarrow> (process_context, demo_result, demo_cworld) dispatcher"
where
  "demo_below drivers =
     stamp_dispatch demo_sys demo_provided
       (protocol_dispatch demo_sys mem_evlog demo_chain_codec demo_entropy demo_config demo_lc demo_provided drivers)"

definition demo_asking :: "(process_context, demo_result, demo_cworld) dispatcher" where
  "demo_asking = (\<lambda>t k c a w. (Inr (mk_yield demo_sys ''ask''), w))"

theorem tasks_name_journaled_calls_witness:
  "\<exists>y w'. replay_dispatch demo_sys (log_journal_ops mem_evlog (Inr \<circ> DemoRecord)) (demo_below demo_asking)
        [] demo_cred demo_send no_auth demo_cstart = (y, w') \<and>
      tasks_match demo_cred (lj_recs (tp_journal w')) (cw_tasks w')"
proof -
  have ok: "tape_ok lj_recs lj_ok demo_cstart"
    by (simp add: tape_ok_def demo_cstart_def new_log_journal_ok)
  have drv: "below_tape demo_asking" "below_tasks demo_asking"
    by (simp_all add: below_ok_def below_tasks_def demo_asking_def)
  have m: "tasks_match demo_cred (lj_recs (tp_journal demo_cstart)) (cw_tasks demo_cstart)"
    by (simp add: tasks_match_def demo_cstart_def)
  obtain y w' where d: "replay_dispatch demo_sys (log_journal_ops mem_evlog (Inr \<circ> DemoRecord)) (demo_below demo_asking)
        [] demo_cred demo_send no_auth demo_cstart = (y, w')" by fastforce
  show ?thesis using d tasks_name_journaled_calls [OF ok drv m d [unfolded demo_below_def]] by blast
qed

text \<open>C34. Reading the session's history cannot launder it. What sys.input returns carries every
  label of every message of the history (and the syscall's own), under the monitor's stamp; and
  the labels themselves never reach the guest: the document it reads is the same whatever
  they are.\<close>

theorem input_carries_history:
  assumes "sys_laws S" and "sc_name c = sys_input"
  shows "(\<exists>r. stamp_dispatch S T (protocol_dispatch S L D E C l T drivers) taint cred c auth w = (Inr r, w) \<and>
      (\<forall>m \<in> set (lc_history l). set (hm_labels m) \<subseteq> set (labels_of S r)) \<and>
      data_of S r = agent_input l (descriptors T)) \<and>
    (\<forall>f. agent_input (l\<lparr>lc_history := map (\<lambda>m. m\<lparr>hm_labels := f m\<rparr>) (lc_history l)\<rparr>) ds = agent_input l ds)"
proof -
  have "control_call c = False" using assms(2) by (simp add: control_call_def sys_names)
  moreover have "protocol_dispatch S L D E C l T drivers taint cred c auth w =
      (Inr (with_labels S (mk_result S (agent_input l (descriptors T))) (history_labels (lc_history l))), w)"
    using assms(2)
    by (simp add: protocol_dispatch_def savepoint_dispatch_def world_dispatch_def lifecycle_dispatch_def sys_names)
  moreover have "agent_input (l\<lparr>lc_history := map (\<lambda>m. m\<lparr>hm_labels := f m\<rparr>) (lc_history l)\<rparr>) ds = agent_input l ds" for f
    by (simp add: agent_input_def guest_history_def comp_def Let_def cong: if_cong)
  ultimately show ?thesis
    using assms(1) by (auto simp: stamp_dispatch_def sys_laws_def history_labels_def)
qed

theorem input_carries_history_witness:
  "\<exists>r. demo_below demo_asking [] demo_cred \<lparr>sc_name = sys_input, sc_args = ''''\<rparr> no_auth demo_cstart =
       (Inr r, demo_cstart) \<and>
     ''web'' \<in> set (labels_of demo_sys r)"
proof -
  have "sc_name \<lparr>sc_name = sys_input, sc_args = ''''\<rparr> = sys_input" by simp
  from conjunct1 [OF input_carries_history [OF demo_sys_laws this, where l = demo_lc]]
  have "\<exists>r. demo_below demo_asking [] demo_cred \<lparr>sc_name = sys_input, sc_args = ''''\<rparr> no_auth demo_cstart =
       (Inr r, demo_cstart) \<and> (\<forall>m \<in> set (lc_history demo_lc). set (hm_labels m) \<subseteq> set (labels_of demo_sys r))"
    unfolding demo_below_def by blast
  then show ?thesis by (simp add: demo_lc_def)
qed

end
