(* ===== verification/Programs.thy ===== *)
theory Programs
  imports Chain "HOL-Library.Multiset"
begin

text \<open>
  The program registry (\<open>internal/agent/programs.go\<close>): the programs a runtime can run, their
  interfaces, and the identity a process is bound to for life.

  The wasm engine and the JSON Schema package are not in the repository. The engine is a record
  of its two operations over its own state \<open>'e\<close>; \<open>engine_laws\<close> says which images it holds
  open: a compilation that succeeds opens one, and closing an image releases it.
\<close>

subsection \<open>Programs\<close>

record program_data =
  pd_id :: string
  pd_source :: bytes
  pd_description :: string
  pd_input :: bytes
  pd_output :: bytes

record program =
  pg_id :: string
  pg_digest :: string
  pg_description :: string
  pg_input :: bytes
  pg_output :: bytes

record ('s, 'i) compiled_program = program +
  cg_input :: 's
  cg_output :: 's
  cg_image :: 'i

text \<open>The schema package, with the text of an instance as a JSON string.\<close>

record ('s, 'v) text_schema_api = "('s, 'v) schema_api" +
  sa_text :: "string \<Rightarrow> 'v"

text \<open>What the engine compiles, and the engine.\<close>

record image_config =
  ic_source :: bytes
  ic_hash :: string
  ic_name :: string
  ic_wasi :: bool
  ic_pages :: nat

record ('i, 'e) engine =
  en_compile :: "image_config \<Rightarrow> 'e \<Rightarrow> (err + 'i) \<times> 'e"
  en_close :: "'i \<Rightarrow> 'e \<Rightarrow> err option \<times> 'e"

definition process_memory_pages :: nat where
  "process_memory_pages = 4096"

subsection \<open>Validation\<close>

text \<open>\<open>validate\<close>: the text as a string instance, else as a JSON document.\<close>

definition validate_text :: "('s, 'v) text_schema_api \<Rightarrow> string \<Rightarrow> string \<Rightarrow> 's \<Rightarrow> string \<Rightarrow> err option" where
  "validate_text A pid what schema text =
     (if sa_validate A schema (sa_text A text) = None then None
      else
        let raw = (if trim_space text = '''' then ''null'' else text);
            failure = (case sa_decode A raw of
                         Inl e \<Rightarrow> Some (Wrapped ''not valid JSON'' e)
                       | Inr v \<Rightarrow> sa_validate A schema v) in
        case failure of
          None \<Rightarrow> None
        | Some e \<Rightarrow>
            Some (Invalid (what @ '' rejected by program '' @ quote pid @ '' '' @ what @ '' schema: '' @ err_text e)))"

definition validate_input :: "('s, 'v) text_schema_api \<Rightarrow> ('s, 'i) compiled_program \<Rightarrow> string \<Rightarrow> err option" where
  "validate_input A p input = validate_text A (pg_id p) ''input'' (cg_input p) input"

definition validate_output :: "('s, 'v) text_schema_api \<Rightarrow> ('s, 'i) compiled_program \<Rightarrow> string \<Rightarrow> err option" where
  "validate_output A p answer = validate_text A (pg_id p) ''output'' (cg_output p) answer"

subsection \<open>Compilation\<close>

text \<open>The compiler's resource name plays no part in the schema it compiles.\<close>

definition interface_schema :: "('s, 'v) text_schema_api \<Rightarrow> string \<Rightarrow> bytes \<Rightarrow> err + bytes \<times> 's" where
  "interface_schema A what document =
     (if trim_space document = '''' then Inl (Plain (''an '' @ what @ '' schema is required''))
      else case compact document of
          None \<Rightarrow> Inl (Wrapped (what @ '' schema'') json_error)
        | Some doc \<Rightarrow>
            (case sa_decode A doc of
               Inl e \<Rightarrow> Inl (Wrapped (what @ '' schema'') e)
             | Inr v \<Rightarrow>
                 (case sa_compile A v of
                    Inl e \<Rightarrow> Inl (Wrapped (what @ '' schema'') e)
                  | Inr s \<Rightarrow> Inr (doc, s))))"

definition interface_error :: "string \<Rightarrow> err \<Rightarrow> err" where
  "interface_error pid e = Invalid (''program '' @ quote pid @ '' interface: '' @ err_text e)"

text \<open>The identity: one hash over the hashes of the wasm and the two schemas.\<close>

definition program_digest :: "crypto \<Rightarrow> bytes \<Rightarrow> bytes \<Rightarrow> bytes \<Rightarrow> string" where
  "program_digest C wasm input_doc output_doc =
     hex_encode (cr_sha256 C (cr_sha256 C wasm @ cr_sha256 C input_doc @ cr_sha256 C output_doc))"

definition compile_program ::
    "crypto \<Rightarrow> ('s, 'v) text_schema_api \<Rightarrow> ('i, 'e) engine \<Rightarrow> program_data \<Rightarrow> 'e \<Rightarrow>
     (err + ('s, 'i) compiled_program) \<times> 'e"
where
  "compile_program C A E d e =
     (let description = trim_space (pd_description d) in
      if description = '''' then (Inl (interface_error (pd_id d) (Plain ''a description is required'')), e)
      else case interface_schema A ''input'' (pd_input d) of
          Inl x \<Rightarrow> (Inl (interface_error (pd_id d) x), e)
        | Inr (input_doc, input_schema) \<Rightarrow>
            (case interface_schema A ''output'' (pd_output d) of
               Inl x \<Rightarrow> (Inl (interface_error (pd_id d) x), e)
             | Inr (output_doc, output_schema) \<Rightarrow>
                 (case en_compile E
                         \<lparr>ic_source = pd_source d, ic_hash = hex_encode (cr_sha256 C (pd_source d)),
                          ic_name = pd_id d, ic_wasi = True, ic_pages = process_memory_pages\<rparr> e of
                    (Inl x, e1) \<Rightarrow> (Inl (Wrapped (''compile program '' @ quote (pd_id d)) x), e1)
                  | (Inr img, e1) \<Rightarrow>
                      (Inr \<lparr>pg_id = pd_id d, pg_digest = program_digest C (pd_source d) input_doc output_doc,
                            pg_description = description, pg_input = input_doc, pg_output = output_doc,
                            cg_input = input_schema, cg_output = output_schema, cg_image = img\<rparr>, e1))))"

subsection \<open>The registry\<close>

type_synonym ('s, 'i) registry = "(string, ('s, 'i) compiled_program) gomap"

text \<open>\<open>close\<close>: every image, with the failures.\<close>

definition registry_close :: "('i, 'e) engine \<Rightarrow> ('s, 'i) registry \<Rightarrow> 'e \<Rightarrow> err list \<times> 'e" where
  "registry_close E reg e =
     fold (\<lambda>p (failures, e).
            case en_close E (cg_image p) e of
              (None, e1) \<Rightarrow> (failures, e1)
            | (Some x, e1) \<Rightarrow> (failures @ [x], e1))
       (map snd reg) ([], e)"

fun registry_loop ::
    "crypto \<Rightarrow> ('s, 'v) text_schema_api \<Rightarrow> ('i, 'e) engine \<Rightarrow> ('s, 'i) registry \<Rightarrow> program_data list \<Rightarrow> 'e \<Rightarrow>
     (err + ('s, 'i) registry) \<times> 'e"
where
  "registry_loop C A E reg [] e = (Inr reg, e)"
| "registry_loop C A E reg (d # ds) e =
     (if mget reg (pd_id d) \<noteq> None then
        (Inl (Invalid (''program '' @ quote (pd_id d) @ '' is listed twice'')), snd (registry_close E reg e))
      else case compile_program C A E d e of
          (Inl x, e1) \<Rightarrow> (Inl x, snd (registry_close E reg e1))
        | (Inr p, e1) \<Rightarrow> registry_loop C A E (mput (pd_id d) p reg) ds e1)"

definition new_program_registry ::
    "crypto \<Rightarrow> ('s, 'v) text_schema_api \<Rightarrow> ('i, 'e) engine \<Rightarrow> program_data list \<Rightarrow> 'e \<Rightarrow>
     (err + ('s, 'i) registry) \<times> 'e"
where
  "new_program_registry C A E ds e = registry_loop C A E [] ds e"

definition registry_bound :: "('s, 'i) registry \<Rightarrow> string \<Rightarrow> string \<Rightarrow> err + ('s, 'i) compiled_program" where
  "registry_bound reg pid digest =
     (case mget reg pid of
        None \<Rightarrow> Inl (Conflict (''program '' @ quote pid @ '' is not loaded''))
      | Some p \<Rightarrow>
          if pg_digest p \<noteq> digest then
            Inl (Conflict (''program '' @ quote pid @ '' changed (loaded '' @ pg_digest p @
              '', process bound to '' @ digest @
              ''): a process is immutable '' @ [CHR 0xE2, CHR 0x80, CHR 0x94] @
              '' its code and interface are fixed; spawn a new process from the new program''))
          else Inr p)"

definition registry_list :: "('s, 'i) registry \<Rightarrow> program list" where
  "registry_list reg = sort_key pg_id (map (program.truncate \<circ> snd) reg)"

subsection \<open>Images\<close>

definition engine_laws :: "('i, 'e) engine \<Rightarrow> ('e \<Rightarrow> 'i multiset) \<Rightarrow> bool" where
  "engine_laws E opn \<longleftrightarrow>
     (\<forall>c e x e'. en_compile E c e = (Inl x, e') \<longrightarrow> opn e' = opn e) \<and>
     (\<forall>c e i e'. en_compile E c e = (Inr i, e') \<longrightarrow> opn e' = add_mset i (opn e)) \<and>
     (\<forall>i e x e'. en_close E i e = (x, e') \<longrightarrow> opn e' = opn e - {#i#})"

definition images :: "('s, 'i) registry \<Rightarrow> 'i multiset" where
  "images reg = image_mset (\<lambda>kp. cg_image (snd kp)) (mset reg)"

lemma registry_close_open:
  assumes "engine_laws E opn"
  shows "opn (snd (registry_close E reg e)) = opn e - images reg"
proof -
  have "opn (snd (fold (\<lambda>p (failures, e).
            case en_close E (cg_image p) e of
              (None, e1) \<Rightarrow> (failures, e1)
            | (Some x, e1) \<Rightarrow> (failures @ [x], e1)) (map snd reg) (fs, e))) = opn e - images reg" for fs
  proof (induction reg arbitrary: fs e)
    case Nil
    then show ?case by (simp add: images_def)
  next
    case (Cons a reg)
    obtain x e1 where c: "en_close E (cg_image (snd a)) e = (x, e1)" by fastforce
    then have "opn e1 = opn e - {#cg_image (snd a)#}" using assms by (simp add: engine_laws_def)
    moreover have "images (a # reg) = {#cg_image (snd a)#} + images reg" by (simp add: images_def)
    ultimately have "opn e1 - images reg = opn e - images (a # reg)"
      by (simp only: diff_diff_add)
    then show ?case using Cons.IH c by (cases x) simp_all
  qed
  from this [of "[]"] show ?thesis by (simp only: registry_close_def)
qed

subsection \<open>What compilation gives\<close>

lemma interface_schema_ok:
  assumes "interface_schema A what doc = Inr (d, s)"
  shows "compact doc = Some d \<and> (\<exists>v. sa_decode A d = Inr v \<and> sa_compile A v = Inr s)"
  using assms by (auto simp: interface_schema_def split: if_splits option.splits sum.splits)

definition compiled_from ::
    "crypto \<Rightarrow> ('s, 'v) text_schema_api \<Rightarrow> program_data \<Rightarrow> ('s, 'i) compiled_program \<Rightarrow> bool" where
  "compiled_from C A d p \<longleftrightarrow>
     pg_id p = pd_id d \<and> pg_description p = trim_space (pd_description d) \<and> pg_description p \<noteq> '''' \<and>
     compact (pd_input d) = Some (pg_input p) \<and> compact (pd_output d) = Some (pg_output p) \<and>
     (\<exists>v. sa_decode A (pg_input p) = Inr v \<and> sa_compile A v = Inr (cg_input p)) \<and>
     (\<exists>v. sa_decode A (pg_output p) = Inr v \<and> sa_compile A v = Inr (cg_output p)) \<and>
     pg_digest p = program_digest C (pd_source d) (pg_input p) (pg_output p)"

lemma compile_program_cases:
  assumes "compile_program C A E d e = (x, e')"
  obtains (refused) y where "x = Inl y" "e' = e"
  | (engine) cfg y where "x = Inl (Wrapped (''compile program '' @ quote (pd_id d)) y)" "en_compile E cfg e = (Inl y, e')"
  | (ok) cfg p where "x = Inr p" "compiled_from C A d p" "en_compile E cfg e = (Inr (cg_image p), e')"
      "ic_source cfg = pd_source d"
proof (cases "trim_space (pd_description d) = ''''")
  case True
  then show ?thesis using assms refused by (auto simp: compile_program_def Let_def)
next
  case nonblank: False
  show ?thesis
  proof (cases "interface_schema A ''input'' (pd_input d)")
    case (Inl y)
    then show ?thesis using assms refused nonblank by (auto simp: compile_program_def Let_def)
  next
    case ins: (Inr ii)
    obtain di si where ii: "ii = (di, si)" by fastforce
    show ?thesis
    proof (cases "interface_schema A ''output'' (pd_output d)")
      case (Inl y)
      then show ?thesis using assms refused nonblank ins ii by (auto simp: compile_program_def Let_def)
    next
      case outs: (Inr oo)
      obtain dn sn where oo: "oo = (dn, sn)" by fastforce
      let ?cfg = "\<lparr>ic_source = pd_source d, ic_hash = hex_encode (cr_sha256 C (pd_source d)),
                   ic_name = pd_id d, ic_wasi = True, ic_pages = process_memory_pages\<rparr>"
      let ?p = "\<lambda>i. \<lparr>pg_id = pd_id d, pg_digest = program_digest C (pd_source d) di dn,
            pg_description = trim_space (pd_description d), pg_input = di, pg_output = dn,
            cg_input = si, cg_output = sn, cg_image = i\<rparr>"
      obtain z e1 where z: "en_compile E ?cfg e = (z, e1)" by fastforce
      show ?thesis
      proof (cases z)
        case (Inl y)
        then show ?thesis using assms nonblank ins ii outs oo z
          by (intro engine [of y ?cfg]) (auto simp: compile_program_def Let_def)
      next
        case (Inr i)
        then have x: "x = Inr (?p i)" "e' = e1"
          using assms nonblank ins ii outs oo z by (auto simp: compile_program_def Let_def)
        have "compiled_from C A d (?p i)"
          using interface_schema_ok [of A _ _ di si] interface_schema_ok [of A _ _ dn sn] ins ii outs oo nonblank
          by (auto simp: compiled_from_def)
        then show ?thesis using x z Inr by (intro ok [of "?p i" ?cfg]) simp_all
      qed
    qed
  qed
qed


subsection \<open>What the registry holds\<close>

text \<open>The registry's programs, in the order they were listed.\<close>

definition registry_of ::
    "crypto \<Rightarrow> ('s, 'v) text_schema_api \<Rightarrow> program_data list \<Rightarrow> ('s, 'i) registry \<Rightarrow> bool" where
  "registry_of C A ds reg \<longleftrightarrow>
     distinct (map pd_id ds) \<and> map fst reg = map pd_id ds \<and>
     list_all2 (\<lambda>d kp. compiled_from C A d (snd kp)) ds reg"

lemma mput_fresh: "mget m k = None \<Longrightarrow> mput k v m = m @ [(k, v)]"
  by (induction m) (auto split: if_splits)

lemma registry_of_add:
  assumes "registry_of C A ds reg" "mget reg (pd_id d) = None" "compiled_from C A d p"
  shows "registry_of C A (ds @ [d]) (mput (pd_id d) p reg)"
proof -
  have "pd_id d \<notin> set (map pd_id ds)"
    using assms(1,2) by (simp only: registry_of_def map_of_eq_None_iff flip: list.set_map) simp
  then show ?thesis
    using assms(1,3) by (simp add: registry_of_def mput_fresh [OF assms(2)] list_all2_appendI)
qed

lemma registry_loop_ok:
  assumes "registry_loop C A E reg ds e = (x, e')" "registry_of C A ds0 reg"
  shows "(\<forall>reg'. x = Inr reg' \<longrightarrow> registry_of C A (ds0 @ ds) reg') \<and>
    (\<forall>opn. engine_laws E opn \<longrightarrow>
       opn e' = (case x of Inr reg' \<Rightarrow> opn e + (images reg' - images reg) | Inl _ \<Rightarrow> opn e - images reg) \<and>
       (\<forall>reg'. x = Inr reg' \<longrightarrow> images reg \<subseteq># images reg'))"
  using assms
proof (induction ds arbitrary: reg e ds0)
  case Nil
  then have "x = Inr reg" "e' = e" by simp_all
  then show ?case using Nil.prems(2) by simp
next
  case (Cons d ds)
  show ?case
  proof (cases "mget reg (pd_id d)")
    case (Some p)
    then show ?thesis using Cons.prems by (auto simp: registry_close_open)
  next
    case None
    obtain y e1 where c: "compile_program C A E d e = (y, e1)" by fastforce
    from c show ?thesis
    proof (cases rule: compile_program_cases)
      case (refused z)
      then have "x = Inl z" "e' = snd (registry_close E reg e)" using Cons.prems(1) None c by simp_all
      then show ?thesis by (simp add: registry_close_open)
    next
      case (engine cfg z)
      then have x: "x = Inl (Wrapped (''compile program '' @ quote (pd_id d)) z)" "e' = snd (registry_close E reg e1)"
        using Cons.prems(1) None c by simp_all
      have "opn e' = opn e - images reg" if l: "engine_laws E opn" for opn
      proof -
        have "opn e1 = opn e" using l engine(2) unfolding engine_laws_def by blast
        then show ?thesis using registry_close_open [OF l, of reg e1] x(2) by simp
      qed
      then show ?thesis using x(1) by simp
    next
      case (ok cfg p)
      let ?reg = "mput (pd_id d) p reg"
      have r: "registry_loop C A E ?reg ds e1 = (x, e')" using Cons.prems(1) None c ok(1) by simp
      note ih = Cons.IH [OF r registry_of_add [OF Cons.prems(2) None ok(2)]]
      have im: "images ?reg = add_mset (cg_image p) (images reg)" by (simp add: mput_fresh [OF None] images_def)
      have opened: "opn e1 = add_mset (cg_image p) (opn e)" if "engine_laws E opn" for opn
        using that ok(3) unfolding engine_laws_def by blast
      show ?thesis
      proof (intro conjI allI impI)
        fix opn assume l: "engine_laws E opn"
        have sub: "images ?reg \<subseteq># images reg'" if "x = Inr reg'" for reg' using ih l that by blast
        show "images reg \<subseteq># images reg'" if "x = Inr reg'" for reg'
          by (rule subset_mset.order_trans [OF _ sub [OF that]]) (simp add: im)
        show "opn e' = (case x of Inr reg' \<Rightarrow> opn e + (images reg' - images reg) | Inl _ \<Rightarrow> opn e - images reg)"
        proof (cases x)
          case (Inl z)
          then have "opn e' = opn e1 - images ?reg" using ih l by simp
          then show ?thesis using opened [OF l] im Inl by simp
        next
          case (Inr reg')
          then obtain zs where zs: "images reg' = images ?reg + zs" using sub by (metis subset_mset.add_diff_inverse)
          moreover have "opn e' = opn e1 + (images reg' - images ?reg)" using ih l Inr by (simp only: sum.case)
          ultimately show ?thesis using Inr opened [OF l] im by simp
        qed
      qed (use ih in simp)
    qed
  qed
qed

lemma registry_refused:
  assumes "registry_loop C A E reg ds e = (Inl y, e')" "\<And>k. mget reg k \<noteq> None \<Longrightarrow> k \<in> pd_id ` set ds0"
  shows "(\<exists>us d vs. ds = us @ d # vs \<and> pd_id d \<in> pd_id ` set (ds0 @ us)) \<or>
    (\<exists>d \<in> set ds. \<exists>e0 e1. compile_program C A E d e0 = (Inl y, e1))"
  using assms
proof (induction ds arbitrary: reg e ds0)
  case (Cons d ds)
  show ?case
  proof (cases "mget reg (pd_id d)")
    case (Some p)
    then have "pd_id d \<in> pd_id ` set (ds0 @ [])" using Cons.prems(2) by simp
    then show ?thesis by blast
  next
    case None
    obtain z e1 where c: "compile_program C A E d e = (z, e1)" by fastforce
    show ?thesis
    proof (cases z)
      case (Inl v)
      then show ?thesis using Cons.prems(1) None c by auto
    next
      case (Inr p)
      have "registry_loop C A E (mput (pd_id d) p reg) ds e1 = (Inl y, e')" using Cons.prems(1) None c Inr by simp
      moreover have "mget (mput (pd_id d) p reg) k \<noteq> None \<Longrightarrow> k \<in> pd_id ` set (ds0 @ [d])" for k
        using Cons.prems(2) [of k] by (auto split: if_splits)
      ultimately consider us d' vs where "ds = us @ d' # vs" "pd_id d' \<in> pd_id ` set ((ds0 @ [d]) @ us)"
        | d' e0 e2 where "d' \<in> set ds" "compile_program C A E d' e0 = (Inl y, e2)"
        using Cons.IH by blast
      then show ?thesis
      proof cases
        case 1
        then have "d # ds = (d # us) @ d' # vs" "pd_id d' \<in> pd_id ` set (ds0 @ d # us)" by simp_all
        then show ?thesis by blast
      qed auto
    qed
  qed
qed simp

lemma new_registry_refused:
  assumes "new_program_registry C A E ds e = (Inl y, e')"
  shows "\<not> distinct (map pd_id ds) \<or> (\<exists>d \<in> set ds. \<exists>e0 e1. compile_program C A E d e0 = (Inl y, e1))"
  using registry_refused [OF assms [unfolded new_program_registry_def], of "[]"] by auto

lemma new_registry_ok:
  assumes "new_program_registry C A E ds e = (x, e')"
  shows "(\<forall>reg. x = Inr reg \<longrightarrow> registry_of C A ds reg)"
    and "engine_laws E opn \<Longrightarrow> opn e' = opn e + (case x of Inr reg \<Rightarrow> images reg | Inl _ \<Rightarrow> {#})"
proof -
  have "registry_of C A [] []" by (simp add: registry_of_def)
  note ok = registry_loop_ok [OF assms [unfolded new_program_registry_def] this]
  show "\<forall>reg. x = Inr reg \<longrightarrow> registry_of C A ds reg" using ok by simp
  show "engine_laws E opn \<Longrightarrow> opn e' = opn e + (case x of Inr reg \<Rightarrow> images reg | Inl _ \<Rightarrow> {#})"
    using ok by (auto simp: images_def split: sum.splits)
qed

lemma registry_lookup:
  assumes "registry_of C A ds reg" "mget reg k = Some p"
  shows "\<exists>d \<in> set ds. pd_id d = k \<and> compiled_from C A d p"
proof -
  obtain i where i: "i < length reg" "reg ! i = (k, p)" using map_of_SomeD [OF assms(2)] by (metis in_set_conv_nth)
  have l: "length ds = length reg" using assms(1) by (auto simp: registry_of_def dest: list_all2_lengthD)
  then have "compiled_from C A (ds ! i) p" "pd_id (ds ! i) = k"
    using assms(1) i by (auto simp: registry_of_def dest: list_all2_nthD2) (metis fst_conv nth_map)
  then show ?thesis using i(1) l by (metis nth_mem)
qed

lemma registry_all:
  assumes "registry_of C A ds reg" "d \<in> set ds"
  shows "\<exists>p. mget reg (pd_id d) = Some p \<and> compiled_from C A d p"
proof -
  have "pd_id d \<in> fst ` set reg" using assms by (metis imageI list.set_map registry_of_def)
  then obtain p where p: "mget reg (pd_id d) = Some p" by (auto simp: map_of_eq_None_iff image_iff dest: weak_map_of_SomeI)
  then obtain d' where "d' \<in> set ds" "pd_id d' = pd_id d" "compiled_from C A d' p"
    using registry_lookup [OF assms(1)] by blast
  moreover have "d' = d" using calculation(1,2) assms by (auto simp: registry_of_def distinct_map dest: inj_onD)
  ultimately show ?thesis using p by blast
qed

lemma registry_list_ok:
  assumes "registry_of C A ds reg"
  shows "sorted (map pg_id (registry_list reg))" "distinct (map pg_id (registry_list reg))"
    "set (map pg_id (registry_list reg)) = pd_id ` set ds"
proof -
  have "list_all2 (\<lambda>d kp. compiled_from C A d (snd kp)) ds reg" using assms by (simp add: registry_of_def)
  then have k: "map pg_id (map (program.truncate \<circ> snd) reg) = map pd_id ds"
    by (induction rule: list_all2_induct) (simp_all add: compiled_from_def program.truncate_def)
  show "sorted (map pg_id (registry_list reg))" by (simp add: registry_list_def)
  have "mset (map pg_id (registry_list reg)) = mset (map pg_id (map (program.truncate \<circ> snd) reg))"
    by (simp only: registry_list_def mset_map mset_sort)
  then have "mset (map pg_id (registry_list reg)) = mset (map pd_id ds)" by (simp only: k)
  from mset_eq_imp_distinct_iff [OF this] mset_eq_setD [OF this]
  show "distinct (map pg_id (registry_list reg))" "set (map pg_id (registry_list reg)) = pd_id ` set ds"
    using assms by (simp_all add: registry_of_def)
qed


subsection \<open>Identity\<close>

lemma hex_digit_inj: "m < 16 \<Longrightarrow> n < 16 \<Longrightarrow> hex_digit m = hex_digit n \<Longrightarrow> m = n"
proof -
  assume b: "m < 16" "n < 16" and h: "hex_digit m = hex_digit n"
  have v: "of_char (hex_digit k) = (if k < 10 then k + 48 else k + 87)" if "k < 16" for k
    using that by (simp add: hex_digit_def of_char_of)
  show "m = n" using arg_cong [OF h, of "of_char :: char \<Rightarrow> nat"] v [OF b(1)] v [OF b(2)] b
    by (simp split: if_splits)
qed

lemma byte_range: "byte c < 256"
  by simp

lemma hex_byte_inj: "hex_byte a = hex_byte b \<Longrightarrow> a = b"
proof -
  assume h: "hex_byte a = hex_byte b"
  have "byte a div 16 = byte b div 16" "byte a mod 16 = byte b mod 16"
    using h by (auto simp: hex_byte_def intro!: hex_digit_inj less_mult_imp_div_less byte_range [THEN less_le_trans])
  then have "byte a = byte b" by (metis div_mult_mod_eq)
  then show "a = b" by simp
qed

lemma hex_encode_inj: "hex_encode s = hex_encode t \<Longrightarrow> s = t"
proof (induction s arbitrary: t)
  case Nil
  then show ?case by (cases t) (simp_all add: hex_encode_def hex_byte_def)
next
  case (Cons a s)
  then obtain b u where t: "t = b # u" by (cases t) (auto simp: hex_encode_def hex_byte_def)
  have "hex_byte a @ hex_encode s = hex_byte b @ hex_encode u" using Cons.prems t by (simp add: hex_encode_def)
  moreover have "length (hex_byte a) = length (hex_byte b)" by (simp add: hex_byte_def)
  ultimately have "hex_byte a = hex_byte b" "hex_encode s = hex_encode u" by simp_all
  then show ?case using Cons.IH hex_byte_inj t by blast
qed

text \<open>The byte strings a program's identity hashes.\<close>

definition hashed :: "crypto \<Rightarrow> bytes \<Rightarrow> bytes \<Rightarrow> bytes \<Rightarrow> bytes set" where
  "hashed C wasm i n = {wasm, i, n, cr_sha256 C wasm @ cr_sha256 C i @ cr_sha256 C n}"

lemma digest_inj:
  assumes len: "\<And>x. length (cr_sha256 C x) = 32"
    and inj: "inj_on (cr_sha256 C) (hashed C w1 i1 n1 \<union> hashed C w2 i2 n2)"
    and eq: "program_digest C w1 i1 n1 = program_digest C w2 i2 n2"
  shows "w1 = w2 \<and> i1 = i2 \<and> n1 = n2"
proof -
  let ?s = "cr_sha256 C"
  have "?s (?s w1 @ ?s i1 @ ?s n1) = ?s (?s w2 @ ?s i2 @ ?s n2)"
    using hex_encode_inj eq by (simp only: program_digest_def)
  then have "?s w1 @ ?s i1 @ ?s n1 = ?s w2 @ ?s i2 @ ?s n2"
    by (rule inj_onD [OF inj]) (simp_all add: hashed_def)
  then have s: "?s w1 = ?s w2" "?s i1 @ ?s n1 = ?s i2 @ ?s n2" using len append_eq_append_conv by metis+
  then have t: "?s i1 = ?s i2" "?s n1 = ?s n2" using len append_eq_append_conv by metis+
  have i: "?s x = ?s y \<Longrightarrow> x = y" if "x \<in> {w1, i1, n1}" "y \<in> {w2, i2, n2}" for x y
    by (rule inj_onD [OF inj]) (use that in \<open>auto simp: hashed_def\<close>)
  show ?thesis using i [OF _ _ s(1)] i [OF _ _ t(1)] i [OF _ _ t(2)] by simp
qed

subsection \<open>Properties\<close>

text \<open>The schema a listed program declares, as the registry keeps it.\<close>

definition declared :: "bytes \<Rightarrow> bytes" where
  "declared doc = (case compact doc of Some d \<Rightarrow> d | None \<Rightarrow> '''')"

definition hashed_of :: "crypto \<Rightarrow> program_data list \<Rightarrow> bytes set" where
  "hashed_of C ds = (\<Union>d \<in> set ds. hashed C (pd_source d) (declared (pd_input d)) (declared (pd_output d)))"

text \<open>C39. A process never runs under changed code. A process is bound to the digest of the program it
  was created from; when a registry, built at any later boot from any list of programs, lets it
  run, the program it runs under is listed with the same wasm and the same two schemas and
  validates by the same schemas, provided SHA-256 does not collide on the strings that are
  hashed.\<close>

theorem code_is_bound:
  assumes len: "\<forall>x. length (cr_sha256 C x) = 32"
    and inj: "inj_on (cr_sha256 C) (hashed_of C (ds1 @ ds2))"
    and "new_program_registry C A E ds1 e1 = (Inr reg1, e1')" "mget reg1 pid1 = Some p1"
    and "new_program_registry C A E ds2 e2 = (Inr reg2, e2')"
    and "registry_bound reg2 pid2 (pg_digest p1) = Inr p2"
  shows "\<exists>d1 \<in> set ds1. \<exists>d2 \<in> set ds2. pd_id d1 = pid1 \<and> pd_id d2 = pid2 \<and> pg_id p2 = pid2 \<and>
    pd_source d2 = pd_source d1 \<and> pg_input p2 = pg_input p1 \<and> pg_output p2 = pg_output p1 \<and>
    compact (pd_input d2) = compact (pd_input d1) \<and> compact (pd_output d2) = compact (pd_output d1) \<and>
    cg_input p2 = cg_input p1 \<and> cg_output p2 = cg_output p1"
proof -
  have r1: "registry_of C A ds1 reg1" and r2: "registry_of C A ds2 reg2"
    using new_registry_ok(1) [OF assms(3)] new_registry_ok(1) [OF assms(5)] by simp_all
  have b: "mget reg2 pid2 = Some p2" "pg_digest p2 = pg_digest p1"
    using assms(6) by (simp_all add: registry_bound_def split: option.splits if_splits)
  obtain d1 where d1: "d1 \<in> set ds1" "pd_id d1 = pid1" "compiled_from C A d1 p1"
    using registry_lookup [OF r1 assms(4)] by blast
  obtain d2 where d2: "d2 \<in> set ds2" "pd_id d2 = pid2" "compiled_from C A d2 p2"
    using registry_lookup [OF r2 b(1)] by blast
  have sub: "hashed C (pd_source d) (pg_input p) (pg_output p) \<subseteq> hashed_of C (ds1 @ ds2)"
    if "d \<in> set ds1 \<union> set ds2" "compiled_from C A d p" for d p
  proof -
    have "declared (pd_input d) = pg_input p" "declared (pd_output d) = pg_output p"
      using that(2) by (simp_all add: compiled_from_def declared_def)
    then show ?thesis using that(1) by (auto simp: hashed_of_def)
  qed
  have "program_digest C (pd_source d1) (pg_input p1) (pg_output p1) =
      program_digest C (pd_source d2) (pg_input p2) (pg_output p2)"
    using d1(3) d2(3) b(2) by (simp add: compiled_from_def)
  moreover have "inj_on (cr_sha256 C) (hashed C (pd_source d1) (pg_input p1) (pg_output p1) \<union>
      hashed C (pd_source d2) (pg_input p2) (pg_output p2))"
    by (rule inj_on_subset [OF inj]) (use sub d1 d2 in blast)
  ultimately have same: "pd_source d1 = pd_source d2 \<and> pg_input p1 = pg_input p2 \<and> pg_output p1 = pg_output p2"
    using digest_inj len by blast
  have "cg_input p2 = cg_input p1" "cg_output p2 = cg_output p1"
    using same d1(3) d2(3) by (auto simp: compiled_from_def)
  moreover have "compact (pd_input d2) = compact (pd_input d1)" "compact (pd_output d2) = compact (pd_output d1)"
    using same d1(3) d2(3) by (simp_all add: compiled_from_def)
  moreover have "pg_id p2 = pid2" using d2 by (simp add: compiled_from_def)
  ultimately show ?thesis using d1(1,2) d2(1,2) same by (intro bexI [of _ d1] bexI [of _ d2]) simp_all
qed


subsection \<open>A concrete registry\<close>

definition demo_crypto :: crypto where
  "demo_crypto =
     \<lparr>cr_sha256 = (\<lambda>x. if 32 < length x then replicate 32 CHR ''z'' else take 32 (x @ replicate 32 CHR ''0'')),
      cr_hmac = (@)\<rparr>"

definition demo_text_api :: "(bytes, bytes) text_schema_api" where
  "demo_text_api =
     \<lparr>sa_decode = Inr, sa_compile = Inr, sa_validate = (\<lambda>s v. None), sa_text = id\<rparr>"

text \<open>An engine that keeps the names of its open images, and refuses an empty one.\<close>

definition demo_engine :: "(string, string list) engine" where
  "demo_engine =
     \<lparr>en_compile = (\<lambda>c e. if ic_source c = '''' then (Inl (Plain ''empty module''), e) else (Inr (ic_name c), ic_name c # e)),
      en_close = (\<lambda>i e. (None, remove1 i e))\<rparr>"

lemma demo_engine_laws: "engine_laws demo_engine mset"
  by (auto simp: engine_laws_def demo_engine_def split: if_splits)

definition demo_data :: "program_data list" where
  "demo_data =
     [\<lparr>pd_id = ''a'', pd_source = ''w'', pd_description = ''d'', pd_input = ''null'', pd_output = ''true''\<rparr>]"

definition demo_program :: "(bytes, string) compiled_program" where
  "demo_program =
     \<lparr>pg_id = ''a'', pg_digest = program_digest demo_crypto ''w'' ''null'' ''true'', pg_description = ''d'',
      pg_input = ''null'', pg_output = ''true'', cg_input = ''null'', cg_output = ''true'', cg_image = ''a''\<rparr>"


lemma demo_compact: "compact ''null'' = Some ''null''" "compact ''true'' = Some ''true''"
  by (simp_all add: compact_def json_valid_def unmarshal_def json_ws_def skip_ws_def)

lemma demo_trim: "trim_space ''null'' = ''null''" "trim_space ''true'' = ''true''" "trim_space ''d'' = ''d''"
  by (simp_all add: trim_space_def rune_chunks.simps trim_chunks_def space_chunk_def rune_width_def space_rune_def)

lemma demo_registry:
  "new_program_registry demo_crypto demo_text_api demo_engine demo_data [] = (Inr [(''a'', demo_program)], [''a''])"
  by (simp add: new_program_registry_def demo_data_def compile_program_def demo_trim interface_schema_def demo_compact
      demo_text_api_def demo_engine_def demo_program_def)

lemma demo_hashes:
  "\<forall>x. length (cr_sha256 demo_crypto x) = 32" "inj_on (cr_sha256 demo_crypto) (hashed_of demo_crypto (demo_data @ demo_data))"
proof -
  show len: "\<forall>x. length (cr_sha256 demo_crypto x) = 32" by (simp add: demo_crypto_def)
  let ?i = "cr_sha256 demo_crypto ''w'' @ cr_sha256 demo_crypto ''null'' @ cr_sha256 demo_crypto ''true''"
  have "32 < length ?i" using len by simp
  then have i: "cr_sha256 demo_crypto ?i = replicate 32 CHR ''z''" by (simp add: demo_crypto_def)
  have h: "hd (cr_sha256 demo_crypto ''w'') = CHR ''w''" "hd (cr_sha256 demo_crypto ''null'') = CHR ''n''"
    "hd (cr_sha256 demo_crypto ''true'') = CHR ''t''" "hd (cr_sha256 demo_crypto ?i) = CHR ''z''"
    by (simp_all add: demo_crypto_def i)
  have "hashed_of demo_crypto (demo_data @ demo_data) = {''w'', ''null'', ''true'', ?i}"
    by (auto simp: hashed_of_def demo_data_def hashed_def declared_def demo_compact)
  then show "inj_on (cr_sha256 demo_crypto) (hashed_of demo_crypto (demo_data @ demo_data))"
    using h by (auto simp: inj_on_def dest!: arg_cong [where f = hd])
qed

theorem code_is_bound_witness:
  "\<exists>d1 \<in> set demo_data. pd_id d1 = ''a'' \<and> registry_bound [(''a'', demo_program)] ''a'' (pg_digest demo_program) = Inr demo_program"
proof -
  have b: "registry_bound [(''a'', demo_program)] ''a'' (pg_digest demo_program) = Inr demo_program"
    by (simp add: registry_bound_def)
  have "mget [(''a'', demo_program)] ''a'' = Some demo_program" by simp
  from code_is_bound [OF demo_hashes demo_registry this demo_registry b] show ?thesis using b by blast
qed

text \<open>C40. The registry owns its images. A registry is refused only when a program is listed twice or
  one does not compile; otherwise no program is listed twice, every one compiled, and it lists each once, by its id, in the order of the ids, and its
  images are open. A list that is refused leaves no image open, wherever the failure struck, and
  closing a registry releases exactly what building it opened.\<close>

theorem registry_owns_images:
  assumes "engine_laws E opn" "new_program_registry C A E ds e = (x, e')"
  shows "case x of
      Inl y \<Rightarrow> opn e' = opn e \<and>
        (\<not> distinct (map pd_id ds) \<or> (\<exists>d \<in> set ds. \<exists>e0 e1. compile_program C A E d e0 = (Inl y, e1)))
    | Inr reg \<Rightarrow>
        distinct (map pd_id ds) \<and>
        (\<forall>d \<in> set ds. \<exists>p. registry_bound reg (pd_id d) (pg_digest p) = Inr p \<and> compiled_from C A d p) \<and>
        sorted (map pg_id (registry_list reg)) \<and> distinct (map pg_id (registry_list reg)) \<and>
        set (map pg_id (registry_list reg)) = pd_id ` set ds \<and>
        opn (snd (registry_close E reg e')) = opn e \<and> size (opn e') = size (opn e) + length ds"
proof (cases x)
  case (Inl y)
  have "new_program_registry C A E ds e = (Inl y, e')" using assms(2) Inl by simp
  from new_registry_refused [OF this] show ?thesis using new_registry_ok(2) [OF assms(2,1)] Inl by simp
next
  case (Inr reg)
  have r: "registry_of C A ds reg" using new_registry_ok(1) [OF assms(2)] Inr by simp
  have o1: "opn e' = opn e + images reg" using new_registry_ok(2) [OF assms(2,1)] Inr by simp
  have c: "opn (snd (registry_close E reg e')) = opn e" using registry_close_open [OF assms(1), of reg e'] o1 by simp
  have "length reg = length ds" using r by (auto simp: registry_of_def dest: list_all2_lengthD)
  then have s: "size (opn e') = size (opn e) + length ds" using o1 by (simp add: images_def)
  have "\<exists>p. registry_bound reg (pd_id d) (pg_digest p) = Inr p \<and> compiled_from C A d p" if "d \<in> set ds" for d
    using registry_all [OF r that] by (auto simp: registry_bound_def)
  moreover have "distinct (map pd_id ds)" using r by (simp add: registry_of_def)
  ultimately show ?thesis using registry_list_ok [OF r] c s Inr by simp
qed

theorem registry_owns_images_witness:
  "engine_laws demo_engine mset \<and> distinct (map pd_id demo_data) \<and>
   mset (snd (registry_close demo_engine [(''a'', demo_program)] [''a''])) = {#}"
  using registry_owns_images [OF demo_engine_laws demo_registry] demo_engine_laws by simp

end
