(* ===== verification/Pool.thy ===== *)
theory Pool
  imports SysApi Transition "HOL-Library.Multiset"
begin

text \<open>
  The guest pool (\<open>internal/agent/pool.go\<close>): at most as many quanta run at once as there are
  workers. A submission waits until a worker takes it or its context ends, runs on the worker,
  and settles once.

  The goroutines are the steps of a transition system. What they synchronize on is the state:
  the submissions that wait on the unbuffered queue, the ones a worker runs, the results that
  have landed, and the contexts that are done (the root's, and each submission's own). The
  guest's run itself, and when its wall-clock bound strikes, is the environment's choice of
  the result.
\<close>

subsection \<open>State\<close>

datatype resume_status = ResumeCompleted | ResumeYielded | ResumeStopped | ResumeFailed

record quantum_result =
  qr_status :: resume_status
  qr_err :: "err option"

record pool =
  pl_size :: nat
  pl_closed :: bool
  pl_next :: nat
  pl_waiting :: "nat list"
  pl_running :: "nat list"
  pl_cancelled :: "nat list"
  pl_settled :: "(nat, quantum_result) gomap"

definition new_pool :: "nat \<Rightarrow> pool" where
  "new_pool workers =
     \<lparr>pl_size = workers, pl_closed = False, pl_next = 0, pl_waiting = [], pl_running = [],
      pl_cancelled = [], pl_settled = []\<rparr>"

definition stopped_result :: "err \<Rightarrow> quantum_result" where
  "stopped_result e = \<lparr>qr_status = ResumeStopped, qr_err = Some e\<rparr>"

definition dropped :: "pool \<Rightarrow> quantum_result" where
  "dropped p = stopped_result (if pl_closed p then PoolClosed else Dropped)"

text \<open>A submission's context derives from the root's.\<close>

definition ctx_done :: "pool \<Rightarrow> nat \<Rightarrow> bool" where
  "ctx_done p q \<longleftrightarrow> pl_closed p \<or> q \<in> set (pl_cancelled p)"

subsection \<open>Operations\<close>

definition pool_submit :: "pool \<Rightarrow> (err + nat) \<times> pool" where
  "pool_submit p =
     (if pl_closed p then (Inl PoolClosed, p)
      else (Inr (pl_next p), p\<lparr>pl_next := pl_next p + 1, pl_waiting := pl_waiting p @ [pl_next p]\<rparr>))"

definition pool_cancel :: "nat \<Rightarrow> pool \<Rightarrow> pool" where
  "pool_cancel q p = p\<lparr>pl_cancelled := q # pl_cancelled p\<rparr>"

text \<open>A free worker receives a waiting submission: it runs it, or drops one that is done.\<close>

definition pool_take :: "nat \<Rightarrow> pool \<Rightarrow> pool option" where
  "pool_take q p =
     (if q \<in> set (pl_waiting p) \<and> length (pl_running p) < pl_size p then
        (let p1 = p\<lparr>pl_waiting := remove1 q (pl_waiting p)\<rparr> in
         Some (if ctx_done p q then p1\<lparr>pl_settled := mput q (dropped p) (pl_settled p)\<rparr>
               else p1\<lparr>pl_running := q # pl_running p\<rparr>))
      else None)"

text \<open>The submitting goroutine stops waiting when the context is done.\<close>

definition pool_drop :: "nat \<Rightarrow> pool \<Rightarrow> pool option" where
  "pool_drop q p =
     (if q \<in> set (pl_waiting p) \<and> ctx_done p q then
        Some (p\<lparr>pl_waiting := remove1 q (pl_waiting p), pl_settled := mput q (dropped p) (pl_settled p)\<rparr>)
      else None)"

definition pool_finish :: "nat \<Rightarrow> quantum_result \<Rightarrow> pool \<Rightarrow> pool option" where
  "pool_finish q r p =
     (if q \<in> set (pl_running p) then
        Some (p\<lparr>pl_running := remove1 q (pl_running p), pl_settled := mput q r (pl_settled p)\<rparr>)
      else None)"

definition pool_close :: "pool \<Rightarrow> pool" where
  "pool_close p = p\<lparr>pl_closed := True\<rparr>"

inductive pool_step :: "pool \<Rightarrow> pool \<Rightarrow> bool" where
  submit: "pool_submit p = (x, p') \<Longrightarrow> pool_step p p'"
| cancel: "pool_step p (pool_cancel q p)"
| take: "pool_take q p = Some p' \<Longrightarrow> pool_step p p'"
| drop: "pool_drop q p = Some p' \<Longrightarrow> pool_step p p'"
| finish: "pool_finish q r p = Some p' \<Longrightarrow> pool_step p p'"
| close: "pool_step p (pool_close p)"

subsection \<open>The invariant\<close>

definition pool_ids :: "pool \<Rightarrow> nat list" where
  "pool_ids p = pl_waiting p @ pl_running p @ map fst (pl_settled p)"

definition pool_ok :: "pool \<Rightarrow> bool" where
  "pool_ok p \<longleftrightarrow> length (pl_running p) \<le> pl_size p \<and> mset (pool_ids p) = mset [0..<pl_next p]"

lemma pool_ok_ids:
  assumes "pool_ok p"
  shows "distinct (pool_ids p)" "set (pool_ids p) = {..<pl_next p}"
proof -
  have m: "mset (pool_ids p) = mset [0..<pl_next p]" using assms by (simp only: pool_ok_def)
  show "distinct (pool_ids p)" using mset_eq_imp_distinct_iff [OF m] by simp
  show "set (pool_ids p) = {..<pl_next p}" using mset_eq_setD [OF m] by (simp add: atLeast_upt lessThan_atLeast0)
qed

lemma unsettled:
  assumes "pool_ok p" "q \<in> set (pl_waiting p) \<union> set (pl_running p)"
  shows "mget (pl_settled p) q = None"
  using pool_ok_ids(1) [OF assms(1)] assms(2) by (auto simp: pool_ids_def map_of_eq_None_iff)

lemma map_fst_mput_new: "mget m k = None \<Longrightarrow> map fst (mput k v m) = map fst m @ [k]"
  by (induction m) (auto split: if_splits)

lemma mset_settled: "mget m k = None \<Longrightarrow> mset (map fst (mput k v m)) = add_mset k (mset (map fst m))"
  by (simp only: map_fst_mput_new mset_append) simp

text \<open>The identifiers only move from one list to the next.\<close>

lemma pool_ok_moved:
  assumes "pool_ok p" "mset (pool_ids p') = mset (pool_ids p)" "pl_next p' = pl_next p"
    "length (pl_running p') \<le> pl_size p'"
  shows "pool_ok p'"
  using assms by (simp only: pool_ok_def)

lemma mset_drop:
  assumes "q \<in> set ws" "mget m q = None"
  shows "mset (remove1 q ws @ rs @ map fst (mput q v m)) = mset (ws @ rs @ map fst m)"
proof -
  have "mset ws = add_mset q (mset (remove1 q ws))" using assms(1) by simp
  then show ?thesis by (simp only: mset_append mset_settled [OF assms(2)] mset.simps union_mset_add_mset_left union_mset_add_mset_right)
qed

lemma mset_finish:
  assumes "q \<in> set rs" "mget m q = None"
  shows "mset (ws @ remove1 q rs @ map fst (mput q v m)) = mset (ws @ rs @ map fst m)"
proof -
  have "mset rs = add_mset q (mset (remove1 q rs))" using assms(1) by simp
  then show ?thesis by (simp only: mset_append mset_settled [OF assms(2)] mset.simps union_mset_add_mset_left union_mset_add_mset_right)
qed

lemma mset_start:
  assumes "q \<in> set ws"
  shows "mset (remove1 q ws @ (q # rs) @ xs) = mset (ws @ rs @ xs)"
proof -
  have "mset ws = add_mset q (mset (remove1 q ws))" using assms(1) by simp
  then show ?thesis by (simp only: append_Cons mset_append mset.simps union_mset_add_mset_left union_mset_add_mset_right)
qed

lemma take_cases:
  assumes "pool_take q p = Some p'"
  obtains "q \<in> set (pl_waiting p)" "length (pl_running p) < pl_size p" "ctx_done p q"
      "p' = p\<lparr>pl_waiting := remove1 q (pl_waiting p), pl_settled := mput q (dropped p) (pl_settled p)\<rparr>"
  | "q \<in> set (pl_waiting p)" "length (pl_running p) < pl_size p" "\<not> ctx_done p q"
      "p' = p\<lparr>pl_waiting := remove1 q (pl_waiting p), pl_running := q # pl_running p\<rparr>"
  using assms by (cases "ctx_done p q") (simp_all add: pool_take_def Let_def split: if_splits)

lemma drop_cases:
  assumes "pool_drop q p = Some p'"
  obtains "q \<in> set (pl_waiting p)" "ctx_done p q"
      "p' = p\<lparr>pl_waiting := remove1 q (pl_waiting p), pl_settled := mput q (dropped p) (pl_settled p)\<rparr>"
  using assms by (simp add: pool_drop_def split: if_splits)

lemma finish_cases:
  assumes "pool_finish q r p = Some p'"
  obtains "q \<in> set (pl_running p)"
      "p' = p\<lparr>pl_running := remove1 q (pl_running p), pl_settled := mput q r (pl_settled p)\<rparr>"
  using assms by (simp add: pool_finish_def split: if_splits)

lemma pool_ok_drop:
  assumes "pool_ok p" "q \<in> set (pl_waiting p)"
  shows "pool_ok (p\<lparr>pl_waiting := remove1 q (pl_waiting p), pl_settled := mput q r (pl_settled p)\<rparr>)"
  by (rule pool_ok_moved [OF assms(1)])
    (use assms in \<open>simp_all add: pool_ids_def mset_drop [OF assms(2) unsettled [OF assms(1) UnI1 [OF assms(2)]], unfolded mset_append] pool_ok_def del: mset_map mset_remove1 mset_upt\<close>)

lemma pool_ok_start:
  assumes "pool_ok p" "q \<in> set (pl_waiting p)" "length (pl_running p) < pl_size p"
  shows "pool_ok (p\<lparr>pl_waiting := remove1 q (pl_waiting p), pl_running := q # pl_running p\<rparr>)"
proof (rule pool_ok_moved [OF assms(1)])
  show "mset (pool_ids (p\<lparr>pl_waiting := remove1 q (pl_waiting p), pl_running := q # pl_running p\<rparr>)) = mset (pool_ids p)"
    using mset_start [OF assms(2), of "pl_running p" "map fst (pl_settled p)"]
    by (simp add: pool_ids_def del: mset_map mset_append mset_remove1)
qed (use assms(3) in simp_all)

lemma pool_ok_finish:
  assumes "pool_ok p" "q \<in> set (pl_running p)"
  shows "pool_ok (p\<lparr>pl_running := remove1 q (pl_running p), pl_settled := mput q r (pl_settled p)\<rparr>)"
proof (rule pool_ok_moved [OF assms(1)])
  let ?p = "p\<lparr>pl_running := remove1 q (pl_running p), pl_settled := mput q r (pl_settled p)\<rparr>"
  have "mget (pl_settled p) q = None" using unsettled [OF assms(1)] assms(2) by blast
  from mset_finish [OF assms(2) this, of "pl_waiting p" r] show "mset (pool_ids ?p) = mset (pool_ids p)"
    by (simp add: pool_ids_def del: mset_map mset_append mset_remove1)
  show "length (pl_running ?p) \<le> pl_size ?p"
    using assms le_diff_conv [of "length (pl_running p)" 1 "pl_size p"] by (simp add: pool_ok_def length_remove1)
qed simp

lemma pool_ok_submit:
  assumes "pool_ok p" shows "pool_ok (snd (pool_submit p))"
proof (cases "pl_closed p")
  case True
  then show ?thesis using assms by (simp add: pool_submit_def)
next
  case False
  have "mset (pool_ids p) = mset [0..<pl_next p]" "length (pl_running p) \<le> pl_size p"
    using assms by (simp_all only: pool_ok_def)
  then have "mset (pool_ids (snd (pool_submit p))) = mset [0..<Suc (pl_next p)]"
    using False by (simp add: pool_ids_def pool_submit_def upt_Suc_append del: mset_upt upt_Suc)
  moreover have "pl_next (snd (pool_submit p)) = Suc (pl_next p)"
    "pl_running (snd (pool_submit p)) = pl_running p" "pl_size (snd (pool_submit p)) = pl_size p"
    using False by (simp_all add: pool_submit_def)
  ultimately show ?thesis using assms
    by (simp only: pool_ok_def)
qed

lemma pool_step_ok:
  assumes "pool_step p p'" "pool_ok p"
  shows "pool_ok p' \<and> pl_size p' = pl_size p"
  using assms(1)
proof (cases rule: pool_step.cases)
  case (submit x)
  have "pl_size (snd (pool_submit p)) = pl_size p" by (simp add: pool_submit_def)
  with submit pool_ok_submit [OF assms(2)] show ?thesis by simp
next
  case (cancel q)
  then show ?thesis using assms(2) by (simp add: pool_cancel_def pool_ok_def pool_ids_def)
next
  case (take q)
  then show ?thesis
    by (cases rule: take_cases) (simp_all add: pool_ok_drop pool_ok_start assms(2))
next
  case (drop q)
  then show ?thesis by (cases rule: drop_cases) (simp add: pool_ok_drop assms(2))
next
  case (finish q r)
  then show ?thesis by (cases rule: finish_cases) (simp add: pool_ok_finish assms(2))
next
  case close
  then show ?thesis using assms(2) by (simp add: pool_close_def pool_ok_def pool_ids_def)
qed

lemma pool_step_settled:
  assumes "pool_step p p'" "pool_ok p" "mget (pl_settled p) q = Some r"
  shows "mget (pl_settled p') q = Some r"
proof -
  have "q \<notin> set (pl_waiting p)" "q \<notin> set (pl_running p)"
    using unsettled [OF assms(2), of q] assms(3) by auto
  then have w: "q' \<noteq> q" if "q' \<in> set (pl_waiting p) \<union> set (pl_running p)" for q' using that by blast
  then have g: "mget (mput q' x (pl_settled p)) q = Some r"
    if "q' \<in> set (pl_waiting p) \<union> set (pl_running p)" for q' x using that assms(3) by auto
  show ?thesis
    using assms(1)
  proof (cases rule: pool_step.cases)
    case (take q')
    then show ?thesis by (cases rule: take_cases) (use g assms(3) in simp_all)
  next
    case (drop q')
    then show ?thesis by (cases rule: drop_cases) (use g assms(3) in simp)
  next
    case (finish q' r')
    then show ?thesis by (cases rule: finish_cases) (use g assms(3) in simp)
  qed (use assms(3) in \<open>auto simp: pool_submit_def pool_cancel_def pool_close_def split: if_splits\<close>)
qed

interpretation pool: invariant_system "\<lambda>p. p = new_pool n" pool_step "\<lambda>p. pool_ok p \<and> pl_size p = n" for n
proof
  show "pool_ok p \<and> pl_size p = n" if "p = new_pool n" for p
    using that by (simp add: pool_ok_def pool_ids_def new_pool_def)
qed (use pool_step_ok in auto)

lemma pool_run_settled:
  assumes "pool_step\<^sup>*\<^sup>* p p'" "pool_ok p" "mget (pl_settled p) q = Some r"
  shows "mget (pl_settled p') q = Some r"
  using pool.run_keeps [OF assms(1), of "pl_size p" "\<lambda>a b. \<forall>r. mget (pl_settled a) q = Some r \<longrightarrow> mget (pl_settled b) q = Some r"]
    assms(2,3) pool_step_settled by blast

subsection \<open>Properties\<close>

text \<open>C37. The pool's bound. However submissions, cancellations, workers and the shutdown interleave,
  never more quanta run than there are workers; every submission ever accepted is exactly one
  of waiting, running or settled; and a result that has landed never changes, so a submission
  is run at most once and answered once.\<close>

theorem pool_bound:
  assumes "pool_step\<^sup>*\<^sup>* (new_pool n) p" and "pool_step\<^sup>*\<^sup>* p p'"
  shows "length (pl_running p') \<le> n \<and>
    distinct (pl_waiting p' @ pl_running p' @ map fst (pl_settled p')) \<and>
    set (pl_waiting p') \<union> set (pl_running p') \<union> dom (mget (pl_settled p')) = {..<pl_next p'} \<and>
    (\<forall>q r. mget (pl_settled p) q = Some r \<longrightarrow> mget (pl_settled p') q = Some r)"
proof -
  have p: "pool_ok p \<and> pl_size p = n" by (rule pool.reached_good [OF refl assms(1)])
  have ok: "pool_ok p'" and sz: "pl_size p' = n"
    using pool.run_good [OF assms(2) p] by simp_all
  have set: "\<forall>q r. mget (pl_settled p) q = Some r \<longrightarrow> mget (pl_settled p') q = Some r"
    using pool_run_settled [OF assms(2)] p by blast
  have "length (pl_running p') \<le> n" using ok sz by (simp add: pool_ok_def)
  moreover have "distinct (pl_waiting p' @ pl_running p' @ map fst (pl_settled p'))"
    using pool_ok_ids(1) [OF ok] by (simp only: pool_ids_def)
  moreover have "set (pl_waiting p') \<union> set (pl_running p') \<union> dom (mget (pl_settled p')) = {..<pl_next p'}"
    using pool_ok_ids(2) [OF ok] by (simp add: pool_ids_def dom_map_of_conv_image_fst Un_assoc)
  ultimately show ?thesis using set by blast
qed

theorem pool_bound_witness:
  "\<exists>p. pool_step\<^sup>*\<^sup>* (new_pool 1) p \<and> pl_running p = [0] \<and> pl_waiting p = [1] \<and> length (pl_running p) \<le> 1"
proof -
  let ?p = "\<lparr>pl_size = 1, pl_closed = False, pl_next = 2, pl_waiting = [1], pl_running = [0],
      pl_cancelled = [], pl_settled = []\<rparr>"
  have "pool_step (new_pool 1) (snd (pool_submit (new_pool 1)))"
    by (rule pool_step.submit) (rule prod.collapse [symmetric])
  moreover have "pool_step (snd (pool_submit (new_pool 1))) (snd (pool_submit (snd (pool_submit (new_pool 1)))))"
    by (rule pool_step.submit) (rule prod.collapse [symmetric])
  moreover have "pool_step (snd (pool_submit (snd (pool_submit (new_pool 1))))) ?p"
    by (rule pool_step.take [of 0]) (simp add: pool_take_def pool_submit_def new_pool_def ctx_done_def)
  ultimately have s: "pool_step\<^sup>*\<^sup>* (new_pool 1) ?p" by (rule converse_rtranclp_into_rtranclp [OF _ converse_rtranclp_into_rtranclp [OF _ r_into_rtranclp]])
  have "length (pl_running ?p) \<le> 1" using pool_bound [OF s rtranclp.rtrancl_refl] by blast
  then show ?thesis using s by (intro exI [of _ ?p]) simp
qed

text \<open>After the close, the steps of a worker, of a submitting goroutine and of an ending quantum.\<close>

definition pool_work :: "pool \<Rightarrow> pool \<Rightarrow> bool" where
  "pool_work p p' \<longleftrightarrow> (\<exists>q. pool_take q p = Some p' \<or> pool_drop q p = Some p' \<or> (\<exists>r. pool_finish q r p = Some p'))"

definition outstanding :: "pool \<Rightarrow> nat" where
  "outstanding p = length (pl_waiting p) + length (pl_running p)"

lemma closed_ctx: "pl_closed p \<Longrightarrow> ctx_done p q" "pl_closed p \<Longrightarrow> dropped p = stopped_result PoolClosed"
  by (simp_all add: ctx_done_def dropped_def)

lemma outstanding_works:
  assumes "pl_closed p" "0 < outstanding p"
  shows "\<exists>p'. pool_work p p'"
proof (cases "pl_waiting p")
  case Nil
  then obtain q where "q \<in> set (pl_running p)" using assms(2) by (cases "pl_running p") (auto simp: outstanding_def)
  then have "pool_finish q (stopped_result PoolClosed) p \<noteq> None" by (simp add: pool_finish_def)
  then show ?thesis unfolding pool_work_def by blast
next
  case (Cons q qs)
  then have "pool_drop q p \<noteq> None" using closed_ctx(1) [OF assms(1)] by (simp add: pool_drop_def)
  then show ?thesis unfolding pool_work_def by blast
qed

text \<open>What any step does to a closed pool: nobody joins, and who waited is answered as never run.\<close>

definition closes_on :: "pool \<Rightarrow> pool \<Rightarrow> bool" where
  "closes_on p p' \<longleftrightarrow>
     pl_closed p' \<and> pl_next p' = pl_next p \<and> outstanding p' \<le> outstanding p \<and>
     set (pl_running p') \<subseteq> set (pl_running p) \<and>
     (\<forall>q \<in> set (pl_waiting p). q \<in> set (pl_waiting p') \<or> mget (pl_settled p') q = Some (stopped_result PoolClosed))"

lemma closed_settled:
  assumes "pl_closed p" "q \<in> set (pl_waiting p)"
    and "p' = p\<lparr>pl_waiting := remove1 q (pl_waiting p), pl_settled := mput q (dropped p) (pl_settled p)\<rparr>"
  shows "closes_on p p'" "outstanding p' < outstanding p"
proof -
  have "0 < length (pl_waiting p)" using assms(2) by (cases "pl_waiting p") auto
  then show "outstanding p' < outstanding p" using assms(2) by (simp add: assms(3) outstanding_def length_remove1)
  then show "closes_on p p'"
    using assms(1) closed_ctx(2) [OF assms(1)] by (auto simp: closes_on_def assms(3) in_set_remove1)
qed

lemma closed_finished:
  assumes "pl_closed p" "pool_finish q r p = Some p'"
  shows "closes_on p p'" "outstanding p' < outstanding p"
proof -
  have q: "q \<in> set (pl_running p)"
    and p': "p' = p\<lparr>pl_running := remove1 q (pl_running p), pl_settled := mput q r (pl_settled p)\<rparr>"
    using assms(2) by (auto elim: finish_cases)
  have "0 < length (pl_running p)" using q by (cases "pl_running p") auto
  then show "outstanding p' < outstanding p" using q by (simp add: p' outstanding_def length_remove1)
  then show "closes_on p p'" using assms(1) set_remove1_subset by (fastforce simp: closes_on_def p')
qed

lemma closed_work:
  assumes c: "pl_closed p" and w: "pool_work p p'"
  shows "closes_on p p'" "outstanding p' < outstanding p"
proof -
  have "closes_on p p' \<and> outstanding p' < outstanding p"
    using w unfolding pool_work_def
  proof (elim exE disjE)
    fix q assume "pool_take q p = Some p'"
    then show ?thesis by (cases rule: take_cases) (use closed_settled [OF c] closed_ctx(1) [OF c] in blast)+
  next
    fix q assume "pool_drop q p = Some p'"
    then show ?thesis by (cases rule: drop_cases) (use closed_settled [OF c] in blast)
  next
    fix q r assume "pool_finish q r p = Some p'"
    from closed_finished [OF c this] show ?thesis ..
  qed
  then show "closes_on p p'" "outstanding p' < outstanding p" by blast+
qed

lemma closed_step:
  assumes "pl_closed p" "pool_step p p'"
  shows "closes_on p p'"
  using assms(2)
proof (cases rule: pool_step.cases)
  case (submit x)
  then show ?thesis using assms(1) by (auto simp: closes_on_def pool_submit_def)
next
  case (cancel q)
  then show ?thesis using assms(1) by (simp add: closes_on_def pool_cancel_def outstanding_def)
next
  case close
  then show ?thesis by (simp add: closes_on_def pool_close_def outstanding_def)
qed (use closed_work(1) [OF assms(1), of p'] in \<open>auto simp: pool_work_def\<close>)

lemma closed_run:
  assumes "pl_closed (f 0)" "\<And>i. pool_step (f i) (f (Suc i))" "pool_ok (f 0)" and "i \<le> j"
  shows "closes_on (f i) (f j)" "pool_ok (f i)" "pl_closed (f i)"
proof -
  have good: "pl_closed (f k) \<and> pool_ok (f k)" for k
  proof (induction k)
    case (Suc k)
    then show ?case using closed_step [OF _ assms(2) [of k]] pool_step_ok [OF assms(2) [of k]]
      by (simp add: closes_on_def)
  qed (use assms in simp)
  then show "pool_ok (f i)" "pl_closed (f i)" by simp_all
  show "closes_on (f i) (f j)" using assms(4)
  proof (induction j rule: dec_induct)
    case base
    then show ?case using good by (simp add: closes_on_def)
  next
    case (step k)
    have s: "closes_on (f k) (f (Suc k))" using closed_step good assms(2) by blast
    have "mget (pl_settled (f (Suc k))) q = Some r" if "mget (pl_settled (f k)) q = Some r" for q r
      using pool_step_settled [OF assms(2)] good that by blast
    with step.IH s show ?case unfolding closes_on_def by auto
  qed
qed

text \<open>C38. A shutdown drains the pool. Take any infinite run from the moment the pool is closed, in
  which the workers, the submitting goroutines and the ending quanta as a whole make progress:
  whenever one of them could take a step, some one of them takes one later. Then from some moment
  on nothing waits and nothing runs and every submission ever accepted has its answer; whoever
  waited at the close was answered as never run; and no quantum started after the close.\<close>

theorem pool_close_drains:
  assumes "pool_step\<^sup>*\<^sup>* (new_pool n) (f 0)" and "pl_closed (f 0)" and "\<And>i. pool_step (f i) (f (Suc i))"
    and progress: "\<And>i. (\<exists>p'. pool_work (f i) p') \<Longrightarrow> \<exists>j \<ge> i. pool_work (f j) (f (Suc j))"
  shows "(\<exists>i. \<forall>j \<ge> i. pl_waiting (f j) = [] \<and> pl_running (f j) = [] \<and>
      dom (mget (pl_settled (f j))) = {..<pl_next (f 0)} \<and>
      (\<forall>q \<in> set (pl_waiting (f 0)). mget (pl_settled (f j)) q = Some (stopped_result PoolClosed))) \<and>
    (\<forall>i. set (pl_running (f i)) \<subseteq> set (pl_running (f 0)))"
proof -
  have ok: "pool_ok (f 0)" using pool.reached_good [OF refl assms(1)] by simp
  note run = closed_run [OF assms(2,3) ok]
  have "\<exists>j \<ge> i. outstanding (f j) = 0" for i
  proof (induction "outstanding (f i)" arbitrary: i rule: less_induct)
    case less
    show ?case
    proof (cases "outstanding (f i) = 0")
      case False
      then obtain j where j: "j \<ge> i" "pool_work (f j) (f (Suc j))"
        using progress outstanding_works [OF run(3) [OF order_refl]] by blast
      have "outstanding (f (Suc j)) < outstanding (f i)"
        using closed_work(2) [OF run(3) [OF order_refl] j(2)] run(1) [OF j(1)] by (simp add: closes_on_def)
      from less [OF this] show ?thesis using j(1) by (meson Suc_leD order_trans)
    qed auto
  qed
  then obtain i where i: "outstanding (f i) = 0" by blast
  have "pl_waiting (f j) = [] \<and> pl_running (f j) = [] \<and> dom (mget (pl_settled (f j))) = {..<pl_next (f 0)} \<and>
      (\<forall>q \<in> set (pl_waiting (f 0)). mget (pl_settled (f j)) q = Some (stopped_result PoolClosed))" if "i \<le> j" for j
  proof -
    have "outstanding (f j) = 0" using run(1) [OF that] i by (simp add: closes_on_def)
    then have e: "pl_waiting (f j) = []" "pl_running (f j) = []" by (simp_all add: outstanding_def)
    have c: "closes_on (f 0) (f j)" by (rule run(1)) simp
    have "pool_ok (f j)" by (rule run(2) [OF order_refl])
    then have "dom (mget (pl_settled (f j))) = {..<pl_next (f j)}"
      using pool_ok_ids(2) [of "f j"] e by (simp add: pool_ids_def dom_map_of_conv_image_fst)
    then show ?thesis using e c by (simp add: closes_on_def)
  qed
  moreover have "set (pl_running (f j)) \<subseteq> set (pl_running (f 0))" for j
    using run(1) [of 0 j] by (simp add: closes_on_def)
  ultimately show ?thesis by blast
qed

theorem pool_close_drains_witness:
  "\<exists>f. f 0 = pool_close (snd (pool_submit (new_pool 1))) \<and> (\<forall>i. pool_step (f i) (f (Suc i))) \<and>
     (\<exists>i. \<forall>j \<ge> i. pl_waiting (f j) = [] \<and> mget (pl_settled (f j)) 0 = Some (stopped_result PoolClosed))"
proof -
  let ?p = "pool_close (snd (pool_submit (new_pool 1)))"
  define p' where "p' = ?p\<lparr>pl_waiting := [], pl_settled := [(0, stopped_result PoolClosed)]\<rparr>"
  define f where "f i = (if i = 0 then ?p else p')" for i :: nat
  have c: "pl_closed ?p" "pl_closed p'" "pl_running p' = []" "pl_waiting p' = []" "pl_waiting ?p = [0]"
    by (simp_all add: p'_def pool_close_def pool_submit_def new_pool_def)
  have d: "pool_drop 0 ?p = Some p'"
    by (simp add: p'_def pool_drop_def pool_close_def pool_submit_def new_pool_def ctx_done_def dropped_def)
  have "pool_step (new_pool 1) (snd (pool_submit (new_pool 1)))"
    by (rule pool_step.submit) (rule prod.collapse [symmetric])
  moreover have "pool_step (snd (pool_submit (new_pool 1))) ?p" by (rule pool_step.close)
  ultimately have s: "pool_step\<^sup>*\<^sup>* (new_pool 1) (f 0)"
    unfolding f_def by (simp add: converse_rtranclp_into_rtranclp)
  have "pool_close p' = p'" using c(2) by (simp add: pool_close_def)
  then have stutter: "pool_step p' p'" using pool_step.close [of p'] by simp
  have run: "pool_step (f i) (f (Suc i))" for i
    using pool_step.drop [OF d] stutter by (simp add: f_def)
  have idle: "\<not> pool_work p' x" for x
    using c by (simp add: pool_work_def pool_take_def pool_drop_def pool_finish_def)
  have "pool_work ?p p'" using d unfolding pool_work_def by blast
  then have progress: "\<exists>j \<ge> i. pool_work (f j) (f (Suc j))" if "\<exists>x. pool_work (f i) x" for i
    using that idle by (intro exI [of _ i]) (auto simp: f_def split: if_splits)
  have "pl_closed (f 0)" "0 \<in> set (pl_waiting (f 0))" using c by (simp_all add: f_def)
  with pool_close_drains [of 1 f, OF s _ run progress] have
    "\<exists>i. \<forall>j \<ge> i. pl_waiting (f j) = [] \<and> mget (pl_settled (f j)) 0 = Some (stopped_result PoolClosed)" by blast
  then show ?thesis using run by (intro exI [of _ f]) (simp add: f_def)
qed

end
