(* ===== verification/Sessions.thy ===== *)
theory Sessions
  imports Programs Pool "HOL-Library.Monad_Syntax"
begin

text \<open>
  The runtime's state and how a change of it is recorded (\<open>internal/agent/state.go\<close>,
  \<open>runtime.go\<close>), the read projections the API returns (\<open>snapshots.go\<close>, \<open>api.go\<close>), and the
  session API (\<open>sessions.go\<close>).

  \<open>wiring\<close> is what \<open>NewRuntime\<close> fixes; \<open>runtime\<close> is what changes. A process holds its journal's
  history and length, and \<open>proc_journal\<close> is \<open>newJournal\<close> over them and the one log. Every
  \<open>execute\<close> goroutine is an \<open>execution\<close>, with the guest's quantum that runs on the pool.

  An operation that dereferences a nil pointer panics: that is \<^term>\<open>None\<close>, and the operations
  are in the option monad. An operation that returns an error returns \<open>Inl\<close>.
\<close>

subsection \<open>Wiring\<close>

record ('l, 'd, 'r, 's, 'v, 'i, 'x) wiring =
  wi_log :: "('l, 'd) evlog"
  wi_codec :: "'d durable_codec"
  wi_enc :: "'r jrecord \<Rightarrow> err + 'd"
  wi_dec :: "'d \<Rightarrow> err + 'r jrecord"
  wi_sys :: "'r sysapi"
  wi_schemas :: "('s, 'v) text_schema_api"
  wi_programs :: "('s, 'i) registry"
  wi_validate_config :: "string \<Rightarrow> bytes \<Rightarrow> err option"
  wi_provider :: "process_context \<Rightarrow> manifest \<Rightarrow> 'x \<Rightarrow>
    (err + ('r, ('l, 'r, process_context, 's, 'x) cworld) table) \<times> 'x"
  wi_entropy :: "'x entropy"
  wi_tasks :: task_config
  wi_workers :: nat

subsection \<open>Sessions, processes, executions\<close>

record session_state =
  ss_id :: string
  ss_name :: string
  ss_tags :: "(string, string) gomap"
  ss_processes :: "string list"
  ss_active :: string
  ss_created :: instant
  ss_updated :: instant

record 'r process_state =
  ps_id :: string
  ps_session :: string
  ps_input :: string
  ps_manifest :: manifest
  ps_digest :: string
  ps_status :: process_status
  ps_attempt :: nat
  ps_answer :: string
  ps_err :: string
  ps_created :: instant
  ps_updated :: instant
  ps_started :: "instant option"
  ps_completed :: "instant option"
  ps_labels :: "string list"
  ps_history :: "'r history"
  ps_length :: nat
  ps_revision :: nat
  ps_fork :: nat
  ps_last_failure :: nat
  ps_aborts :: nat
  ps_stop :: "nat option"
  ps_stop_requested :: bool

text \<open>
  The quantum of an execution: not started, a guest on its chain with the chain's tape and
  schema cache, or ended.
\<close>

record ('l, 'r, 's, 'x) guest_run =
  gr_chain :: "(process_context, 'r, ('l, 'r, process_context, 's, 'x) cworld) dispatcher"
  gr_cursor :: nat
  gr_pending :: bool
  gr_schemas :: "(bytes, 's) gomap"

datatype ('l, 'r, 's, 'x) quantum =
    Unstarted
  | Running "('l, 'r, 's, 'x) guest_run"
  | Landed quantum_result

text \<open>Where the goroutine of \<open>execute\<close> stands.\<close>

datatype exec_phase =
    Launched
  | Submitted
  | Awaiting
  | Outcome quantum_result
  | Finishing process_status string "err option"

record ('l, 'r, 's, 'x) execution =
  ex_id :: nat
  ex_process :: string
  ex_phase :: exec_phase
  ex_cred :: process_context
  ex_program :: string
  ex_digest :: string
  ex_cancelled :: bool
  ex_quantum :: "('l, 'r, 's, 'x) quantum"

record ('l, 'r, 's, 'x) runtime =
  rt_log :: 'l
  rt_sessions :: "(string, session_state) gomap"
  rt_processes :: "(string, 'r process_state) gomap"
  rt_tasks :: "(string, task_record) gomap"
  rt_taints :: "process_context taints"
  rt_closed :: bool
  rt_cancelled :: bool
  rt_execs :: "('l, 'r, 's, 'x) execution list"
  rt_next :: nat
  rt_ext :: 'x

text \<open>\<open>context()\<close>.\<close>

definition proc_context :: "('r, 'z) process_state_scheme \<Rightarrow> process_context" where
  "proc_context p = \<lparr>pc_session = ps_session p, pc_process = ps_id p, pc_revision = ps_revision p\<rparr>"

definition proc_journal :: "'l \<Rightarrow> ('r, 'z) process_state_scheme \<Rightarrow> ('l, 'r) log_journal" where
  "proc_journal l p = new_log_journal l (ps_session p) (ps_id p) (ps_revision p) (ps_history p) (ps_length p)"

text \<open>A journal operation of a process.\<close>

definition proc_journal_ops :: "('l, 'd, 'r, 's, 'v, 'i, 'x) wiring \<Rightarrow> (('l, 'r) log_journal, 'r) journal_ops" where
  "proc_journal_ops W = log_journal_ops (wi_log W) (wi_enc W)"

definition rt_now :: "('l, 'd, 'r, 's, 'v, 'i, 'x) wiring \<Rightarrow> ('l, 'r, 's, 'x) runtime \<Rightarrow> instant" where
  "rt_now W rt = el_now (wi_log W) (rt_log rt)"

definition put_process :: "'r process_state \<Rightarrow> ('l, 'r, 's, 'x) runtime \<Rightarrow> ('l, 'r, 's, 'x) runtime" where
  "put_process p rt = rt\<lparr>rt_processes := mput (ps_id p) p (rt_processes rt)\<rparr>"

definition put_session :: "session_state \<Rightarrow> ('l, 'r, 's, 'x) runtime \<Rightarrow> ('l, 'r, 's, 'x) runtime" where
  "put_session s rt = rt\<lparr>rt_sessions := mput (ss_id s) s (rt_sessions rt)\<rparr>"

subsection \<open>Recording a change\<close>

definition random_id ::
    "('l, 'd, 'r, 's, 'v, 'i, 'x) wiring \<Rightarrow> string \<Rightarrow> ('l, 'r, 's, 'x) runtime \<Rightarrow>
     (err + string) \<times> ('l, 'r, 's, 'x) runtime"
where
  "random_id W pre rt =
     (case wi_entropy W 16 (rt_ext rt) of
        (Inl e, x) \<Rightarrow> (Inl e, rt\<lparr>rt_ext := x\<rparr>)
      | (Inr raw, x) \<Rightarrow> (Inr (pre @ hex_encode raw), rt\<lparr>rt_ext := x\<rparr>))"

definition stored_session :: "session_state \<Rightarrow> session_rec" where
  "stored_session s =
     \<lparr>se_id = ss_id s, se_name = ss_name s, se_created = ss_created s, se_updated = ss_updated s,
      se_active = '''', se_tags = ss_tags s\<rparr>"

definition stored_process :: "'r process_state \<Rightarrow> process_rec" where
  "stored_process p =
     \<lparr>pr_id = ps_id p, pr_session = ps_session p, pr_revision = ps_revision p, pr_input = ps_input p,
      pr_status = ps_status p, pr_attempt = ps_attempt p, pr_created = ps_created p,
      pr_updated = ps_updated p, pr_started = ps_started p, pr_completed = ps_completed p,
      pr_answer = ps_answer p, pr_error = ps_err p, pr_manifest = ps_manifest p,
      pr_digest = ps_digest p, pr_labels = ps_labels p, pr_fork = ps_fork p, pr_aborts = ps_aborts p\<rparr>"

definition append_event ::
    "('l, 'd, 'r, 's, 'v, 'i, 'x) wiring \<Rightarrow> string \<Rightarrow> err + 'd event \<Rightarrow> ('l, 'r, 's, 'x) runtime \<Rightarrow>
     err option \<times> ('l, 'r, 's, 'x) runtime"
where
  "append_event W sid ev rt =
     (case ev of
        Inl e \<Rightarrow> (Some e, rt)
      | Inr ev \<Rightarrow> (case el_append (wi_log W) sid ev (rt_log rt) of (x, l) \<Rightarrow> (x, rt\<lparr>rt_log := l\<rparr>)))"

definition append_session ::
    "('l, 'd, 'r, 's, 'v, 'i, 'x) wiring \<Rightarrow> session_state \<Rightarrow> ('l, 'r, 's, 'x) runtime \<Rightarrow>
     err option \<times> ('l, 'r, 's, 'x) runtime"
where
  "append_session W s rt =
     append_event W (ss_id s) (session_state_event (wi_codec W) (rt_now W rt) (stored_session s)) rt"

definition append_process ::
    "('l, 'd, 'r, 's, 'v, 'i, 'x) wiring \<Rightarrow> 'r process_state \<Rightarrow> ('l, 'r, 's, 'x) runtime \<Rightarrow>
     err option \<times> ('l, 'r, 's, 'x) runtime"
where
  "append_process W p rt =
     append_event W (ps_session p) (process_state_event (wi_codec W) (rt_now W rt) (stored_process p)) rt"

subsection \<open>Snapshots\<close>

record session_summary =
  sm_id :: string
  sm_name :: string
  sm_title :: string
  sm_created :: instant
  sm_updated :: instant
  sm_count :: nat
  sm_active :: string
  sm_tags :: "(string, string) gomap"

record process_snapshot =
  sp_id :: string
  sp_session :: string
  sp_input :: string
  sp_status :: process_status
  sp_attempt :: nat
  sp_revision :: nat
  sp_answer :: string
  sp_error :: string
  sp_labels :: "string list"
  sp_length :: nat
  sp_created :: instant
  sp_updated :: instant
  sp_started :: "instant option"
  sp_completed :: "instant option"
  sp_manifest :: manifest
  sp_digest :: string

record task_snapshot =
  st_id :: string
  st_process :: string
  st_revision :: nat
  st_position :: int
  st_syscall :: syscall
  st_summary :: string
  st_state :: decision
  st_resolution :: authorization
  st_created :: instant
  st_expires :: "instant option"
  st_resolved :: "instant option"
  st_token :: string

record process_log = process_snapshot +
  pl_entries :: "entry_view list"
  pl_tasks :: "task_snapshot list"

record session_snapshot = session_summary +
  sn_history :: "history_message list"
  sn_processes :: "process_log list"

definition process_snapshot_of :: "'r process_state \<Rightarrow> process_snapshot" where
  "process_snapshot_of p =
     \<lparr>sp_id = ps_id p, sp_session = ps_session p, sp_input = ps_input p, sp_status = ps_status p,
      sp_attempt = ps_attempt p, sp_revision = ps_revision p, sp_answer = ps_answer p,
      sp_error = ps_err p, sp_labels = ps_labels p, sp_length = ps_length p,
      sp_created = ps_created p, sp_updated = ps_updated p, sp_started = ps_started p,
      sp_completed = ps_completed p, sp_manifest = ps_manifest p, sp_digest = ps_digest p\<rparr>"

definition task_snapshot_of :: "task_config \<Rightarrow> task_record \<Rightarrow> task_snapshot" where
  "task_snapshot_of C r =
     \<lparr>st_id = tk_id r, st_process = pc_process (tk_scope r), st_revision = pc_revision (tk_scope r),
      st_position = tk_position r, st_syscall = tk_syscall r, st_summary = tk_summary r,
      st_state = tk_state r, st_resolution = tk_resolution r, st_created = tk_created r,
      st_expires = tk_expires r, st_resolved = tk_resolved r,
      st_token = task_token (tc_crypto C) (tc_secret C) (tk_id r)\<rparr>"

definition session_summary_of :: "('l, 'r, 's, 'x) runtime \<Rightarrow> session_state \<Rightarrow> session_summary option" where
  "session_summary_of rt s = do {
     first \<leftarrow> (case ss_processes s of
                  [] \<Rightarrow> Some ''''
                | pid # _ \<Rightarrow> map_option ps_input (mget (rt_processes rt) pid));
     Some \<lparr>sm_id = ss_id s, sm_name = ss_name s, sm_title = session_title first,
           sm_created = ss_created s, sm_updated = ss_updated s, sm_count = length (ss_processes s),
           sm_active = ss_active s, sm_tags = ss_tags s\<rparr>
   }"

text \<open>\<open>historyLocked\<close>, and the turns before a process.\<close>

definition turns :: "'r process_state \<Rightarrow> history_message list" where
  "turns p =
     (if ps_status p = ProcessCompleted then
        [\<lparr>hm_role = ''user'', hm_content = ps_input p, hm_labels = []\<rparr>,
         \<lparr>hm_role = ''assistant'', hm_content = ps_answer p, hm_labels = ps_labels p\<rparr>]
      else [])"

definition history_of :: "('l, 'r, 's, 'x) runtime \<Rightarrow> string list \<Rightarrow> history_message list option" where
  "history_of rt pids =
     map_option concat (those (map (\<lambda>pid. map_option turns (mget (rt_processes rt) pid)) pids))"

definition history_before :: "('l, 'r, 's, 'x) runtime \<Rightarrow> 'r process_state \<Rightarrow> history_message list option" where
  "history_before rt p = do {
     s \<leftarrow> mget (rt_sessions rt) (ps_session p);
     if ps_id p \<in> set (ss_processes s)
     then history_of rt (takeWhile (\<lambda>pid. pid \<noteq> ps_id p) (ss_processes s))
     else None
   }"

definition process_log_of ::
    "('l, 'd, 'r, 's, 'v, 'i, 'x) wiring \<Rightarrow> ('l, 'r, 's, 'x) runtime \<Rightarrow> string \<Rightarrow> process_log option"
where
  "process_log_of W rt pid = do {
     p \<leftarrow> mget (rt_processes rt) pid;
     es \<leftarrow> (case entries (wi_sys W) (ps_history p) of Inl _ \<Rightarrow> None | Inr es \<Rightarrow> Some es);
     Some (process_snapshot.extend (process_snapshot_of p)
       (process_log.fields es (map (task_snapshot_of (wi_tasks W)) (store_list (rt_tasks rt) (ps_id p)))))
   }"

definition session_snapshot_of ::
    "('l, 'd, 'r, 's, 'v, 'i, 'x) wiring \<Rightarrow> ('l, 'r, 's, 'x) runtime \<Rightarrow> session_state \<Rightarrow> session_snapshot option"
where
  "session_snapshot_of W rt s = do {
     procs \<leftarrow> those (map (process_log_of W rt) (ss_processes s));
     summary \<leftarrow> session_summary_of rt s;
     history \<leftarrow> history_of rt (ss_processes s);
     Some (session_summary.extend summary (session_snapshot.fields history procs))
   }"

subsection \<open>The session API\<close>

definition runtime_closed :: err where
  "runtime_closed = Conflict ''runtime is closed''"

definition no_session :: "string \<Rightarrow> err" where
  "no_session sid = NotFound (''session '' @ sid)"

definition check_session_name_free :: "string \<Rightarrow> string \<Rightarrow> ('l, 'r, 's, 'x) runtime \<Rightarrow> err option" where
  "check_session_name_free name except rt =
     (if name = '''' then None
      else if list_ex (\<lambda>sid. sid \<noteq> except \<and> map_option ss_name (mget (rt_sessions rt) sid) = Some name)
                (mkeys (rt_sessions rt))
      then Some (Conflict (''a session named '' @ quote name @ '' already exists''))
      else None)"

definition create_session ::
    "('l, 'd, 'r, 's, 'v, 'i, 'x) wiring \<Rightarrow> string \<Rightarrow> (string, string) gomap \<Rightarrow> ('l, 'r, 's, 'x) runtime \<Rightarrow>
     ((err + session_snapshot) \<times> ('l, 'r, 's, 'x) runtime) option"
where
  "create_session W name0 tags rt0 =
     (let name = trim_space name0 in
      case random_id W ''ses_'' rt0 of
        (Inl e, rt) \<Rightarrow> Some (Inl e, rt)
      | (Inr sid, rt) \<Rightarrow>
          if rt_closed rt then Some (Inl runtime_closed, rt)
          else (case check_session_name_free name '''' rt of
              Some e \<Rightarrow> Some (Inl e, rt)
            | None \<Rightarrow>
                (let s = \<lparr>ss_id = sid, ss_name = name, ss_tags = tags, ss_processes = [], ss_active = '''',
                          ss_created = rt_now W rt, ss_updated = rt_now W rt\<rparr> in
                 case append_session W s rt of
                   (Some e, rt1) \<Rightarrow> Some (Inl e, rt1)
                 | (None, rt1) \<Rightarrow> do {
                     let rt2 = put_session s rt1;
                     snap \<leftarrow> session_snapshot_of W rt2 s;
                     Some (Inr snap, rt2)
                   })))"

definition rename_session ::
    "('l, 'd, 'r, 's, 'v, 'i, 'x) wiring \<Rightarrow> string \<Rightarrow> string \<Rightarrow> ('l, 'r, 's, 'x) runtime \<Rightarrow>
     ((err + session_snapshot) \<times> ('l, 'r, 's, 'x) runtime) option"
where
  "rename_session W sid name0 rt =
     (let name = trim_space name0 in
      if rt_closed rt then Some (Inl runtime_closed, rt)
      else case mget (rt_sessions rt) sid of
          None \<Rightarrow> Some (Inl (no_session sid), rt)
        | Some s \<Rightarrow>
            (case check_session_name_free name sid rt of
               Some e \<Rightarrow> Some (Inl e, rt)
             | None \<Rightarrow>
                 (let renamed = s\<lparr>ss_name := name, ss_updated := rt_now W rt\<rparr> in
                  case append_session W renamed rt of
                    (Some e, rt1) \<Rightarrow> Some (Inl e, rt1)
                  | (None, rt1) \<Rightarrow> do {
                      let rt2 = put_session renamed rt1;
                      snap \<leftarrow> session_snapshot_of W rt2 renamed;
                      Some (Inr snap, rt2)
                    })))"

definition get_session ::
    "('l, 'd, 'r, 's, 'v, 'i, 'x) wiring \<Rightarrow> string \<Rightarrow> ('l, 'r, 's, 'x) runtime \<Rightarrow> (err + session_snapshot) option"
where
  "get_session W sid rt =
     (case mget (rt_sessions rt) sid of
        None \<Rightarrow> Some (Inl (no_session sid))
      | Some s \<Rightarrow> map_option Inr (session_snapshot_of W rt s))"

definition list_sessions :: "('l, 'r, 's, 'x) runtime \<Rightarrow> session_summary list option" where
  "list_sessions rt =
     those (map (\<lambda>sid. Option.bind (mget (rt_sessions rt) sid) (session_summary_of rt)) (mkeys (rt_sessions rt)))"

end
