(* ===== verification/Processes.thy ===== *)
theory Processes
  imports Sessions
begin

text \<open>
  The process API (\<open>internal/agent/processes.go\<close>), with the forks and launches and the end of
  a run that it shares with \<open>executor.go\<close> and \<open>recovery.go\<close>. The theory \<open>Executor\<close> has
  the rest of a process's life.

  An \<open>execute\<close> goroutine holds the runtime's lock in sections; each section, and each
  synchronization with the pool, is one operation here. Two sections are one operation only
  where nothing that may happen between them can be observed: the start's read and the
  submission, and the reading of the last call with the section that acts on it, because
  nothing but the process's own quantum writes its journal.
\<close>

subsection \<open>Forks and launches\<close>

definition fork_process ::
    "nat \<Rightarrow> 'r process_state \<Rightarrow> ('l, 'r, 's, 'x) runtime \<Rightarrow> 'r process_state \<times> ('l, 'r, 's, 'x) runtime"
where
  "fork_process off p rt =
     (let p1 = p\<lparr>ps_revision := ps_revision p + 1, ps_fork := off, ps_last_failure := 0, ps_length := off\<rparr> in
      (p1, put_process p1 (rt\<lparr>rt_taints := forget_process (proc_context p) (rt_taints rt)\<rparr>)))"

definition launch :: "string \<Rightarrow> ('l, 'r, 's, 'x) runtime \<Rightarrow> ('l, 'r, 's, 'x) runtime" where
  "launch pid rt =
     rt\<lparr>rt_execs := rt_execs rt @
          [\<lparr>ex_id = rt_next rt, ex_process = pid, ex_phase = Launched,
            ex_cred = \<lparr>pc_session = '''', pc_process = '''', pc_revision = 0\<rparr>, ex_program = '''', ex_digest = '''',
            ex_cancelled = False, ex_quantum = Unstarted\<rparr>],
        rt_next := rt_next rt + 1\<rparr>"

definition queued :: "instant \<Rightarrow> 'r process_state \<Rightarrow> 'r process_state" where
  "queued now p =
     p\<lparr>ps_status := ProcessQueued, ps_attempt := ps_attempt p + 1, ps_answer := '''', ps_err := '''',
       ps_stop_requested := False, ps_started := None, ps_completed := None, ps_updated := now\<rparr>"

definition relaunch ::
    "('l, 'd, 'r, 's, 'v, 'i, 'x) wiring \<Rightarrow> 'r process_state \<Rightarrow> ('l, 'r, 's, 'x) runtime \<Rightarrow>
     ((err + process_snapshot) \<times> ('l, 'r, 's, 'x) runtime) option"
where
  "relaunch W p rt =
     (if rt_closed rt then Some (Inl runtime_closed, rt)
      else do {
        s \<leftarrow> mget (rt_sessions rt) (ps_session p);
        let p1 = queued (rt_now W rt) p;
        let s1 = s\<lparr>ss_active := ps_id p, ss_updated := ps_updated p1\<rparr>;
        (case append_process W p1 (put_session s1 (put_process p1 rt)) of
           (Some e, rt1) \<Rightarrow> Some (Inl e, rt1)
         | (None, rt1) \<Rightarrow> Some (Inr (process_snapshot_of p1), launch (ps_id p) rt1))
      })"

subsection \<open>The end of a run\<close>

fun is_terminal :: "process_status \<Rightarrow> bool" where
  "is_terminal ProcessCompleted = True"
| "is_terminal ProcessFailed = True"
| "is_terminal ProcessStopped = True"
| "is_terminal ProcessInterrupted = True"
| "is_terminal _ = False"

definition finished ::
    "instant \<Rightarrow> process_context taints \<Rightarrow> process_status \<Rightarrow> string \<Rightarrow> err option \<Rightarrow> 'r process_state \<Rightarrow> 'r process_state"
where
  "finished now taints status answer failure p =
     p\<lparr>ps_status := status, ps_answer := answer, ps_updated := now, ps_completed := Some now,
       ps_stop := None, ps_err := (case failure of None \<Rightarrow> '''' | Some e \<Rightarrow> err_text e),
       ps_labels := (if is_terminal status then snapshot (proc_context p) taints else ps_labels p)\<rparr>"

definition finish ::
    "('l, 'd, 'r, 's, 'v, 'i, 'x) wiring \<Rightarrow> 'r process_state \<Rightarrow> process_status \<Rightarrow> string \<Rightarrow> err option \<Rightarrow>
     ('l, 'r, 's, 'x) runtime \<Rightarrow> ('l, 'r, 's, 'x) runtime option"
where
  "finish W p status answer failure rt = do {
     s \<leftarrow> mget (rt_sessions rt) (ps_session p);
     let now = rt_now W rt;
     let p1 = finished now (rt_taints rt) status answer failure p;
     let rt1 = (if is_terminal status
                then rt\<lparr>rt_taints := forget_process (proc_context p) (rt_taints rt)\<rparr> else rt);
     let s1 = s\<lparr>ss_active := (if status \<noteq> ProcessWaitingTask \<and> ss_active s = ps_id p then '''' else ss_active s),
                ss_updated := now\<rparr>;
     Some (snd (append_process W p1 (put_session s1 (put_process p1 rt1))))
   }"

subsection \<open>The process API\<close>

definition no_process :: "string \<Rightarrow> err" where
  "no_process pid = NotFound (''process '' @ pid)"

definition session_busy :: "string \<Rightarrow> err" where
  "session_busy pid = Conflict (''session already has active process '' @ pid)"

definition new_process ::
    "string \<Rightarrow> string \<Rightarrow> string \<Rightarrow> manifest \<Rightarrow> string \<Rightarrow> instant \<Rightarrow> 'r process_state"
where
  "new_process pid sid input spec digest now =
     \<lparr>ps_id = pid, ps_session = sid, ps_input = input, ps_manifest = spec, ps_digest = digest,
      ps_status = ProcessQueued, ps_attempt = 1, ps_answer = '''', ps_err = '''', ps_created = now,
      ps_updated = now, ps_started = None, ps_completed = None, ps_labels = [], ps_history = [],
      ps_length = 0, ps_revision = 1, ps_fork = 0, ps_last_failure = 0, ps_aborts = 0, ps_stop = None,
      ps_stop_requested = False\<rparr>"

text \<open>What \<open>CreateProcess\<close> checks before it takes the lock: the canonical manifest and its program.\<close>

definition check_request ::
    "('l, 'd, 'r, 's, 'v, 'i, 'x) wiring \<Rightarrow> string \<Rightarrow> manifest \<Rightarrow> err + manifest \<times> ('s, 'i) compiled_program"
where
  "check_request W input spec =
     (if input = '''' then Inl (Invalid ''input is required'')
      else case validate spec (wi_validate_config W) of
          Inl e \<Rightarrow> Inl e
        | Inr spec1 \<Rightarrow>
            (case mget (wi_programs W) (m_program spec1) of
               None \<Rightarrow> Inl (Invalid (''program '' @ quote (m_program spec1) @ '' is not registered''))
             | Some program \<Rightarrow>
                 (case validate_input (wi_schemas W) program input of
                    Some e \<Rightarrow> Inl e
                  | None \<Rightarrow> Inr (spec1, program))))"

definition create_process ::
    "('l, 'd, 'r, 's, 'v, 'i, 'x) wiring \<Rightarrow> string \<Rightarrow> string \<Rightarrow> manifest \<Rightarrow> ('l, 'r, 's, 'x) runtime \<Rightarrow>
     (err + process_snapshot) \<times> ('l, 'r, 's, 'x) runtime"
where
  "create_process W sid input spec rt0 =
     (case check_request W input spec of
        Inl e \<Rightarrow> (Inl e, rt0)
      | Inr (spec1, program) \<Rightarrow>
          (case random_id W ''proc_'' rt0 of
             (Inl e, rt) \<Rightarrow> (Inl e, rt)
           | (Inr pid, rt) \<Rightarrow>
               if rt_closed rt then (Inl runtime_closed, rt)
               else (case mget (rt_sessions rt) sid of
                   None \<Rightarrow> (Inl (no_session sid), rt)
                 | Some s \<Rightarrow>
                     if ss_active s \<noteq> '''' then (Inl (session_busy (ss_active s)), rt)
                     else
                       (let p = new_process pid sid input spec1 (pg_digest program) (rt_now W rt) in
                        case append_process W p rt of
                          (Some e, rt1) \<Rightarrow> (Inl e, rt1)
                        | (None, rt1) \<Rightarrow>
                            (Inr (process_snapshot_of p),
                             launch pid
                               (put_session (s\<lparr>ss_processes := ss_processes s @ [pid], ss_active := pid,
                                               ss_updated := rt_now W rt\<rparr>)
                                 (put_process p rt1)))))))"

definition get_process :: "string \<Rightarrow> ('l, 'r, 's, 'x) runtime \<Rightarrow> err + process_snapshot" where
  "get_process pid rt =
     (case mget (rt_processes rt) pid of
        None \<Rightarrow> Inl (no_process pid)
      | Some p \<Rightarrow> Inr (process_snapshot_of p))"

fun status_text :: "process_status \<Rightarrow> string" where
  "status_text ProcessQueued = ''queued''"
| "status_text ProcessRunning = ''running''"
| "status_text ProcessStopping = ''stopping''"
| "status_text ProcessWaitingTask = ''waiting_for_task''"
| "status_text ProcessInterrupted = ''interrupted''"
| "status_text ProcessCompleted = ''completed''"
| "status_text ProcessStopped = ''stopped''"
| "status_text ProcessFailed = ''failed''"

text \<open>Calling a stop function: the submission's context is cancelled.\<close>

definition cancel_exec :: "nat option \<Rightarrow> ('l, 'r, 's, 'x) runtime \<Rightarrow> ('l, 'r, 's, 'x) runtime" where
  "cancel_exec stop rt =
     rt\<lparr>rt_execs := map (\<lambda>e. if Some (ex_id e) = stop then e\<lparr>ex_cancelled := True\<rparr> else e) (rt_execs rt)\<rparr>"

definition stop_process ::
    "('l, 'd, 'r, 's, 'v, 'i, 'x) wiring \<Rightarrow> string \<Rightarrow> ('l, 'r, 's, 'x) runtime \<Rightarrow>
     ((err + process_snapshot) \<times> ('l, 'r, 's, 'x) runtime) option"
where
  "stop_process W pid rt =
     (case mget (rt_processes rt) pid of
        None \<Rightarrow> Some (Inl (no_process pid), rt)
      | Some p \<Rightarrow>
          if ps_status p = ProcessQueued \<or> ps_status p = ProcessRunning then
            (let p1 = p\<lparr>ps_stop_requested := True, ps_status := ProcessStopping, ps_updated := rt_now W rt\<rparr> in
             Some (Inr (process_snapshot_of p1),
                   snd (append_process W p1 (cancel_exec (ps_stop p) (put_process p1 rt)))))
          else if ps_status p = ProcessWaitingTask then do {
            rt1 \<leftarrow> finish W p ProcessStopped '''' (Some Canceled) rt;
            p1 \<leftarrow> mget (rt_processes rt1) pid;
            Some (Inr (process_snapshot_of p1), rt1)
          }
          else if ps_status p = ProcessStopping \<or> ps_status p = ProcessStopped then
            Some (Inr (process_snapshot_of p), rt)
          else
            Some (Inl (Conflict (''process '' @ pid @ '' cannot be stopped from '' @ status_text (ps_status p))), rt))"

datatype retry_mode = RetryResume | RetryRestart | OtherMode string

definition check_retry ::
    "('l, 'd, 'r, 's, 'v, 'i, 'x) wiring \<Rightarrow> 'r process_state \<Rightarrow> retry_mode \<Rightarrow> ('l, 'r, 's, 'x) runtime \<Rightarrow>
     err option option"
where
  "check_retry W p mode rt =
     (case registry_bound (wi_programs W) (m_program (ps_manifest p)) (ps_digest p) of
        Inl e \<Rightarrow> Some (Some e)
      | Inr _ \<Rightarrow>
          if ps_status p = ProcessCompleted \<and> mode \<noteq> RetryRestart then
            Some (Some (Conflict (''completed process '' @ ps_id p @ '' can only be restarted, not resumed'')))
          else if ps_status p \<notin> {ProcessWaitingTask, ProcessStopped, ProcessFailed, ProcessInterrupted, ProcessCompleted} then
            Some (Some (Conflict (''process '' @ ps_id p @ '' cannot retry from '' @ status_text (ps_status p))))
          else do {
            s \<leftarrow> mget (rt_sessions rt) (ps_session p);
            if ss_processes s = [] then None
            else if last (ss_processes s) \<noteq> ps_id p then
              Some (Some (Conflict ''only the latest session process can be retried''))
            else if ss_active s \<noteq> '''' \<and> ss_active s \<noteq> ps_id p then Some (Some (session_busy (ss_active s)))
            else Some None
          })"

definition retry ::
    "('l, 'd, 'r, 's, 'v, 'i, 'x) wiring \<Rightarrow> string \<Rightarrow> retry_mode \<Rightarrow> ('l, 'r, 's, 'x) runtime \<Rightarrow>
     ((err + process_snapshot) \<times> ('l, 'r, 's, 'x) runtime) option"
where
  "retry W pid mode rt =
     (if mode \<noteq> RetryResume \<and> mode \<noteq> RetryRestart then
        Some (Inl (Invalid ''retry mode must be resume or restart''), rt)
      else case mget (rt_processes rt) pid of
          None \<Rightarrow> Some (Inl (no_process pid), rt)
        | Some p \<Rightarrow> do {
            refused \<leftarrow> check_retry W p mode rt;
            (case refused of
               Some e \<Rightarrow> Some (Inl e, rt)
             | None \<Rightarrow>
                 (case outermost_open_begin (proc_journal_ops W) (proc_journal (rt_log rt) p) of
                    Inl _ \<Rightarrow> None
                  | Inr (off, open_) \<Rightarrow>
                      (let (p1, rt1) =
                         (if mode = RetryRestart then fork_process 0 p rt
                          else if ps_status p = ProcessWaitingTask then (p, rt)
                          else if open_ then fork_process off p rt
                          else (p, rt)) in
                       relaunch W p1 rt1)))
          })"

end
