(* ===== verification/Executor.thy ===== *)
theory Executor
  imports Processes
begin

text \<open>
  One quantum and how it ends (\<open>executor.go\<close>), what follows a bad end (\<open>recovery.go\<close>), and the
  task API with the sweep (\<open>tasks.go\<close>).
\<close>

subsection \<open>The goroutine's first sections\<close>

definition put_exec :: "('l, 'r, 's, 'x) execution \<Rightarrow> ('l, 'r, 's, 'x) runtime \<Rightarrow> ('l, 'r, 's, 'x) runtime" where
  "put_exec e rt = rt\<lparr>rt_execs := map (\<lambda>y. if ex_id y = ex_id e then e else y) (rt_execs rt)\<rparr>"

definition drop_exec :: "('l, 'r, 's, 'x) execution \<Rightarrow> ('l, 'r, 's, 'x) runtime \<Rightarrow> ('l, 'r, 's, 'x) runtime" where
  "drop_exec e rt = rt\<lparr>rt_execs := filter (\<lambda>y. ex_id y \<noteq> ex_id e) (rt_execs rt)\<rparr>"

text \<open>
  The start: a process stopped before it runs ends at once; otherwise the quantum is submitted,
  which a pool whose root is done refuses.
\<close>

definition exec_begin ::
    "('l, 'r, 's, 'x) execution \<Rightarrow> ('l, 'r, 's, 'x) runtime \<Rightarrow> ('l, 'r, 's, 'x) runtime option"
where
  "exec_begin e rt = do {
     p \<leftarrow> mget (rt_processes rt) (ex_process e);
     Some (put_exec
       (if ps_stop_requested p then e\<lparr>ex_phase := Finishing ProcessStopped '''' (Some Canceled)\<rparr>
        else if rt_cancelled rt then e\<lparr>ex_phase := Finishing ProcessInterrupted '''' (Some PoolClosed)\<rparr>
        else e\<lparr>ex_phase := Submitted, ex_cred := proc_context p, ex_program := m_program (ps_manifest p),
               ex_digest := ps_digest p\<rparr>) rt)
   }"

definition exec_mark ::
    "('l, 'd, 'r, 's, 'v, 'i, 'x) wiring \<Rightarrow> ('l, 'r, 's, 'x) execution \<Rightarrow> ('l, 'r, 's, 'x) runtime \<Rightarrow>
     ('l, 'r, 's, 'x) runtime option"
where
  "exec_mark W e rt = do {
     p \<leftarrow> mget (rt_processes rt) (ex_process e);
     let p1 = p\<lparr>ps_stop := Some (ex_id e), ps_status := ProcessRunning, ps_started := Some (rt_now W rt),
                ps_updated := rt_now W rt\<rparr>;
     Some (put_exec
       (e\<lparr>ex_phase := Awaiting, ex_cancelled := ex_cancelled e \<or> ps_stop_requested p\<rparr>)
       (snd (append_process W p1 (put_process p1 rt))))
   }"

definition exec_land ::
    "quantum_result \<Rightarrow> ('l, 'r, 's, 'x) execution \<Rightarrow> ('l, 'r, 's, 'x) runtime \<Rightarrow> ('l, 'r, 's, 'x) runtime option"
where
  "exec_land r e rt = do {
     p \<leftarrow> mget (rt_processes rt) (ex_process e);
     Some (put_exec (e\<lparr>ex_phase := Outcome r\<rparr>) (put_process (p\<lparr>ps_stop := None\<rparr>) rt))
   }"

subsection \<open>What the journal says\<close>

text \<open>
  \<open>lastCall\<close>: the outer option is a panic (a record that is missing or of the wrong shape is
  dereferenced), the inner one says there is no last completed call.
\<close>

definition last_call ::
    "('l, 'd, 'r, 's, 'v, 'i, 'x) wiring \<Rightarrow> 'l \<Rightarrow> 'r process_state \<Rightarrow> (syscall \<times> 'r) option option"
where
  "last_call W l p =
     (let j = proc_journal l p; n = j_length (proc_journal_ops W) j in
      if n = 0 \<or> odd n then Some None
      else (case (j_load (proc_journal_ops W) j (n - 2), j_load (proc_journal_ops W) j (n - 1)) of
          (Inr intent, Inr completion) \<Rightarrow>
            (case (jr_syscall intent, jr_result completion) of
               (Some c, Some r) \<Rightarrow> Some (Some (c, r))
             | _ \<Rightarrow> None)
        | _ \<Rightarrow> None))"

text \<open>\<open>guestAbort\<close>, on the last call: the reason, or no abort.\<close>

definition guest_abort :: "(syscall \<times> 'r) option \<Rightarrow> string option" where
  "guest_abort lc =
     (case lc of
        None \<Rightarrow> None
      | Some (c, r) \<Rightarrow>
          if sc_name c \<noteq> sys_abort then None
          else Some (fst (unmarshal_field as_string ''reason'' '''' (sc_args c))))"

definition answer_from_journal :: "'r sysapi \<Rightarrow> (syscall \<times> 'r) option \<Rightarrow> err + string" where
  "answer_from_journal S lc =
     (case lc of
        None \<Rightarrow> Inl (Plain ''agent did not finish: its last call was not sys.output'')
      | Some (c, r) \<Rightarrow>
          if sc_name c \<noteq> sys_output then Inl (Plain ''agent did not finish: its last call was not sys.output'')
          else if status_of S r \<noteq> StatusResult then
            Inl (Plain ''agent did not finish: the output schema rejected its final answer'')
          else (case unmarshal_field as_string ''answer'' '''' (sc_args c) of
              (answer, True) \<Rightarrow> Inr answer
            | (_, False) \<Rightarrow> Inl (Wrapped ''decode the final answer'' json_error)))"

subsection \<open>Recovery\<close>

definition max_abort_retries :: nat where
  "max_abort_retries = 10"

definition abort_failure :: "string \<Rightarrow> err" where
  "abort_failure reason =
     (if reason = '''' then Plain ''guest aborted'' else Plain (''guest aborted: '' @ reason))"

definition retry_aborted_section ::
    "('l, 'd, 'r, 's, 'v, 'i, 'x) wiring \<Rightarrow> 'r process_state \<Rightarrow> string \<Rightarrow> ('l, 'r, 's, 'x) runtime \<Rightarrow>
     ('l, 'r, 's, 'x) runtime option"
where
  "retry_aborted_section W p reason rt =
     (case outermost_open_begin (proc_journal_ops W) (proc_journal (rt_log rt) p) of
        Inl _ \<Rightarrow> None
      | Inr (off, open_) \<Rightarrow>
          if \<not> open_ then finish W p ProcessFailed '''' (Some (abort_failure reason)) rt
          else if max_abort_retries \<le> ps_aborts p then
            finish W p ProcessFailed ''''
              (Some (Plain (err_text (abort_failure reason) @ '' (no attempts left after '' @
                            show_nat max_abort_retries @ '')''))) rt
          else
            (let (p1, rt1) = fork_process off (p\<lparr>ps_aborts := ps_aborts p + 1\<rparr>) rt in
             map_option snd (relaunch W p1 rt1)))"

text \<open>Whether the failure earned another run.\<close>

definition redrive_after_failure ::
    "('l, 'd, 'r, 's, 'v, 'i, 'x) wiring \<Rightarrow> 'r process_state \<Rightarrow> ('l, 'r, 's, 'x) runtime \<Rightarrow>
     (bool \<times> ('l, 'r, 's, 'x) runtime) option"
where
  "redrive_after_failure W p rt =
     (case outermost_open_begin (proc_journal_ops W) (proc_journal (rt_log rt) p) of
        Inl _ \<Rightarrow> None
      | Inr (_, open_) \<Rightarrow>
          if ps_stop_requested p \<or> rt_closed rt \<or> \<not> open_ \<or> ps_last_failure p = ps_length p then Some (False, rt)
          else
            (case relaunch W (p\<lparr>ps_last_failure := ps_length p\<rparr>)
                    (put_process (p\<lparr>ps_last_failure := ps_length p\<rparr>) rt) of
               None \<Rightarrow> None
             | Some (Inl _, rt1) \<Rightarrow> Some (False, rt1)
             | Some (Inr _, rt1) \<Rightarrow> Some (True, rt1)))"

subsection \<open>How a quantum ends\<close>

definition to_finish ::
    "process_status \<Rightarrow> string \<Rightarrow> err option \<Rightarrow> ('l, 'r, 's, 'x) execution \<Rightarrow> ('l, 'r, 's, 'x) runtime \<Rightarrow>
     ('l, 'r, 's, 'x) runtime"
where
  "to_finish status answer failure e rt = put_exec (e\<lparr>ex_phase := Finishing status answer failure\<rparr>) rt"

definition fail_process ::
    "('l, 'd, 'r, 's, 'v, 'i, 'x) wiring \<Rightarrow> ('l, 'r, 's, 'x) execution \<Rightarrow> 'r process_state \<Rightarrow> err option \<Rightarrow>
     ('l, 'r, 's, 'x) runtime \<Rightarrow> ('l, 'r, 's, 'x) runtime option"
where
  "fail_process W e p failure rt =
     map_option (\<lambda>(again, rt1). if again then drop_exec e rt1 else to_finish ProcessFailed '''' failure e rt1)
       (redrive_after_failure W p rt)"

text \<open>\<open>errors.Is(err, context.DeadlineExceeded)\<close>.\<close>

fun is_deadline :: "err \<Rightarrow> bool" where
  "is_deadline DeadlineExceeded = True"
| "is_deadline (Wrapped m e) = is_deadline e"
| "is_deadline _ = False"

definition stopped_status :: "bool \<Rightarrow> err option \<Rightarrow> process_status" where
  "stopped_status closing failure =
     (if closing \<or> (case failure of None \<Rightarrow> False | Some e \<Rightarrow> is_deadline e)
      then ProcessInterrupted else ProcessStopped)"

definition record_outcome ::
    "('l, 'd, 'r, 's, 'v, 'i, 'x) wiring \<Rightarrow> quantum_result \<Rightarrow> ('l, 'r, 's, 'x) execution \<Rightarrow>
     ('l, 'r, 's, 'x) runtime \<Rightarrow> ('l, 'r, 's, 'x) runtime option"
where
  "record_outcome W r e rt =
     (case qr_status r of
        ResumeCompleted \<Rightarrow> do {
          p \<leftarrow> mget (rt_processes rt) (ex_process e);
          lc \<leftarrow> last_call W (rt_log rt) p;
          (case guest_abort lc of
             Some reason \<Rightarrow> map_option (drop_exec e) (retry_aborted_section W p reason rt)
           | None \<Rightarrow>
               (case answer_from_journal (wi_sys W) lc of
                  Inl failure \<Rightarrow> fail_process W e p (Some failure) rt
                | Inr answer \<Rightarrow> Some (to_finish ProcessCompleted answer None e rt)))
        }
      | ResumeYielded \<Rightarrow> Some (to_finish ProcessWaitingTask '''' None e rt)
      | ResumeStopped \<Rightarrow> Some (to_finish (stopped_status (rt_closed rt) (qr_err r)) '''' (qr_err r) e rt)
      | ResumeFailed \<Rightarrow> do {
          p \<leftarrow> mget (rt_processes rt) (ex_process e);
          fail_process W e p (qr_err r) rt
        })"

definition exec_finish ::
    "('l, 'd, 'r, 's, 'v, 'i, 'x) wiring \<Rightarrow> process_status \<Rightarrow> string \<Rightarrow> err option \<Rightarrow>
     ('l, 'r, 's, 'x) execution \<Rightarrow> ('l, 'r, 's, 'x) runtime \<Rightarrow> ('l, 'r, 's, 'x) runtime option"
where
  "exec_finish W status answer failure e rt = do {
     p \<leftarrow> mget (rt_processes rt) (ex_process e);
     map_option (drop_exec e) (finish W p status answer failure rt)
   }"

subsection \<open>The quantum on the pool\<close>

text \<open>\<open>newDispatcher\<close>: what it reads of the process under the lock, and the chain it builds.\<close>

definition lifecycle_of ::
    "('l, 'd, 'r, 's, 'v, 'i, 'x) wiring \<Rightarrow> ('s, 'i) compiled_program \<Rightarrow> 'r process_state \<Rightarrow>
     history_message list \<Rightarrow> lifecycle"
where
  "lifecycle_of W program p history =
     \<lparr>lc_input = ps_input p, lc_history = history, lc_skills = m_skills (ps_manifest p),
      lc_attempt = ps_attempt p, lc_validate = validate_output (wi_schemas W) program\<rparr>"

definition quantum_chain ::
    "('l, 'd, 'r, 's, 'v, 'i, 'x) wiring \<Rightarrow> process_context \<Rightarrow> ('s, 'i) compiled_program \<Rightarrow>
     ('l, 'r, 's, 'x) runtime \<Rightarrow>
     ((err + (process_context, 'r, ('l, 'r, process_context, 's, 'x) cworld) dispatcher) \<times>
      ('l, 'r, 's, 'x) runtime) option"
where
  "quantum_chain W cred program rt = do {
     p \<leftarrow> mget (rt_processes rt) (pc_process cred);
     history \<leftarrow> (if shares_history (ps_manifest p) then history_before rt p else Some []);
     (case wi_provider W cred (ps_manifest p) (rt_ext rt) of
        (provided, x) \<Rightarrow>
          Some (new_dispatcher (schema_api.truncate (wi_schemas W)) (wi_sys W) (wi_log W) (wi_codec W) (wi_enc W)
                  (wi_entropy W) (wi_tasks W) (lifecycle_of W program p history) (ps_manifest p) provided
                  (proc_journal (rt_log rt) p),
                rt\<lparr>rt_ext := x\<rparr>))
   }"

text \<open>A set-up that fails in a context that is done is a stop.\<close>

definition setup_failed :: "err option \<Rightarrow> err \<Rightarrow> quantum_result" where
  "setup_failed ctx e =
     (case ctx of
        Some c \<Rightarrow> \<lparr>qr_status = ResumeStopped, qr_err = Some c\<rparr>
      | None \<Rightarrow> \<lparr>qr_status = ResumeFailed, qr_err = Some e\<rparr>)"

definition quantum_start ::
    "('l, 'd, 'r, 's, 'v, 'i, 'x) wiring \<Rightarrow> err option \<Rightarrow> ('l, 'r, 's, 'x) execution \<Rightarrow>
     ('l, 'r, 's, 'x) runtime \<Rightarrow> ('l, 'r, 's, 'x) runtime option"
where
  "quantum_start W ctx e rt =
     (case registry_bound (wi_programs W) (ex_program e) (ex_digest e) of
        Inl x \<Rightarrow> Some (put_exec (e\<lparr>ex_quantum := Landed (setup_failed ctx x)\<rparr>) rt)
      | Inr program \<Rightarrow>
          (case quantum_chain W (ex_cred e) program rt of
             None \<Rightarrow> None
           | Some (Inl x, rt1) \<Rightarrow> Some (put_exec (e\<lparr>ex_quantum := Landed (setup_failed ctx x)\<rparr>) rt1)
           | Some (Inr chain, rt1) \<Rightarrow>
               Some (put_exec (e\<lparr>ex_quantum :=
                 Running \<lparr>gr_chain = chain, gr_cursor = 0, gr_pending = False, gr_schemas = []\<rparr>\<rparr>) rt1)))"

text \<open>The world of the chain, and what a call changed of it.\<close>

definition cworld_of ::
    "('l, 'r, 's, 'x) runtime \<Rightarrow> 'r process_state \<Rightarrow> ('l, 'r, 's, 'x) guest_run \<Rightarrow>
     ('l, 'r, process_context, 's, 'x) cworld"
where
  "cworld_of rt p g =
     \<lparr>tp_journal = proc_journal (rt_log rt) p, tp_cursor = gr_cursor g, tp_pending = gr_pending g,
      mw_taints = rt_taints rt, mw_schemas = gr_schemas g, cw_tasks = rt_tasks rt, cw_ext = rt_ext rt\<rparr>"

definition put_cworld ::
    "'r process_state \<Rightarrow> ('l, 'r, process_context, 's, 'x) cworld \<Rightarrow> ('l, 'r, 's, 'x) runtime \<Rightarrow>
     ('l, 'r, 's, 'x) runtime"
where
  "put_cworld p w rt =
     put_process (p\<lparr>ps_history := lj_history (tp_journal w), ps_length := lj_length (tp_journal w)\<rparr>)
       (rt\<lparr>rt_log := lj_log (tp_journal w), rt_tasks := cw_tasks w, rt_taints := mw_taints w, rt_ext := cw_ext w\<rparr>)"

definition guest_after ::
    "('l, 'r, 's, 'x) guest_run \<Rightarrow> ('l, 'r, process_context, 's, 'x) cworld \<Rightarrow> ('l, 'r, 's, 'x) guest_run"
where
  "guest_after g w = g\<lparr>gr_cursor := tp_cursor w, gr_pending := tp_pending w, gr_schemas := mw_schemas w\<rparr>"

text \<open>The guest makes a call; the processor hands it to the chain with an empty context.\<close>

definition quantum_call ::
    "syscall \<Rightarrow> ('l, 'r, 's, 'x) guest_run \<Rightarrow> ('l, 'r, 's, 'x) execution \<Rightarrow> ('l, 'r, 's, 'x) runtime \<Rightarrow>
     ((err + 'r) \<times> ('l, 'r, 's, 'x) runtime) option"
where
  "quantum_call c g e rt = do {
     p \<leftarrow> mget (rt_processes rt) (ex_process e);
     (case gr_chain g [] (ex_cred e) c no_auth (cworld_of rt p g) of
        (y, w) \<Rightarrow> Some (y, put_exec (e\<lparr>ex_quantum := Running (guest_after g w)\<rparr>) (put_cworld p w rt)))
   }"

definition quantum_end ::
    "quantum_result \<Rightarrow> ('l, 'r, 's, 'x) execution \<Rightarrow> ('l, 'r, 's, 'x) runtime \<Rightarrow> ('l, 'r, 's, 'x) runtime"
where
  "quantum_end r e rt = put_exec (e\<lparr>ex_quantum := Landed r\<rparr>) rt"

text \<open>A submission whose context is done before a worker has it never starts (\<open>pool.go\<close>).\<close>

definition quantum_drop ::
    "('l, 'r, 's, 'x) execution \<Rightarrow> ('l, 'r, 's, 'x) runtime \<Rightarrow> ('l, 'r, 's, 'x) runtime"
where
  "quantum_drop e rt =
     put_exec (e\<lparr>ex_quantum := Landed (stopped_result (if rt_cancelled rt then PoolClosed else Dropped))\<rparr>) rt"

definition guests_running :: "('l, 'r, 's, 'x) runtime \<Rightarrow> nat" where
  "guests_running rt = length (filter (\<lambda>e. case ex_quantum e of Running _ \<Rightarrow> True | _ \<Rightarrow> False) (rt_execs rt))"

subsection \<open>Tasks\<close>

definition on_tasks ::
    "('l task_store \<Rightarrow> 'a \<times> 'l task_store) \<Rightarrow> ('l, 'r, 's, 'x) runtime \<Rightarrow> 'a \<times> ('l, 'r, 's, 'x) runtime"
where
  "on_tasks f rt =
     (case f \<lparr>ts_records = rt_tasks rt, ts_log = rt_log rt\<rparr> of
        (x, s) \<Rightarrow> (x, rt\<lparr>rt_tasks := ts_records s, rt_log := ts_log s\<rparr>))"

text \<open>\<open>wake\<close>, with the error it returns.\<close>

definition wake ::
    "('l, 'd, 'r, 's, 'v, 'i, 'x) wiring \<Rightarrow> string \<Rightarrow> ('l, 'r, 's, 'x) runtime \<Rightarrow>
     (err option \<times> ('l, 'r, 's, 'x) runtime) option"
where
  "wake W pid rt = do {
     p \<leftarrow> mget (rt_processes rt) pid;
     if ps_status p \<noteq> ProcessWaitingTask then Some (None, rt)
     else map_option (\<lambda>(y, rt1). (case y of Inl e \<Rightarrow> Some e | Inr _ \<Rightarrow> None, rt1)) (retry W pid RetryResume rt)
   }"

fun decision_text :: "decision \<Rightarrow> string" where
  "decision_text Pending = ''pending''"
| "decision_text Expired = ''expired''"
| "decision_text (OtherState s) = s"
| "decision_text _ = ''''"

definition resolve_task ::
    "('l, 'd, 'r, 's, 'v, 'i, 'x) wiring \<Rightarrow> string \<Rightarrow> string \<Rightarrow> authorization \<Rightarrow> ('l, 'r, 's, 'x) runtime \<Rightarrow>
     ((err + task_snapshot) \<times> ('l, 'r, 's, 'x) runtime) option"
where
  "resolve_task W tid token resolution rt =
     (if \<not> resolvable_decision (au_decision resolution) then
        Some (Inl (Invalid (''unsupported task decision '' @ quote (decision_text (au_decision resolution)))), rt)
      else if au_decision resolution = Completed \<and> \<not> json_valid (au_data resolution) then
        Some (Inl (Invalid ''completed task data must be valid JSON''), rt)
      else
        (case on_tasks (store_resolve (wi_log W) (wi_codec W) tid (cr_sha256 (tc_crypto (wi_tasks W)) token)
                         resolution (rt_now W rt)) rt of
           (Inl e, rt1) \<Rightarrow> Some (Inl e, rt1)
         | (Inr r, rt1) \<Rightarrow>
             map_option (\<lambda>(_, rt2). (Inr (task_snapshot_of (wi_tasks W) r), rt2))
               (wake W (pc_process (tk_scope r)) rt1)))"

definition settle_task ::
    "('l, 'd, 'r, 's, 'v, 'i, 'x) wiring \<Rightarrow> instant \<Rightarrow> string \<Rightarrow> ('l, 'r, 's, 'x) runtime \<Rightarrow> ('l, 'r, 's, 'x) runtime"
where
  "settle_task W now tid rt = snd (on_tasks (store_settle (wi_log W) (wi_codec W) tid now) rt)"

definition waits_on_pending :: "(string, task_record) gomap \<Rightarrow> string \<Rightarrow> bool" where
  "waits_on_pending ts pid = list_ex (\<lambda>r. tk_state r = Pending) (store_list ts pid)"

definition parked_on_settled :: "('l, 'r, 's, 'x) runtime \<Rightarrow> string list" where
  "parked_on_settled rt =
     filter (\<lambda>pid. \<not> waits_on_pending (rt_tasks rt) pid)
       (filter (\<lambda>pid. map_option ps_status (mget (rt_processes rt) pid) = Some ProcessWaitingTask)
         (mkeys (rt_processes rt)))"

fun wake_all ::
    "('l, 'd, 'r, 's, 'v, 'i, 'x) wiring \<Rightarrow> string list \<Rightarrow> ('l, 'r, 's, 'x) runtime \<Rightarrow> ('l, 'r, 's, 'x) runtime option"
where
  "wake_all W [] rt = Some rt"
| "wake_all W (pid # pids) rt =
     (case wake W pid rt of None \<Rightarrow> None | Some (_, rt1) \<Rightarrow> wake_all W pids rt1)"

text \<open>One sweep, with nothing in between its sections.\<close>

definition sweep_tasks ::
    "('l, 'd, 'r, 's, 'v, 'i, 'x) wiring \<Rightarrow> ('l, 'r, 's, 'x) runtime \<Rightarrow> ('l, 'r, 's, 'x) runtime option"
where
  "sweep_tasks W rt =
     (let rt1 = fold (settle_task W (rt_now W rt)) (store_due (rt_tasks rt) (rt_now W rt)) rt in
      wake_all W (parked_on_settled rt1) rt1)"

end
