(* ===== verification/Restore.thy ===== *)
theory Restore
  imports Executor
begin

text \<open>
  Start and shutdown of the runtime (\<open>internal/agent/runtime.go\<close>) and the rebuilding of its
  state from the log (\<open>restore.go\<close>).
\<close>

subsection \<open>Restore\<close>

definition interrupted_status :: "process_status \<Rightarrow> process_status" where
  "interrupted_status st =
     (if st = ProcessQueued \<or> st = ProcessRunning \<or> st = ProcessStopping then ProcessInterrupted else st)"

definition restored_process :: "(string, 'r history) gomap \<Rightarrow> process_rec \<Rightarrow> 'r process_state" where
  "restored_process histories r =
     (let h = history_in (pr_id r) histories in
      \<lparr>ps_id = pr_id r, ps_session = pr_session r, ps_input = pr_input r, ps_manifest = pr_manifest r,
       ps_digest = pr_digest r, ps_status = interrupted_status (pr_status r), ps_attempt = pr_attempt r,
       ps_answer = pr_answer r, ps_err = pr_error r, ps_created = pr_created r, ps_updated = pr_updated r,
       ps_started = pr_started r, ps_completed = pr_completed r, ps_labels = pr_labels r, ps_history = h,
       ps_length = history_length h (pr_revision r) (pr_fork r), ps_revision = pr_revision r,
       ps_fork = pr_fork r, ps_last_failure = 0, ps_aborts = pr_aborts r, ps_stop = None,
       ps_stop_requested = False\<rparr>)"

definition restored_session :: "session_rec \<Rightarrow> session_state" where
  "restored_session s =
     \<lparr>ss_id = se_id s, ss_name = se_name s, ss_tags = se_tags s, ss_processes = [], ss_active = se_active s,
      ss_created = se_created s, ss_updated = se_updated s\<rparr>"

text \<open>The loop over the processes of a projection; the session gathers their ids.\<close>

fun restore_processes ::
    "('l, 'd, 'r, 's, 'v, 'i, 'x) wiring \<Rightarrow> (string, 'r history) gomap \<Rightarrow> session_state \<Rightarrow> process_rec list \<Rightarrow>
     ('l, 'r, 's, 'x) runtime \<Rightarrow> err option \<times> ('l, 'r, 's, 'x) runtime"
where
  "restore_processes W hs s [] rt = (None, rt)"
| "restore_processes W hs s (r # rs) rt =
     (let p = restored_process hs r;
          s1 = s\<lparr>ss_processes := ss_processes s @ [ps_id p]\<rparr>;
          rt1 = put_session s1 (put_process p rt) in
      if ps_status p \<noteq> pr_status r then
        (case append_process W p rt1 of
           (Some e, rt2) \<Rightarrow> (Some e, rt2)
         | (None, rt2) \<Rightarrow> restore_processes W hs s1 rs rt2)
      else restore_processes W hs s1 rs rt1)"

definition restore_session ::
    "('l, 'd, 'r, 's, 'v, 'i, 'x) wiring \<Rightarrow> projection \<Rightarrow> (string, 'r history) gomap \<Rightarrow>
     ('l, 'r, 's, 'x) runtime \<Rightarrow> err option \<times> ('l, 'r, 's, 'x) runtime"
where
  "restore_session W proj hs rt =
     (let s = restored_session (pj_session proj) in
      restore_processes W hs s (pj_processes proj) (put_session s rt))"

fun restore_sessions ::
    "('l, 'd, 'r, 's, 'v, 'i, 'x) wiring \<Rightarrow> string list \<Rightarrow> ('l, 'r, 's, 'x) runtime \<Rightarrow>
     err option \<times> ('l, 'r, 's, 'x) runtime"
where
  "restore_sessions W [] rt = (None, rt)"
| "restore_sessions W (sid # sids) rt =
     (case el_read (wi_log W) sid (rt_log rt) of
        Inl e \<Rightarrow> (Some e, rt)
      | Inr events \<Rightarrow>
          (case fold_stream (wi_codec W) events of
             Inl e \<Rightarrow> (Some e, rt)
           | Inr proj \<Rightarrow>
               (case fold_journals (wi_dec W) events of
                  Inl e \<Rightarrow> (Some e, rt)
                | Inr hs \<Rightarrow>
                    (case restore_session W proj hs rt of
                       (Some e, rt1) \<Rightarrow> (Some e, rt1)
                     | (None, rt1) \<Rightarrow>
                         restore_sessions W sids
                           (snd (on_tasks (\<lambda>s. ((), store_seed (pj_tasks proj) s)) rt1))))))"

definition restore ::
    "('l, 'd, 'r, 's, 'v, 'i, 'x) wiring \<Rightarrow> ('l, 'r, 's, 'x) runtime \<Rightarrow> err option \<times> ('l, 'r, 's, 'x) runtime"
where
  "restore W rt =
     (case el_sessions (wi_log W) (rt_log rt) of
        Inl e \<Rightarrow> (Some e, rt)
      | Inr sids \<Rightarrow> restore_sessions W sids rt)"

subsection \<open>Start\<close>

record config =
  cf_has_dispatchers :: bool
  cf_has_log :: bool
  cf_secret :: bytes
  cf_ttl :: int
  cf_deadline :: int
  cf_workers :: int
  cf_programs :: "program_data list"

definition default_workers :: int where "default_workers = 16"
definition default_task_ttl :: int where "default_task_ttl = 24 * hour"
definition default_deadline :: int where "default_deadline = 30 * 60 * second"

definition quantum_deadline :: "config \<Rightarrow> int" where
  "quantum_deadline c = (if cf_deadline c \<le> 0 then default_deadline else cf_deadline c)"

definition empty_runtime :: "'l \<Rightarrow> 'x \<Rightarrow> ('l, 'r, 's, 'x) runtime" where
  "empty_runtime l x =
     \<lparr>rt_log = l, rt_sessions = [], rt_processes = [], rt_tasks = [], rt_taints = [], rt_closed = False,
      rt_cancelled = False, rt_execs = [], rt_next = 0, rt_ext = x\<rparr>"

text \<open>\<open>NewRuntime\<close>, over the interfaces the application supplies.\<close>

definition configured ::
    "config \<Rightarrow> ('l, 'd, 'r, 's, 'v, 'i, 'x) wiring \<Rightarrow> ('l, 'd, 'r, 's, 'v, 'i, 'x) wiring"
where
  "configured c W =
     W\<lparr>wi_tasks := (wi_tasks W)\<lparr>tc_secret := cf_secret c,
         tc_ttl := (if cf_ttl c \<le> 0 then default_task_ttl else cf_ttl c)\<rparr>,
       wi_workers := nat (if cf_workers c \<le> 0 then default_workers else cf_workers c)\<rparr>"

definition new_runtime ::
    "config \<Rightarrow> ('l, 'd, 'r, 's, 'v, 'i, 'x) wiring \<Rightarrow> ('i, 'e) engine \<Rightarrow> 'l \<Rightarrow> 'x \<Rightarrow> 'e \<Rightarrow>
     (err + ('l, 'd, 'r, 's, 'v, 'i, 'x) wiring) \<times> ('l, 'r, 's, 'x) runtime \<times> 'e"
where
  "new_runtime c W E l x e =
     (let rt0 = empty_runtime l x in
      if \<not> cf_has_dispatchers c then (Inl (Invalid ''dispatcher provider is required''), rt0, e)
      else if \<not> cf_has_log c then (Inl (Invalid ''event log is required''), rt0, e)
      else if cf_secret c = '''' then (Inl (Invalid ''task secret is required''), rt0, e)
      else
        let W1 = configured c W in
        case restore W1 rt0 of
          (Some er, rt) \<Rightarrow> (Inl (Wrapped ''restore runtime'' er), rt, e)
        | (None, rt) \<Rightarrow>
            (case new_program_registry (tc_crypto (wi_tasks W)) (wi_schemas W) E (cf_programs c) e of
               (Inl er, e1) \<Rightarrow> (Inl er, rt, e1)
             | (Inr reg, e1) \<Rightarrow> (Inr (W1\<lparr>wi_programs := reg\<rparr>), rt, e1)))"

subsection \<open>Shutdown\<close>

text \<open>
  \<open>Close\<close>: under the lock it closes the runtime and collects the stop functions, then it calls
  them and cancels the base context, waits for the goroutines, and releases the programs.
\<close>

definition held_stop :: "nat \<Rightarrow> (string, 'r process_state) gomap \<Rightarrow> bool" where
  "held_stop i ps = list_ex (\<lambda>pid. Option.bind (mget ps pid) ps_stop = Some i) (mkeys ps)"

definition close_begin :: "('l, 'r, 's, 'x) runtime \<Rightarrow> ('l, 'r, 's, 'x) runtime" where
  "close_begin rt =
     (if rt_closed rt then rt
      else rt\<lparr>rt_closed := True,
              rt_execs := map (\<lambda>e. if held_stop (ex_id e) (rt_processes rt) then e\<lparr>ex_cancelled := True\<rparr> else e)
                            (rt_execs rt)\<rparr>)"

definition close_cancel :: "('l, 'r, 's, 'x) runtime \<Rightarrow> ('l, 'r, 's, 'x) runtime" where
  "close_cancel rt = (if rt_closed rt then rt\<lparr>rt_cancelled := True\<rparr> else rt)"

definition close_release :: "('i, 'e) engine \<Rightarrow> ('s, 'i) registry \<Rightarrow> ('l, 'r, 's, 'x) runtime \<Rightarrow> 'e \<Rightarrow> (err list \<times> 'e) option" where
  "close_release E reg rt e = (if rt_execs rt = [] then Some (registry_close E reg e) else None)"

end
