(* ===== verification/Quantum.thy ===== *)
theory Quantum
  imports Restore
begin

text \<open>
  What a call through the whole chain keeps: the journal stays one a new quantum can replay,
  under the same session, process and revision. It holds for every chain that is built over
  drivers that leave the journal and the tape alone.
\<close>

subsection \<open>Below replay\<close>

definition journal_view :: "('l, 'r) log_journal \<Rightarrow> string \<times> string \<times> nat \<times> 'r history \<times> nat" where
  "journal_view j = (lj_session j, lj_process j, lj_revision j, lj_history j, lj_length j)"

definition tape_view :: "(('l, 'r) log_journal, 'z) tape_scheme \<Rightarrow> (string \<times> string \<times> nat \<times> 'r history \<times> nat) \<times> nat \<times> bool" where
  "tape_view w = (journal_view (tp_journal w), tp_cursor w, tp_pending w)"

definition below_view :: "('k, 'r, (('l, 'r) log_journal, 'z) tape_scheme) dispatcher \<Rightarrow> bool" where
  "below_view next \<longleftrightarrow> (\<forall>t k c a w. tape_view (snd (next t k c a w)) = tape_view w)"

lemma journal_view_cong:
  assumes "journal_view i = journal_view j"
  shows "lj_ok i = lj_ok j" "lj_recs i = lj_recs j" "lj_history i = lj_history j" "lj_length i = lj_length j"
    "lj_session i = lj_session j" "lj_process i = lj_process j" "lj_revision i = lj_revision j"
  using assms by (simp_all add: journal_view_def lj_ok_def lj_recs_def)

lemma below_view_ok: "below_view next \<Longrightarrow> below_ok lj_recs lj_ok next"
  unfolding below_view_def below_ok_def tape_view_def
  by (metis journal_view_cong(1,2) prod.inject)

named_theorems view_laws \<open>the layers below replay keep the tape's view of the journal\<close>

lemma tape_view_update [simp]:
  "tape_view (w\<lparr>cw_tasks := ts\<rparr>) = tape_view w" "tape_view (w\<lparr>cw_ext := x\<rparr>) = tape_view w"
  by (simp_all add: tape_view_def)

lemma savepoint_view [view_laws]: "below_view next \<Longrightarrow> below_view (savepoint_dispatch S next)"
  by (simp add: below_view_def savepoint_dispatch_def)

lemma lifecycle_view [view_laws]: "below_view next \<Longrightarrow> below_view (lifecycle_dispatch S l T next)"
  by (simp add: below_view_def lifecycle_dispatch_def case_prod_unfold split: bool.split option.split)

lemma progress_view [view_laws]: "below_view next \<Longrightarrow> below_view (progress_dispatch S next)"
  by (simp add: below_view_def progress_dispatch_def)

lemma timer_view [view_laws]: "below_view next \<Longrightarrow> below_view (timer_dispatch S next)"
  by (simp add: below_view_def timer_dispatch_def Let_def split: option.split)

lemma stamp_view [view_laws]: "below_view next \<Longrightarrow> below_view (stamp_dispatch S T next)"
  by (simp add: below_view_def stamp_dispatch_def case_prod_unfold split: sum.split)

lemma world_tape_view [view_laws]: "below_view next \<Longrightarrow> below_view (world_dispatch S L E next)"
proof -
  assume b: "below_view next"
  have pass: "world_dispatch S L E next t k c a w = next t k c a w" if "\<not> (sc_name c = sys_now \<or> sc_name c = sys_random)" for t k c a w
    using that by (simp add: world_dispatch_def)
  have own: "tape_view (snd (world_dispatch S L E next t k c a w)) = tape_view w"
    if "sc_name c = sys_now \<or> sc_name c = sys_random" for t k c a w
  proof -
    obtain x w' where d: "world_dispatch S L E next t k c a w = (x, w')" by fastforce
    show ?thesis using world_view [OF d that] d by (simp add: tape_view_def)
  qed
  show ?thesis using pass own b unfolding below_view_def by metis
qed

lemma task_view [view_laws]:
  assumes "below_view next"
  shows "below_view (task_dispatch S L D E C next)"
proof -
  have nx: "tape_view w' = tape_view w" if "next t k c a w = (y, w')" for t k c a y w w'
    using assms that unfolding below_view_def by (metis snd_conv)
  have "tape_view w' = tape_view w" if d: "task_dispatch S L D E C next t k c a w = (y, w')" for t k c a y w w'
    using d
  proof (cases rule: task_dispatch_cases)
    case (1 r)
    have "w' = w \<or> next t k (tk_syscall r) (tk_resolution r) w = (y, w')" using task_resume_cases [OF 1(2)] by blast
    then show ?thesis using nx by blast
  next
    case 2
    then show ?thesis using nx by blast
  next
    case (3 r w1 x e)
    then show ?thesis using nx [OF 3(2)] by simp
  next
    case (4 r w1 x q o1 l ts)
    then show ?thesis using nx [OF 4(2)] by (simp add: tape_view_def journal_view_def)
  qed
  then show ?thesis unfolding below_view_def by (metis prod.collapse)
qed

text \<open>The drivers: handlers that leave the journal and the tape alone.\<close>

definition handlers_keep :: "('r, ('l, 'r, 'k, 's, 'x) cworld) table \<Rightarrow> bool" where
  "handlers_keep t \<longleftrightarrow>
     (\<forall>key e. mget (t_entries t) key = Some e \<longrightarrow>
        (\<forall>tt c w. tape_view (snd (e_handler e tt c w)) = tape_view w \<and>
                  cw_tasks (snd (e_handler e tt c w)) = cw_tasks w))"

lemma resolve_entry: "resolve t c = Inr e \<Longrightarrow> \<exists>key. mget (t_entries t) key = Some e"
  by (auto simp: resolve_def split: option.splits sum.splits)

lemma cap_view [view_laws]: "handlers_keep t \<Longrightarrow> below_view (cap_dispatch S t)"
  unfolding below_view_def
proof (intro allI)
  fix tt k c a w assume h: "handlers_keep t"
  show "tape_view (snd (cap_dispatch S t tt k c a w)) = tape_view w"
  proof (cases "resolve t c")
    case (Inl e)
    then show ?thesis by (simp add: cap_dispatch_refused)
  next
    case (Inr e)
    then have "tape_view (snd (e_handler e tt c w)) = tape_view w"
      using h resolve_entry unfolding handlers_keep_def by blast
    then show ?thesis using Inr by (simp add: cap_dispatch_def Let_def)
  qed
qed

lemma reserve_entries: "t_entries (snd (table_reserve d t)) = t_entries t"
  by (simp add: table_reserve_def)

lemma reserve_all_entries: "reserve_all ds t = (x, t') \<Longrightarrow> t_entries t' = t_entries t"
proof (induction ds arbitrary: t)
  case (Cons d ds)
  obtain y t1 where y: "table_reserve d t = (y, t1)" by fastforce
  have "t_entries t1 = t_entries t" using reserve_entries [of d t] y by simp
  then show ?case using Cons y by (cases y) (simp_all add: reserve_all_Cons)
qed simp

lemma build_table_entries: "build_table m t0 = Inr T \<Longrightarrow> t_entries T = t_entries t0"
  by (auto simp: build_table_def reserve_all_entries split: option.splits prod.splits)

lemma chain_below:
  assumes "handlers_keep t0" "build_table m t0 = Inr T"
  shows "below_view (stamp_dispatch S T (protocol_dispatch S L D E C l T' (drivers_dispatch S T)))"
proof -
  have "handlers_keep T" using assms(1) build_table_entries [OF assms(2)] by (simp add: handlers_keep_def)
  then show ?thesis by (simp add: protocol_dispatch_def drivers_dispatch_def view_laws)
qed

subsection \<open>Replay\<close>

definition wf_journal :: "('l, 'r) log_journal \<Rightarrow> bool" where
  "wf_journal j \<longleftrightarrow> lj_ok j \<and> wf_records (lj_recs j) \<and> wf_history (lj_history j)"

text \<open>The same revision of the same process, with at least as many records.\<close>

definition names :: "('l, 'r) log_journal \<Rightarrow> string \<times> string \<times> nat" where
  "names j = (lj_session j, lj_process j, lj_revision j)"

definition grows :: "('l, 'r) log_journal \<Rightarrow> ('l, 'r) log_journal \<Rightarrow> bool" where
  "grows j j' \<longleftrightarrow> names j' = names j \<and> lj_length j \<le> lj_length j'"

lemma grows_refl [simp]: "grows j j"
  by (simp add: grows_def)

lemma grows_trans: "grows i j \<Longrightarrow> grows j k \<Longrightarrow> grows i k"
  by (simp add: grows_def)

lemma wf_history_add:
  assumes "wf_history h" "record_ok (jr_position r) r" "jr_kind r = KindIntent \<longleftrightarrow> even (jr_position r)"
  shows "wf_history (history_add r h)"
  using assms by (auto simp: wf_history_def record_ok_def distinct_history_add)

lemma append_history:
  assumes a: "append_record (log_journal_ops L enc) r j = (x, j')" and h: "wf_history (lj_history j)"
    and k: "if even (lj_length j) then jr_kind r = KindIntent \<and> jr_syscall r \<noteq> None
            else jr_kind r = KindCompletion \<and> jr_result r \<noteq> None"
  shows "wf_history (lj_history j')" "grows j j'"
proof -
  let ?r = "r\<lparr>jr_position := lj_length j\<rparr>"
  have "lj_append L enc ?r j = (x, j')" "jr_position ?r = lj_length j"
    using a by (simp_all add: append_record_def log_journal_ops_def)
  then have "wf_history (lj_history j') \<and> grows j j'"
  proof (cases rule: lj_append_cases)
    case (refused e l)
    then show ?thesis using h by (simp add: names_def grows_def)
  next
    case (stored l)
    let ?s = "?r\<lparr>jr_revision := lj_revision j\<rparr>"
    have "record_ok (jr_position ?s) ?s" "jr_kind ?s = KindIntent \<longleftrightarrow> even (jr_position ?s)"
      using k by (auto simp: record_ok_def split: if_splits)
    then show ?thesis using wf_history_add [OF h, of ?s] stored by (simp add: names_def grows_def)
  qed
  then show "wf_history (lj_history j')" "grows j j'" by simp_all
qed

definition quantum_tape :: "(('l, 'r) log_journal, 'z) tape_scheme \<Rightarrow> bool" where
  "quantum_tape w \<longleftrightarrow> tape_ok lj_recs lj_ok w \<and> wf_history (lj_history (tp_journal w))"

lemma quantum_tapeD: "quantum_tape w \<Longrightarrow> tape_ok lj_recs lj_ok w" "quantum_tape w \<Longrightarrow> wf_history (lj_history (tp_journal w))"
  by (simp_all add: quantum_tape_def)

definition keeps_quantum :: "('k, 'r, (('l, 'r) log_journal, 'z) tape_scheme) dispatcher \<Rightarrow> bool" where
  "keeps_quantum d \<longleftrightarrow>
     (\<forall>t k c a w. quantum_tape w \<longrightarrow>
        quantum_tape (snd (d t k c a w)) \<and> grows (tp_journal w) (tp_journal (snd (d t k c a w))))"


lemma tape_next_journal: "tape_next J c w = (x, w') \<Longrightarrow> tp_journal w' = tp_journal w"
  by (auto simp: tape_next_def split: if_splits sum.splits option.splits)

lemma drive_keeps:
  assumes w: "quantum_tape w" "tp_pending w" and below: "below_view next"
    and d: "replay_drive S (log_journal_ops L enc) next t k c a w = (x, w')"
  shows "wf_history (lj_history (tp_journal w'))" "grows (tp_journal w) (tp_journal w')"
proof -
  obtain y u where n: "next t k c a w = (y, u)" by fastforce
  have u: "journal_view (tp_journal u) = journal_view (tp_journal w)"
    using below n unfolding below_view_def tape_view_def by (metis prod.inject snd_conv)
  note uw = journal_view_cong [OF u]
  have hw: "wf_history (lj_history (tp_journal w))" using w(1) by (rule quantum_tapeD)
  have "tp_cursor w = length (lj_recs (tp_journal w))" "odd (tp_cursor w)"
    using quantum_tapeD(1) [OF w(1)] w(2) by (auto simp: tape_ok_def)
  then have odd: "odd (lj_length (tp_journal u))" using uw by simp
  have "wf_history (lj_history (tp_journal w')) \<and> grows (tp_journal w) (tp_journal w')"
  proof (cases "\<exists>r. y = Inr r \<and> status_of S r \<noteq> StatusYield")
    case False
    then have "w' = u" using d n by (cases y) (simp_all add: replay_drive_def)
    then show ?thesis using hw uw by (simp add: names_def grows_def)
  next
    case True
    then obtain r where r: "y = Inr r" "status_of S r \<noteq> StatusYield" by blast
    obtain o1 j where ap: "append_record (log_journal_ops L enc) (completion_record r) (tp_journal u) = (o1, j)" by fastforce
    have "tp_journal w' = j" using d n r ap by (cases o1) (auto simp: replay_drive_def tape_commit_def)
    moreover have "wf_history (lj_history j)" "grows (tp_journal u) j"
      using append_history [OF ap] hw uw odd by (simp_all add: completion_record_def)
    ultimately show ?thesis using uw by (simp add: names_def grows_def)
  qed
  then show "wf_history (lj_history (tp_journal w'))" "grows (tp_journal w) (tp_journal w')" by simp_all
qed

lemma begin_keeps:
  assumes w: "quantum_tape w" "\<not> tp_pending w" "tp_cursor w = lj_length (tp_journal w)"
    and b: "tape_begin (log_journal_ops L enc) c w = (x, w')"
  shows "quantum_tape w'" "grows (tp_journal w) (tp_journal w')" "x = None \<Longrightarrow> tp_pending w'"
proof -
  obtain o1 j where ap: "append_record (log_journal_ops L enc) (intent_record c) (tp_journal w) = (o1, j)" by fastforce
  note t = quantum_tapeD [OF w(1)]
  have ev: "even (lj_length (tp_journal w))" using lj.cursor_even [OF t(1) w(2)] w(3) by simp
  have j: "tp_journal w' = j" using b ap w(2) by (cases o1) (auto simp: tape_begin_def)
  have "wf_history (lj_history j)" "grows (tp_journal w) j"
    using append_history [OF ap t(2)] ev by (simp_all add: intent_record_def)
  moreover have "tape_ok lj_recs lj_ok w'"
  proof (cases x)
    case None
    then show ?thesis using lj.begin_ok [OF t(1) w(2), of L enc c w'] b w(3) by auto
  next
    case (Some e)
    then show ?thesis using lj.begin_err(2) [OF t(1), of L enc c e w'] b by simp
  qed
  ultimately show "quantum_tape w'" "grows (tp_journal w) (tp_journal w')" using j by (simp_all add: quantum_tape_def)
  show "x = None \<Longrightarrow> tp_pending w'" using b w(2) by (auto simp: tape_begin_def split: prod.splits option.splits)
qed

lemma replay_history:
  assumes w: "quantum_tape w" and below: "below_view next"
    and d: "replay_dispatch S (log_journal_ops L enc) next t k c a w = (x, w')"
  shows "wf_history (lj_history (tp_journal w')) \<and> grows (tp_journal w) (tp_journal w')"
proof -
  note t = quantum_tapeD [OF w]
  from t(1) show ?thesis
  proof (cases rule: lj.call_cases [where c = c])
  case pending
  then have "w' = w" using d lj.tape_next_fresh [OF t(1), of L enc c] by (auto simp: replay_dispatch_def tape_begin_def)
  then show ?thesis using t(2) by simp
next
  case (diverged b)
  then have "w' = w" using d lj.tape_next_diverged [OF t(1), of b c L enc] by (auto simp: replay_dispatch_def)
  then show ?thesis using t(2) by simp
next
  case (recorded r)
  then have "w' = w\<lparr>tp_cursor := tp_cursor w + 2\<rparr>"
    using d lj.tape_next_recorded [OF t(1), of c r L enc] by (simp add: replay_dispatch_def)
  then show ?thesis using t(2) by simp
next
  case reopened
  let ?w = "w\<lparr>tp_cursor := Suc (tp_cursor w), tp_pending := True\<rparr>"
  have dr: "replay_drive S (log_journal_ops L enc) next t k c a ?w = (x, w')"
    using d lj.tape_next_open [OF t(1), of c L enc] reopened by (simp add: replay_dispatch_def)
  have "lj_length (tp_journal w) = Suc (tp_cursor w)" using reopened(2) by simp
  then have "quantum_tape ?w" using t reopened(3) by (simp add: quantum_tape_def tape_ok_def)
  from drive_keeps [OF this _ below dr] show ?thesis by simp
next
  case fresh
  obtain o1 w1 where bg: "tape_begin (log_journal_ops L enc) c w = (o1, w1)" by fastforce
  have fr: "tp_cursor w = lj_length (tp_journal w)" using fresh(2) by simp
  note b = begin_keeps [OF w fresh(1) fr bg]
  show ?thesis
  proof (cases o1)
    case (Some e)
    then have "w' = w1" using d bg lj.tape_next_fresh [OF t(1), of L enc c] fresh(2) by (simp add: replay_dispatch_def)
    then show ?thesis using b(1,2) by (simp add: quantum_tape_def)
  next
    case None
    then have "replay_drive S (log_journal_ops L enc) next t k c a w1 = (x, w')"
      using d bg lj.tape_next_fresh [OF t(1), of L enc c] fresh(2) by (simp add: replay_dispatch_def)
    from drive_keeps [OF b(1) b(3) below this] None b(2) show ?thesis by (blast intro: grows_trans)
  qed
qed
qed

lemma replay_keeps:
  assumes below: "below_view next"
  shows "keeps_quantum (replay_dispatch S (log_journal_ops L enc) next)"
proof -
  have "quantum_tape w' \<and> grows (tp_journal w) (tp_journal w')"
    if w: "quantum_tape w" and d: "replay_dispatch S (log_journal_ops L enc) next t k c a w = (x, w')" for t k c a x w w'
    using replay_history [OF w below d] lj.dispatch_keeps [OF quantum_tapeD(1) [OF w] below_view_ok [OF below] d]
    by (simp add: quantum_tape_def)
  then show ?thesis unfolding keeps_quantum_def by (metis prod.collapse)
qed

lemma quantum_tape_update [simp]:
  "quantum_tape (w\<lparr>mw_taints := ts\<rparr>) = quantum_tape w" "quantum_tape (w\<lparr>mw_schemas := m\<rparr>) = quantum_tape w"
  by (simp_all add: quantum_tape_def tape_ok_def)

lemma track_keeps: "keeps_quantum next \<Longrightarrow> keeps_quantum (track_dispatch S next)"
  by (auto simp: keeps_quantum_def track_dispatch_def case_prod_unfold split: sum.split)

lemma validator_keeps:
  assumes "keeps_quantum next"
  shows "keeps_quantum (validator_dispatch A S T next)"
proof -
  have two: "(\<exists>m. snd (validator_dispatch A S T next t k c a w) = w\<lparr>mw_schemas := m\<rparr>) \<or>
      (\<exists>m. snd (validator_dispatch A S T next t k c a w) = snd (next t k c a (w\<lparr>mw_schemas := m\<rparr>)))" for t k c a w
  proof -
    have same: "w\<lparr>mw_schemas := mw_schemas w\<rparr> = w" by simp
    show ?thesis
    proof (cases "\<exists>d. \<not> control_call c \<and> descriptor_of T (sc_name c) = Some d \<and> d_input d \<noteq> []")
      case False
      then show ?thesis using same
        by (cases "descriptor_of T (sc_name c)") (auto simp: validator_dispatch_def intro!: exI [of _ "mw_schemas w"])
    next
      case True
      then obtain d where d: "\<not> control_call c" "descriptor_of T (sc_name c) = Some d" "d_input d \<noteq> []" by blast
      obtain z m where m: "compiled A (d_input d) (mw_schemas w) = (z, m)" by fastforce
      show ?thesis using d m
        by (cases z) (auto simp: validator_dispatch_def Let_def split: sum.splits option.splits)
    qed
  qed
  have "quantum_tape (snd (validator_dispatch A S T next t k c a w)) \<and>
      grows (tp_journal w) (tp_journal (snd (validator_dispatch A S T next t k c a w)))"
    if "quantum_tape w" for t k c a w
  proof -
    consider m where "snd (validator_dispatch A S T next t k c a w) = w\<lparr>mw_schemas := m\<rparr>"
      | m where "snd (validator_dispatch A S T next t k c a w) = snd (next t k c a (w\<lparr>mw_schemas := m\<rparr>))"
      using two by blast
    then show ?thesis
    proof cases
      case 1
      then show ?thesis using that by simp
    next
      case (2 m)
      have "quantum_tape (w\<lparr>mw_schemas := m\<rparr>)" using that by simp
      from assms [unfolded keeps_quantum_def, rule_format, OF this, of t k c a] show ?thesis using 2 by simp
    qed
  qed
  then show ?thesis unfolding keeps_quantum_def by blast
qed

lemma wrap_keeps:
  "below_view (stamp_dispatch S T beneath) \<Longrightarrow> keeps_quantum (wrap A S (log_journal_ops L enc) T beneath)"
  by (simp add: wrap_def validator_keeps track_keeps replay_keeps)


text \<open>A chain the runtime builds over drivers that keep the journal.\<close>

lemma new_dispatcher_keeps:
  assumes "new_dispatcher A S L D enc E C l m (Inr t0) j = Inr d" "handlers_keep t0"
  shows "keeps_quantum d" "lj_ok j \<Longrightarrow> wf_records (lj_recs j)"
proof -
  obtain T where T: "build_table m t0 = Inr T" "verify (log_journal_ops L enc) j = None"
    "d = wrap A S (log_journal_ops L enc) T (protocol_dispatch S L D E C l T (drivers_dispatch S T))"
    using assms(1) by (auto simp: new_dispatcher_def split: sum.splits option.splits)
  show "keeps_quantum d" unfolding T(3) by (rule wrap_keeps [OF chain_below [OF assms(2) T(1)]])
  show "lj_ok j \<Longrightarrow> wf_records (lj_recs j)" using lj.verify_iff T(2) by blast
qed

end
