(* ===== verification/Steps.thy ===== *)
theory Steps
  imports Quantum
begin

text \<open>
  The runtime as a transition system: every API call, every section of an \<open>execute\<close> goroutine,
  every step of a quantum on the pool, the sweep's actions, the shutdown, and what is outside
  (time, and the drivers' world). Its invariant holds in every reachable state.

  One side condition is not in the code: a new random identifier is not one in use (128 random
  bits). \<open>ResolveTask\<close> and \<open>wake\<close> release the lock in the middle, so their halves are steps as
  well: \<open>decide\<close>, and \<open>retry\<close> by itself.
\<close>

subsection \<open>Steps\<close>

definition fresh_id :: "('l, 'd, 'r, 's, 'v, 'i, 'x) wiring \<Rightarrow> string \<Rightarrow> ('l, 'r, 's, 'x) runtime \<Rightarrow> bool" where
  "fresh_id W pre rt \<longleftrightarrow>
     (\<forall>y rt1. random_id W pre rt = (Inr y, rt1) \<longrightarrow>
        mget (rt_sessions rt) y = None \<and> mget (rt_processes rt) y = None)"

definition context_done :: "('l, 'r, 's, 'x) execution \<Rightarrow> ('l, 'r, 's, 'x) runtime \<Rightarrow> bool" where
  "context_done e rt \<longleftrightarrow> ex_cancelled e \<or> rt_cancelled rt"

definition submitted :: "('l, 'r, 's, 'x) execution \<Rightarrow> bool" where
  "submitted e \<longleftrightarrow> ex_phase e = Submitted \<or> ex_phase e = Awaiting"

inductive rt_step ::
    "('l, 'd, 'r, 's, 'v, 'i, 'x) wiring \<Rightarrow> ('l, 'r, 's, 'x) runtime \<Rightarrow> ('l, 'r, 's, 'x) runtime \<Rightarrow> bool"
  for W where
  create_session: "fresh_id W ''ses_'' rt \<Longrightarrow> create_session W name tags rt = Some (y, rt') \<Longrightarrow> rt_step W rt rt'"
| rename_session: "rename_session W sid name rt = Some (y, rt') \<Longrightarrow> rt_step W rt rt'"
| create_process: "fresh_id W ''proc_'' rt \<Longrightarrow> create_process W sid input spec rt = (z, rt') \<Longrightarrow> rt_step W rt rt'"
| stop: "stop_process W pid rt = Some (z, rt') \<Longrightarrow> rt_step W rt rt'"
| retry: "retry W pid mode rt = Some (z, rt') \<Longrightarrow> rt_step W rt rt'"
| resolve: "resolve_task W tid token a rt = Some (t, rt') \<Longrightarrow> rt_step W rt rt'"
| decide: "resolvable_decision (au_decision a) \<Longrightarrow>
     on_tasks (store_resolve (wi_log W) (wi_codec W) tid h a now) rt = (d, rt') \<Longrightarrow> rt_step W rt rt'"
| settle: "now \<le> rt_now W rt \<Longrightarrow> rt_step W rt (settle_task W now tid rt)"
| wake: "wake W pid rt = Some (x, rt') \<Longrightarrow> rt_step W rt rt'"
| exec_begin: "e \<in> set (rt_execs rt) \<Longrightarrow> ex_phase e = Launched \<Longrightarrow> exec_begin e rt = Some rt' \<Longrightarrow> rt_step W rt rt'"
| exec_mark: "e \<in> set (rt_execs rt) \<Longrightarrow> ex_phase e = Submitted \<Longrightarrow> exec_mark W e rt = Some rt' \<Longrightarrow> rt_step W rt rt'"
| exec_land: "e \<in> set (rt_execs rt) \<Longrightarrow> ex_phase e = Awaiting \<Longrightarrow> ex_quantum e = Landed r \<Longrightarrow>
     exec_land r e rt = Some rt' \<Longrightarrow> rt_step W rt rt'"
| outcome: "e \<in> set (rt_execs rt) \<Longrightarrow> ex_phase e = Outcome r \<Longrightarrow> record_outcome W r e rt = Some rt' \<Longrightarrow> rt_step W rt rt'"
| exec_finish: "e \<in> set (rt_execs rt) \<Longrightarrow> ex_phase e = Finishing status answer failure \<Longrightarrow>
     exec_finish W status answer failure e rt = Some rt' \<Longrightarrow> rt_step W rt rt'"
| quantum_drop: "e \<in> set (rt_execs rt) \<Longrightarrow> submitted e \<Longrightarrow> ex_quantum e = Unstarted \<Longrightarrow> context_done e rt \<Longrightarrow>
     rt_step W rt (quantum_drop e rt)"
| quantum_start: "e \<in> set (rt_execs rt) \<Longrightarrow> submitted e \<Longrightarrow> ex_quantum e = Unstarted \<Longrightarrow> \<not> context_done e rt \<Longrightarrow>
     guests_running rt < wi_workers W \<Longrightarrow> ctx = None \<or> ctx = Some DeadlineExceeded \<Longrightarrow>
     quantum_start W ctx e rt = Some rt' \<Longrightarrow> rt_step W rt rt'"
| setup_cancelled: "e \<in> set (rt_execs rt) \<Longrightarrow> submitted e \<Longrightarrow> ex_quantum e = Unstarted \<Longrightarrow> context_done e rt \<Longrightarrow>
     rt_step W rt (quantum_end (setup_failed (Some Canceled) x) e rt)"
| quantum_call: "e \<in> set (rt_execs rt) \<Longrightarrow> ex_quantum e = Running g \<Longrightarrow> quantum_call c g e rt = Some (u, rt') \<Longrightarrow>
     rt_step W rt rt'"
| quantum_end: "e \<in> set (rt_execs rt) \<Longrightarrow> ex_quantum e = Running g \<Longrightarrow> rt_step W rt (quantum_end r e rt)"
| close_begin: "rt_step W rt (close_begin rt)"
| close_cancel: "rt_step W rt (close_cancel rt)"
| tick: "(\<forall>s. stream (wi_log W) s l = stream (wi_log W) s (rt_log rt)) \<Longrightarrow> rt_now W rt \<le> el_now (wi_log W) l \<Longrightarrow>
     rt_step W rt (rt\<lparr>rt_log := l\<rparr>)"
| outside: "rt_step W rt (rt\<lparr>rt_ext := x\<rparr>)"

definition reachable :: "('l, 'd, 'r, 's, 'v, 'i, 'x) wiring \<Rightarrow> ('l, 'r, 's, 'x) runtime \<Rightarrow> bool" where
  "reachable W rt \<longleftrightarrow> (\<exists>l x. (rt_step W)\<^sup>*\<^sup>* (empty_runtime l x) rt)"

text \<open>The drivers the provider supplies.\<close>

definition provider_keeps :: "('l, 'd, 'r, 's, 'v, 'i, 'x) wiring \<Rightarrow> bool" where
  "provider_keeps W \<longleftrightarrow> (\<forall>cred m x t0 x'. wi_provider W cred m x = (Inr t0, x') \<longrightarrow> handlers_keep t0)"

subsection \<open>The invariant\<close>

fun busy :: "process_status \<Rightarrow> bool" where
  "busy ProcessQueued = True"
| "busy ProcessRunning = True"
| "busy ProcessStopping = True"
| "busy _ = False"

definition live :: "process_status \<Rightarrow> bool" where
  "live st \<longleftrightarrow> busy st \<or> st = ProcessWaitingTask"

definition proc_ok :: "'r process_state \<Rightarrow> bool" where
  "proc_ok p \<longleftrightarrow>
     wf_journal (proc_journal () p) \<and> ps_last_failure p \<le> ps_length p \<and> ps_aborts p \<le> max_abort_retries"

definition guest_tape :: "'r process_state \<Rightarrow> ('l, 'r, 's, 'x) guest_run \<Rightarrow> ((unit, 'r) log_journal) tape" where
  "guest_tape p g = \<lparr>tp_journal = proc_journal () p, tp_cursor = gr_cursor g, tp_pending = gr_pending g\<rparr>"

definition quantum_ok :: "('l, 'r, 's, 'x) execution \<Rightarrow> 'r process_state \<Rightarrow> bool" where
  "quantum_ok e p \<longleftrightarrow>
     (submitted e \<longrightarrow> ex_cred e = proc_context p) \<and>
     (ex_phase e = Awaiting \<longrightarrow> ps_stop p = Some (ex_id e) \<and> (ps_stop_requested p \<longrightarrow> ex_cancelled e)) \<and>
     (\<forall>st a f. ex_phase e = Finishing st a f \<longrightarrow> \<not> busy st) \<and>
     (\<forall>g. ex_quantum e = Running g \<longrightarrow>
        submitted e \<and> keeps_quantum (gr_chain g) \<and> quantum_tape (guest_tape p g))"

type_synonym 'r procs = "string \<Rightarrow> 'r process_state option"
type_synonym sessions = "string \<Rightarrow> session_state option"

definition procs_ok :: "'r procs \<Rightarrow> sessions \<Rightarrow> bool" where
  "procs_ok P S \<longleftrightarrow>
     (\<forall>pid p. P pid = Some p \<longrightarrow>
        ps_id p = pid \<and> pid \<noteq> '''' \<and> proc_ok p \<and>
        (\<exists>s. S (ps_session p) = Some s \<and> pid \<in> set (ss_processes s) \<and> (live (ps_status p) \<longrightarrow> ss_active s = pid)))"

definition sessions_ok :: "'r procs \<Rightarrow> sessions \<Rightarrow> bool" where
  "sessions_ok P S \<longleftrightarrow>
     (\<forall>sid s. S sid = Some s \<longrightarrow>
        ss_id s = sid \<and> distinct (ss_processes s) \<and>
        (\<forall>pid \<in> set (ss_processes s). \<exists>p. P pid = Some p \<and> ps_session p = sid))"

definition execs_ok :: "'r procs \<Rightarrow> ('l, 'r, 's, 'x) execution list \<Rightarrow> nat \<Rightarrow> bool" where
  "execs_ok P X n \<longleftrightarrow>
     distinct (map ex_id X) \<and> distinct (map ex_process X) \<and>
     (\<forall>e \<in> set X. ex_id e < n \<and> (\<exists>p. P (ex_process e) = Some p \<and> busy (ps_status p) \<and> quantum_ok e p))"

definition rt_ok :: "('l, 'r, 's, 'x) runtime \<Rightarrow> bool" where
  "rt_ok rt \<longleftrightarrow>
     procs_ok (mget (rt_processes rt)) (mget (rt_sessions rt)) \<and>
     sessions_ok (mget (rt_processes rt)) (mget (rt_sessions rt)) \<and>
     execs_ok (mget (rt_processes rt)) (rt_execs rt) (rt_next rt)"

lemma empty_ok: "rt_ok (empty_runtime l x)"
  by (simp add: rt_ok_def procs_ok_def sessions_ok_def execs_ok_def empty_runtime_def)

subsection \<open>Changes of one process\<close>

lemma procs_okD:
  assumes "procs_ok P S" "P pid = Some p"
  shows "ps_id p = pid" "pid \<noteq> ''''" "proc_ok p"
    "S (ps_session p) = Some s \<Longrightarrow> pid \<in> set (ss_processes s) \<and> (live (ps_status p) \<longrightarrow> ss_active s = pid)"
    "S (ps_session p) \<noteq> None"
proof -
  have "ps_id p = pid \<and> pid \<noteq> '''' \<and> proc_ok p \<and>
      (\<exists>s. S (ps_session p) = Some s \<and> pid \<in> set (ss_processes s) \<and> (live (ps_status p) \<longrightarrow> ss_active s = pid))"
    using assms unfolding procs_ok_def by blast
  then show "ps_id p = pid" "pid \<noteq> ''''" "proc_ok p"
    "S (ps_session p) = Some s \<Longrightarrow> pid \<in> set (ss_processes s) \<and> (live (ps_status p) \<longrightarrow> ss_active s = pid)"
    "S (ps_session p) \<noteq> None" by (fastforce+)[5]
qed

lemma sessions_okD:
  assumes "sessions_ok P S" "S sid = Some s"
  shows "ss_id s = sid" "distinct (ss_processes s)"
    "pid \<in> set (ss_processes s) \<Longrightarrow> \<exists>p. P pid = Some p \<and> ps_session p = sid"
  using assms(1) [unfolded sessions_ok_def, rule_format, OF assms(2)] by simp_all

text \<open>
  A change confined to one process, its session and its executions keeps the invariant when the
  process itself ends up right.
\<close>

lemma procs_ok_update:
  assumes P: "procs_ok P S" and S: "S (ps_session p) = Some s" "P (ps_id p) = Some p"
    and p': "ps_id p' = ps_id p" "ps_session p' = ps_session p" "proc_ok p'" "live (ps_status p') \<Longrightarrow> ss_active s' = ps_id p"
    and s': "ss_processes s' = ss_processes s" "ss_active s' = ss_active s \<or> ss_active s = '''' \<or> ss_active s = ps_id p"
  shows "procs_ok (P(ps_id p \<mapsto> p')) (S(ps_session p \<mapsto> s'))"
  unfolding procs_ok_def
proof (intro allI impI)
  fix pid q assume q: "(P(ps_id p \<mapsto> p')) pid = Some q"
  have base: "ps_id p \<noteq> ''''" "ps_id p \<in> set (ss_processes s)"
    using procs_okD(2,4) [OF P S(2)] S(1) by auto
  show "ps_id q = pid \<and> pid \<noteq> '''' \<and> proc_ok q \<and>
      (\<exists>t. (S(ps_session p \<mapsto> s')) (ps_session q) = Some t \<and> pid \<in> set (ss_processes t) \<and>
        (live (ps_status q) \<longrightarrow> ss_active t = pid))"
  proof (cases "pid = ps_id p")
    case True
    then have qp: "q = p'" using q by simp
    have "(S(ps_session p \<mapsto> s')) (ps_session q) = Some s'" unfolding qp p'(2) by simp
    moreover have "pid \<in> set (ss_processes s')" unfolding s'(1) True by (rule base(2))
    moreover have "live (ps_status q) \<longrightarrow> ss_active s' = pid" unfolding qp True using p'(4) by blast
    moreover have "ps_id q = pid" using qp True p'(1) by simp
    moreover have "pid \<noteq> ''''" using True base(1) by simp
    moreover have "proc_ok q" using qp p'(3) by simp
    ultimately show ?thesis by blast
  next
    case False
    then have Pq: "P pid = Some q" using q by simp
    note d = procs_okD [OF P Pq]
    obtain t where t: "S (ps_session q) = Some t" using d(5) by auto
    note t = d(1-3) t d(4) [OF t]
    show ?thesis
    proof (cases "ps_session q = ps_session p")
      case True
      then have "t = s" using t(4) S(1) by simp
      then have "live (ps_status q) \<longrightarrow> ss_active s' = pid" using t s'(2) False by auto
      moreover have "(S(ps_session p \<mapsto> s')) (ps_session q) = Some s'" unfolding True by simp
      moreover have "pid \<in> set (ss_processes s')" using t \<open>t = s\<close> s'(1) by simp
      ultimately show ?thesis using t(1-3) by blast
    next
      case other: False
      then have "(S(ps_session p \<mapsto> s')) (ps_session q) = Some t" using t(4) by simp
      then show ?thesis using t by blast
    qed
  qed
qed

lemma sessions_ok_update:
  assumes "sessions_ok P S" "S (ps_session p) = Some s" "P (ps_id p) = Some p"
    and "ps_session p' = ps_session p" "ss_id s' = ss_id s" "ss_processes s' = ss_processes s"
  shows "sessions_ok (P(ps_id p \<mapsto> p')) (S(ps_session p \<mapsto> s'))"
  unfolding sessions_ok_def
proof (intro allI impI)
  fix sid t assume t: "(S(ps_session p \<mapsto> s')) sid = Some t"
  have "\<exists>u. S sid = Some u \<and> ss_id t = ss_id u \<and> ss_processes t = ss_processes u"
  proof (cases "sid = ps_session p")
    case True
    then have "t = s'" using t by simp
    then show ?thesis using assms(2,5,6) True by (intro exI [of _ s]) simp
  next
    case False
    then show ?thesis using t by simp
  qed
  then obtain u where u: "S sid = Some u" "ss_id t = ss_id u" "ss_processes t = ss_processes u" by blast
  have "\<exists>q. (P(ps_id p \<mapsto> p')) pid = Some q \<and> ps_session q = sid" if pid: "pid \<in> set (ss_processes u)" for pid
  proof -
    obtain q where q: "P pid = Some q" "ps_session q = sid" using sessions_okD(3) [OF assms(1) u(1) pid] by (elim exE conjE)
    show ?thesis
    proof (cases "pid = ps_id p")
      case True
      then have "q = p" using q(1) assms(3) by simp
      then have "ps_session p' = sid" using q(2) assms(4) by simp
      then show ?thesis using True by (intro exI [of _ p']) simp
    next
      case False
      then show ?thesis using q by (intro exI [of _ q]) simp
    qed
  qed
  then have all: "\<forall>pid \<in> set (ss_processes t). \<exists>q. (P(ps_id p \<mapsto> p')) pid = Some q \<and> ps_session q = sid"
    unfolding u(3) by - (rule ballI, assumption)
  have "ss_id u = sid \<and> distinct (ss_processes u)"
    using sessions_okD(1,2) [OF assms(1) u(1)] by (rule conjI)
  then show "ss_id t = sid \<and> distinct (ss_processes t) \<and>
      (\<forall>pid \<in> set (ss_processes t). \<exists>q. (P(ps_id p \<mapsto> p')) pid = Some q \<and> ps_session q = sid)"
    using u(2,3) by (intro conjI all) simp_all
qed

text \<open>The executions after a change: those of other processes are as before.\<close>

lemma execs_ok_update:
  assumes X: "execs_ok P X n" and d: "distinct (map ex_id X')" "distinct (map ex_process X')"
    and others: "\<And>e. e \<in> set X' \<Longrightarrow> ex_process e \<noteq> pid \<Longrightarrow> e \<in> set X"
    and own: "\<And>e. e \<in> set X' \<Longrightarrow> ex_process e = pid \<Longrightarrow> ex_id e < n' \<and> busy (ps_status p') \<and> quantum_ok e p'"
    and n: "n \<le> n'"
  shows "execs_ok (P(pid \<mapsto> p')) X' n'"
  unfolding execs_ok_def
proof (intro conjI ballI d)
  fix e assume e: "e \<in> set X'"
  have "ex_id e < n' \<and> (\<exists>p. (P(pid \<mapsto> p')) (ex_process e) = Some p \<and> busy (ps_status p) \<and> quantum_ok e p)"
  proof (cases "ex_process e = pid")
    case True
    then show ?thesis using own [OF e] by simp
  next
    case False
    from others [OF e False] have "ex_id e < n \<and> (\<exists>p. P (ex_process e) = Some p \<and> busy (ps_status p) \<and> quantum_ok e p)"
      using X unfolding execs_ok_def by blast
    then show ?thesis using False n by simp
  qed
  then show "ex_id e < n'" "\<exists>p. (P(pid \<mapsto> p')) (ex_process e) = Some p \<and> busy (ps_status p) \<and> quantum_ok e p"
    by blast+
qed


subsection \<open>The runtime's parts\<close>

lemma rt_ok_parts:
  assumes "rt_processes a = rt_processes b" "rt_sessions a = rt_sessions b" "rt_execs a = rt_execs b" "rt_next a = rt_next b"
  shows "rt_ok a = rt_ok b"
  using assms by (simp add: rt_ok_def)

lemma rt_ok_other [simp]:
  "rt_ok (rt\<lparr>rt_log := l\<rparr>) = rt_ok rt" "rt_ok (rt\<lparr>rt_tasks := ts\<rparr>) = rt_ok rt"
  "rt_ok (rt\<lparr>rt_taints := tt\<rparr>) = rt_ok rt" "rt_ok (rt\<lparr>rt_ext := x\<rparr>) = rt_ok rt"
  "rt_ok (rt\<lparr>rt_closed := b\<rparr>) = rt_ok rt" "rt_ok (rt\<lparr>rt_cancelled := b\<rparr>) = rt_ok rt"
  by (simp_all add: rt_ok_def)

lemma rt_okD:
  assumes "rt_ok rt" "mget (rt_processes rt) pid = Some p"
  shows "ps_id p = pid" "pid \<noteq> ''''" "proc_ok p"
    and "\<exists>s. mget (rt_sessions rt) (ps_session p) = Some s \<and> pid \<in> set (ss_processes s) \<and>
      (live (ps_status p) \<longrightarrow> ss_active s = pid) \<and> ss_id s = ps_session p"
proof -
  have ok: "procs_ok (mget (rt_processes rt)) (mget (rt_sessions rt))" "sessions_ok (mget (rt_processes rt)) (mget (rt_sessions rt))"
    using assms(1) by (simp_all add: rt_ok_def)
  note d = procs_okD [OF ok(1) assms(2)]
  show "ps_id p = pid" "pid \<noteq> ''''" "proc_ok p" by (fact d)+
  obtain s where s: "mget (rt_sessions rt) (ps_session p) = Some s" using d(5) by auto
  show "\<exists>s. mget (rt_sessions rt) (ps_session p) = Some s \<and> pid \<in> set (ss_processes s) \<and>
      (live (ps_status p) \<longrightarrow> ss_active s = pid) \<and> ss_id s = ps_session p"
    using s d(4) [OF s] sessions_okD(1) [OF ok(2) s] by blast
qed

lemma rt_execD:
  assumes "rt_ok rt" "e \<in> set (rt_execs rt)"
  obtains p where "mget (rt_processes rt) (ex_process e) = Some p" "busy (ps_status p)" "quantum_ok e p"
    "ex_id e < rt_next rt"
  using assms unfolding rt_ok_def execs_ok_def by blast

lemma rt_exec_unique:
  assumes "rt_ok rt" "e \<in> set (rt_execs rt)" "y \<in> set (rt_execs rt)"
  shows "ex_id y = ex_id e \<longleftrightarrow> y = e" "ex_process y = ex_process e \<longleftrightarrow> y = e"
proof -
  have "distinct (map ex_id (rt_execs rt))" "distinct (map ex_process (rt_execs rt))"
    using assms(1) by (simp_all add: rt_ok_def execs_ok_def)
  then have "inj_on ex_id (set (rt_execs rt))" "inj_on ex_process (set (rt_execs rt))" by (simp_all add: distinct_map)
  then show "ex_id y = ex_id e \<longleftrightarrow> y = e" "ex_process y = ex_process e \<longleftrightarrow> y = e"
    using assms(2,3) by (auto dest: inj_onD)
qed

text \<open>The change of one process, of its session's bookkeeping, and of its executions.\<close>

lemma rt_ok_change:
  assumes ok: "rt_ok rt" and p: "mget (rt_processes rt) pid = Some p" and s: "mget (rt_sessions rt) (ps_session p) = Some s"
    and rt': "mget (rt_processes rt') = (mget (rt_processes rt))(pid \<mapsto> p')"
      "mget (rt_sessions rt') = (mget (rt_sessions rt))(ps_session p \<mapsto> s')" "rt_next rt \<le> rt_next rt'"
    and p': "ps_id p' = pid" "ps_session p' = ps_session p" "proc_ok p'" "live (ps_status p') \<Longrightarrow> ss_active s' = pid"
    and s': "ss_id s' = ss_id s" "ss_processes s' = ss_processes s" "ss_active s' = ss_active s \<or> ss_active s = '''' \<or> ss_active s = pid"
    and X: "distinct (map ex_id (rt_execs rt'))" "distinct (map ex_process (rt_execs rt'))"
      "\<And>e. e \<in> set (rt_execs rt') \<Longrightarrow> ex_process e \<noteq> pid \<Longrightarrow> e \<in> set (rt_execs rt)"
      "\<And>e. e \<in> set (rt_execs rt') \<Longrightarrow> ex_process e = pid \<Longrightarrow> ex_id e < rt_next rt' \<and> busy (ps_status p') \<and> quantum_ok e p'"
  shows "rt_ok rt'"
proof -
  have "ps_id p = pid" using rt_okD(1) [OF ok p] .
  then have id: "pid = ps_id p" ..
  have P: "procs_ok (mget (rt_processes rt)) (mget (rt_sessions rt))" "sessions_ok (mget (rt_processes rt)) (mget (rt_sessions rt))"
    "execs_ok (mget (rt_processes rt)) (rt_execs rt) (rt_next rt)"
    using ok by (simp_all add: rt_ok_def)
  note pp = p [unfolded id]
  have "procs_ok (mget (rt_processes rt')) (mget (rt_sessions rt'))"
    unfolding rt'(1,2) id
    by (rule procs_ok_update [OF P(1) s pp]) (use p' s' id in simp_all)
  moreover have "sessions_ok (mget (rt_processes rt')) (mget (rt_sessions rt'))"
    unfolding rt'(1,2) id
    by (rule sessions_ok_update [OF P(2) s pp p'(2) s'(1,2)])
  moreover have "execs_ok (mget (rt_processes rt')) (rt_execs rt') (rt_next rt')"
    unfolding rt'(1)
    by (rule execs_ok_update [OF P(3) X(1,2)]) (use X(3,4) rt'(3) in blast)+
  ultimately show ?thesis unfolding rt_ok_def by blast
qed

subsection \<open>Executions\<close>

lemma put_exec_members:
  assumes "rt_ok rt" "e \<in> set (rt_execs rt)" "ex_id e' = ex_id e" "ex_process e' = ex_process e"
    and "rt_execs rt1 = rt_execs rt"
  shows "distinct (map ex_id (rt_execs (put_exec e' rt1)))" "distinct (map ex_process (rt_execs (put_exec e' rt1)))"
    "y \<in> set (rt_execs (put_exec e' rt1)) \<longleftrightarrow> y = e' \<or> y \<in> set (rt_execs rt) \<and> ex_process y \<noteq> ex_process e"
proof -
  let ?X = "rt_execs rt"
  have X: "rt_execs (put_exec e' rt1) = map (\<lambda>y. if ex_id y = ex_id e then e' else y) ?X"
    using assms(3,5) by (simp add: put_exec_def)
  have d: "distinct (map ex_id ?X)" "distinct (map ex_process ?X)" using assms(1) by (simp_all add: rt_ok_def execs_ok_def)
  have "map ex_id (rt_execs (put_exec e' rt1)) = map ex_id ?X" using assms(3) by (simp add: X)
  then show "distinct (map ex_id (rt_execs (put_exec e' rt1)))" using d by simp
  have "map ex_process (rt_execs (put_exec e' rt1)) = map ex_process ?X"
    using rt_exec_unique(1) [OF assms(1,2)] assms(4) by (simp add: X)
  then show "distinct (map ex_process (rt_execs (put_exec e' rt1)))" using d by simp
  show "y \<in> set (rt_execs (put_exec e' rt1)) \<longleftrightarrow> y = e' \<or> y \<in> set ?X \<and> ex_process y \<noteq> ex_process e"
    using rt_exec_unique [OF assms(1,2)] assms(2) unfolding X by (auto simp: image_iff)
qed

lemma drop_exec_members:
  assumes "rt_ok rt" "e \<in> set (rt_execs rt)"
  shows "y \<in> set (filter (\<lambda>y. ex_id y \<noteq> ex_id e) (rt_execs rt)) \<longleftrightarrow> y \<in> set (rt_execs rt) \<and> ex_process y \<noteq> ex_process e"
  using rt_exec_unique [OF assms] by auto

lemma distinct_filter_map: "distinct (map f xs) \<Longrightarrow> distinct (map f (filter P xs))"
  by (induction xs) auto

lemma rt_execs_distinct:
  "rt_ok rt \<Longrightarrow> distinct (map ex_id (rt_execs rt))" "rt_ok rt \<Longrightarrow> distinct (map ex_process (rt_execs rt))"
  by (simp_all add: rt_ok_def execs_ok_def)

lemma not_busy_no_exec:
  assumes "rt_ok rt" "mget (rt_processes rt) pid = Some p" "\<not> busy (ps_status p)" "e \<in> set (rt_execs rt)"
  shows "ex_process e \<noteq> pid"
  using rt_execD [OF assms(1,4)] assms(2,3) by (metis option.inject)


text \<open>The section of a goroutine that leaves it running.\<close>

lemma rt_ok_exec:
  assumes ok: "rt_ok rt" and e: "e \<in> set (rt_execs rt)" and p: "mget (rt_processes rt) (ex_process e) = Some p"
    and e': "ex_id e' = ex_id e" "ex_process e' = ex_process e"
    and rt1: "mget (rt_processes rt1) = (mget (rt_processes rt))(ex_process e \<mapsto> p')"
      "rt_sessions rt1 = rt_sessions rt" "rt_execs rt1 = rt_execs rt" "rt_next rt1 = rt_next rt"
    and p': "ps_id p' = ps_id p" "ps_session p' = ps_session p" "proc_ok p'" "busy (ps_status p')" "quantum_ok e' p'"
  shows "rt_ok (put_exec e' rt1)"
proof -
  note d = rt_okD [OF ok p]
  obtain s where s: "mget (rt_sessions rt) (ps_session p) = Some s" "live (ps_status p) \<longrightarrow> ss_active s = ex_process e"
    using d(4) by blast
  obtain q where q: "mget (rt_processes rt) (ex_process e) = Some q" "busy (ps_status q)" "ex_id e < rt_next rt"
    using rt_execD [OF ok e] by blast
  have act: "ss_active s = ex_process e" using s(2) q(1,2) p by (simp add: live_def)
  note m = put_exec_members [OF ok e e' rt1(3)]
  have put: "rt_processes (put_exec e' rt1) = rt_processes rt1" "rt_sessions (put_exec e' rt1) = rt_sessions rt1"
    "rt_next (put_exec e' rt1) = rt_next rt1" by (simp_all add: put_exec_def)
  show ?thesis
  proof (rule rt_ok_change [OF ok p s(1)])
    show "mget (rt_processes (put_exec e' rt1)) = (mget (rt_processes rt))(ex_process e \<mapsto> p')" by (simp only: put rt1)
    show "mget (rt_sessions (put_exec e' rt1)) = (mget (rt_sessions rt))(ps_session p \<mapsto> s)"
      using s(1) by (simp only: put rt1 fun_upd_idem)
    show "rt_next rt \<le> rt_next (put_exec e' rt1)" by (simp only: put rt1)
    show "ps_id p' = ex_process e" using p'(1) d(1) by simp
    fix y assume y: "y \<in> set (rt_execs (put_exec e' rt1))"
    show "ex_process y \<noteq> ex_process e \<Longrightarrow> y \<in> set (rt_execs rt)" using y e'(2) by (auto simp: m(3))
    show "ex_process y = ex_process e \<Longrightarrow> ex_id y < rt_next (put_exec e' rt1) \<and> busy (ps_status p') \<and> quantum_ok y p'"
      using y e' p'(4,5) q(3) by (auto simp: m(3) put rt1)
  qed (use p' act m(1,2) in simp_all)
qed

lemma append_process_log: "\<exists>l. append_process W p rt = (fst (append_process W p rt), rt\<lparr>rt_log := l\<rparr>)"
proof -
  have "\<exists>l. snd (append_process W p rt) = rt\<lparr>rt_log := l\<rparr>"
  proof (cases "process_state_event (wi_codec W) (rt_now W rt) (stored_process p)")
    case (Inl e)
    then show ?thesis by (intro exI [of _ "rt_log rt"]) (simp add: append_process_def append_event_def)
  next
    case (Inr ev)
    then show ?thesis by (simp add: append_process_def append_event_def case_prod_unfold) blast
  qed
  then show ?thesis by (metis prod.collapse)
qed

lemma append_session_log: "\<exists>l. append_session W s rt = (fst (append_session W s rt), rt\<lparr>rt_log := l\<rparr>)"
proof -
  have "\<exists>l. snd (append_session W s rt) = rt\<lparr>rt_log := l\<rparr>"
  proof (cases "session_state_event (wi_codec W) (rt_now W rt) (stored_session s)")
    case (Inl e)
    then show ?thesis by (intro exI [of _ "rt_log rt"]) (simp add: append_session_def append_event_def)
  next
    case (Inr ev)
    then show ?thesis by (simp add: append_session_def append_event_def case_prod_unfold) blast
  qed
  then show ?thesis by (metis prod.collapse)
qed

text \<open>What a process's invariant reads of it.\<close>

lemma proc_ok_cong:
  assumes "ps_session p' = ps_session p" "ps_id p' = ps_id p" "ps_revision p' = ps_revision p"
    "ps_history p' = ps_history p" "ps_length p' = ps_length p"
  shows "ps_last_failure p' = ps_last_failure p \<Longrightarrow> ps_aborts p' = ps_aborts p \<Longrightarrow> proc_ok p' = proc_ok p"
    "proc_context p' = proc_context p" "guest_tape p' g = guest_tape p g"
  using assms by (simp_all add: proc_ok_def proc_journal_def proc_context_def guest_tape_def)

lemma quantum_ok_cong:
  assumes "ps_session p' = ps_session p" "ps_id p' = ps_id p" "ps_revision p' = ps_revision p"
    "ps_history p' = ps_history p" "ps_length p' = ps_length p"
    and "ex_phase e = Awaiting \<longrightarrow> ps_stop p' = ps_stop p \<and> ps_stop_requested p' = ps_stop_requested p"
  shows "quantum_ok e p' = quantum_ok e p"
  using assms(6) by (auto simp: quantum_ok_def proc_ok_cong [OF assms(1-5)])

lemma exec_begin_ok:
  assumes ok: "rt_ok rt" and e: "e \<in> set (rt_execs rt)" "ex_phase e = Launched" and b: "exec_begin e rt = Some rt'"
  shows "rt_ok rt'"
proof -
  obtain p where p: "mget (rt_processes rt) (ex_process e) = Some p" "busy (ps_status p)" "quantum_ok e p"
    using rt_execD [OF ok e(1)] by blast
  obtain e' where e': "rt' = put_exec e' rt" "ex_id e' = ex_id e" "ex_process e' = ex_process e" "quantum_ok e' p"
  proof -
    have "\<forall>g. ex_quantum e \<noteq> Running g" using p(3) e(2) by (auto simp: quantum_ok_def submitted_def)
    then show ?thesis
      using b p(1) that [of "e\<lparr>ex_phase := Finishing ProcessStopped '''' (Some Canceled)\<rparr>"]
        that [of "e\<lparr>ex_phase := Finishing ProcessInterrupted '''' (Some PoolClosed)\<rparr>"]
        that [of "e\<lparr>ex_phase := Submitted, ex_cred := proc_context p, ex_program := m_program (ps_manifest p),
               ex_digest := ps_digest p\<rparr>"]
      by (simp add: exec_begin_def quantum_ok_def submitted_def split: if_splits)
  qed
  show ?thesis unfolding e'(1)
    by (rule rt_ok_exec [OF ok e(1) p(1) e'(2,3), of rt p])
      (use p e' rt_okD(3) [OF ok p(1)] in \<open>simp_all add: fun_upd_idem\<close>)
qed

lemma exec_mark_ok:
  assumes ok: "rt_ok rt" and e: "e \<in> set (rt_execs rt)" "ex_phase e = Submitted" and b: "exec_mark W e rt = Some rt'"
  shows "rt_ok rt'"
proof -
  obtain p where p: "mget (rt_processes rt) (ex_process e) = Some p" "quantum_ok e p"
    using rt_execD [OF ok e(1)] by blast
  let ?p = "p\<lparr>ps_stop := Some (ex_id e), ps_status := ProcessRunning, ps_started := Some (rt_now W rt), ps_updated := rt_now W rt\<rparr>"
  let ?e = "e\<lparr>ex_phase := Awaiting, ex_cancelled := ex_cancelled e \<or> ps_stop_requested p\<rparr>"
  obtain l where l: "snd (append_process W ?p (put_process ?p rt)) = (put_process ?p rt)\<lparr>rt_log := l\<rparr>"
    using append_process_log [of W ?p "put_process ?p rt"] by (metis snd_conv)
  have rt': "rt' = put_exec ?e ((put_process ?p rt)\<lparr>rt_log := l\<rparr>)" using b p(1) l by (simp add: exec_mark_def Let_def)
  have q: "quantum_ok ?e ?p"
    using p(2) e(2) by (auto simp: quantum_ok_def submitted_def proc_ok_cong(2,3) [of ?p p])
  show ?thesis unfolding rt'
    by (rule rt_ok_exec [OF ok e(1) p(1), of ?e _ ?p])
      (use q rt_okD(1,3) [OF ok p(1)] proc_ok_cong(1) [of ?p p] in \<open>simp_all add: put_process_def\<close>)
qed

lemma exec_land_ok:
  assumes ok: "rt_ok rt" and e: "e \<in> set (rt_execs rt)" "ex_quantum e = Landed r" and b: "exec_land r e rt = Some rt'"
  shows "rt_ok rt'"
proof -
  obtain p where p: "mget (rt_processes rt) (ex_process e) = Some p" "busy (ps_status p)"
    using rt_execD [OF ok e(1)] by blast
  have rt': "rt' = put_exec (e\<lparr>ex_phase := Outcome r\<rparr>) (put_process (p\<lparr>ps_stop := None\<rparr>) rt)"
    using b p(1) by (simp add: exec_land_def)
  show ?thesis unfolding rt'
    by (rule rt_ok_exec [OF ok e(1) p(1), of _ _ "p\<lparr>ps_stop := None\<rparr>"])
      (use p(2) e(2) rt_okD(1,3) [OF ok p(1)] proc_ok_cong(1) [of "p\<lparr>ps_stop := None\<rparr>" p] in
        \<open>simp_all add: put_process_def quantum_ok_def submitted_def\<close>)
qed


subsection \<open>The quantum\<close>

lemma quantum_tape_cong:
  assumes "tape_view v = tape_view w"
  shows "quantum_tape v = quantum_tape w"
proof -
  have j: "journal_view (tp_journal v) = journal_view (tp_journal w)" and c: "tp_cursor v = tp_cursor w" "tp_pending v = tp_pending w"
    using assms by (simp_all add: tape_view_def)
  show ?thesis using journal_view_cong [OF j] c by (simp add: quantum_tape_def tape_ok_def)
qed

lemma cworld_tape: "quantum_tape (cworld_of rt p g) = quantum_tape (guest_tape p g)"
  by (rule quantum_tape_cong)
    (simp add: tape_view_def journal_view_def cworld_of_def guest_tape_def proc_journal_def new_log_journal_def)

lemma quantum_end_ok:
  assumes ok: "rt_ok rt" and e: "e \<in> set (rt_execs rt)"
  shows "rt_ok (quantum_end r e rt)"
proof -
  obtain p where p: "mget (rt_processes rt) (ex_process e) = Some p" "busy (ps_status p)" "quantum_ok e p"
    using rt_execD [OF ok e] by blast
  show ?thesis unfolding quantum_end_def
    by (rule rt_ok_exec [OF ok e p(1), of _ rt p])
      (use p rt_okD(3) [OF ok p(1)] in \<open>simp_all add: fun_upd_idem quantum_ok_def submitted_def\<close>)
qed

lemma quantum_drop_end: "quantum_drop e rt = quantum_end (stopped_result (if rt_cancelled rt then PoolClosed else Dropped)) e rt"
  by (simp add: quantum_drop_def quantum_end_def)

text \<open>A started quantum runs over a chain that \<open>newDispatcher\<close> built on the provider's drivers, from the tape's beginning.\<close>

definition built_chain ::
    "('l, 'd, 'r, 's, 'v, 'i, 'x) wiring \<Rightarrow> process_context \<Rightarrow>
     (process_context, 'r, ('l, 'r, process_context, 's, 'x) cworld) dispatcher \<Rightarrow> bool"
where
  "built_chain W cred d \<longleftrightarrow>
     (\<exists>m x t0 x' l j. wi_provider W cred m x = (Inr t0, x') \<and>
        new_dispatcher (schema_api.truncate (wi_schemas W)) (wi_sys W) (wi_log W) (wi_codec W) (wi_enc W)
          (wi_entropy W) (wi_tasks W) l m (Inr t0) j = Inr d)"

lemma quantum_start_chain:
  assumes p: "mget (rt_processes rt) (ex_process e) = Some p" and pc: "pc_process (ex_cred e) = ex_process e"
    and s: "quantum_start W ctx e rt = Some rt'"
  obtains q x where "rt' = put_exec (e\<lparr>ex_quantum := q\<rparr>) (rt\<lparr>rt_ext := x\<rparr>)"
    "\<And>g. q = Running g \<Longrightarrow> built_chain W (ex_cred e) (gr_chain g) \<and> gr_cursor g = 0 \<and> \<not> gr_pending g"
proof (cases "registry_bound (wi_programs W) (ex_program e) (ex_digest e)")
  case (Inl y)
  then have "rt' = put_exec (e\<lparr>ex_quantum := Landed (setup_failed ctx y)\<rparr>) (rt\<lparr>rt_ext := rt_ext rt\<rparr>)"
    using s by (simp add: quantum_start_def)
  then show ?thesis using that by blast
next
  case (Inr program)
  obtain y rt1 where c: "quantum_chain W (ex_cred e) program rt = Some (y, rt1)"
    using s Inr by (cases "quantum_chain W (ex_cred e) program rt") (auto simp: quantum_start_def)
  obtain provided x where pr: "wi_provider W (ex_cred e) (ps_manifest p) (rt_ext rt) = (provided, x)" by fastforce
  obtain h where h: "rt1 = rt\<lparr>rt_ext := x\<rparr>"
    "y = new_dispatcher (schema_api.truncate (wi_schemas W)) (wi_sys W) (wi_log W) (wi_codec W) (wi_enc W)
       (wi_entropy W) (wi_tasks W) (lifecycle_of W program p h) (ps_manifest p) provided (proc_journal (rt_log rt) p)"
    using c p(1) pc pr by (auto simp: quantum_chain_def bind_eq_Some_conv)
  show ?thesis
  proof (cases y)
    case (Inl z)
    then have "rt' = put_exec (e\<lparr>ex_quantum := Landed (setup_failed ctx z)\<rparr>) (rt\<lparr>rt_ext := x\<rparr>)"
      using s Inr c h(1) by (simp add: quantum_start_def)
    then show ?thesis using that by blast
  next
    case d: (Inr chain)
    obtain t0 where t0: "provided = Inr t0" using h(2) d by (cases provided) (simp_all add: new_dispatcher_def)
    have b: "built_chain W (ex_cred e) chain"
      unfolding built_chain_def using pr [unfolded t0] h(2) [unfolded d t0, symmetric] by blast
    have "rt' = put_exec (e\<lparr>ex_quantum :=
        Running \<lparr>gr_chain = chain, gr_cursor = 0, gr_pending = False, gr_schemas = []\<rparr>\<rparr>) (rt\<lparr>rt_ext := x\<rparr>)"
      using s Inr c h(1) d by (simp add: quantum_start_def)
    then show ?thesis by (rule that) (use b in auto)
  qed
qed

lemma quantum_start_ok:
  assumes ok: "rt_ok rt" and e: "e \<in> set (rt_execs rt)" "submitted e" and W: "provider_keeps W"
    and s: "quantum_start W ctx e rt = Some rt'"
  shows "rt_ok rt'"
proof -
  obtain p where p: "mget (rt_processes rt) (ex_process e) = Some p" "busy (ps_status p)" "quantum_ok e p"
    using rt_execD [OF ok e(1)] by blast
  note pd = rt_okD [OF ok p(1)]
  have cred: "ex_cred e = proc_context p" using p(3) e(2) by (simp add: quantum_ok_def)
  then have pc: "pc_process (ex_cred e) = ex_process e" using pd(1) by (simp add: proc_context_def)
  have built: "keeps_quantum d" if "built_chain W c d" for c d
    using that W new_dispatcher_keeps(1) unfolding built_chain_def provider_keeps_def by metis
  obtain q x where q: "rt' = put_exec (e\<lparr>ex_quantum := q\<rparr>) (rt\<lparr>rt_ext := x\<rparr>)"
    "\<forall>g. q = Running g \<longrightarrow> keeps_quantum (gr_chain g) \<and> gr_cursor g = 0 \<and> \<not> gr_pending g"
    using quantum_start_chain [OF p(1) pc s] built by metis
  have "\<forall>g. q = Running g \<longrightarrow> quantum_tape (guest_tape p g)"
    using pd(3) q(2) by (simp add: proc_ok_def wf_journal_def quantum_tape_def tape_ok_def guest_tape_def)
  then have "quantum_ok (e\<lparr>ex_quantum := q\<rparr>) p"
    using p(3) q(2) e(2) cred by (auto simp: quantum_ok_def submitted_def)
  then show ?thesis unfolding q(1)
    by (intro rt_ok_exec [OF ok e(1) p(1), of _ _ p]) (use p pd(3) in \<open>simp_all add: fun_upd_idem\<close>)
qed

lemma quantum_call_ok:
  assumes ok: "rt_ok rt" and e: "e \<in> set (rt_execs rt)" "ex_quantum e = Running g"
    and c: "quantum_call c g e rt = Some (y, rt')"
  shows "rt_ok rt'"
proof -
  obtain p where p: "mget (rt_processes rt) (ex_process e) = Some p" "busy (ps_status p)" "quantum_ok e p"
    using rt_execD [OF ok e(1)] by blast
  note pd = rt_okD [OF ok p(1)]
  obtain w where w: "w = snd (gr_chain g [] (ex_cred e) c no_auth (cworld_of rt p g))"
    "rt' = put_exec (e\<lparr>ex_quantum := Running (guest_after g w)\<rparr>) (put_cworld p w rt)"
    using c p(1) by (auto simp: quantum_call_def split: prod.splits)
  have g: "keeps_quantum (gr_chain g)" "quantum_tape (cworld_of rt p g)" "submitted e"
    using p(3) e(2) by (simp_all add: quantum_ok_def cworld_tape)
  have qw: "quantum_tape w" "names (tp_journal w) = (ps_session p, ps_id p, ps_revision p)" "ps_length p \<le> lj_length (tp_journal w)"
  proof -
    have k: "quantum_tape w" "grows (tp_journal (cworld_of rt p g)) (tp_journal w)"
      using g(1,2) unfolding w(1) keeps_quantum_def by blast+
    show "quantum_tape w" by (rule k(1))
    show "names (tp_journal w) = (ps_session p, ps_id p, ps_revision p)" "ps_length p \<le> lj_length (tp_journal w)"
      using k(2) by (simp_all add: grows_def names_def cworld_of_def proc_journal_def new_log_journal_def)
  qed
  let ?p = "p\<lparr>ps_history := lj_history (tp_journal w), ps_length := lj_length (tp_journal w)\<rparr>"
  have view: "tape_view (guest_tape ?p (guest_after g w)) = tape_view w"
    using qw(2) by (simp add: tape_view_def guest_tape_def guest_after_def journal_view_def proc_journal_def
        new_log_journal_def names_def)
  have t: "quantum_tape (guest_tape ?p (guest_after g w))" using quantum_tape_cong [OF view] qw(1) by simp
  have pk: "proc_ok ?p" using t qw(3) pd(3) by (simp add: proc_ok_def wf_journal_def quantum_tape_def tape_ok_def guest_tape_def)
  have "proc_context ?p = proc_context p" by (simp add: proc_context_def)
  then have "quantum_ok (e\<lparr>ex_quantum := Running (guest_after g w)\<rparr>) ?p"
    using p(3) g t by (auto simp: quantum_ok_def submitted_def guest_after_def)
  then show ?thesis unfolding w(2)
    by (intro rt_ok_exec [OF ok e(1) p(1), of _ _ ?p])
      (use p(2) pd(1) pk in \<open>simp_all add: put_cworld_def put_process_def\<close>)
qed


subsection \<open>Ends and launches\<close>

text \<open>After a change of a process the executions of others are left, and perhaps a new launch of it.\<close>

definition launched :: "nat \<Rightarrow> string \<Rightarrow> ('l, 'r, 's, 'x) execution" where
  "launched n pid =
     \<lparr>ex_id = n, ex_process = pid, ex_phase = Launched,
      ex_cred = \<lparr>pc_session = '''', pc_process = '''', pc_revision = 0\<rparr>, ex_program = '''', ex_digest = '''',
      ex_cancelled = False, ex_quantum = Unstarted\<rparr>"

lemma launch_parts [simp]:
  "rt_execs (launch pid rt) = rt_execs rt @ [launched (rt_next rt) pid]" "rt_next (launch pid rt) = Suc (rt_next rt)"
  "rt_processes (launch pid rt) = rt_processes rt" "rt_sessions (launch pid rt) = rt_sessions rt"
  "rt_log (launch pid rt) = rt_log rt" "rt_tasks (launch pid rt) = rt_tasks rt" "rt_closed (launch pid rt) = rt_closed rt"
  by (simp_all add: launch_def launched_def)

lemma launched_ok: "quantum_ok (launched n pid) p" "ex_process (launched n pid) = pid" "ex_id (launched n pid) = n"
  by (simp_all add: launched_def quantum_ok_def submitted_def)

lemma rt_ok_moves:
  assumes ok: "rt_ok rt" and p: "mget (rt_processes rt) pid = Some p" and s: "mget (rt_sessions rt) (ps_session p) = Some s"
    and rt': "mget (rt_processes rt') = (mget (rt_processes rt))(pid \<mapsto> p')"
      "mget (rt_sessions rt') = (mget (rt_sessions rt))(ps_session p \<mapsto> s')"
    and X: "rt_execs rt' = filter Q (rt_execs rt) @ ys" "\<And>e. e \<in> set (rt_execs rt) \<Longrightarrow> Q e \<Longrightarrow> ex_process e \<noteq> pid"
      "ys = [] \<and> rt_next rt' = rt_next rt \<or>
       ys = [launched (rt_next rt) pid] \<and> rt_next rt' = Suc (rt_next rt) \<and> busy (ps_status p')"
    and p': "ps_id p' = pid" "ps_session p' = ps_session p" "proc_ok p'" "live (ps_status p') \<Longrightarrow> ss_active s' = pid"
    and s': "ss_id s' = ss_id s" "ss_processes s' = ss_processes s" "ss_active s' = ss_active s \<or> ss_active s = '''' \<or> ss_active s = pid"
  shows "rt_ok rt'"
proof (rule rt_ok_change [OF ok p s rt' _ p' s'])
  note d = rt_execs_distinct [OF ok]
  have bound: "ex_id e < rt_next rt" if "e \<in> set (rt_execs rt)" for e using rt_execD [OF ok that] by blast
  then have new: "rt_next rt \<notin> ex_id ` set (rt_execs rt)" by fastforce
  show "rt_next rt \<le> rt_next rt'" using X(3) by auto
  show "distinct (map ex_id (rt_execs rt'))"
    using X(3) distinct_filter_map [OF d(1)] new by (auto simp: X(1) launched_ok intro: rev_image_eqI)
  show "distinct (map ex_process (rt_execs rt'))"
    using X(2,3) distinct_filter_map [OF d(2)] by (auto simp: X(1) launched_ok)
  fix e assume e: "e \<in> set (rt_execs rt')"
  show "ex_process e \<noteq> pid \<Longrightarrow> e \<in> set (rt_execs rt)" using e X(3) by (auto simp: X(1) launched_ok)
  show "ex_id e < rt_next rt' \<and> busy (ps_status p') \<and> quantum_ok e p'" if own: "ex_process e = pid"
  proof -
    have "e \<in> set ys" using e X(2) own by (auto simp: X(1))
    then have "e = launched (rt_next rt) pid" "rt_next rt' = Suc (rt_next rt)" "busy (ps_status p')" using X(3) by auto
    then show ?thesis by (simp add: launched_ok)
  qed
qed

lemma finish_parts:
  assumes "finish W p st a f rt = Some rt'" "mget (rt_sessions rt) (ps_session p) = Some s"
  shows "rt_processes rt' = mput (ps_id p) (finished (rt_now W rt) (rt_taints rt) st a f p) (rt_processes rt)"
    and "rt_sessions rt' = mput (ss_id s)
      (s\<lparr>ss_active := (if st \<noteq> ProcessWaitingTask \<and> ss_active s = ps_id p then '''' else ss_active s),
         ss_updated := rt_now W rt\<rparr>) (rt_sessions rt)"
    and "rt_execs rt' = rt_execs rt" "rt_next rt' = rt_next rt" "rt_tasks rt' = rt_tasks rt"
    "rt_closed rt' = rt_closed rt" "rt_cancelled rt' = rt_cancelled rt"
proof -
  let ?p = "finished (rt_now W rt) (rt_taints rt) st a f p"
  let ?s = "s\<lparr>ss_active := (if st \<noteq> ProcessWaitingTask \<and> ss_active s = ps_id p then '''' else ss_active s),
         ss_updated := rt_now W rt\<rparr>"
  let ?rt = "put_session ?s (put_process ?p (if is_terminal st
                then rt\<lparr>rt_taints := forget_process (proc_context p) (rt_taints rt)\<rparr> else rt))"
  obtain l where "snd (append_process W ?p ?rt) = ?rt\<lparr>rt_log := l\<rparr>"
    using append_process_log [of W ?p ?rt] by (metis snd_conv)
  then have rt': "rt' = ?rt\<lparr>rt_log := l\<rparr>" using assms by (simp add: finish_def Let_def)
  have id: "ps_id ?p = ps_id p" by (simp add: finished_def)
  show "rt_processes rt' = mput (ps_id p) ?p (rt_processes rt)" "rt_sessions rt' = mput (ss_id s) ?s (rt_sessions rt)"
    "rt_execs rt' = rt_execs rt" "rt_next rt' = rt_next rt" "rt_tasks rt' = rt_tasks rt"
    "rt_closed rt' = rt_closed rt" "rt_cancelled rt' = rt_cancelled rt"
    unfolding rt' by (simp_all add: put_process_def put_session_def id)
qed

lemma finished_journal [simp]:
  "ps_id (finished now tt st a f p) = ps_id p" "ps_session (finished now tt st a f p) = ps_session p"
  "ps_status (finished now tt st a f p) = st" "proc_ok (finished now tt st a f p) = proc_ok p"
  by (simp_all add: finished_def proc_ok_def proc_journal_def)

text \<open>A run ends: its process is not busy, and its execution is gone.\<close>

lemma finish_ok:
  assumes ok: "rt_ok rt" and p: "mget (rt_processes rt) pid = Some p" "live (ps_status p)"
    and f: "finish W p st a f rt = Some rt1" and st: "\<not> busy st"
    and X: "rt_execs rt' = filter Q (rt_execs rt1)" "\<And>e. e \<in> set (rt_execs rt) \<Longrightarrow> Q e \<Longrightarrow> ex_process e \<noteq> pid"
    and rt': "rt_processes rt' = rt_processes rt1" "rt_sessions rt' = rt_sessions rt1" "rt_next rt' = rt_next rt1"
  shows "rt_ok rt'"
proof -
  note d = rt_okD [OF ok p(1)]
  obtain s where s: "mget (rt_sessions rt) (ps_session p) = Some s" "ss_active s = pid" "ss_id s = ps_session p"
    using d(4) p(2) by blast
  note fp = finish_parts [OF f s(1)]
  show ?thesis
    by (rule rt_ok_moves [OF ok p(1) s(1), of rt' "finished (rt_now W rt) (rt_taints rt) st a f p"
          "s\<lparr>ss_active := (if st \<noteq> ProcessWaitingTask \<and> ss_active s = ps_id p then '''' else ss_active s),
             ss_updated := rt_now W rt\<rparr>" Q "[]"])
      (use X fp rt' st s d in \<open>simp_all add: live_def\<close>)
qed

lemma exec_finish_ok:
  assumes ok: "rt_ok rt" and e: "e \<in> set (rt_execs rt)" "ex_phase e = Finishing st a f"
    and b: "exec_finish W st a f e rt = Some rt'"
  shows "rt_ok rt'"
proof -
  obtain p where p: "mget (rt_processes rt) (ex_process e) = Some p" "busy (ps_status p)" "quantum_ok e p"
    using rt_execD [OF ok e(1)] by blast
  obtain rt1 where f: "finish W p st a f rt = Some rt1" "rt' = drop_exec e rt1"
    using b p(1) by (auto simp: exec_finish_def)
  have st: "\<not> busy st" using p(3) e(2) by (simp add: quantum_ok_def)
  show ?thesis
    by (rule finish_ok [OF ok p(1) _ f(1) st, where Q = "\<lambda>y. ex_id y \<noteq> ex_id e"])
      (use p(2) f(2) rt_exec_unique [OF ok e(1)] in \<open>auto simp: drop_exec_def live_def\<close>)
qed

lemma relaunch_cases:
  assumes r: "relaunch W p rt = Some (y, rt')" and s: "mget (rt_sessions rt) (ps_session p) = Some s"
  obtains (closed) "y = Inl runtime_closed" "rt' = rt" "rt_closed rt"
  | (failed) x where "y = Inl x" "\<not> rt_closed rt"
      "rt_processes rt' = mput (ps_id p) (queued (rt_now W rt) p) (rt_processes rt)"
      "rt_sessions rt' = mput (ss_id s) (s\<lparr>ss_active := ps_id p, ss_updated := rt_now W rt\<rparr>) (rt_sessions rt)"
      "rt_execs rt' = rt_execs rt" "rt_next rt' = rt_next rt" "rt_tasks rt' = rt_tasks rt" "rt_closed rt' = rt_closed rt"
  | (relaunched) "y = Inr (process_snapshot_of (queued (rt_now W rt) p))" "\<not> rt_closed rt"
      "rt_processes rt' = mput (ps_id p) (queued (rt_now W rt) p) (rt_processes rt)"
      "rt_sessions rt' = mput (ss_id s) (s\<lparr>ss_active := ps_id p, ss_updated := rt_now W rt\<rparr>) (rt_sessions rt)"
      "rt_execs rt' = rt_execs rt @ [launched (rt_next rt) (ps_id p)]" "rt_next rt' = Suc (rt_next rt)"
      "rt_tasks rt' = rt_tasks rt" "rt_closed rt' = rt_closed rt"
      "fst (append_process W (queued (rt_now W rt) p)
         (put_session (s\<lparr>ss_active := ps_id p, ss_updated := rt_now W rt\<rparr>) (put_process (queued (rt_now W rt) p) rt))) = None"
proof (cases "rt_closed rt")
  case True
  then show ?thesis using r closed by (simp add: relaunch_def)
next
  case False
  let ?p = "queued (rt_now W rt) p"
  let ?s = "s\<lparr>ss_active := ps_id p, ss_updated := rt_now W rt\<rparr>"
  let ?rt = "put_session ?s (put_process ?p rt)"
  have up: "ps_updated ?p = rt_now W rt" "ps_id ?p = ps_id p" by (simp_all add: queued_def)
  obtain x l where a: "append_process W ?p ?rt = (x, ?rt\<lparr>rt_log := l\<rparr>)" "fst (append_process W ?p ?rt) = x"
    using append_process_log [of W ?p ?rt] by metis
  have r': "Some (y, rt') = (case append_process W ?p ?rt of
           (Some e, rt1) \<Rightarrow> Some (Inl e, rt1)
         | (None, rt1) \<Rightarrow> Some (Inr (process_snapshot_of ?p), launch (ps_id p) rt1))"
    using r s False by (simp add: relaunch_def Let_def up)
  show ?thesis
  proof (cases x)
    case (Some e)
    then have "y = Inl e" "rt' = ?rt\<lparr>rt_log := l\<rparr>" using r' a by simp_all
    then show ?thesis using False up by (intro failed [of e]) (simp_all add: put_process_def put_session_def)
  next
    case None
    then have "y = Inr (process_snapshot_of ?p)" "rt' = launch (ps_id p) (?rt\<lparr>rt_log := l\<rparr>)" using r' a by simp_all
    then show ?thesis using False up a None
      by (intro relaunched) (simp_all add: put_process_def put_session_def)
  qed
qed

end
