(* ===== verification/Reach.thy ===== *)
theory Reach
  imports Steps
begin

text \<open>
  The runtime's invariant holds in every reachable state: the steps that relaunch, end, create
  and stop a process, and the theorem over the transition system of \<open>Steps\<close>.
\<close>

subsection \<open>Forks and relaunches\<close>

lemma proc_journal_fork:
  "proc_journal l (fst (fork_process off p rt)) = fork_journal off (proc_journal l p)"
  by (simp add: fork_process_def Let_def proc_journal_def fork_journal_def new_log_journal_def)

lemma proc_ok_journal:
  "proc_ok p \<longleftrightarrow> lj_ok (proc_journal l p) \<and> wf_records (lj_recs (proc_journal l p)) \<and> wf_history (ps_history p) \<and>
     ps_last_failure p \<le> ps_length p \<and> ps_aborts p \<le> max_abort_retries"
  by (simp add: proc_ok_def wf_journal_def lj_ok_def lj_recs_def proc_journal_def new_log_journal_def)

lemma fork_parts:
  assumes "fork_process off p rt = (p1, rt1)"
  shows "rt_processes rt1 = mput (ps_id p) p1 (rt_processes rt)" "rt_sessions rt1 = rt_sessions rt"
    "rt_execs rt1 = rt_execs rt" "rt_next rt1 = rt_next rt" "rt_log rt1 = rt_log rt" "rt_closed rt1 = rt_closed rt"
    "rt_tasks rt1 = rt_tasks rt" "ps_id p1 = ps_id p" "ps_session p1 = ps_session p" "ps_status p1 = ps_status p"
    "ps_aborts p1 = ps_aborts p"
  using assms by (auto simp: fork_process_def Let_def put_process_def)

lemma fork_ok:
  assumes "fork_process off p rt = (p1, rt1)" "proc_ok p" "off \<le> ps_length p"
  shows "proc_ok p1"
proof -
  have p1: "proc_journal () p1 = fork_journal off (proc_journal () p)"
    using proc_journal_fork [of "()" off p rt] assms(1) by simp
  have j: "lj_ok (proc_journal () p)" "wf_records (lj_recs (proc_journal () p))" "wf_history (ps_history p)"
    using assms(2) proc_ok_journal [of p "()"] by simp_all
  have "off \<le> lj_length (proc_journal () p)" using assms(3) by (simp add: proc_journal_def new_log_journal_def)
  note f = fork_journal_ok [OF j(1) this]
  have "wf_journal (fork_journal off (proc_journal () p))"
    using f j(2,3) wf_records_take unfolding wf_journal_def
    by (simp add: fork_journal_def new_log_journal_def proc_journal_def)
  moreover have "ps_last_failure p1 = 0" "ps_aborts p1 = ps_aborts p" using assms(1) by (auto simp: fork_process_def Let_def)
  ultimately show ?thesis using assms(2) unfolding proc_ok_def p1 by simp
qed

text \<open>The outermost open section of a process's journal.\<close>

definition open_sections :: "'r process_state \<Rightarrow> nat" where
  "open_sections p = depth_after 0 (map fst (pairs (lj_recs (proc_journal () p))))"

lemma proc_open_section:
  assumes "proc_ok p"
  obtains off where "outermost_open_begin (proc_journal_ops W) (proc_journal l p) = Inr (off, 0 < open_sections p)"
    "0 < open_sections p \<longrightarrow> off \<le> ps_length p \<and> 2 \<le> off"
proof -
  have j: "lj_ok (proc_journal l p)" "wf_records (lj_recs (proc_journal l p))" using assms proc_ok_journal [of p l] by simp_all
  have r: "lj_recs (proc_journal () p) = lj_recs (proc_journal l p)"
    by (simp add: lj_recs_def proc_journal_def new_log_journal_def)
  have len: "length (lj_recs (proc_journal l p)) = ps_length p"
    by (simp add: lj_recs_def proc_journal_def new_log_journal_def)
  obtain off where "outermost_open_begin (log_journal_ops (wi_log W) (wi_enc W)) (proc_journal l p) =
      Inr (off, 0 < open_sections p)"
    "0 < open_sections p \<longrightarrow> opens_at (map fst (pairs (lj_recs (proc_journal l p))))
       (length (pairs (lj_recs (proc_journal l p)))) off"
    using lj.outermost_open_begin_spec [OF j] unfolding open_sections_def r by blast
  then show ?thesis
    using lj.opens_at_bound(1,3) [of "proc_journal l p" off] len
    by (intro that [of off]) (auto simp: proc_journal_ops_def)
qed

text \<open>A relaunch of a process, possibly forked, by which its other execution, if any, is dropped.\<close>

lemma queued_parts [simp]:
  "ps_id (queued now p) = ps_id p" "ps_session (queued now p) = ps_session p" "ps_status (queued now p) = ProcessQueued"
  "proc_ok (queued now p) = proc_ok p" "ps_aborts (queued now p) = ps_aborts p"
  by (simp_all add: queued_def proc_ok_def proc_journal_def)

lemma relaunch_ok:
  assumes ok: "rt_ok rt" and p0: "mget (rt_processes rt) pid = Some p0"
    and rt1: "mget (rt_processes rt1) = (mget (rt_processes rt))(pid \<mapsto> p)" "rt_sessions rt1 = rt_sessions rt"
      "rt_execs rt1 = rt_execs rt" "rt_next rt1 = rt_next rt"
    and p: "ps_id p = pid" "ps_session p = ps_session p0" "ps_status p = ps_status p0" "proc_ok p"
    and act: "\<And>s. mget (rt_sessions rt) (ps_session p0) = Some s \<Longrightarrow> ss_active s = '''' \<or> ss_active s = pid"
    and r: "relaunch W p rt1 = Some (y, rt2)"
    and X: "rt_execs rt' = filter Q (rt_execs rt2)" "\<And>e. e \<in> set (rt_execs rt) \<Longrightarrow> Q e \<Longrightarrow> ex_process e \<noteq> pid"
      "Q (launched (rt_next rt) pid)"
    and rt': "rt_processes rt' = rt_processes rt2" "rt_sessions rt' = rt_sessions rt2" "rt_next rt' = rt_next rt2"
  shows "rt_ok rt'"
proof -
  note d = rt_okD [OF ok p0]
  obtain s where s: "mget (rt_sessions rt) (ps_session p0) = Some s" "live (ps_status p0) \<longrightarrow> ss_active s = pid"
    "ss_id s = ps_session p0" using d(4) by blast
  have s1: "mget (rt_sessions rt1) (ps_session p) = Some s" using s(1) rt1(2) p(2) by simp
  let ?s = "s\<lparr>ss_active := ps_id p, ss_updated := rt_now W rt1\<rparr>"
  let ?p = "queued (rt_now W rt1) p"
  have q: "ps_id ?p = pid" "ps_session ?p = ps_session p0" "proc_ok ?p" using p by simp_all
  show ?thesis
  proof (cases rule: relaunch_cases [OF r s1])
    case 1
    then show ?thesis
      by (intro rt_ok_moves [OF ok p0 s(1), of rt' p s Q "[]"])
        (use X rt' rt1 p s in \<open>simp_all add: fun_upd_idem\<close>)
  next
    case (2 x)
    then show ?thesis
      by (intro rt_ok_moves [OF ok p0 s(1), of rt' ?p ?s Q "[]"])
        (use X rt' rt1 q p s act in \<open>simp_all\<close>)
  next
    case 3
    then show ?thesis
      by (intro rt_ok_moves [OF ok p0 s(1), of rt' ?p ?s Q "[launched (rt_next rt) pid]"])
        (use X rt' rt1 q p s act in \<open>simp_all\<close>)
  qed
qed

subsection \<open>Retry and wake\<close>

text \<open>The process a retry relaunches: forked or as it is.\<close>

lemma check_retry_allows:
  assumes "check_retry W p mode rt = Some None"
  obtains s where "mget (rt_sessions rt) (ps_session p) = Some s" "ss_active s = '''' \<or> ss_active s = ps_id p"
    "\<not> busy (ps_status p)" "ss_processes s \<noteq> []" "last (ss_processes s) = ps_id p"
    "ps_status p = ProcessCompleted \<longrightarrow> mode = RetryRestart"
  using assms
  by (fastforce simp: check_retry_def bind_eq_Some_conv split: sum.splits if_splits)

lemma retry_cases:
  assumes r: "retry W pid mode rt = Some (z, rt')" and ok: "rt_ok rt"
  obtains (refused) e where "z = Inl e" "rt' = rt"
  | (relaunched) p0 p rt1 s where "mget (rt_processes rt) pid = Some p0"
      "mget (rt_processes rt1) = (mget (rt_processes rt))(pid \<mapsto> p)" "rt_sessions rt1 = rt_sessions rt"
      "rt_execs rt1 = rt_execs rt" "rt_next rt1 = rt_next rt" "rt_tasks rt1 = rt_tasks rt" "rt_closed rt1 = rt_closed rt"
      "rt_log rt1 = rt_log rt"
      "ps_id p = pid" "ps_session p = ps_session p0" "ps_status p = ps_status p0" "proc_ok p" "ps_aborts p = ps_aborts p0"
      "mget (rt_sessions rt) (ps_session p0) = Some s" "ss_active s = '''' \<or> ss_active s = pid" "\<not> busy (ps_status p0)"
      "relaunch W p rt1 = Some (z, rt')"
      "p = p0 \<and> rt1 = rt \<and> mode = RetryResume \<or> (\<exists>k. k \<le> ps_length p0 \<and> fork_process k p0 rt = (p, rt1))"
      "ps_status p0 = ProcessCompleted \<longrightarrow> mode = RetryRestart" "last (ss_processes s) = pid"
      "mode = RetryRestart \<longrightarrow> fork_process 0 p0 rt = (p, rt1)"
      "mode = RetryResume \<longrightarrow> ps_status p0 = ProcessWaitingTask \<longrightarrow> p = p0 \<and> rt1 = rt"
proof (cases "mode \<noteq> RetryResume \<and> mode \<noteq> RetryRestart")
  case True
  then show ?thesis using r refused by (auto simp: retry_def)
next
  case mode: False
  show ?thesis
  proof (cases "mget (rt_processes rt) pid")
    case None
    then show ?thesis using r mode refused by (auto simp: retry_def)
  next
    case (Some p0)
    note d = rt_okD [OF ok Some]
    obtain x where x: "check_retry W p0 mode rt = Some x" using r mode Some by (auto simp: retry_def bind_eq_Some_conv)
    show ?thesis
    proof (cases x)
      case (Some e)
      then show ?thesis using r mode x \<open>mget (rt_processes rt) pid = Some p0\<close> refused by (auto simp: retry_def)
    next
      case none: None
      obtain s where s: "mget (rt_sessions rt) (ps_session p0) = Some s" "ss_active s = '''' \<or> ss_active s = ps_id p0"
        "\<not> busy (ps_status p0)" "last (ss_processes s) = ps_id p0" "ps_status p0 = ProcessCompleted \<longrightarrow> mode = RetryRestart"
        using check_retry_allows [OF x [unfolded none]] by blast
      obtain off where off: "outermost_open_begin (proc_journal_ops W) (proc_journal (rt_log rt) p0) = Inr (off, 0 < open_sections p0)"
        "0 < open_sections p0 \<longrightarrow> off \<le> ps_length p0 \<and> 2 \<le> off"
        using proc_open_section [OF d(3)] .
      obtain p rt1 where c: "(if mode = RetryRestart then fork_process 0 p0 rt
                          else if ps_status p0 = ProcessWaitingTask then (p0, rt)
                          else if 0 < open_sections p0 then fork_process off p0 rt
                          else (p0, rt)) = (p, rt1)" by fastforce
      have r1: "relaunch W p rt1 = Some (z, rt')" using r mode Some x none off(1) c by (simp add: retry_def)
      have pr: "(p, rt1) = (p0, rt) \<and> mode = RetryResume \<or> (\<exists>off. off \<le> ps_length p0 \<and> fork_process off p0 rt = (p, rt1))"
        "mode = RetryRestart \<longrightarrow> fork_process 0 p0 rt = (p, rt1)"
        "mode = RetryResume \<longrightarrow> ps_status p0 = ProcessWaitingTask \<longrightarrow> p = p0 \<and> rt1 = rt"
        using c off(2) mode by (auto split: if_splits)
      from pr(1) have "mget (rt_processes rt1) = (mget (rt_processes rt))(pid \<mapsto> p) \<and> rt_sessions rt1 = rt_sessions rt \<and>
          rt_execs rt1 = rt_execs rt \<and> rt_next rt1 = rt_next rt \<and> rt_tasks rt1 = rt_tasks rt \<and> rt_closed rt1 = rt_closed rt \<and>
          rt_log rt1 = rt_log rt \<and>
          ps_id p = pid \<and> ps_session p = ps_session p0 \<and> ps_status p = ps_status p0 \<and> proc_ok p \<and> ps_aborts p = ps_aborts p0"
      proof
        assume "(p, rt1) = (p0, rt) \<and> mode = RetryResume"
        then show ?thesis using d(1,3) Some by (simp add: fun_upd_idem)
      next
        assume "\<exists>off. off \<le> ps_length p0 \<and> fork_process off p0 rt = (p, rt1)"
        then obtain k where k: "k \<le> ps_length p0" "fork_process k p0 rt = (p, rt1)" by blast
        show ?thesis using fork_parts [OF k(2)] fork_ok [OF k(2) d(3) k(1)] d(1) by simp
      qed
      then show ?thesis using r1 s d(1) pr by (intro relaunched [OF Some, of rt1 p s]) auto
    qed
  qed
qed

lemma retry_ok:
  assumes ok: "rt_ok rt" and r: "retry W pid mode rt = Some (z, rt')"
  shows "rt_ok rt'"
proof (cases rule: retry_cases [OF r ok])
  case 1
  then show ?thesis using ok by simp
next
  case (2 p0 p rt1 s)
  show ?thesis
    by (rule relaunch_ok [OF ok 2(1-5) 2(9-12) _ 2(17), where Q = "\<lambda>_. True"])
      (use 2 not_busy_no_exec [OF ok 2(1)] in auto)
qed

lemma wake_ok:
  assumes "rt_ok rt" "wake W pid rt = Some (x, rt')"
  shows "rt_ok rt'"
proof -
  obtain p where p: "mget (rt_processes rt) pid = Some p" using assms(2) by (auto simp: wake_def bind_eq_Some_conv)
  show ?thesis
  proof (cases "ps_status p = ProcessWaitingTask")
    case True
    then obtain z where "retry W pid RetryResume rt = Some (z, rt')" using assms(2) p by (auto simp: wake_def)
    then show ?thesis by (rule retry_ok [OF assms(1)])
  next
    case False
    then show ?thesis using assms p by (simp add: wake_def)
  qed
qed

subsection \<open>Tasks\<close>

lemma on_tasks_ok: "rt_ok rt \<Longrightarrow> rt_ok (snd (on_tasks f rt))"
  by (simp add: on_tasks_def split: prod.splits)

lemma on_tasks_ok': "rt_ok rt \<Longrightarrow> on_tasks f rt = (x, rt') \<Longrightarrow> rt_ok rt'"
  using on_tasks_ok [of rt f] by simp

lemma settle_task_ok: "rt_ok rt \<Longrightarrow> rt_ok (settle_task W now tid rt)"
  by (simp add: settle_task_def on_tasks_ok)

lemma resolve_task_ok:
  assumes "rt_ok rt" "resolve_task W tid token a rt = Some (t, rt')"
  shows "rt_ok rt'"
proof -
  obtain d rt1 where d: "on_tasks (store_resolve (wi_log W) (wi_codec W) tid (cr_sha256 (tc_crypto (wi_tasks W)) token)
      a (rt_now W rt)) rt = (d, rt1)" by fastforce
  have ok1: "rt_ok rt1" using on_tasks_ok' [OF assms(1) d] .
  have "rt' = rt \<or> rt' = rt1 \<or> (\<exists>pid x. wake W pid rt1 = Some (x, rt'))"
    using assms(2) d by (auto simp: resolve_task_def split: if_splits sum.splits)
  then show ?thesis using assms(1) ok1 wake_ok [OF ok1] by blast
qed

subsection \<open>The outcome of a quantum\<close>

lemma rt_ok_finishing:
  assumes ok: "rt_ok rt" and e: "e \<in> set (rt_execs rt)" and st: "\<not> busy st"
    and q: "\<forall>g. ex_quantum e \<noteq> Running g"
  shows "rt_ok (to_finish st a f e rt)"
proof -
  obtain p where p: "mget (rt_processes rt) (ex_process e) = Some p" "busy (ps_status p)" "quantum_ok e p"
    using rt_execD [OF ok e] by blast
  show ?thesis unfolding to_finish_def
    by (rule rt_ok_exec [OF ok e p(1), of _ rt p])
      (use p q st rt_okD(3) [OF ok p(1)] in \<open>simp_all add: fun_upd_idem quantum_ok_def submitted_def\<close>)
qed

lemma drop_exec_launched:
  assumes "rt_ok rt" "e \<in> set (rt_execs rt)"
  shows "ex_id (launched (rt_next rt) pid) \<noteq> ex_id e"
proof -
  obtain p where "ex_id e < rt_next rt" using rt_execD [OF assms] by blast
  then show ?thesis by (simp add: launched_ok)
qed

lemma drop_exec_parts [simp]:
  "rt_execs (drop_exec e rt) = filter (\<lambda>y. ex_id y \<noteq> ex_id e) (rt_execs rt)"
  "rt_processes (drop_exec e rt) = rt_processes rt" "rt_sessions (drop_exec e rt) = rt_sessions rt"
  "rt_next (drop_exec e rt) = rt_next rt" "rt_tasks (drop_exec e rt) = rt_tasks rt" "rt_closed (drop_exec e rt) = rt_closed rt"
  "rt_log (drop_exec e rt) = rt_log rt"
  by (simp_all add: drop_exec_def)

lemma own_exec_dropped:
  assumes "rt_ok rt" "e \<in> set (rt_execs rt)" "y \<in> set (rt_execs rt)" "ex_id y \<noteq> ex_id e"
  shows "ex_process y \<noteq> ex_process e"
  using assms rt_exec_unique by blast

lemma abort_ok:
  assumes ok: "rt_ok rt" and e: "e \<in> set (rt_execs rt)" and p: "mget (rt_processes rt) (ex_process e) = Some p"
    and a: "retry_aborted_section W p reason rt = Some rt2"
  shows "rt_ok (drop_exec e rt2)"
proof -
  note d = rt_okD [OF ok p]
  obtain q where "mget (rt_processes rt) (ex_process e) = Some q" "busy (ps_status q)" using rt_execD [OF ok e] by blast
  then have b: "busy (ps_status p)" "live (ps_status p)" using p by (simp_all add: live_def)
  obtain s where s: "mget (rt_sessions rt) (ps_session p) = Some s" "ss_active s = ex_process e" using d(4) b(2) by blast
  obtain off where off: "outermost_open_begin (proc_journal_ops W) (proc_journal (rt_log rt) p) = Inr (off, 0 < open_sections p)"
    "0 < open_sections p \<longrightarrow> off \<le> ps_length p \<and> 2 \<le> off"
    using proc_open_section [OF d(3)] .
  note own = own_exec_dropped [OF ok e]
  show ?thesis
  proof (cases "open_sections p = 0 \<or> max_abort_retries \<le> ps_aborts p")
    case True
    then obtain f where f: "finish W p ProcessFailed '''' f rt = Some rt2"
      using a off(1) by (auto simp: retry_aborted_section_def split: if_splits)
    show ?thesis
      by (rule finish_ok [OF ok p b(2) f, where Q = "\<lambda>y. ex_id y \<noteq> ex_id e"]) (simp_all add: own)
  next
    case False
    let ?p0 = "p\<lparr>ps_aborts := ps_aborts p + 1\<rparr>"
    obtain p1 rt1 where f: "fork_process off ?p0 rt = (p1, rt1)" by fastforce
    then obtain y where y: "relaunch W p1 rt1 = Some (y, rt2)"
      using a off(1) False by (auto simp: retry_aborted_section_def Let_def)
    note fp = fork_parts [OF f]
    have "proc_ok ?p0" using d(3) False by (simp add: proc_ok_def proc_journal_def)
    then have k: "proc_ok p1" using fork_ok [OF f] off(2) False by simp
    have P1: "mget (rt_processes rt1) = (mget (rt_processes rt))(ex_process e \<mapsto> p1)" using fp(1) d(1) by simp
    have p1: "ps_id p1 = ex_process e" "ps_session p1 = ps_session p" "ps_status p1 = ps_status p"
      using fp(8-10) d(1) by simp_all
    have act: "ss_active t = '''' \<or> ss_active t = ex_process e" if "mget (rt_sessions rt) (ps_session p) = Some t" for t
      using that s by simp
    show ?thesis
      by (rule relaunch_ok [OF ok p P1 fp(2-4) p1 k act y, where Q = "\<lambda>y. ex_id y \<noteq> ex_id e"])
        (simp_all add: own drop_exec_launched [OF ok e])
  qed
qed

text \<open>The failure that may earn another run.\<close>

lemma fail_process_ok:
  assumes ok: "rt_ok rt" and e: "e \<in> set (rt_execs rt)" "\<forall>g. ex_quantum e \<noteq> Running g"
      "\<forall>st a f. ex_phase e \<noteq> Finishing st a f" "\<not> submitted e"
    and p: "mget (rt_processes rt) (ex_process e) = Some p"
    and a: "fail_process W e p f rt = Some rt'"
  shows "rt_ok rt'"
proof -
  note d = rt_okD [OF ok p]
  obtain q where "mget (rt_processes rt) (ex_process e) = Some q" "busy (ps_status q)" "ex_id e < rt_next rt"
    using rt_execD [OF ok e(1)] by blast
  then have b: "busy (ps_status p)" "live (ps_status p)" "ex_id e < rt_next rt" using p by (simp_all add: live_def)
  obtain s where s: "mget (rt_sessions rt) (ps_session p) = Some s" "ss_active s = ex_process e" "ss_id s = ps_session p"
    using d(4) b(2) by blast
  obtain off where off: "outermost_open_begin (proc_journal_ops W) (proc_journal (rt_log rt) p) = Inr (off, 0 < open_sections p)"
    using proc_open_section [OF d(3)] .
  let ?p = "p\<lparr>ps_last_failure := ps_length p\<rparr>"
  have k: "proc_ok ?p" using d(3) by (simp add: proc_ok_def proc_journal_def)
  have P1: "mget (rt_processes (put_process ?p rt)) = (mget (rt_processes rt))(ex_process e \<mapsto> ?p)"
    using d(1) by (simp add: put_process_def)
  note own = own_exec_dropped [OF ok e(1)]
  show ?thesis
  proof (cases "ps_stop_requested p \<or> rt_closed rt \<or> open_sections p = 0 \<or> ps_last_failure p = ps_length p")
    case True
    then have "rt' = to_finish ProcessFailed '''' f e rt"
      using a off by (auto simp: fail_process_def redrive_after_failure_def)
    then show ?thesis using rt_ok_finishing [OF ok e(1) _ e(2)] by simp
  next
    case False
    obtain y rt2 where y: "relaunch W ?p (put_process ?p rt) = Some (y, rt2)"
      "rt' = (case y of Inl _ \<Rightarrow> to_finish ProcessFailed '''' f e rt2 | Inr _ \<Rightarrow> drop_exec e rt2)"
      using a off False by (auto simp: fail_process_def redrive_after_failure_def split: option.splits prod.splits sum.splits)
    have s1: "mget (rt_sessions (put_process ?p rt)) (ps_session ?p) = Some s" using s(1) by (simp add: put_process_def)
    show ?thesis
    proof (cases y)
      case (Inr z)
      have act: "ss_active t = '''' \<or> ss_active t = ex_process e" if "mget (rt_sessions rt) (ps_session p) = Some t" for t
        using that s by simp
      have rt': "rt' = drop_exec e rt2" using y(2) Inr by simp
      show ?thesis unfolding rt'
        by (rule relaunch_ok [OF ok p P1 _ _ _ _ _ _ k act y(1), where Q = "\<lambda>y. ex_id y \<noteq> ex_id e"])
          (simp_all add: own drop_exec_launched [OF ok e(1)] put_process_def d(1))
    next
      case (Inl x)
      have open_: "\<not> rt_closed (put_process ?p rt)" using False by (simp add: put_process_def)
      let ?q = "queued (rt_now W (put_process ?p rt)) ?p"
      let ?s = "s\<lparr>ss_active := ps_id ?p, ss_updated := rt_now W (put_process ?p rt)\<rparr>"
      have parts: "rt_processes rt2 = mput (ps_id p) ?q (rt_processes (put_process ?p rt))"
        "rt_sessions rt2 = mput (ss_id s) ?s (rt_sessions rt)"
        "rt_execs rt2 = rt_execs rt" "rt_next rt2 = rt_next rt"
        using relaunch_cases [OF y(1) s1] Inl open_ by (auto simp: put_process_def)
      let ?e = "e\<lparr>ex_phase := Finishing ProcessFailed '''' f\<rparr>"
      have rt': "rt' = put_exec ?e rt2" using y(2) Inl by (simp add: to_finish_def)
      have put: "rt_processes (put_exec ?e rt2) = rt_processes rt2" "rt_sessions (put_exec ?e rt2) = rt_sessions rt2"
        "rt_next (put_exec ?e rt2) = rt_next rt2" by (simp_all add: put_exec_def)
      note m = put_exec_members [OF ok e(1), of ?e rt2]
      show ?thesis unfolding rt'
      proof (rule rt_ok_change [OF ok p s(1), of _ ?q ?s])
        fix y assume y: "y \<in> set (rt_execs (put_exec ?e rt2))"
        then have y': "y = ?e \<or> y \<in> set (rt_execs rt) \<and> ex_process y \<noteq> ex_process e" using m(3) parts(3) by simp
        show "ex_process y \<noteq> ex_process e \<Longrightarrow> y \<in> set (rt_execs rt)" using y' by auto
        show "ex_process y = ex_process e \<Longrightarrow> ex_id y < rt_next (put_exec ?e rt2) \<and> busy (ps_status ?q) \<and> quantum_ok y ?q"
          using y' b(3) e(2) parts(4) put(3) by (auto simp: quantum_ok_def submitted_def)
      qed (use m(1,2) parts k s d(1) P1 put in simp_all)
    qed
  qed
qed

lemma record_outcome_ok:
  assumes ok: "rt_ok rt" and e: "e \<in> set (rt_execs rt)" "ex_phase e = Outcome r"
    and o: "record_outcome W r e rt = Some rt'"
  shows "rt_ok rt'"
proof -
  obtain p where p: "mget (rt_processes rt) (ex_process e) = Some p" "quantum_ok e p" using rt_execD [OF ok e(1)] by blast
  have q: "\<forall>g. ex_quantum e \<noteq> Running g" using p(2) e(2) by (auto simp: quantum_ok_def submitted_def)
  have f: "\<forall>st a f. ex_phase e \<noteq> Finishing st a f" "\<not> submitted e" using e(2) by (simp_all add: submitted_def)
  note fin = rt_ok_finishing [OF ok e(1) _ q] and fail = fail_process_ok [OF ok e(1) q f p(1)]
  show ?thesis
  proof (cases "qr_status r")
    case ResumeCompleted
    obtain lc where lc: "last_call W (rt_log rt) p = Some lc"
      using o ResumeCompleted p(1) by (auto simp: record_outcome_def bind_eq_Some_conv)
    show ?thesis
    proof (cases "guest_abort lc")
      case (Some reason)
      then obtain rt2 where "retry_aborted_section W p reason rt = Some rt2" "rt' = drop_exec e rt2"
        using o ResumeCompleted p(1) lc by (auto simp: record_outcome_def)
      then show ?thesis using abort_ok [OF ok e(1) p(1)] by simp
    next
      case None
      then show ?thesis using o ResumeCompleted p(1) lc fin fail
        by (cases "answer_from_journal (wi_sys W) lc") (auto simp: record_outcome_def)
    qed
  next
    case ResumeYielded
    then show ?thesis using o fin by (auto simp: record_outcome_def)
  next
    case ResumeStopped
    then show ?thesis using o fin by (auto simp: record_outcome_def stopped_status_def)
  next
    case ResumeFailed
    then show ?thesis using o p(1) fail by (auto simp: record_outcome_def bind_eq_Some_conv)
  qed
qed

subsection \<open>Stop\<close>

text \<open>Cancelling contexts.\<close>

definition cancelling :: "(('l, 'r, 's, 'x) execution \<Rightarrow> ('l, 'r, 's, 'x) execution) \<Rightarrow> bool" where
  "cancelling f \<longleftrightarrow> (\<forall>e. f e = e \<or> f e = e\<lparr>ex_cancelled := True\<rparr>)"

lemma cancelling_parts:
  assumes "cancelling f"
  shows "ex_id (f e) = ex_id e" "ex_process (f e) = ex_process e" "quantum_ok e p \<Longrightarrow> quantum_ok (f e) p"
proof -
  have c: "f e = e \<or> f e = e\<lparr>ex_cancelled := True\<rparr>" using assms unfolding cancelling_def by blast
  show "ex_id (f e) = ex_id e" "ex_process (f e) = ex_process e" using c by auto
  show "quantum_ok e p \<Longrightarrow> quantum_ok (f e) p" using c by (auto simp: quantum_ok_def submitted_def)
qed

lemma cancelling_ok:
  assumes ok: "rt_ok rt" and f: "cancelling f"
  shows "rt_ok (rt\<lparr>rt_execs := map f (rt_execs rt)\<rparr>)"
proof -
  have ids: "map ex_id (map f X) = map ex_id X" "map ex_process (map f X) = map ex_process X" for X
    by (simp_all add: cancelling_parts [OF f])
  have "execs_ok (mget (rt_processes rt)) (map f (rt_execs rt)) (rt_next rt)"
    unfolding execs_ok_def ids
  proof (intro conjI ballI)
    show "distinct (map ex_id (rt_execs rt))" "distinct (map ex_process (rt_execs rt))"
      using rt_execs_distinct [OF ok] by simp_all
    fix y assume "y \<in> set (map f (rt_execs rt))"
    then obtain e where e: "y = f e" "e \<in> set (rt_execs rt)" by auto
    obtain p where p: "mget (rt_processes rt) (ex_process e) = Some p" "busy (ps_status p)" "quantum_ok e p" "ex_id e < rt_next rt"
      using rt_execD [OF ok e(2)] by blast
    show "ex_id y < rt_next rt" "\<exists>p. mget (rt_processes rt) (ex_process y) = Some p \<and> busy (ps_status p) \<and> quantum_ok y p"
      using p cancelling_parts(3) [OF f] by (simp_all add: e(1) cancelling_parts [OF f])
  qed
  then show ?thesis using ok by (simp add: rt_ok_def)
qed

lemma cancel_exec_cancelling: "cancelling (\<lambda>e. if Some (ex_id e) = stop then e\<lparr>ex_cancelled := True\<rparr> else e)"
  by (simp add: cancelling_def)

lemma stop_running:
  assumes "mget (rt_processes rt) pid = Some p" "ps_status p = ProcessQueued \<or> ps_status p = ProcessRunning"
    and "stop_process W pid rt = Some (z, rt')"
  defines "p1 \<equiv> p\<lparr>ps_stop_requested := True, ps_status := ProcessStopping, ps_updated := rt_now W rt\<rparr>"
  shows "rt' = snd (append_process W p1 (cancel_exec (ps_stop p) (put_process p1 rt)))"
proof -
  have "stop_process W pid rt = Some (Inr (process_snapshot_of p1), snd (append_process W p1 (cancel_exec (ps_stop p) (put_process p1 rt))))"
    using assms(1,2) by (simp only: stop_process_def option.case if_True Let_def p1_def)
  then show ?thesis unfolding assms(3) option.inject prod.inject by (rule conjunct2)
qed

lemma execution_map: "y \<in> set (rt_execs (rt\<lparr>rt_execs := map f X\<rparr>)) \<longleftrightarrow> (\<exists>e. y = f e \<and> e \<in> set X)"
  by auto

lemma quantum_ok_stop:
  assumes "quantum_ok e p" "ex_phase e = Awaiting \<longrightarrow> ex_cancelled e"
  shows "quantum_ok e (p\<lparr>ps_stop_requested := True, ps_status := st, ps_updated := now\<rparr>)"
  using assms by (simp add: quantum_ok_def proc_context_def guest_tape_def proc_journal_def)

lemma stop_ok:
  assumes ok: "rt_ok rt" and s: "stop_process W pid rt = Some (z, rt')"
  shows "rt_ok rt'"
proof (cases "mget (rt_processes rt) pid")
  case None
  then show ?thesis using s ok by (simp add: stop_process_def)
next
  case (Some p)
  note d = rt_okD [OF ok Some]
  consider (busy) "ps_status p = ProcessQueued \<or> ps_status p = ProcessRunning" | (parked) "ps_status p = ProcessWaitingTask"
    | (other) "\<not> (ps_status p = ProcessQueued \<or> ps_status p = ProcessRunning)" "ps_status p \<noteq> ProcessWaitingTask" by blast
  then show ?thesis
  proof cases
    case busy
    let ?p = "p\<lparr>ps_stop_requested := True, ps_status := ProcessStopping, ps_updated := rt_now W rt\<rparr>"
    let ?f = "\<lambda>e. if Some (ex_id e) = ps_stop p then e\<lparr>ex_cancelled := True\<rparr> else e"
    let ?rt = "rt\<lparr>rt_execs := map ?f (rt_execs rt)\<rparr>"
    obtain l where l: "snd (append_process W ?p (cancel_exec (ps_stop p) (put_process ?p rt))) =
        (cancel_exec (ps_stop p) (put_process ?p rt))\<lparr>rt_log := l\<rparr>"
      using append_process_log [of W ?p "cancel_exec (ps_stop p) (put_process ?p rt)"] by (metis snd_conv)
    have "rt' = snd (append_process W ?p (cancel_exec (ps_stop p) (put_process ?p rt)))"
      by (rule stop_running [OF Some busy s])
    also note l
    finally have "rt' = (cancel_exec (ps_stop p) (put_process ?p rt))\<lparr>rt_log := l\<rparr>" .
    then have rt': "rt' = (put_process ?p ?rt)\<lparr>rt_log := l\<rparr>" by (simp add: cancel_exec_def put_process_def)
    have ok1: "rt_ok ?rt" using cancelling_ok [OF ok cancel_exec_cancelling [of "ps_stop p"]] .
    obtain s where s: "mget (rt_sessions rt) (ps_session p) = Some s" "live (ps_status p) \<longrightarrow> ss_active s = pid"
      using d(4) by blast
    have act: "ss_active s = pid" using s(2) busy by (auto simp: live_def)
    have P: "mget (rt_processes ?rt) pid = Some p" "mget (rt_sessions ?rt) (ps_session p) = Some s" using Some s(1) by simp_all
    have k: "proc_ok ?p" using d(3) proc_ok_cong(1) [of ?p p] by simp

    have "rt_ok (put_process ?p ?rt)"
    proof (rule rt_ok_change [OF ok1 P, of _ ?p s])
      fix y assume "y \<in> set (rt_execs (put_process ?p ?rt))"
      then have y: "y \<in> set (rt_execs ?rt)" by (simp add: put_process_def)
      then show "y \<in> set (rt_execs ?rt)" .
      assume own: "ex_process y = pid"
      obtain q where "mget (rt_processes ?rt) (ex_process y) = Some q" "quantum_ok y q" "ex_id y < rt_next ?rt"
        using rt_execD [OF ok1 y] by blast
      then have q: "quantum_ok y p" "ex_id y < rt_next rt" using own Some by simp_all
      obtain e where e: "y = ?f e" using y unfolding execution_map by blast
      have "quantum_ok y ?p"
      proof (rule quantum_ok_stop [OF q(1)], rule impI)
        assume "ex_phase y = Awaiting"
        then have "ps_stop p = Some (ex_id y)" using q(1) unfolding quantum_ok_def by blast
        then have "Some (ex_id e) = ps_stop p" by (simp add: e split: if_splits)
        then show "ex_cancelled y" by (simp add: e)
      qed
      then show "ex_id y < rt_next (put_process ?p ?rt) \<and> busy (ps_status ?p) \<and> quantum_ok y ?p"
        using q(2) by (simp add: put_process_def)
    qed (use act k d(1) s(1) rt_execs_distinct [OF ok1] in \<open>simp_all add: put_process_def fun_upd_idem\<close>)
    then show ?thesis unfolding rt' by simp
  next
    case parked
    then obtain rt1 where f: "finish W p ProcessStopped '''' (Some Canceled) rt = Some rt1" "rt' = rt1"
      using s Some by (auto simp: stop_process_def bind_eq_Some_conv)
    obtain t where t: "mget (rt_sessions rt) (ps_session p) = Some t" using d(4) by blast
    have b: "\<not> busy (ps_status p)" using parked by simp
    show ?thesis
      by (rule finish_ok [OF ok Some _ f(1), where Q = "\<lambda>_. True"])
        (use f(2) parked not_busy_no_exec [OF ok Some b] in \<open>simp_all add: live_def\<close>)
  next
    case other
    then show ?thesis using s Some ok by (auto simp: stop_process_def split: if_splits)
  qed
qed

subsection \<open>Shutdown\<close>

lemma close_begin_ok:
  assumes "rt_ok rt"
  shows "rt_ok (close_begin rt)"
proof -
  let ?f = "\<lambda>e. if held_stop (ex_id e) (rt_processes rt) then e\<lparr>ex_cancelled := True\<rparr> else e"
  have "cancelling ?f" by (simp add: cancelling_def)
  then have "rt_ok (rt\<lparr>rt_execs := map ?f (rt_execs rt)\<rparr>)" by (rule cancelling_ok [OF assms])
  moreover have "rt_ok (close_begin rt) = rt_ok (rt\<lparr>rt_execs := map ?f (rt_execs rt)\<rparr>)" if "\<not> rt_closed rt"
    by (rule rt_ok_parts) (use that in \<open>simp_all add: close_begin_def\<close>)
  ultimately show ?thesis using assms by (cases "rt_closed rt") (simp_all add: close_begin_def)
qed

lemma close_cancel_ok: "rt_ok rt \<Longrightarrow> rt_ok (close_cancel rt)"
  by (simp add: close_cancel_def)

subsection \<open>New sessions and processes\<close>

lemma random_id_result:
  assumes "random_id W pre rt = (y, rt1)"
  shows "\<exists>x. rt1 = rt\<lparr>rt_ext := x\<rparr>"
  using assms by (auto simp: random_id_def split: prod.splits sum.splits)

lemma random_id_prefix: "random_id W pre rt = (Inr y, rt1) \<Longrightarrow> \<exists>z. y = pre @ z"
  by (auto simp: random_id_def split: prod.splits sum.splits)

lemma create_session_parts:
  assumes "create_session W name tags rt0 = Some (y, rt')"
  obtains (none) "rt_sessions rt' = rt_sessions rt0" "rt_processes rt' = rt_processes rt0"
      "rt_execs rt' = rt_execs rt0" "rt_next rt' = rt_next rt0" "rt_closed rt' = rt_closed rt0" "rt_tasks rt' = rt_tasks rt0"
      "rt_cancelled rt' = rt_cancelled rt0" "\<exists>e. y = Inl e"
  | (made) sid rt s where "random_id W ''ses_'' rt0 = (Inr sid, rt)" "ss_id s = sid" "ss_processes s = []" "ss_active s = ''''"
      "check_session_name_free (ss_name s) '''' rt0 = None" "\<not> rt_closed rt0" "ss_name s = trim_space name"
      "rt_sessions rt' = mput sid s (rt_sessions rt0)" "rt_processes rt' = rt_processes rt0"
      "rt_execs rt' = rt_execs rt0" "rt_next rt' = rt_next rt0" "rt_closed rt' = rt_closed rt0" "rt_tasks rt' = rt_tasks rt0"
      "rt_cancelled rt' = rt_cancelled rt0"
      "\<exists>snap. y = Inr snap"
proof -
  obtain x rt where x: "random_id W ''ses_'' rt0 = (x, rt)" by fastforce
  obtain ext where rt: "rt = rt0\<lparr>rt_ext := ext\<rparr>" using random_id_result [OF x] by blast
  have free: "check_session_name_free n k rt = check_session_name_free n k rt0" for n k
    by (simp add: check_session_name_free_def rt)
  show ?thesis
  proof (cases x)
    case (Inl e)
    then have "y = Inl e" "rt' = rt" using assms x by (simp_all add: create_session_def)
    then show ?thesis using none rt by simp
  next
    case (Inr sid)
    show ?thesis
    proof (cases "rt_closed rt \<or> check_session_name_free (trim_space name) '''' rt \<noteq> None")
      case True
      then have "rt' = rt" "\<exists>e. y = Inl e" using assms x Inr by (auto simp: create_session_def Let_def split: if_splits)
      then show ?thesis using none rt by simp
    next
      case False
      define s where "s = \<lparr>ss_id = sid, ss_name = trim_space name, ss_tags = tags, ss_processes = [], ss_active = '''',
          ss_created = rt_now W rt, ss_updated = rt_now W rt\<rparr>"
      obtain a l where a: "append_session W s rt = (a, rt\<lparr>rt_log := l\<rparr>)" using append_session_log [of W s rt] by blast
      have c: "(case append_session W s rt of
                   (Some e, rt1) \<Rightarrow> Some (Inl e, rt1)
                 | (None, rt1) \<Rightarrow> do {
                     let rt2 = put_session s rt1;
                     snap \<leftarrow> session_snapshot_of W rt2 s;
                     Some (Inr snap, rt2)
                   }) = Some (y, rt')"
        using assms x Inr False by (simp add: create_session_def Let_def s_def [symmetric])
      show ?thesis
      proof (cases a)
        case (Some e)
        then have "y = Inl e" "rt' = rt\<lparr>rt_log := l\<rparr>" using c a by simp_all
        then show ?thesis using none rt by simp
      next
        case None
        then have r: "rt' = put_session s (rt\<lparr>rt_log := l\<rparr>)" "\<exists>snap. y = Inr snap"
          using c a by (auto simp: Let_def bind_eq_Some_conv)
        show ?thesis
          by (rule made [of sid rt s]) (use x Inr r False free rt in \<open>auto simp: s_def put_session_def\<close>)
      qed
    qed
  qed
qed

text \<open>A change of sessions that leaves the bookkeeping of processes.\<close>

lemma rt_ok_sessions:
  assumes ok: "rt_ok rt" and rt': "rt_processes rt' = rt_processes rt" "rt_execs rt' = rt_execs rt" "rt_next rt' = rt_next rt"
    and S: "mget (rt_sessions rt') = (mget (rt_sessions rt))(sid \<mapsto> s')" "ss_id s' = sid"
    and s': "mget (rt_sessions rt) sid = None \<and> ss_processes s' = [] \<or>
      (\<exists>s. mget (rt_sessions rt) sid = Some s \<and> ss_processes s' = ss_processes s \<and> ss_active s' = ss_active s)"
  shows "rt_ok rt'"
proof -
  let ?P = "mget (rt_processes rt)" and ?S = "mget (rt_sessions rt)"
  have P: "procs_ok ?P ?S" "sessions_ok ?P ?S" "execs_ok ?P (rt_execs rt) (rt_next rt)" using ok by (simp_all add: rt_ok_def)
  have keep: "\<exists>u. mget (rt_sessions rt') k = Some u \<and> ss_processes u = ss_processes t \<and> ss_active u = ss_active t"
    if "?S k = Some t" for k t using that s' unfolding S(1) by auto
  have "procs_ok ?P (mget (rt_sessions rt'))"
    unfolding procs_ok_def
  proof (intro allI impI)
    fix pid p assume p: "?P pid = Some p"
    note d = rt_okD [OF ok p]
    obtain s where s: "?S (ps_session p) = Some s" "pid \<in> set (ss_processes s)" "live (ps_status p) \<longrightarrow> ss_active s = pid"
      using d(4) by blast
    obtain u where "mget (rt_sessions rt') (ps_session p) = Some u" "ss_processes u = ss_processes s" "ss_active u = ss_active s"
      using keep [OF s(1)] by blast
    then show "ps_id p = pid \<and> pid \<noteq> '''' \<and> proc_ok p \<and> (\<exists>s. mget (rt_sessions rt') (ps_session p) = Some s \<and>
        pid \<in> set (ss_processes s) \<and> (live (ps_status p) \<longrightarrow> ss_active s = pid))"
      using d(1-3) s by simp
  qed
  moreover have "sessions_ok ?P (mget (rt_sessions rt'))"
    unfolding sessions_ok_def
  proof (intro allI impI)
    fix k t assume t: "mget (rt_sessions rt') k = Some t"
    show "ss_id t = k \<and> distinct (ss_processes t) \<and> (\<forall>pid\<in>set (ss_processes t). \<exists>p. ?P pid = Some p \<and> ps_session p = k)"
    proof (cases "k = sid")
      case False
      then have "?S k = Some t" using t S(1) by simp
      then show ?thesis using P(2) unfolding sessions_ok_def by blast
    next
      case True
      then have t': "t = s'" using t S(1) by simp
      from s' show ?thesis
      proof
        assume "?S sid = None \<and> ss_processes s' = []"
        then show ?thesis using t' S(2) True by simp
      next
        assume "\<exists>s. ?S sid = Some s \<and> ss_processes s' = ss_processes s \<and> ss_active s' = ss_active s"
        then obtain s where s: "?S sid = Some s" "ss_processes s' = ss_processes s" by blast
        have "distinct (ss_processes s) \<and> (\<forall>pid\<in>set (ss_processes s). \<exists>p. ?P pid = Some p \<and> ps_session p = sid)"
          using P(2) s(1) unfolding sessions_ok_def by blast
        then show ?thesis using t' s(2) S(2) True by simp
      qed
    qed
  qed
  ultimately show ?thesis using P(3) unfolding rt_ok_def rt' by blast
qed

lemma create_session_ok:
  assumes ok: "rt_ok rt0" and f: "fresh_id W ''ses_'' rt0" and c: "create_session W name tags rt0 = Some (y, rt')"
  shows "rt_ok rt'"
proof (cases rule: create_session_parts [OF c])
  case 1
  have "rt_ok rt' = rt_ok rt0" by (rule rt_ok_parts) (use 1 in simp_all)
  then show ?thesis using ok by simp
next
  case (2 sid rt s)
  have "mget (rt_sessions rt0) sid = None" using f 2(1) unfolding fresh_id_def by blast
  then show ?thesis using 2 by (intro rt_ok_sessions [OF ok, of rt' sid s]) simp_all
qed

lemma rename_session_parts:
  assumes "rename_session W sid name rt = Some (y, rt')"
  obtains (none) l where "rt' = rt\<lparr>rt_log := l\<rparr>" "\<exists>e. y = Inl e"
  | (renamed) s s' l where "mget (rt_sessions rt) sid = Some s" "s' = s\<lparr>ss_name := trim_space name, ss_updated := rt_now W rt\<rparr>"
      "check_session_name_free (trim_space name) sid rt = None" "\<not> rt_closed rt"
      "rt' = put_session s' (rt\<lparr>rt_log := l\<rparr>)" "\<exists>snap. y = Inr snap"
proof -
  have same: thesis if "rt' = rt" "\<exists>e. y = Inl e" using none [of "rt_log rt"] that by simp
  show ?thesis
  proof (cases "rt_closed rt")
    case True
    then show ?thesis using assms same by (auto simp: rename_session_def)
  next
    case open_: False
    show ?thesis
    proof (cases "mget (rt_sessions rt) sid")
      case None
      then show ?thesis using assms open_ same by (auto simp: rename_session_def)
    next
      case (Some s)
      show ?thesis
      proof (cases "check_session_name_free (trim_space name) sid rt")
        case e: (Some e)
        then show ?thesis using assms open_ Some same by (auto simp: rename_session_def Let_def)
      next
        case free: None
        let ?s = "s\<lparr>ss_name := trim_space name, ss_updated := rt_now W rt\<rparr>"
        obtain a l where a: "append_session W ?s rt = (a, rt\<lparr>rt_log := l\<rparr>)" using append_session_log [of W ?s rt] by blast
        have c: "(case append_session W ?s rt of
                    (Some e, rt1) \<Rightarrow> Some (Inl e, rt1)
                  | (None, rt1) \<Rightarrow> do {
                      let rt2 = put_session ?s rt1;
                      snap \<leftarrow> session_snapshot_of W rt2 ?s;
                      Some (Inr snap, rt2)
                    }) = Some (y, rt')"
          using assms open_ Some free by (simp add: rename_session_def Let_def)
        show ?thesis
        proof (cases a)
          case e: (Some e)
          then show ?thesis using c a by (intro none [of l]) auto
        next
          case n: None
          show ?thesis
            by (rule renamed [OF Some refl free open_, of l]) (use c a n in \<open>auto simp: Let_def bind_eq_Some_conv\<close>)
        qed
      qed
    qed
  qed
qed

lemma rename_session_ok:
  assumes ok: "rt_ok rt" and c: "rename_session W sid name rt = Some (y, rt')"
  shows "rt_ok rt'"
proof (cases rule: rename_session_parts [OF c])
  case (1 l)
  then show ?thesis using ok by simp
next
  case (2 s s' l)
  have "ss_id s = sid" using ok 2(1) unfolding rt_ok_def sessions_ok_def by blast
  then show ?thesis using 2
    by (intro rt_ok_sessions [OF ok, of rt' sid s']) (simp_all add: put_session_def)
qed

text \<open>A new process takes its idle session.\<close>

lemma new_process_ok: "proc_ok (new_process pid sid input spec digest now)"
  by (simp add: proc_ok_def wf_journal_def proc_journal_def new_process_def new_log_journal_def lj_ok_def lj_recs_def
      wf_history_def get_at_def at_pos_def)

lemma create_process_parts:
  fixes rt0 :: "('l, 'r, 's, 'x) runtime"
  assumes "create_process W sid input spec rt0 = (y, rt')"
  obtains (none) "rt_sessions rt' = rt_sessions rt0" "rt_processes rt' = rt_processes rt0"
      "rt_execs rt' = rt_execs rt0" "rt_next rt' = rt_next rt0" "rt_tasks rt' = rt_tasks rt0" "rt_closed rt' = rt_closed rt0"
      "rt_cancelled rt' = rt_cancelled rt0" "\<exists>e. y = Inl e"
  | (made) pid rt s p s' spec1 program where "random_id W ''proc_'' rt0 = (Inr pid, rt)" "\<not> rt_closed rt0"
      "check_request W input spec = Inr (spec1, program)"
      "p = new_process pid sid input spec1 (pg_digest program) (rt_now W rt)"
      "mget (rt_sessions rt0) sid = Some s" "ss_active s = ''''"
      "s' = s\<lparr>ss_processes := ss_processes s @ [pid], ss_active := pid, ss_updated := rt_now W rt\<rparr>"
      "rt_processes rt' = mput pid p (rt_processes rt0)" "rt_sessions rt' = mput (ss_id s) s' (rt_sessions rt0)"
      "rt_execs rt' = rt_execs rt0 @ [launched (rt_next rt0) pid]" "rt_next rt' = Suc (rt_next rt0)"
      "rt_tasks rt' = rt_tasks rt0" "rt_closed rt' = rt_closed rt0" "rt_cancelled rt' = rt_cancelled rt0"
      "y = Inr (process_snapshot_of p)"
proof -
  show ?thesis
  proof (cases "check_request W input spec")
    case (Inl e)
    then show ?thesis using assms none by (auto simp: create_process_def)
  next
    case ok: (Inr sp)
    obtain spec1 program where sp: "sp = (spec1, program)" by fastforce
    obtain x rt where x: "random_id W ''proc_'' rt0 = (x, rt)" by fastforce
    obtain ext where rt: "rt = rt0\<lparr>rt_ext := ext\<rparr>" using random_id_result [OF x] by blast
    have same: thesis if "rt' = rt" "\<exists>e. y = Inl e" using none that rt by simp
    show ?thesis
    proof (cases x)
      case (Inl e)
      then show ?thesis using assms x ok sp same by (auto simp: create_process_def)
    next
      case (Inr pid)
      show ?thesis
      proof (cases "mget (rt_sessions rt) sid")
        case None
        then show ?thesis using assms x ok sp Inr same by (auto simp: create_process_def split: if_splits)
      next
        case (Some s)
        show ?thesis
        proof (cases "rt_closed rt \<or> ss_active s \<noteq> ''''")
          case True
          then have "rt' = rt" "\<exists>e. y = Inl e"
            using assms x ok sp Inr Some by (auto simp: create_process_def split: if_splits)
          then show ?thesis by (rule same)
        next
          case free: False
          let ?p = "new_process pid sid input spec1 (pg_digest program) (rt_now W rt) :: 'r process_state"
          let ?s = "s\<lparr>ss_processes := ss_processes s @ [pid], ss_active := pid, ss_updated := rt_now W rt\<rparr>"
          obtain a l where a: "append_process W ?p rt = (a, rt\<lparr>rt_log := l\<rparr>)" using append_process_log [of W ?p rt] by blast
          have c: "(case append_process W ?p rt of
                          (Some e, rt1) \<Rightarrow> (Inl e, rt1)
                        | (None, rt1) \<Rightarrow>
                            (Inr (process_snapshot_of ?p), launch pid (put_session ?s (put_process ?p rt1)))) = (y, rt')"
            using assms x ok sp Inr Some free by (simp add: create_process_def Let_def)
          have id: "ps_id ?p = pid" by (simp add: new_process_def)
          show ?thesis
          proof (cases a)
            case e: (Some e)
            then show ?thesis using c a rt none by auto
          next
            case n: None
            have y: "y = Inr (process_snapshot_of ?p)" "rt' = launch pid (put_session ?s (put_process ?p (rt\<lparr>rt_log := l\<rparr>)))"
              using c a n by simp_all
            show ?thesis
              by (rule made [OF x [unfolded Inr] _ ok [unfolded sp] refl _ _ refl])
                (use y Some free rt id in \<open>simp_all add: put_process_def put_session_def launch_def launched_def\<close>)
          qed
        qed
      qed
    qed
  qed
qed

lemma create_process_ok:
  assumes ok: "rt_ok rt0" and f: "fresh_id W ''proc_'' rt0" and c: "create_process W sid input spec rt0 = (y, rt')"
  shows "rt_ok rt'"
proof (cases rule: create_process_parts [OF c])
  case 1
  have "rt_ok rt' = rt_ok rt0" by (rule rt_ok_parts) (use 1 in simp_all)
  then show ?thesis using ok by simp
next
  case (2 pid rt s p s' spec1 program)
  let ?P = "mget (rt_processes rt0)" and ?S = "mget (rt_sessions rt0)"
  have P: "procs_ok ?P ?S" "sessions_ok ?P ?S" "execs_ok ?P (rt_execs rt0) (rt_next rt0)" using ok by (simp_all add: rt_ok_def)
  have new: "?P pid = None" using f 2(1) unfolding fresh_id_def by blast
  have "\<exists>z. pid = ''proc_'' @ z" using random_id_prefix [OF 2(1)] .
  then have ne: "pid \<noteq> ''''" by auto
  note s = sessions_okD [OF P(2) 2(5)]
  have S': "mget (rt_sessions rt') = ?S(sid \<mapsto> s')" "mget (rt_processes rt') = ?P(pid \<mapsto> p)" using 2(8,9) s(1) by simp_all
  have p: "ps_id p = pid" "ps_session p = sid" "ps_status p = ProcessQueued" "proc_ok p"
    using new_process_ok by (simp_all add: 2(4) new_process_def)
  have s': "ss_id s' = sid" "ss_processes s' = ss_processes s @ [pid]" "ss_active s' = pid" using s(1) by (simp_all add: 2(7))
  have out: "pid \<notin> set (ss_processes s)" using s(3) [of pid] new by auto
  have "procs_ok (?P(pid \<mapsto> p)) (?S(sid \<mapsto> s'))"
    unfolding procs_ok_def
  proof (intro allI impI)
    fix k q assume q: "(?P(pid \<mapsto> p)) k = Some q"
    show "ps_id q = k \<and> k \<noteq> '''' \<and> proc_ok q \<and> (\<exists>t. (?S(sid \<mapsto> s')) (ps_session q) = Some t \<and>
        k \<in> set (ss_processes t) \<and> (live (ps_status q) \<longrightarrow> ss_active t = k))"
    proof (cases "k = pid")
      case True
      then have "q = p" using q by simp
      then show ?thesis using p s' ne True by simp
    next
      case False
      then have old: "?P k = Some q" using q by simp
      note d = rt_okD [OF ok old]
      obtain t where t: "?S (ps_session q) = Some t" "k \<in> set (ss_processes t)" "live (ps_status q) \<longrightarrow> ss_active t = k"
        using d(4) by blast
      show ?thesis
      proof (cases "ps_session q = sid")
        case True
        then have "t = s" using t(1) 2(5) by simp
        then have "\<not> live (ps_status q)" using t(3) 2(6) d(2) by auto
        then show ?thesis using d(1-3) t(2) s'(2) True \<open>t = s\<close> by simp
      next
        case other: False
        then show ?thesis using d(1-3) t by simp
      qed
    qed
  qed
  moreover have "sessions_ok (?P(pid \<mapsto> p)) (?S(sid \<mapsto> s'))"
    unfolding sessions_ok_def
  proof (intro allI impI)
    fix k t assume t: "(?S(sid \<mapsto> s')) k = Some t"
    have old: "\<exists>q. (?P(pid \<mapsto> p)) i = Some q \<and> ps_session q = k" if u: "?S k = Some u" "i \<in> set (ss_processes u)" for u i
    proof -
      obtain q where "?P i = Some q" "ps_session q = k" using sessions_okD(3) [OF P(2) u] by blast
      then show ?thesis using new by auto
    qed
    show "ss_id t = k \<and> distinct (ss_processes t) \<and> (\<forall>i\<in>set (ss_processes t). \<exists>q. (?P(pid \<mapsto> p)) i = Some q \<and> ps_session q = k)"
    proof (cases "k = sid")
      case True
      then have "t = s'" using t by simp
      then show ?thesis using s' s(2) out old [OF 2(5) [folded True]] p(2) True by simp
    next
      case False
      then have "?S k = Some t" using t by simp
      then show ?thesis using sessions_okD(1,2) [OF P(2)] old by blast
    qed
  qed
  moreover have "execs_ok (?P(pid \<mapsto> p)) (rt_execs rt0 @ [launched (rt_next rt0) pid]) (Suc (rt_next rt0))"
  proof (rule execs_ok_update [OF P(3)])
    have b: "ex_id e < rt_next rt0 \<and> ex_process e \<noteq> pid" if "e \<in> set (rt_execs rt0)" for e
      using rt_execD [OF ok that] new by (metis option.distinct(1))
    then have "rt_next rt0 \<notin> ex_id ` set (rt_execs rt0)" "pid \<notin> ex_process ` set (rt_execs rt0)" by fastforce+
    then show "distinct (map ex_id (rt_execs rt0 @ [launched (rt_next rt0) pid]))"
      "distinct (map ex_process (rt_execs rt0 @ [launched (rt_next rt0) pid]))"
      using rt_execs_distinct [OF ok] by (simp_all add: launched_ok)
    fix e assume e: "e \<in> set (rt_execs rt0 @ [launched (rt_next rt0) pid])"
    show "ex_process e \<noteq> pid \<Longrightarrow> e \<in> set (rt_execs rt0)" using e by (auto simp: launched_ok)
    show "ex_id e < Suc (rt_next rt0) \<and> busy (ps_status p) \<and> quantum_ok e p" if "ex_process e = pid"
    proof -
      have "e = launched (rt_next rt0) pid" using e b that by auto
      then show ?thesis using p(3) by (simp add: launched_ok)
    qed
  qed simp
  ultimately show ?thesis unfolding rt_ok_def S' 2(10,11) by blast
qed

subsection \<open>Every reachable state\<close>

lemma rt_step_ok:
  assumes "rt_step W rt rt'" "provider_keeps W" "rt_ok rt"
  shows "rt_ok rt'"
  using assms(1)
proof cases
  case (quantum_start e ctx)
  then show ?thesis using quantum_start_ok [OF assms(3)] assms(2) by blast
next
  case (quantum_call e g c u)
  then show ?thesis using quantum_call_ok [OF assms(3)] by blast
next
  case (quantum_drop e)
  then show ?thesis using quantum_end_ok [OF assms(3)] by (simp add: quantum_drop_end)
qed (use assms(3) in \<open>auto intro: create_session_ok rename_session_ok create_process_ok stop_ok retry_ok resolve_task_ok
    on_tasks_ok' settle_task_ok wake_ok exec_begin_ok exec_mark_ok exec_land_ok record_outcome_ok exec_finish_ok
    quantum_end_ok close_begin_ok close_cancel_ok\<close>)

text \<open>The runtime as a transition system: what its steps keep.\<close>

interpretation rt: invariant_system "\<lambda>rt. provider_keeps W \<and> (\<exists>l x. rt = empty_runtime l x)" "rt_step W"
    "\<lambda>rt. provider_keeps W \<and> rt_ok rt" for W
  by unfold_locales (auto simp: empty_ok intro: rt_step_ok)

lemma reachable_ok: "reachable W rt \<Longrightarrow> provider_keeps W \<Longrightarrow> rt_ok rt"
  using rt.reached_good [of W] unfolding reachable_def by blast

end
