(* ===== verification/Runtime.thy ===== *)
theory Runtime
  imports Reach "HOL-Library.Sublist"
begin

text \<open>
  Who runs: what the runtime guarantees of sessions, processes, executions and quanta in every
  reachable state, and a concrete runtime that the witnesses run.
\<close>

subsection \<open>How many guests run\<close>

definition guest_of ::
    "('l, 'r, 's, 'x) execution \<Rightarrow>
     (process_context \<times> (process_context, 'r, ('l, 'r, process_context, 's, 'x) cworld) dispatcher) option"
where
  "guest_of e = (case ex_quantum e of Running g \<Rightarrow> Some (ex_cred e, gr_chain g) | _ \<Rightarrow> None)"

definition guests ::
    "('l, 'r, 's, 'x) runtime \<Rightarrow>
     (process_context \<times> (process_context, 'r, ('l, 'r, process_context, 's, 'x) cworld) dispatcher) list"
where
  "guests rt = List.map_filter guest_of (rt_execs rt)"

lemma guest_of_update [simp]:
  "guest_of (e\<lparr>ex_phase := ph\<rparr>) = guest_of e" "guest_of (e\<lparr>ex_cancelled := b\<rparr>) = guest_of e"
  "guest_of (e\<lparr>ex_phase := ph, ex_cancelled := b\<rparr>) = guest_of e"
  "guest_of (e\<lparr>ex_quantum := Landed r\<rparr>) = None"
  by (simp_all add: guest_of_def split: quantum.split)

lemma guests_running_count: "guests_running rt = length (guests rt)"
  unfolding guests_running_def guests_def List.map_filter_def length_map
  by (intro arg_cong [where f = length] filter_cong refl) (auto simp: guest_of_def split: quantum.split)

text \<open>No guest that was not there: each has the credential and the chain of one that was.\<close>

definition no_new_guests :: "('l, 'r, 's, 'x) runtime \<Rightarrow> ('l, 'r, 's, 'x) runtime \<Rightarrow> bool" where
  "no_new_guests rt rt' \<longleftrightarrow> subseq (guests rt') (guests rt)"

lemma no_new_refl [simp]: "no_new_guests rt rt"
  by (simp add: no_new_guests_def)

lemma no_new_trans: "no_new_guests a b \<Longrightarrow> no_new_guests b c \<Longrightarrow> no_new_guests a c"
  unfolding no_new_guests_def by (rule subseq_order.trans)

lemma no_new_running: "no_new_guests rt rt' \<Longrightarrow> guests_running rt' \<le> guests_running rt"
  unfolding no_new_guests_def guests_running_count by (rule list_emb_length)

lemma guests_replace:
  assumes "\<And>y. y \<in> set X \<Longrightarrow> ex_id y = i \<Longrightarrow> guest_of e' = None \<or> guest_of e' = guest_of y"
  shows "subseq (List.map_filter guest_of (map (\<lambda>y. if ex_id y = i then e' else y) X)) (List.map_filter guest_of X)"
  using assms
proof (induction X)
  case (Cons x X)
  have "subseq (List.map_filter guest_of (map (\<lambda>y. if ex_id y = i then e' else y) X)) (List.map_filter guest_of X)"
    by (rule Cons.IH) (use Cons.prems in auto)
  then show ?case using Cons.prems [of x] by (auto simp: List.map_filter_simps split: option.split)
qed (simp add: List.map_filter_simps)

lemma guests_put_exec:
  assumes "rt_ok rt" "rt_execs rt1 = rt_execs rt" "e \<in> set (rt_execs rt)" "ex_id e' = ex_id e"
    and "guest_of e' = None \<or> guest_of e' = guest_of e"
  shows "no_new_guests rt (put_exec e' rt1)"
proof -
  have X: "rt_execs (put_exec e' rt1) = map (\<lambda>y. if ex_id y = ex_id e' then e' else y) (rt_execs rt)"
    using assms(2) by (simp add: put_exec_def)
  show ?thesis unfolding no_new_guests_def guests_def X
    by (rule guests_replace) (use assms(3-5) rt_exec_unique(1) [OF assms(1,3)] in auto)
qed

text \<open>A started quantum is one more guest.\<close>

lemma guests_start:
  assumes "rt_ok rt" "rt_execs rt1 = rt_execs rt" "e \<in> set (rt_execs rt)" "ex_id e' = ex_id e"
  shows "guests_running (put_exec e' rt1) \<le> Suc (guests_running rt)"
    "set (guests (put_exec e' rt1)) \<subseteq> set (guests rt) \<union> set_option (guest_of e')"
proof -
  have X: "rt_execs (put_exec e' rt1) = map (\<lambda>y. if ex_id y = ex_id e then e' else y) (rt_execs rt)"
    using assms(2,4) by (simp add: put_exec_def)
  have d: "distinct (map ex_id (rt_execs rt))" by (rule rt_execs_distinct(1) [OF assms(1)])
  have "length (List.map_filter guest_of (map (\<lambda>y. if ex_id y = i then e' else y) Y)) \<le> Suc (length (List.map_filter guest_of Y))"
    if "distinct (map ex_id Y)" for Y i using that
  proof (induction Y)
    case (Cons x Y)
    have "map (\<lambda>y. if ex_id y = i then e' else y) Y = Y" if i: "ex_id x = i"
    proof (rule map_idI)
      fix y assume "y \<in> set Y"
      then have "ex_id y \<noteq> i" using Cons.prems i by (auto intro: rev_image_eqI)
      then show "(if ex_id y = i then e' else y) = y" by simp
    qed
    then show ?case using Cons by (cases "ex_id x = i") (auto simp: List.map_filter_simps split: option.split)
  qed (simp add: List.map_filter_simps)
  from this [OF d] show "guests_running (put_exec e' rt1) \<le> Suc (guests_running rt)"
    unfolding guests_running_count guests_def X .
  show "set (guests (put_exec e' rt1)) \<subseteq> set (guests rt) \<union> set_option (guest_of e')"
    unfolding guests_def X List.map_filter_def by (auto split: if_splits)
qed

text \<open>Everything but the start of a quantum leaves the guests or drops some.\<close>

lemma running_parts: "rt_execs rt' = rt_execs rt \<Longrightarrow> no_new_guests rt rt'"
  by (simp add: no_new_guests_def guests_def)

lemma running_filter:
  "rt_execs rt' = filter Q (rt_execs rt) \<Longrightarrow> no_new_guests rt rt'"
proof -
  have "subseq (List.map_filter guest_of (filter Q X)) (List.map_filter guest_of X)" for X
    by (induction X) (auto simp: List.map_filter_simps split: option.split)
  then show "rt_execs rt' = filter Q (rt_execs rt) \<Longrightarrow> no_new_guests rt rt'"
    by (simp add: no_new_guests_def guests_def)
qed

lemma running_launch:
  "rt_execs rt' = rt_execs rt @ [launched n pid] \<Longrightarrow> no_new_guests rt rt'"
  by (simp add: no_new_guests_def guests_def launched_def guest_of_def List.map_filter_def)

lemma running_cancelling:
  assumes "cancelling f" "rt_execs rt' = map f (rt_execs rt)"
  shows "no_new_guests rt rt'"
proof -
  have "guest_of (f e) = guest_of e" for e
  proof -
    have "f e = e \<or> f e = e\<lparr>ex_cancelled := True\<rparr>" using assms(1) unfolding cancelling_def by blast
    then show ?thesis by auto
  qed
  then show ?thesis by (simp add: no_new_guests_def guests_def assms(2) List.map_filter_def filter_map o_def)
qed

lemma running_relaunch:
  assumes "relaunch W p rt = Some (y, rt')"
  shows "no_new_guests rt rt'"
proof (cases "rt_closed rt")
  case True
  then show ?thesis using assms by (simp add: relaunch_def)
next
  case False
  then obtain s where "mget (rt_sessions rt) (ps_session p) = Some s"
    using assms by (auto simp: relaunch_def bind_eq_Some_conv)
  from relaunch_cases [OF assms this] show ?thesis
    by cases (auto intro: running_parts running_launch)
qed

lemma finish_execs: "finish W p st a f rt = Some rt' \<Longrightarrow> rt_execs rt' = rt_execs rt"
proof -
  assume f: "finish W p st a f rt = Some rt'"
  then obtain s where "mget (rt_sessions rt) (ps_session p) = Some s" by (auto simp: finish_def bind_eq_Some_conv)
  from finish_parts(3) [OF f this] show ?thesis .
qed

lemma on_tasks_parts [simp]:
  "rt_execs (snd (on_tasks f rt)) = rt_execs rt" "rt_processes (snd (on_tasks f rt)) = rt_processes rt"
  "rt_sessions (snd (on_tasks f rt)) = rt_sessions rt" "rt_closed (snd (on_tasks f rt)) = rt_closed rt"
  "rt_next (snd (on_tasks f rt)) = rt_next rt" "rt_taints (snd (on_tasks f rt)) = rt_taints rt"
  by (simp_all add: on_tasks_def split: prod.splits)

lemma on_tasks_parts':
  assumes "on_tasks f rt = (x, rt')"
  shows "rt_execs rt' = rt_execs rt" "rt_processes rt' = rt_processes rt" "rt_sessions rt' = rt_sessions rt"
    "rt_closed rt' = rt_closed rt"
  using on_tasks_parts [of f rt] assms by simp_all

lemma running_retry:
  assumes "rt_ok rt" "retry W pid mode rt = Some (z, rt')"
  shows "no_new_guests rt rt'"
proof (cases rule: retry_cases [OF assms(2,1)])
  case (2 p0 p rt1 s)
  have "no_new_guests rt rt1" by (rule running_parts [OF 2(4)])
  then show ?thesis using running_relaunch [OF 2(17)] by (rule no_new_trans)
qed simp

lemma running_wake:
  assumes "rt_ok rt" "wake W pid rt = Some (x, rt')"
  shows "no_new_guests rt rt'"
proof -
  have "rt' = rt \<or> (\<exists>z. retry W pid RetryResume rt = Some (z, rt'))"
    using assms(2) by (auto simp: wake_def bind_eq_Some_conv split: if_splits)
  then show ?thesis using running_retry [OF assms(1)] no_new_refl by blast
qed

lemma running_resolve:
  assumes "rt_ok rt" "resolve_task W tid token a rt = Some (t, rt')"
  shows "no_new_guests rt rt'"
proof -
  obtain d rt1 where d: "on_tasks (store_resolve (wi_log W) (wi_codec W) tid (cr_sha256 (tc_crypto (wi_tasks W)) token)
      a (rt_now W rt)) rt = (d, rt1)" by fastforce
  have 1: "rt_ok rt1" "no_new_guests rt rt1"
    using on_tasks_ok' [OF assms(1) d] running_parts on_tasks_parts'(1) [OF d] by blast+
  have "rt' = rt \<or> rt' = rt1 \<or> (\<exists>pid x. wake W pid rt1 = Some (x, rt'))"
    using assms(2) d by (auto simp: resolve_task_def split: if_splits sum.splits)
  then show ?thesis using 1(2) running_wake [OF 1(1)] no_new_trans no_new_refl by metis
qed

lemma running_outcome:
  assumes ok: "rt_ok rt" and e: "e \<in> set (rt_execs rt)" "ex_phase e = Outcome r"
    and o: "record_outcome W r e rt = Some rt'"
  shows "no_new_guests rt rt'"
proof -
  have fin: "no_new_guests rt (to_finish st a f e rt1)" if "rt_execs rt1 = rt_execs rt" for st a f rt1
    unfolding to_finish_def by (rule guests_put_exec [OF ok that e(1)]) simp_all
  have drop: "no_new_guests rt1 (drop_exec e rt1)" for rt1 by (rule running_filter) simp
  have fail: "no_new_guests rt rt'" if f: "fail_process W e p f rt = Some rt'" for p f
  proof -
    obtain again rt1 where r: "redrive_after_failure W p rt = Some (again, rt1)"
      "rt' = (if again then drop_exec e rt1 else to_finish ProcessFailed '''' f e rt1)"
      using f by (auto simp: fail_process_def)
    have "rt1 = rt \<and> \<not> again \<or> (\<exists>y. relaunch W (p\<lparr>ps_last_failure := ps_length p\<rparr>)
        (put_process (p\<lparr>ps_last_failure := ps_length p\<rparr>) rt) = Some (y, rt1) \<and> (again \<longleftrightarrow> (\<exists>z. y = Inr z)))"
      using r(1) by (auto simp: redrive_after_failure_def split: sum.splits prod.splits option.splits if_splits)
    then show ?thesis
    proof
      assume "rt1 = rt \<and> \<not> again"
      then show ?thesis using r(2) fin by simp
    next
      let ?p = "p\<lparr>ps_last_failure := ps_length p\<rparr>"
      assume "\<exists>y. relaunch W ?p (put_process ?p rt) = Some (y, rt1) \<and> (again \<longleftrightarrow> (\<exists>z. y = Inr z))"
      then obtain y where y: "relaunch W ?p (put_process ?p rt) = Some (y, rt1)" "again \<longleftrightarrow> (\<exists>z. y = Inr z)" by blast
      have g: "no_new_guests rt (put_process ?p rt)" by (rule running_parts) (simp add: put_process_def)
      show ?thesis
      proof (cases again)
        case True
        then show ?thesis using r(2) no_new_trans [OF no_new_trans [OF g running_relaunch [OF y(1)]] drop] by simp
      next
        case False
        have "rt_execs rt1 = rt_execs rt"
        proof (cases "rt_closed rt")
          case True
          then show ?thesis using y(1) by (auto simp: relaunch_def put_process_def)
        next
          case open_: False
          obtain s where "mget (rt_sessions (put_process ?p rt)) (ps_session ?p) = Some s"
            using y(1) open_ by (auto simp: relaunch_def put_process_def bind_eq_Some_conv)
          from relaunch_cases [OF y(1) this] show ?thesis
            using y(2) False by cases (simp_all add: put_process_def)
        qed
        then show ?thesis using r(2) False fin by simp
      qed
    qed
  qed
  have abort: "no_new_guests rt (drop_exec e rt2)"
    if a: "retry_aborted_section W p reason rt = Some rt2" for p reason rt2
  proof -
    have "(\<exists>f. finish W p ProcessFailed '''' f rt = Some rt2) \<or>
        (\<exists>off p1 rt1 y. fork_process off (p\<lparr>ps_aborts := ps_aborts p + 1\<rparr>) rt = (p1, rt1) \<and> relaunch W p1 rt1 = Some (y, rt2))"
      using a by (fastforce simp: retry_aborted_section_def Let_def split: sum.splits prod.splits if_splits)
    then have "no_new_guests rt rt2"
    proof
      assume "\<exists>f. finish W p ProcessFailed '''' f rt = Some rt2"
      then show ?thesis using finish_execs running_parts by blast
    next
      assume "\<exists>off p1 rt1 y. fork_process off (p\<lparr>ps_aborts := ps_aborts p + 1\<rparr>) rt = (p1, rt1) \<and> relaunch W p1 rt1 = Some (y, rt2)"
      then obtain off p1 rt1 y where f: "fork_process off (p\<lparr>ps_aborts := ps_aborts p + 1\<rparr>) rt = (p1, rt1)"
        "relaunch W p1 rt1 = Some (y, rt2)" by blast
      show ?thesis by (rule no_new_trans [OF running_parts [OF fork_parts(3) [OF f(1)]] running_relaunch [OF f(2)]])
    qed
    then show ?thesis using drop by (rule no_new_trans)
  qed
  show ?thesis
  proof (cases "qr_status r")
    case ResumeCompleted
    then obtain p lc where p: "mget (rt_processes rt) (ex_process e) = Some p" "last_call W (rt_log rt) p = Some lc"
      using o by (auto simp: record_outcome_def bind_eq_Some_conv)
    show ?thesis
    proof (cases "guest_abort lc")
      case (Some reason)
      then obtain rt2 where "retry_aborted_section W p reason rt = Some rt2" "rt' = drop_exec e rt2"
        using o ResumeCompleted p by (auto simp: record_outcome_def)
      then show ?thesis using abort by blast
    next
      case None
      then show ?thesis using o ResumeCompleted p fin fail
        by (cases "answer_from_journal (wi_sys W) lc") (auto simp: record_outcome_def)
    qed
  next
    case ResumeYielded
    then show ?thesis using o fin by (auto simp: record_outcome_def)
  next
    case ResumeStopped
    then show ?thesis using o fin by (auto simp: record_outcome_def)
  next
    case ResumeFailed
    then show ?thesis using o fail by (auto simp: record_outcome_def bind_eq_Some_conv)
  qed
qed

lemma stop_execs:
  assumes "stop_process W pid rt = Some (z, rt')"
  shows "rt_execs rt' = rt_execs rt \<or>
    (\<exists>stop. rt_execs rt' = map (\<lambda>e. if Some (ex_id e) = stop then e\<lparr>ex_cancelled := True\<rparr> else e) (rt_execs rt))"
proof (cases "mget (rt_processes rt) pid")
  case None
  then show ?thesis using assms by (simp add: stop_process_def)
next
  case (Some p)
  show ?thesis
  proof (cases "ps_status p = ProcessQueued \<or> ps_status p = ProcessRunning")
    case True
    let ?p = "p\<lparr>ps_stop_requested := True, ps_status := ProcessStopping, ps_updated := rt_now W rt\<rparr>"
    let ?rt = "cancel_exec (ps_stop p) (put_process ?p rt)"
    obtain l where l: "snd (append_process W ?p ?rt) = ?rt\<lparr>rt_log := l\<rparr>"
      using append_process_log [of W ?p ?rt] by (metis snd_conv)
    have "rt' = ?rt\<lparr>rt_log := l\<rparr>" by (rule trans [OF stop_running [OF Some True assms] l])
    then show ?thesis by (intro disjI2 exI [of _ "ps_stop p"]) (simp add: cancel_exec_def put_process_def)
  next
    case False
    then show ?thesis using assms Some
      by (auto simp: stop_process_def bind_eq_Some_conv dest: finish_execs split: if_splits)
  qed
qed

lemma exec_begin_execs:
  assumes "exec_begin e rt = Some rt'"
  shows "\<exists>e'. rt' = put_exec e' rt \<and> ex_id e' = ex_id e \<and> ex_process e' = ex_process e \<and> ex_quantum e' = ex_quantum e"
proof -
  obtain p where p: "mget (rt_processes rt) (ex_process e) = Some p" using assms by (auto simp: exec_begin_def bind_eq_Some_conv)
  let ?e = "if ps_stop_requested p then e\<lparr>ex_phase := Finishing ProcessStopped '''' (Some Canceled)\<rparr>
        else if rt_cancelled rt then e\<lparr>ex_phase := Finishing ProcessInterrupted '''' (Some PoolClosed)\<rparr>
        else e\<lparr>ex_phase := Submitted, ex_cred := proc_context p, ex_program := m_program (ps_manifest p),
               ex_digest := ps_digest p\<rparr>"
  show ?thesis by (rule exI [of _ ?e]) (use assms p in \<open>simp add: exec_begin_def\<close>)
qed

lemma quantum_call_execs:
  assumes "quantum_call c g e rt = Some (u, rt')"
  shows "\<exists>p w. rt' = put_exec (e\<lparr>ex_quantum := Running (guest_after g w)\<rparr>) (put_cworld p w rt)"
  using assms by (auto simp: quantum_call_def bind_eq_Some_conv case_prod_unfold)

lemma quantum_start_execs:
  assumes "quantum_start W ctx e rt = Some rt'"
  shows "\<exists>q x. rt' = put_exec (e\<lparr>ex_quantum := q\<rparr>) (rt\<lparr>rt_ext := x\<rparr>)"
proof (cases "registry_bound (wi_programs W) (ex_program e) (ex_digest e)")
  case (Inl y)
  then have "rt' = put_exec (e\<lparr>ex_quantum := Landed (setup_failed ctx y)\<rparr>) (rt\<lparr>rt_ext := rt_ext rt\<rparr>)"
    using assms by (simp add: quantum_start_def)
  then show ?thesis by blast
next
  case (Inr program)
  then obtain y rt1 where c: "quantum_chain W (ex_cred e) program rt = Some (y, rt1)"
    using assms by (cases "quantum_chain W (ex_cred e) program rt") (auto simp: quantum_start_def)
  then have "\<exists>x. rt1 = rt\<lparr>rt_ext := x\<rparr>" by (auto simp: quantum_chain_def bind_eq_Some_conv case_prod_unfold)
  then show ?thesis using assms Inr c by (cases y) (auto simp: quantum_start_def)
qed

lemma step_guests:
  assumes "rt_step W rt rt'" "rt_ok rt"
  shows "no_new_guests rt rt' \<or>
    (\<exists>e ctx. e \<in> set (rt_execs rt) \<and> submitted e \<and> guests_running rt < wi_workers W \<and> quantum_start W ctx e rt = Some rt')"
  using assms(1)
proof cases
  case (create_session name tags y)
  have "no_new_guests rt rt'"
    by (cases rule: create_session_parts [OF create_session(2)]; rule running_parts) simp_all
  then show ?thesis ..
next
  case (rename_session sid name y)
  have "no_new_guests rt rt'"
    by (cases rule: rename_session_parts [OF rename_session]; rule running_parts) (simp_all add: put_session_def)
  then show ?thesis ..
next
  case (create_process sid input spec z)
  have "no_new_guests rt rt'"
    by (cases rule: create_process_parts [OF create_process(2)]) (auto intro: running_parts running_launch)
  then show ?thesis ..
next
  case (stop pid z)
  have "rt_execs rt' = rt_execs rt \<or> (\<exists>f. cancelling f \<and> rt_execs rt' = map f (rt_execs rt))"
    using stop_execs [OF stop] cancel_exec_cancelling by blast
  then show ?thesis using running_parts running_cancelling by blast
next
  case (retry pid mode z)
  then show ?thesis using running_retry [OF assms(2)] by blast
next
  case (resolve tid token a t)
  then show ?thesis using running_resolve [OF assms(2)] by blast
next
  case (decide a tid h now d)
  then show ?thesis using running_parts [OF on_tasks_parts'(1) [OF decide(2)]] by simp
next
  case (settle now tid)
  then show ?thesis using running_parts [of rt' rt] by (simp add: settle_task_def)
next
  case (wake pid x)
  then show ?thesis using running_wake [OF assms(2)] by blast
next
  case (exec_begin e)
  obtain e' where e': "rt' = put_exec e' rt" "ex_id e' = ex_id e" "ex_quantum e' = ex_quantum e"
    using exec_begin_execs [OF exec_begin(3)] by blast
  obtain p where "quantum_ok e p" using rt_execD [OF assms(2) exec_begin(1)] by blast
  then have "guest_of e' = None"
    using exec_begin(2) e'(3) by (auto simp: quantum_ok_def submitted_def guest_of_def split: quantum.split)
  then show ?thesis using guests_put_exec [OF assms(2) refl exec_begin(1) e'(2)] e'(1) by simp
next
  case (exec_mark e)
  then obtain p where p: "mget (rt_processes rt) (ex_process e) = Some p" by (auto simp: exec_mark_def bind_eq_Some_conv)
  let ?p = "p\<lparr>ps_stop := Some (ex_id e), ps_status := ProcessRunning, ps_started := Some (rt_now W rt), ps_updated := rt_now W rt\<rparr>"
  let ?e = "e\<lparr>ex_phase := Awaiting, ex_cancelled := ex_cancelled e \<or> ps_stop_requested p\<rparr>"
  obtain l where "snd (append_process W ?p (put_process ?p rt)) = (put_process ?p rt)\<lparr>rt_log := l\<rparr>"
    using append_process_log [of W ?p "put_process ?p rt"] by (metis snd_conv)
  then have "rt' = put_exec ?e ((put_process ?p rt)\<lparr>rt_log := l\<rparr>)"
    using exec_mark(3) p by (simp add: exec_mark_def Let_def)
  moreover have "no_new_guests rt (put_exec ?e ((put_process ?p rt)\<lparr>rt_log := l\<rparr>))"
    by (rule guests_put_exec [OF assms(2) _ exec_mark(1)]) (simp_all add: put_process_def)
  ultimately show ?thesis by simp
next
  case (exec_land e r)
  then obtain p where p: "rt' = put_exec (e\<lparr>ex_phase := Outcome r\<rparr>) (put_process p rt)"
    by (auto simp: exec_land_def bind_eq_Some_conv)
  have "no_new_guests rt rt'" unfolding p
    by (rule guests_put_exec [OF assms(2) _ exec_land(1)]) (simp_all add: put_process_def)
  then show ?thesis ..
next
  case (outcome e r)
  then show ?thesis using running_outcome [OF assms(2)] by blast
next
  case (exec_finish e status answer failure)
  then obtain p rt1 where "finish W p status answer failure rt = Some rt1" "rt' = drop_exec e rt1"
    by (auto simp: exec_finish_def bind_eq_Some_conv)
  then have "rt_execs rt' = filter (\<lambda>y. ex_id y \<noteq> ex_id e) (rt_execs rt)" using finish_execs by fastforce
  then show ?thesis using running_filter by blast
next
  case (quantum_drop e)
  have "no_new_guests rt rt'" unfolding quantum_drop(1) quantum_drop_def
    by (rule guests_put_exec [OF assms(2) refl quantum_drop(2)]) (simp_all add: guest_of_def)
  then show ?thesis ..
next
  case (quantum_start e ctx)
  then show ?thesis by blast
next
  case (setup_cancelled e x)
  have "no_new_guests rt rt'" unfolding setup_cancelled(1) quantum_end_def
    by (rule guests_put_exec [OF assms(2) refl setup_cancelled(2)]) (simp_all add: guest_of_def)
  then show ?thesis ..
next
  case (quantum_call e g c u)
  then obtain p w where w: "rt' = put_exec (e\<lparr>ex_quantum := Running (guest_after g w)\<rparr>) (put_cworld p w rt)"
    using quantum_call_execs by blast
  have "no_new_guests rt rt'" unfolding w
    by (rule guests_put_exec [OF assms(2) _ quantum_call(1)])
      (simp_all add: quantum_call(2) put_cworld_def put_process_def guest_of_def guest_after_def)
  then show ?thesis ..
next
  case (quantum_end e g r)
  have "no_new_guests rt rt'" unfolding quantum_end(1) quantum_end_def
    by (rule guests_put_exec [OF assms(2) refl quantum_end(2)]) (simp_all add: guest_of_def)
  then show ?thesis ..
next
  case close_begin
  have c: "cancelling (\<lambda>e. if held_stop (ex_id e) (rt_processes rt) then e\<lparr>ex_cancelled := True\<rparr> else e)"
    by (simp add: cancelling_def)
  have "no_new_guests rt rt'"
  proof (cases "rt_closed rt")
    case False
    show ?thesis by (rule running_cancelling [OF c]) (use close_begin False in \<open>simp add: close_begin_def\<close>)
  qed (use close_begin in \<open>simp add: close_begin_def\<close>)
  then show ?thesis ..
next
  case close_cancel
  have "no_new_guests rt rt'"
    by (rule running_parts) (use close_cancel in \<open>simp add: close_cancel_def\<close>)
  then show ?thesis ..
next
  case (tick l)
  then show ?thesis using running_parts [of rt' rt] by simp
next
  case (outside x)
  then show ?thesis using running_parts [of rt' rt] by simp
qed

lemma running_step:
  assumes "rt_step W rt rt'" "rt_ok rt" "guests_running rt \<le> wi_workers W"
  shows "guests_running rt' \<le> wi_workers W"
  using step_guests [OF assms(1,2)]
proof
  assume "no_new_guests rt rt'"
  then show ?thesis using no_new_running assms(3) le_trans by blast
next
  assume "\<exists>e ctx. e \<in> set (rt_execs rt) \<and> submitted e \<and> guests_running rt < wi_workers W \<and> quantum_start W ctx e rt = Some rt'"
  then obtain e ctx where e: "e \<in> set (rt_execs rt)" "guests_running rt < wi_workers W" "quantum_start W ctx e rt = Some rt'"
    by blast
  then obtain q x where q: "rt' = put_exec (e\<lparr>ex_quantum := q\<rparr>) (rt\<lparr>rt_ext := x\<rparr>)" using quantum_start_execs by blast
  have "guests_running rt' \<le> Suc (guests_running rt)"
    unfolding q by (rule guests_start(1) [OF assms(2) _ e(1)]) simp_all
  then show ?thesis using e(2) by simp
qed

interpretation workers: invariant_system "\<lambda>rt. provider_keeps W \<and> (\<exists>l x. rt = empty_runtime l x)" "rt_step W"
    "\<lambda>rt. provider_keeps W \<and> rt_ok rt \<and> guests_running rt \<le> wi_workers W" for W
proof (unfold_locales, goal_cases)
  case (1 rt)
  then show ?case using rt.start_good [OF 1] by (auto simp: guests_running_def empty_runtime_def)
next
  case (2 rt rt')
  then show ?case using rt_step_ok [OF 2(2)] running_step [OF 2(2)] by blast
qed

lemma reachable_running: "reachable W rt \<Longrightarrow> provider_keeps W \<Longrightarrow> guests_running rt \<le> wi_workers W"
  using workers.reached_good [of W] unfolding reachable_def by blast

subsection \<open>A runtime on which the witnesses evaluate\<close>

type_synonym demo_wiring_t = "(demo_data mem_log, demo_data, demo_result, bytes, bytes, string, syscall list) wiring"
type_synonym demo_runtime = "(demo_data mem_log, demo_result, bytes, syscall list) runtime"

definition demo_wiring :: demo_wiring_t where
  "demo_wiring =
     \<lparr>wi_log = open_evlog, wi_codec = demo_chain_codec, wi_enc = Inr \<circ> DemoRecord,
      wi_dec = (\<lambda>d. case d of DemoRecord r \<Rightarrow> Inr (json_record demo_form id r) | _ \<Rightarrow> Inl json_error), wi_sys = demo_sys,
      wi_schemas = demo_text_api, wi_programs = [(''a'', demo_program)], wi_validate_config = (\<lambda>_ _. None),
      wi_provider = (\<lambda>_ _ x. (Inr new_table, x)), wi_entropy = demo_entropy, wi_tasks = demo_config,
      wi_workers = 2\<rparr>"

definition demo_boot :: demo_runtime where
  "demo_boot = empty_runtime \<lparr>ml_events = [], ml_now = 7, ml_full = False\<rparr> []"

definition demo_spec :: manifest where
  "demo_spec = \<lparr>m_version = 4, m_program = ''a'', m_history = None, m_syscalls = [], m_skills = []\<rparr>"

definition demo_sid :: string where "demo_sid = ''ses_'' @ hex_encode (replicate 16 CHR ''a'')"
definition demo_pid :: string where "demo_pid = ''proc_'' @ hex_encode (replicate 16 CHR ''a'')"

definition demo_session :: session_state where
  "demo_session =
     \<lparr>ss_id = demo_sid, ss_name = ''a'', ss_tags = [], ss_processes = [], ss_active = '''', ss_created = 7, ss_updated = 7\<rparr>"

definition demo_new_process :: "demo_result process_state" where
  "demo_new_process = new_process demo_pid demo_sid ''hi'' demo_spec (pg_digest demo_program) 7"

definition demo_log :: "demo_data mem_log" where
  "demo_log =
     \<lparr>ml_events =
        [(demo_sid, \<lparr>ev_seq = 1, ev_kind = ev_session_state, ev_time = 7, ev_proc = '''', ev_rev = 0,
                     ev_data = DemoPayload (SessionData (stored_session demo_session))\<rparr>)],
      ml_now = 7, ml_full = False\<rparr>"

definition demo_opened :: demo_runtime where
  "demo_opened = put_session demo_session (demo_boot\<lparr>rt_log := demo_log\<rparr>)"

text \<open>The process created in the session, with its quantum launched.\<close>

definition demo_queued :: demo_runtime where
  "demo_queued = snd (create_process demo_wiring demo_sid ''hi'' demo_spec demo_opened)"

lemma demo_wiring_sel [simp]:
  "wi_log demo_wiring = open_evlog" "wi_codec demo_wiring = demo_chain_codec" "wi_entropy demo_wiring = demo_entropy"
  "wi_programs demo_wiring = [(''a'', demo_program)]" "wi_validate_config demo_wiring = (\<lambda>_ _. None)"
  "wi_schemas demo_wiring = demo_text_api" "wi_workers demo_wiring = 2" "wi_tasks demo_wiring = demo_config"
  "wi_sys demo_wiring = demo_sys"
  by (simp_all add: demo_wiring_def)

lemma demo_keeps: "provider_keeps demo_wiring"
  by (simp add: provider_keeps_def demo_wiring_def handlers_keep_def new_table_def)

lemma demo_random: "random_id demo_wiring pre rt = (Inr (pre @ hex_encode (replicate 16 CHR ''a'')), rt)"
  by (simp add: random_id_def demo_entropy_def)

lemma demo_trim_a: "trim_space ''a'' = ''a''"
  by (simp add: trim_space_def rune_chunks.simps trim_chunks_def space_chunk_def rune_width_def space_rune_def)

lemma demo_opened_eval: "\<exists>snap. create_session demo_wiring ''a'' [] demo_boot = Some (Inr snap, demo_opened)"
  by (simp add: create_session_def Let_def demo_trim_a demo_random demo_boot_def empty_runtime_def check_session_name_free_def
      append_session_def append_event_def session_state_event_def encode_event_def demo_chain_codec_def rt_now_def
      open_evlog_def mem_evlog_def session_snapshot_of_def session_summary_of_def history_of_def put_session_def demo_sid_def
      demo_opened_def demo_session_def demo_log_def stored_session_def mkeys_def)

lemma demo_opened_sel [simp]:
  "rt_sessions demo_opened = [(demo_sid, demo_session)]" "rt_processes demo_opened = []" "rt_execs demo_opened = []"
  "rt_next demo_opened = 0" "rt_closed demo_opened = False" "rt_tasks demo_opened = []" "rt_cancelled demo_opened = False"
  "rt_log demo_opened = demo_log" "rt_now demo_wiring demo_opened = 7" "rt_taints demo_opened = []"
  by (simp_all add: demo_opened_def put_session_def demo_boot_def empty_runtime_def demo_session_def rt_now_def
      demo_log_def open_evlog_def mem_evlog_def)

lemma demo_request: "check_request demo_wiring ''hi'' demo_spec = Inr (demo_spec, demo_program)"
proof -
  have "validate demo_spec (\<lambda>_ _. None) = Inr demo_spec"
    by (simp add: validate_def demo_spec_def manifest_version_def demo_trim_a)
  then show ?thesis
    by (simp add: check_request_def demo_spec_def validate_input_def validate_text_def demo_text_api_def)
qed

definition demo_held :: session_state where
  "demo_held = demo_session\<lparr>ss_processes := [demo_pid], ss_active := demo_pid\<rparr>"

lemma demo_append:
  assumes "\<not> ml_full (rt_log rt)"
  shows "\<exists>l. append_process demo_wiring p rt = (None, rt\<lparr>rt_log := l\<rparr>) \<and> \<not> ml_full l \<and> ml_now l = ml_now (rt_log rt)"
  by (rule exI [of _ "rt_log (snd (append_process demo_wiring p rt))"])
    (use assms in \<open>simp add: append_process_def append_event_def process_state_event_def encode_event_def
      demo_chain_codec_def open_evlog_def mem_evlog_def\<close>)

lemma demo_create:
  "\<exists>l. create_process demo_wiring demo_sid ''hi'' demo_spec demo_opened =
     (Inr (process_snapshot_of demo_new_process),
      launch demo_pid (put_session demo_held (put_process demo_new_process (demo_opened\<lparr>rt_log := l\<rparr>)))) \<and>
     \<not> ml_full l \<and> ml_now l = 7"
proof -
  have "\<not> ml_full (rt_log demo_opened)" "ml_now (rt_log demo_opened) = 7" by (simp_all add: demo_log_def)
  then obtain l where l: "append_process demo_wiring demo_new_process demo_opened = (None, demo_opened\<lparr>rt_log := l\<rparr>)"
    "\<not> ml_full l" "ml_now l = 7"
    using demo_append [of demo_opened demo_new_process] by auto
  have s: "demo_session\<lparr>ss_processes := ss_processes demo_session @ [demo_pid], ss_active := demo_pid, ss_updated := 7\<rparr> = demo_held"
    "ss_active demo_session = ''''"
    by (simp_all add: demo_session_def demo_held_def)
  have r: "random_id demo_wiring ''proc_'' demo_opened = (Inr demo_pid, demo_opened)" by (simp add: demo_random demo_pid_def)
  show ?thesis
    by (rule exI [of _ l])
      (simp add: create_process_def demo_request r s l Let_def demo_new_process_def [symmetric])
qed

lemma demo_queued_sel [simp]:
  "rt_sessions demo_queued = [(demo_sid, demo_held)]" "rt_processes demo_queued = [(demo_pid, demo_new_process)]"
  "rt_execs demo_queued = [launched 0 demo_pid]" "rt_next demo_queued = 1" "rt_closed demo_queued = False"
  "rt_cancelled demo_queued = False" "rt_tasks demo_queued = []" "\<not> ml_full (rt_log demo_queued)"
  "rt_now demo_wiring demo_queued = 7" "rt_taints demo_queued = []"
proof -
  have l: "rt_cancelled (launch pid rt) = rt_cancelled rt" "rt_taints (launch pid rt) = rt_taints rt"
    for pid and rt :: demo_runtime by (simp_all add: launch_def)
  show "rt_sessions demo_queued = [(demo_sid, demo_held)]" "rt_processes demo_queued = [(demo_pid, demo_new_process)]"
    "rt_execs demo_queued = [launched 0 demo_pid]" "rt_next demo_queued = 1" "rt_closed demo_queued = False"
    "rt_cancelled demo_queued = False" "rt_tasks demo_queued = []" "\<not> ml_full (rt_log demo_queued)"
    "rt_now demo_wiring demo_queued = 7" "rt_taints demo_queued = []"
    using demo_create
    by (auto simp: demo_queued_def put_session_def put_process_def demo_held_def demo_session_def demo_new_process_def
        new_process_def rt_now_def open_evlog_def mem_evlog_def l)
qed

lemma demo_steps: "rt_step demo_wiring demo_boot demo_opened" "rt_step demo_wiring demo_opened demo_queued"
proof -
  obtain snap where "create_session demo_wiring ''a'' [] demo_boot = Some (Inr snap, demo_opened)" using demo_opened_eval by blast
  then show "rt_step demo_wiring demo_boot demo_opened"
    by (rule rt_step.create_session [rotated]) (simp add: fresh_id_def demo_boot_def empty_runtime_def)
  show "rt_step demo_wiring demo_opened demo_queued"
  proof (rule rt_step.create_process)
    show "fresh_id demo_wiring ''proc_'' demo_opened" by (simp add: fresh_id_def demo_random demo_sid_def)
    show "create_process demo_wiring demo_sid ''hi'' demo_spec demo_opened =
        (fst (create_process demo_wiring demo_sid ''hi'' demo_spec demo_opened), demo_queued)"
      by (simp add: demo_queued_def)
  qed
qed

definition demo_run :: "demo_runtime \<Rightarrow> bool" where
  "demo_run rt \<longleftrightarrow> (rt_step demo_wiring)\<^sup>*\<^sup>* demo_boot rt"

lemma demo_run_step: "demo_run rt \<Longrightarrow> rt_step demo_wiring rt rt' \<Longrightarrow> demo_run rt'"
  unfolding demo_run_def by (rule rtranclp.rtrancl_into_rtrancl)

lemma demo_run_reachable: "demo_run rt \<Longrightarrow> reachable demo_wiring rt"
  unfolding demo_run_def reachable_def demo_boot_def by blast

lemma demo_runs: "demo_run demo_boot" "demo_run demo_opened" "demo_run demo_queued"
proof -
  show b: "demo_run demo_boot" by (simp add: demo_run_def)
  show o: "demo_run demo_opened" by (rule demo_run_step [OF b demo_steps(1)])
  show "demo_run demo_queued" by (rule demo_run_step [OF o demo_steps(2)])
qed

lemmas demo_reachable = demo_runs [THEN demo_run_reachable]

subsection \<open>Who runs\<close>

lemma session_exec_unique:
  assumes ok: "rt_ok rt" and e: "e \<in> set (rt_execs rt)" "e' \<in> set (rt_execs rt)"
    and p: "mget (rt_processes rt) (ex_process e) = Some p" "mget (rt_processes rt) (ex_process e') = Some p'"
      "ps_session p = ps_session p'"
  shows "e = e'"
proof -
  obtain q q' where q: "mget (rt_processes rt) (ex_process e) = Some q" "busy (ps_status q)"
    "mget (rt_processes rt) (ex_process e') = Some q'" "busy (ps_status q')"
    using rt_execD [OF ok e(1)] rt_execD [OF ok e(2)] by metis
  then have b: "live (ps_status p)" "live (ps_status p')" using p by (simp_all add: live_def)
  obtain s where s: "mget (rt_sessions rt) (ps_session p) = Some s" "ss_active s = ex_process e"
    using rt_okD(4) [OF ok p(1)] b(1) by blast
  obtain s' where s': "mget (rt_sessions rt) (ps_session p') = Some s'" "ss_active s' = ex_process e'"
    using rt_okD(4) [OF ok p(2)] b(2) by blast
  have "ex_process e = ex_process e'" using s s' p(3) by simp
  then show ?thesis using rt_exec_unique(2) [OF ok e(2,1)] by simp
qed

lemma proc_verifies:
  assumes "proc_ok p"
  shows "verify (proc_journal_ops W) (proc_journal l p) = None"
  using assms lj.verify_iff [of "proc_journal l p" "wi_log W" "wi_enc W"] proc_ok_journal [of p l]
  by (simp add: proc_journal_ops_def)

text \<open>C7. Who runs, in every state the runtime can reach by any interleaving of API calls,
  goroutine sections, quanta, sweeps and the shutdown: there are never more guests than
  workers; an execution's process holds its session and is queued, running or stopping, and no
  session has two executions; a queued, running, stopping or parked process is its session's
  active one; and every process's journal verifies, so no quantum is refused for a damaged
  journal.\<close>

theorem runtime_safe:
  assumes "reachable W rt" and "provider_keeps W"
  shows "guests_running rt \<le> wi_workers W \<and>
    (\<forall>e \<in> set (rt_execs rt). \<exists>p s. mget (rt_processes rt) (ex_process e) = Some p \<and>
       ps_status p \<in> {ProcessQueued, ProcessRunning, ProcessStopping} \<and>
       mget (rt_sessions rt) (ps_session p) = Some s \<and> ss_active s = ex_process e \<and>
       (\<forall>e' \<in> set (rt_execs rt). \<forall>p'. mget (rt_processes rt) (ex_process e') = Some p' \<longrightarrow>
          ps_session p' = ps_session p \<longrightarrow> e' = e)) \<and>
    (\<forall>pid p. mget (rt_processes rt) pid = Some p \<longrightarrow>
       verify (proc_journal_ops W) (proc_journal (rt_log rt) p) = None \<and>
       (ps_status p \<in> {ProcessQueued, ProcessRunning, ProcessStopping, ProcessWaitingTask} \<longrightarrow>
          (\<exists>s. mget (rt_sessions rt) (ps_session p) = Some s \<and> ss_active s = pid)))"
proof (intro conjI ballI allI impI)
  note ok = reachable_ok [OF assms]
  show "guests_running rt \<le> wi_workers W" by (rule reachable_running [OF assms])
  show "\<exists>p s. mget (rt_processes rt) (ex_process e) = Some p \<and>
       ps_status p \<in> {ProcessQueued, ProcessRunning, ProcessStopping} \<and>
       mget (rt_sessions rt) (ps_session p) = Some s \<and> ss_active s = ex_process e \<and>
       (\<forall>e' \<in> set (rt_execs rt). \<forall>p'. mget (rt_processes rt) (ex_process e') = Some p' \<longrightarrow>
          ps_session p' = ps_session p \<longrightarrow> e' = e)" if e: "e \<in> set (rt_execs rt)" for e
  proof -
    obtain p where p: "mget (rt_processes rt) (ex_process e) = Some p" "busy (ps_status p)"
      using rt_execD [OF ok e] by blast
    obtain s where "mget (rt_sessions rt) (ps_session p) = Some s" "ss_active s = ex_process e"
      using rt_okD(4) [OF ok p(1)] p(2) by (auto simp: live_def)
    moreover have "ps_status p \<in> {ProcessQueued, ProcessRunning, ProcessStopping}" using p(2) by (cases "ps_status p") simp_all
    ultimately show ?thesis using p(1) session_exec_unique [OF ok _ e _ p(1)] by blast
  qed
  fix pid p assume p: "mget (rt_processes rt) pid = Some p"
  show "verify (proc_journal_ops W) (proc_journal (rt_log rt) p) = None" by (rule proc_verifies [OF rt_okD(3) [OF ok p]])
  assume "ps_status p \<in> {ProcessQueued, ProcessRunning, ProcessStopping, ProcessWaitingTask}"
  then have "live (ps_status p)" by (auto simp: live_def)
  then show "\<exists>s. mget (rt_sessions rt) (ps_session p) = Some s \<and> ss_active s = pid" using rt_okD(4) [OF ok p] by blast
qed

theorem runtime_safe_witness:
  "rt_execs demo_queued = [launched 0 demo_pid] \<and> guests_running demo_queued \<le> 2 \<and>
   (\<exists>s. mget (rt_sessions demo_queued) demo_sid = Some s \<and> ss_active s = demo_pid)"
  using runtime_safe [OF demo_reachable(3) demo_keeps]
  by (auto simp: demo_held_def launched_ok)

end
