(* ===== verification/Total.thy ===== *)
theory Total
  imports Runtime
begin

text \<open>
  No operation of the runtime dereferences what is not there: in every reachable state each
  returns a value, an error or not.
\<close>

subsection \<open>Reads\<close>

lemma those_some: "(\<And>x. x \<in> set xs \<Longrightarrow> f x \<noteq> None) \<Longrightarrow> those (map f xs) \<noteq> None"
  by (induction xs) (auto simp: option.map_ident split: option.splits)

definition held_processes :: "('l, 'r, 's, 'x) runtime \<Rightarrow> session_state \<Rightarrow> bool" where
  "held_processes rt s \<longleftrightarrow> (\<forall>pid \<in> set (ss_processes s). \<exists>p. mget (rt_processes rt) pid = Some p \<and> proc_ok p)"

lemma session_held:
  assumes "rt_ok rt" "mget (rt_sessions rt) sid = Some s"
  shows "held_processes rt s"
proof -
  have ok: "sessions_ok (mget (rt_processes rt)) (mget (rt_sessions rt))" using assms(1) by (simp add: rt_ok_def)
  show ?thesis
    unfolding held_processes_def
  proof
    fix pid assume "pid \<in> set (ss_processes s)"
    then obtain p where "mget (rt_processes rt) pid = Some p" using sessions_okD(3) [OF ok assms(2)] by blast
    then show "\<exists>p. mget (rt_processes rt) pid = Some p \<and> proc_ok p" using rt_okD(3) [OF assms(1)] by blast
  qed
qed

lemma history_of_some:
  assumes "\<forall>pid \<in> set pids. mget (rt_processes rt) pid \<noteq> None"
  shows "history_of rt pids \<noteq> None"
proof -
  have "those (map (\<lambda>pid. map_option turns (mget (rt_processes rt) pid)) pids) \<noteq> None"
    by (rule those_some) (use assms in auto)
  then show ?thesis by (simp add: history_of_def)
qed

lemma summary_some:
  assumes "held_processes rt s"
  shows "session_summary_of rt s \<noteq> None"
  using assms by (cases "ss_processes s") (auto simp: session_summary_of_def held_processes_def)

lemma snapshot_some:
  assumes "held_processes rt s"
  shows "session_snapshot_of W rt s \<noteq> None"
proof -
  have log: "process_log_of W rt pid \<noteq> None" if pid: "pid \<in> set (ss_processes s)" for pid
  proof -
    obtain p where p: "mget (rt_processes rt) pid = Some p" "proc_ok p" using assms pid unfolding held_processes_def by blast
    have "wf_history (ps_history p)" using p(2) proc_ok_journal [of p "()"] by simp
    from entries_eq [OF this] show ?thesis by (simp add: process_log_of_def p(1))
  qed
  have "those (map (process_log_of W rt) (ss_processes s)) \<noteq> None" by (rule those_some) (rule log)
  moreover have "history_of rt (ss_processes s) \<noteq> None"
    by (rule history_of_some) (use assms in \<open>auto simp: held_processes_def\<close>)
  ultimately show ?thesis using summary_some [OF assms] by (auto simp: session_snapshot_of_def)
qed

lemma get_session_some:
  assumes "rt_ok rt"
  shows "get_session W sid rt \<noteq> None"
proof (cases "mget (rt_sessions rt) sid")
  case (Some s)
  then show ?thesis using snapshot_some [OF session_held [OF assms Some]] by (simp add: get_session_def)
qed (simp add: get_session_def)

lemma list_sessions_some:
  assumes "rt_ok rt"
  shows "list_sessions rt \<noteq> None"
  unfolding list_sessions_def
proof (rule those_some)
  fix sid assume "sid \<in> set (mkeys (rt_sessions rt))"
  then obtain s where s: "mget (rt_sessions rt) sid = Some s" by auto
  then show "Option.bind (mget (rt_sessions rt) sid) (session_summary_of rt) \<noteq> None"
    using summary_some [OF session_held [OF assms s]] by simp
qed

subsection \<open>Sessions\<close>

lemma held_parts: "rt_processes rt' = rt_processes rt \<Longrightarrow> held_processes rt' s = held_processes rt s"
  by (simp add: held_processes_def)

lemma create_session_some: "create_session W name tags rt \<noteq> None"
proof -
  have e: "session_snapshot_of W rt' \<lparr>ss_id = i, ss_name = n, ss_tags = t, ss_processes = [], ss_active = a, ss_created = c, ss_updated = u\<rparr> \<noteq> None"
    for rt' i n t a c u by (rule snapshot_some) (simp add: held_processes_def)
  show ?thesis
    using e by (auto simp: create_session_def Let_def bind_eq_Some_conv split: prod.splits sum.splits option.splits)
qed

lemma rename_session_some:
  assumes "rt_ok rt"
  shows "rename_session W sid name rt \<noteq> None"
proof (cases "mget (rt_sessions rt) sid")
  case None
  then show ?thesis by (simp add: rename_session_def Let_def)
next
  case (Some s)
  let ?s = "s\<lparr>ss_name := trim_space name, ss_updated := rt_now W rt\<rparr>"
  obtain a l where a: "append_session W ?s rt = (a, rt\<lparr>rt_log := l\<rparr>)" using append_session_log [of W ?s rt] by blast
  have "held_processes (put_session ?s (rt\<lparr>rt_log := l\<rparr>)) ?s"
    using session_held [OF assms Some] by (simp add: held_processes_def put_session_def)
  then obtain snap where "session_snapshot_of W (put_session ?s (rt\<lparr>rt_log := l\<rparr>)) ?s = Some snap"
    using snapshot_some by blast
  then show ?thesis using Some a
    by (cases a) (simp_all add: rename_session_def Let_def split: option.splits)
qed

subsection \<open>Processes\<close>

lemma finish_some:
  assumes "rt_ok rt" "mget (rt_processes rt) pid = Some p"
  shows "\<exists>rt'. finish W p st a f rt = Some rt'"
  using rt_okD(4) [OF assms] by (auto simp: finish_def Let_def)

lemma relaunch_some:
  assumes "mget (rt_sessions rt) (ps_session p) \<noteq> None"
  shows "relaunch W p rt \<noteq> None"
  using assms by (auto simp: relaunch_def Let_def split: prod.splits option.splits)

lemma stop_some:
  assumes "rt_ok rt"
  shows "stop_process W pid rt \<noteq> None"
proof (cases "mget (rt_processes rt) pid")
  case None
  then show ?thesis by (simp add: stop_process_def)
next
  case (Some p)
  obtain rt1 where f: "finish W p ProcessStopped '''' (Some Canceled) rt = Some rt1" using finish_some [OF assms Some] by blast
  obtain s where s: "mget (rt_sessions rt) (ps_session p) = Some s" using rt_okD(4) [OF assms Some] by blast
  have "mget (rt_processes rt1) pid \<noteq> None" using finish_parts(1) [OF f s] rt_okD(1) [OF assms Some] by simp
  then show ?thesis using Some f by (auto simp: stop_process_def Let_def)
qed

lemma retry_some:
  assumes ok: "rt_ok rt"
  shows "retry W pid mode rt \<noteq> None"
proof (cases "mget (rt_processes rt) pid")
  case None
  then show ?thesis by (simp add: retry_def)
next
  case (Some p)
  note d = rt_okD [OF ok Some]
  obtain s where s: "mget (rt_sessions rt) (ps_session p) = Some s" "pid \<in> set (ss_processes s)" using d(4) by blast
  then have ne: "ss_processes s \<noteq> []" by auto
  have "check_retry W p mode rt \<noteq> None"
    using s(1) ne by (cases "registry_bound (wi_programs W) (m_program (ps_manifest p)) (ps_digest p)") (simp_all add: check_retry_def)
  then obtain x where x: "check_retry W p mode rt = Some x" by blast
  obtain off where off: "outermost_open_begin (proc_journal_ops W) (proc_journal (rt_log rt) p) = Inr (off, 0 < open_sections p)"
    using proc_open_section [OF d(3)] .
  obtain p1 rt1 where c: "(if mode = RetryRestart then fork_process 0 p rt
                          else if ps_status p = ProcessWaitingTask then (p, rt)
                          else if 0 < open_sections p then fork_process off p rt
                          else (p, rt)) = (p1, rt1)" by fastforce
  then have "(p1, rt1) = (p, rt) \<or> (\<exists>k. fork_process k p rt = (p1, rt1))" by (auto split: if_splits)
  then have "mget (rt_sessions rt1) (ps_session p1) \<noteq> None"
    using s(1) fork_parts(2,9) by (metis option.distinct(1) prod.inject)
  from relaunch_some [OF this] have "relaunch W p1 rt1 \<noteq> None" .
  then show ?thesis using Some x off c by (cases x) (simp_all add: retry_def)
qed

lemma wake_some:
  assumes "rt_ok rt" "mget (rt_processes rt) pid \<noteq> None"
  shows "wake W pid rt \<noteq> None"
proof -
  obtain y rt' where "retry W pid RetryResume rt = Some (y, rt')" using retry_some [OF assms(1), of W pid RetryResume] by auto
  then show ?thesis using assms(2) by (auto simp: wake_def)
qed

subsection \<open>The goroutine and the quantum\<close>

lemma last_call_some:
  assumes "proc_ok p"
  shows "last_call W l p \<noteq> None"
proof -
  let ?j = "proc_journal l p"
  have j: "lj_ok ?j" "wf_records (lj_recs ?j)" using assms proc_ok_journal [of p l] by simp_all
  show ?thesis
  proof (cases "lj_length ?j = 0 \<or> odd (lj_length ?j)")
    case True
    then show ?thesis by (auto simp: last_call_def proc_journal_ops_def log_journal_ops_def)
  next
    case False
    let ?n = "lj_length ?j"
    have lt: "?n - 2 < ?n" "?n - 1 < ?n" "even (?n - 2)" "odd (?n - 1)" using False by auto
    have "record_ok (?n - 2) (lj_recs ?j ! (?n - 2))" "record_ok (?n - 1) (lj_recs ?j ! (?n - 1))"
      using j(2) lt(1,2) by (simp_all add: wf_records_def)
    then have "jr_syscall (lj_recs ?j ! (?n - 2)) \<noteq> None" "jr_result (lj_recs ?j ! (?n - 1)) \<noteq> None"
      using lt(3,4) by (auto simp: record_ok_def)
    then show ?thesis using lj_load_ok [OF j(1) lt(1)] lj_load_ok [OF j(1) lt(2)] False
      by (auto simp: last_call_def proc_journal_ops_def log_journal_ops_def Let_def)
  qed
qed

lemma abort_some:
  assumes ok: "rt_ok rt" and p: "mget (rt_processes rt) pid = Some p"
  shows "retry_aborted_section W p reason rt \<noteq> None"
proof -
  note d = rt_okD [OF ok p]
  obtain s where s: "mget (rt_sessions rt) (ps_session p) = Some s" using d(4) by blast
  obtain off where off: "outermost_open_begin (proc_journal_ops W) (proc_journal (rt_log rt) p) = Inr (off, 0 < open_sections p)"
    using proc_open_section [OF d(3)] .
  obtain p1 rt1 where f: "fork_process off (p\<lparr>ps_aborts := ps_aborts p + 1\<rparr>) rt = (p1, rt1)" by fastforce
  have "mget (rt_sessions rt1) (ps_session p1) \<noteq> None" using fork_parts(2,9) [OF f] s by simp
  from relaunch_some [OF this] have r: "relaunch W p1 rt1 \<noteq> None" .
  have "finish W p st a g rt \<noteq> None" for st a g using finish_some [OF ok p, of W st a g] by auto
  then show ?thesis using off f r by (auto simp: retry_aborted_section_def)
qed

lemma fail_some:
  assumes ok: "rt_ok rt" and p: "mget (rt_processes rt) pid = Some p"
  shows "fail_process W e p f rt \<noteq> None"
proof -
  note d = rt_okD [OF ok p]
  obtain s where s: "mget (rt_sessions rt) (ps_session p) = Some s" using d(4) by blast
  obtain off where off: "outermost_open_begin (proc_journal_ops W) (proc_journal (rt_log rt) p) = Inr (off, 0 < open_sections p)"
    using proc_open_section [OF d(3)] .
  let ?p = "p\<lparr>ps_last_failure := ps_length p\<rparr>"
  have "mget (rt_sessions (put_process ?p rt)) (ps_session ?p) \<noteq> None" using s by (simp add: put_process_def)
  from relaunch_some [OF this] obtain y rt1 where "relaunch W ?p (put_process ?p rt) = Some (y, rt1)" by fastforce
  then have "redrive_after_failure W p rt \<noteq> None" using off by (cases y) (auto simp: redrive_after_failure_def)
  then show ?thesis by (simp add: fail_process_def)
qed

lemma outcome_some:
  assumes ok: "rt_ok rt" and e: "e \<in> set (rt_execs rt)"
  shows "record_outcome W r e rt \<noteq> None"
proof -
  obtain p where p: "mget (rt_processes rt) (ex_process e) = Some p" using rt_execD [OF ok e] by blast
  obtain lc where lc: "last_call W (rt_log rt) p = Some lc" using last_call_some [OF rt_okD(3) [OF ok p], of W "rt_log rt"] by blast
  show ?thesis
    using p lc abort_some [OF ok p] fail_some [OF ok p]
    by (auto simp: record_outcome_def split: resume_status.splits option.splits sum.splits)
qed

lemma quantum_start_some:
  assumes ok: "rt_ok rt" and e: "e \<in> set (rt_execs rt)" "submitted e"
  shows "quantum_start W ctx e rt \<noteq> None"
proof -
  obtain p where p: "mget (rt_processes rt) (ex_process e) = Some p" "quantum_ok e p" using rt_execD [OF ok e(1)] by blast
  note d = rt_okD [OF ok p(1)]
  have pc: "pc_process (ex_cred e) = ex_process e" using p(2) e(2) d(1) by (simp add: quantum_ok_def proc_context_def)
  obtain s where s: "mget (rt_sessions rt) (ps_session p) = Some s" "ex_process e \<in> set (ss_processes s)" using d(4) by blast
  have "history_of rt (takeWhile (\<lambda>pid. pid \<noteq> ps_id p) (ss_processes s)) \<noteq> None"
  proof (rule history_of_some)
    show "\<forall>pid \<in> set (takeWhile (\<lambda>pid. pid \<noteq> ps_id p) (ss_processes s)). mget (rt_processes rt) pid \<noteq> None"
      using session_held [OF ok s(1)] by (auto simp: held_processes_def dest!: set_takeWhileD)
  qed
  then have "history_before rt p \<noteq> None" using s d(1) by (simp add: history_before_def)
  then have chain: "\<exists>y rt1. quantum_chain W (ex_cred e) program rt = Some (y, rt1)" for program
    using p(1) pc by (auto simp: quantum_chain_def split: prod.splits)
  show ?thesis
  proof (cases "registry_bound (wi_programs W) (ex_program e) (ex_digest e)")
    case (Inr program)
    obtain y rt1 where "quantum_chain W (ex_cred e) program rt = Some (y, rt1)" using chain by blast
    then show ?thesis using Inr by (cases y) (simp_all add: quantum_start_def)
  qed (simp add: quantum_start_def)
qed

lemma sweep_ok:
  assumes "rt_ok rt"
  shows "rt_ok (fold (settle_task W now) tids rt)" "rt_processes (fold (settle_task W now) tids rt) = rt_processes rt"
proof -
  have "rt_ok (fold (settle_task W now) tids rt) \<and> rt_processes (fold (settle_task W now) tids rt) = rt_processes rt"
    using assms by (induction tids arbitrary: rt) (simp_all add: settle_task_ok, simp add: settle_task_def)
  then show "rt_ok (fold (settle_task W now) tids rt)" "rt_processes (fold (settle_task W now) tids rt) = rt_processes rt"
    by simp_all
qed

text \<open>A relaunch leaves the process as it got it, when the runtime is closed, or queues it.\<close>

lemma relaunch_processes:
  assumes "relaunch W p rt = Some (y, rt')"
  shows "rt_closed rt \<and> rt_processes rt' = rt_processes rt \<or>
    \<not> rt_closed rt \<and> rt_processes rt' = mput (ps_id p) (queued (rt_now W rt) p) (rt_processes rt)"
proof (cases "rt_closed rt")
  case True
  then show ?thesis using assms by (auto simp: relaunch_def)
next
  case False
  then obtain s where "mget (rt_sessions rt) (ps_session p) = Some s"
    using assms by (auto simp: relaunch_def bind_eq_Some_conv)
  from relaunch_cases [OF assms this] show ?thesis by cases (simp_all add: False)
qed

lemma retry_dom:
  assumes ok: "rt_ok rt" and r: "retry W pid mode rt = Some (z, rt')"
  shows "dom (mget (rt_processes rt')) = dom (mget (rt_processes rt))"
proof (cases rule: retry_cases [OF r ok])
  case (2 p0 p rt1 s)
  have "dom (mget (rt_processes rt1)) = dom (mget (rt_processes rt))" using 2(1,2) by auto
  moreover have "dom (mget (rt_processes rt')) = insert pid (dom (mget (rt_processes rt1))) \<or> rt_processes rt' = rt_processes rt1"
    using relaunch_processes [OF 2(17)] 2(9) by auto
  ultimately show ?thesis using 2(1) by (metis domI insert_absorb)
qed simp

lemma wake_dom:
  assumes "rt_ok rt" "wake W pid rt = Some (x, rt')"
  shows "dom (mget (rt_processes rt')) = dom (mget (rt_processes rt))"
proof -
  have "rt' = rt \<or> (\<exists>z. retry W pid RetryResume rt = Some (z, rt'))"
    using assms(2) by (auto simp: wake_def bind_eq_Some_conv split: if_splits)
  then show ?thesis using retry_dom [OF assms(1)] by blast
qed

lemma wake_all_some:
  assumes "rt_ok rt" "\<forall>pid \<in> set pids. mget (rt_processes rt) pid \<noteq> None"
  shows "wake_all W pids rt \<noteq> None"
  using assms
proof (induction pids arbitrary: rt)
  case (Cons pid pids)
  have "mget (rt_processes rt) pid \<noteq> None" using Cons.prems(2) by simp
  from wake_some [OF Cons.prems(1) this] obtain x rt1 where w: "wake W pid rt = Some (x, rt1)" by fastforce
  have "\<forall>pid \<in> set pids. mget (rt_processes rt1) pid \<noteq> None"
    using Cons.prems(2) wake_dom [OF Cons.prems(1) w] by (auto simp: dom_def set_eq_iff)
  from Cons.IH [OF wake_ok [OF Cons.prems(1) w] this] show ?case using w by simp
qed simp

lemma parked_known:
  assumes "pid \<in> set (parked_on_settled rt)"
  shows "\<exists>p. mget (rt_processes rt) pid = Some p \<and> ps_status p = ProcessWaitingTask"
  using assms by (auto simp: parked_on_settled_def)

lemma sweep_some: "rt_ok rt \<Longrightarrow> sweep_tasks W rt \<noteq> None"
  unfolding sweep_tasks_def Let_def
  by (rule wake_all_some) (auto simp: sweep_ok dest: parked_known)

lemma resolve_scope:
  assumes "store_resolve L D tid h a now s = (Inr r, s')"
  shows "\<exists>r0. mget (ts_records s) tid = Some r0 \<and> tk_scope r = tk_scope r0"
  using assms by (cases rule: store_resolve_cases) auto

lemma resolve_some:
  assumes ok: "rt_ok rt" and t: "\<forall>r. mget (rt_tasks rt) tid = Some r \<longrightarrow> mget (rt_processes rt) (pc_process (tk_scope r)) \<noteq> None"
  shows "resolve_task W tid token a rt \<noteq> None"
proof -
  let ?f = "store_resolve (wi_log W) (wi_codec W) tid (cr_sha256 (tc_crypto (wi_tasks W)) token) a (rt_now W rt)"
  obtain y s where s: "?f \<lparr>ts_records = rt_tasks rt, ts_log = rt_log rt\<rparr> = (y, s)" by fastforce
  let ?rt = "rt\<lparr>rt_tasks := ts_records s, rt_log := ts_log s\<rparr>"
  have o: "on_tasks ?f rt = (y, ?rt)" using s by (simp add: on_tasks_def)
  show ?thesis
  proof (cases y)
    case (Inl e)
    then show ?thesis using o by (simp add: resolve_task_def)
  next
    case (Inr r)
    obtain r0 where "mget (rt_tasks rt) tid = Some r0" "tk_scope r = tk_scope r0" using resolve_scope [OF s [unfolded Inr]] by auto
    then have "mget (rt_processes ?rt) (pc_process (tk_scope r)) \<noteq> None" using t by simp
    from wake_some [OF _ this, of W] ok obtain x rt2 where "wake W (pc_process (tk_scope r)) ?rt = Some (x, rt2)" by fastforce
    then show ?thesis using o Inr by (simp add: resolve_task_def)
  qed
qed

end
