(* ===== verification/Life.thy ===== *)
theory Life
  imports Total
begin

text \<open>
  The life of a process as an abstract state machine, and the runtime as an implementation of
  it: every step of the runtime either leaves a process's life as it is or is one step of it.
  On the abstract machine rests what a run never takes back.
\<close>

subsection \<open>The abstract machine\<close>

record life =
  lf_status :: process_status
  lf_attempt :: nat
  lf_revision :: nat
  lf_aborts :: nat
  lf_answer :: string

definition life_of :: "'r process_state \<Rightarrow> life" where
  "life_of p = \<lparr>lf_status = ps_status p, lf_attempt = ps_attempt p, lf_revision = ps_revision p, lf_aborts = ps_aborts p,
     lf_answer = ps_answer p\<rparr>"

definition new_life :: life where
  "new_life = \<lparr>lf_status = ProcessQueued, lf_attempt = 1, lf_revision = 1, lf_aborts = 0, lf_answer = []\<rparr>"

text \<open>
  A run goes through its statuses; a retry, a rerun after an abort and a rerun after a failure
  begin the next attempt. Only a fork begins the next revision, and only an abort spends the
  abort budget. A fork whose relaunch is refused leaves a revision that never ran.
\<close>

inductive life_step :: "life \<Rightarrow> life \<Rightarrow> bool" where
  started: "busy (lf_status a) \<Longrightarrow> life_step a (a\<lparr>lf_status := ProcessRunning\<rparr>)"
| stopping: "lf_status a = ProcessQueued \<or> lf_status a = ProcessRunning \<Longrightarrow> life_step a (a\<lparr>lf_status := ProcessStopping\<rparr>)"
| ended: "busy (lf_status a) \<Longrightarrow> \<not> busy st \<Longrightarrow> life_step a (a\<lparr>lf_status := st, lf_answer := w\<rparr>)"
| parked_stopped: "lf_status a = ProcessWaitingTask \<Longrightarrow> life_step a (a\<lparr>lf_status := ProcessStopped, lf_answer := w\<rparr>)"
| resumed: "\<not> busy (lf_status a) \<Longrightarrow> lf_status a \<noteq> ProcessCompleted \<Longrightarrow>
    life_step a (a\<lparr>lf_status := ProcessQueued, lf_attempt := lf_attempt a + 1, lf_answer := []\<rparr>)"
| forked: "\<not> busy (lf_status a) \<Longrightarrow>
    life_step a (a\<lparr>lf_status := ProcessQueued, lf_attempt := lf_attempt a + 1, lf_revision := lf_revision a + 1,
      lf_answer := []\<rparr>)"
| fork_refused: "\<not> busy (lf_status a) \<Longrightarrow> life_step a (a\<lparr>lf_revision := lf_revision a + 1\<rparr>)"
| aborted: "busy (lf_status a) \<Longrightarrow> lf_aborts a < max_abort_retries \<Longrightarrow>
    life_step a (a\<lparr>lf_status := ProcessQueued, lf_attempt := lf_attempt a + 1, lf_revision := lf_revision a + 1,
      lf_aborts := lf_aborts a + 1, lf_answer := []\<rparr>)"
| abort_refused: "busy (lf_status a) \<Longrightarrow> lf_aborts a < max_abort_retries \<Longrightarrow>
    life_step a (a\<lparr>lf_revision := lf_revision a + 1, lf_aborts := lf_aborts a + 1\<rparr>)"
| redriven: "busy (lf_status a) \<Longrightarrow> life_step a (a\<lparr>lf_status := ProcessQueued, lf_attempt := lf_attempt a + 1, lf_answer := []\<rparr>)"

text \<open>Identity, fixed at creation (\<open>state.go\<close>).\<close>

definition same_identity :: "'r process_state \<Rightarrow> 'r process_state \<Rightarrow> bool" where
  "same_identity p p' \<longleftrightarrow>
     ps_id p' = ps_id p \<and> ps_session p' = ps_session p \<and> ps_input p' = ps_input p \<and>
     ps_manifest p' = ps_manifest p \<and> ps_digest p' = ps_digest p \<and> ps_created p' = ps_created p"

definition move :: "'r process_state option \<Rightarrow> 'r process_state option \<Rightarrow> bool" where
  "move x y \<longleftrightarrow>
     (case y of
        None \<Rightarrow> x = None
      | Some p' \<Rightarrow>
          (case x of
             None \<Rightarrow> life_of p' = new_life
           | Some p \<Rightarrow> same_identity p p' \<and> (life_of p' = life_of p \<or> life_step (life_of p) (life_of p'))))"

lemma move_refl [simp]: "move x x"
  by (simp add: move_def same_identity_def split: option.splits)

definition moves :: "'r procs \<Rightarrow> 'r procs \<Rightarrow> bool" where
  "moves P P' \<longleftrightarrow> (\<forall>pid. move (P pid) (P' pid))"

lemma moves_same [simp]: "moves P P"
  by (simp add: moves_def)

lemma moves_update:
  assumes "P pid = Some p" "same_identity p p'" "life_of p' = life_of p \<or> life_step (life_of p) (life_of p')"
  shows "moves P (P(pid \<mapsto> p'))"
  using assms by (auto simp: moves_def move_def same_identity_def split: option.splits)

subsection \<open>How the operations move a process\<close>

lemma queued_life:
  "life_of (queued now p) = (life_of p)\<lparr>lf_status := ProcessQueued, lf_attempt := ps_attempt p + 1, lf_answer := []\<rparr>"
  "same_identity p (queued now p)"
  by (simp_all add: queued_def life_of_def same_identity_def)

lemma fork_life:
  assumes "fork_process off p rt = (p1, rt1)"
  shows "life_of p1 = (life_of p)\<lparr>lf_revision := ps_revision p + 1\<rparr>" "same_identity p p1"
  using assms by (auto simp: fork_process_def Let_def life_of_def same_identity_def)

lemma finished_life:
  "life_of (finished now tt st a f p) = (life_of p)\<lparr>lf_status := st, lf_answer := a\<rparr>" "same_identity p (finished now tt st a f p)"
  by (simp_all add: finished_def life_of_def same_identity_def)

lemma life_sel [simp]:
  "lf_status (life_of p) = ps_status p" "lf_attempt (life_of p) = ps_attempt p" "lf_revision (life_of p) = ps_revision p"
  "lf_aborts (life_of p) = ps_aborts p" "lf_answer (life_of p) = ps_answer p"
  by (simp_all add: life_of_def)

lemma life_updates:
  "a\<lparr>lf_revision := r, lf_status := st, lf_attempt := n, lf_answer := w\<rparr> =
   a\<lparr>lf_status := st, lf_attempt := n, lf_revision := r, lf_answer := w\<rparr>"
  "a\<lparr>lf_revision := r, lf_aborts := k, lf_status := st, lf_attempt := n, lf_answer := w\<rparr> =
   a\<lparr>lf_status := st, lf_attempt := n, lf_revision := r, lf_aborts := k, lf_answer := w\<rparr>"
  by simp_all

lemma same_identity_trans: "same_identity p q \<Longrightarrow> same_identity q r \<Longrightarrow> same_identity p r"
  by (simp add: same_identity_def)

lemma relaunch_moves:
  assumes p0: "mget (rt_processes rt) pid = Some p0" and rt1: "mget (rt_processes rt1) = (mget (rt_processes rt))(pid \<mapsto> p)"
    and p: "ps_id p = pid" "same_identity p0 p" and r: "relaunch W p rt1 = Some (y, rt')"
    and closed: "life_of p = life_of p0 \<or> life_step (life_of p0) (life_of p)"
    and run: "life_step (life_of p0) ((life_of p)\<lparr>lf_status := ProcessQueued, lf_attempt := ps_attempt p + 1, lf_answer := []\<rparr>)"
  shows "moves (mget (rt_processes rt)) (mget (rt_processes rt'))"
  using relaunch_processes [OF r]
proof
  assume "rt_closed rt1 \<and> rt_processes rt' = rt_processes rt1"
  then show ?thesis using moves_update [where P = "mget (rt_processes rt)", OF p0 p(2) closed] rt1 by simp
next
  let ?q = "queued (rt_now W rt1) p"
  assume "\<not> rt_closed rt1 \<and> rt_processes rt' = mput (ps_id p) ?q (rt_processes rt1)"
  then have "mget (rt_processes rt') = (mget (rt_processes rt))(pid \<mapsto> ?q)" using rt1 p(1) by simp
  moreover have "moves (mget (rt_processes rt)) ((mget (rt_processes rt))(pid \<mapsto> ?q))"
    by (rule moves_update [where P = "mget (rt_processes rt)", OF p0 same_identity_trans [OF p(2) queued_life(2)]])
      (use run in \<open>simp add: queued_life(1)\<close>)
  ultimately show ?thesis by simp
qed

lemma retry_moves:
  assumes ok: "rt_ok rt" and r: "retry W pid mode rt = Some (z, rt')"
  shows "moves (mget (rt_processes rt)) (mget (rt_processes rt'))"
proof (cases rule: retry_cases [OF r ok])
  case (2 p0 p rt1 s)
  note b = 2(16)
  have "(p = p0 \<and> ps_status p0 \<noteq> ProcessCompleted) \<or> life_of p = (life_of p0)\<lparr>lf_revision := ps_revision p0 + 1\<rparr>"
    using 2(18,19) by (auto dest: fork_life(1))
  then have l: "life_of p = life_of p0 \<or> life_step (life_of p0) (life_of p)"
    "life_step (life_of p0) ((life_of p)\<lparr>lf_status := ProcessQueued, lf_attempt := ps_attempt p + 1, lf_answer := []\<rparr>)"
  proof (atomize (full), elim disjE)
    assume "p = p0 \<and> ps_status p0 \<noteq> ProcessCompleted"
    then show "(life_of p = life_of p0 \<or> life_step (life_of p0) (life_of p)) \<and>
        life_step (life_of p0) ((life_of p)\<lparr>lf_status := ProcessQueued, lf_attempt := ps_attempt p + 1, lf_answer := []\<rparr>)"
      using life_step.resumed [of "life_of p0"] b by simp
  next
    assume l: "life_of p = (life_of p0)\<lparr>lf_revision := ps_revision p0 + 1\<rparr>"
    have "ps_attempt p = ps_attempt p0" using arg_cong [OF l, of lf_attempt] by simp
    then show "(life_of p = life_of p0 \<or> life_step (life_of p0) (life_of p)) \<and>
        life_step (life_of p0) ((life_of p)\<lparr>lf_status := ProcessQueued, lf_attempt := ps_attempt p + 1, lf_answer := []\<rparr>)"
      unfolding l life_updates using life_step.fork_refused [of "life_of p0"] life_step.forked [of "life_of p0"] b by simp
  qed
  have "same_identity p0 p" using 2(18) by (auto dest: fork_life(2) simp: same_identity_def)
  then show ?thesis by (rule relaunch_moves [OF 2(1,2,9) _ 2(17) l])
qed simp

lemma wake_moves:
  assumes "rt_ok rt" "wake W pid rt = Some (x, rt')"
  shows "moves (mget (rt_processes rt)) (mget (rt_processes rt'))"
proof -
  have "rt' = rt \<or> (\<exists>z. retry W pid RetryResume rt = Some (z, rt'))"
    using assms(2) by (auto simp: wake_def bind_eq_Some_conv split: if_splits)
  then show ?thesis using retry_moves [OF assms(1)] by auto
qed

lemma resolve_moves:
  assumes "rt_ok rt" "resolve_task W tid token a rt = Some (t, rt')"
  shows "moves (mget (rt_processes rt)) (mget (rt_processes rt'))"
proof -
  obtain d rt1 where d: "on_tasks (store_resolve (wi_log W) (wi_codec W) tid (cr_sha256 (tc_crypto (wi_tasks W)) token)
      a (rt_now W rt)) rt = (d, rt1)" by fastforce
  have ok1: "rt_ok rt1" using on_tasks_ok' [OF assms(1) d] .
  have "rt' = rt \<or> rt' = rt1 \<or> (\<exists>pid x. wake W pid rt1 = Some (x, rt'))"
    using assms(2) d by (auto simp: resolve_task_def split: if_splits sum.splits)
  then show ?thesis using wake_moves [OF ok1] on_tasks_parts'(2) [OF d] by auto
qed

lemma finish_moves:
  assumes ok: "rt_ok rt" and p: "mget (rt_processes rt) pid = Some p" and f: "finish W p st a f rt = Some rt'"
    and st: "life_step (life_of p) ((life_of p)\<lparr>lf_status := st, lf_answer := a\<rparr>)"
  shows "moves (mget (rt_processes rt)) (mget (rt_processes rt'))"
proof -
  obtain s where s: "mget (rt_sessions rt) (ps_session p) = Some s" using rt_okD(4) [OF ok p] by blast
  have "mget (rt_processes rt') = (mget (rt_processes rt))(pid \<mapsto> finished (rt_now W rt) (rt_taints rt) st a f p)"
    using finish_parts(1) [OF f s] rt_okD(1) [OF ok p] by simp
  moreover have "moves (mget (rt_processes rt)) ((mget (rt_processes rt))(pid \<mapsto> finished (rt_now W rt) (rt_taints rt) st a f p))"
    by (rule moves_update [where P = "mget (rt_processes rt)", OF p finished_life(2)]) (use st in \<open>simp add: finished_life(1)\<close>)
  ultimately show ?thesis by simp
qed

text \<open>An operation that changes what the abstract machine does not see.\<close>

lemma silent_moves:
  assumes "mget (rt_processes rt) pid = Some p" "mget (rt_processes rt') = (mget (rt_processes rt))(pid \<mapsto> p')"
    and "life_of p' = life_of p" "same_identity p p'"
  shows "moves (mget (rt_processes rt)) (mget (rt_processes rt'))"
  unfolding assms(2) by (rule moves_update [where P = "mget (rt_processes rt)", OF assms(1,4)]) (simp add: assms(3))

lemma abort_moves:
  assumes ok: "rt_ok rt" and p: "mget (rt_processes rt) pid = Some p" "busy (ps_status p)"
    and a: "retry_aborted_section W p reason rt = Some rt'"
  shows "moves (mget (rt_processes rt)) (mget (rt_processes rt'))"
proof -
  note d = rt_okD [OF ok p(1)]
  obtain off where off: "outermost_open_begin (proc_journal_ops W) (proc_journal (rt_log rt) p) = Inr (off, 0 < open_sections p)"
    using proc_open_section [OF d(3)] .
  show ?thesis
  proof (cases "open_sections p = 0 \<or> max_abort_retries \<le> ps_aborts p")
    case True
    then obtain f where f: "finish W p ProcessFailed '''' f rt = Some rt'"
      using a off by (auto simp: retry_aborted_section_def split: if_splits)
    show ?thesis by (rule finish_moves [OF ok p(1) f]) (rule life_step.ended, use p(2) in simp_all)
  next
    case False
    let ?p0 = "p\<lparr>ps_aborts := ps_aborts p + 1\<rparr>"
    obtain p1 rt1 where f: "fork_process off ?p0 rt = (p1, rt1)" by fastforce
    then obtain y where y: "relaunch W p1 rt1 = Some (y, rt')"
      using a off False by (auto simp: retry_aborted_section_def Let_def)
    note fp = fork_parts [OF f]
    have l: "life_of p1 = (life_of p)\<lparr>lf_revision := ps_revision p + 1, lf_aborts := ps_aborts p + 1\<rparr>"
      using fork_life(1) [OF f] by (simp add: life_of_def)
    have at: "ps_attempt p1 = ps_attempt p" using arg_cong [OF l, of lf_attempt] by simp
    have P1: "mget (rt_processes rt1) = (mget (rt_processes rt))(pid \<mapsto> p1)" using fp(1) d(1) by simp
    have b: "ps_aborts p < max_abort_retries" using False by simp
    show ?thesis
    proof (rule relaunch_moves [OF p(1) P1 _ _ y])
      show "ps_id p1 = pid" using fp(8) d(1) by simp
      show "same_identity p p1" using fork_life(2) [OF f] by (simp add: same_identity_def)
      show "life_of p1 = life_of p \<or> life_step (life_of p) (life_of p1)"
        unfolding l using life_step.abort_refused [of "life_of p"] p(2) b by simp
      show "life_step (life_of p) ((life_of p1)\<lparr>lf_status := ProcessQueued, lf_attempt := ps_attempt p1 + 1, lf_answer := []\<rparr>)"
        unfolding l life_updates at using life_step.aborted [of "life_of p"] p(2) b by simp
    qed
  qed
qed

lemma fail_moves:
  assumes ok: "rt_ok rt" and p: "mget (rt_processes rt) pid = Some p" "busy (ps_status p)" "ex_process e = pid"
    and a: "fail_process W e p f rt = Some rt'"
  shows "moves (mget (rt_processes rt)) (mget (rt_processes rt'))"
proof -
  note d = rt_okD [OF ok p(1)]
  obtain again rt1 where r: "redrive_after_failure W p rt = Some (again, rt1)" "rt_processes rt' = rt_processes rt1"
    using a by (auto simp: fail_process_def to_finish_def put_exec_def drop_exec_def split: if_splits)
  let ?p = "p\<lparr>ps_last_failure := ps_length p\<rparr>"
  have "rt1 = rt \<or> (\<exists>y. relaunch W ?p (put_process ?p rt) = Some (y, rt1))"
    using r(1) by (auto simp: redrive_after_failure_def split: sum.splits prod.splits option.splits if_splits)
  then show ?thesis
  proof
    assume "rt1 = rt" then show ?thesis using r(2) by simp
  next
    assume "\<exists>y. relaunch W ?p (put_process ?p rt) = Some (y, rt1)"
    then obtain y where y: "relaunch W ?p (put_process ?p rt) = Some (y, rt1)" by blast
    have l: "life_of ?p = life_of p" by (simp add: life_of_def)
    have P1: "mget (rt_processes (put_process ?p rt)) = (mget (rt_processes rt))(pid \<mapsto> ?p)" using d(1) by (simp add: put_process_def)
    have "moves (mget (rt_processes rt)) (mget (rt_processes rt1))"
    proof (rule relaunch_moves [OF p(1) P1 _ _ y])
      show "life_step (life_of p) ((life_of ?p)\<lparr>lf_status := ProcessQueued, lf_attempt := ps_attempt ?p + 1, lf_answer := []\<rparr>)"
        unfolding l using life_step.redriven [of "life_of p"] p(2) by simp
    qed (use d(1) l in \<open>simp_all add: same_identity_def\<close>)
    then show ?thesis using r(2) by simp
  qed
qed

lemma outcome_moves:
  assumes ok: "rt_ok rt" and e: "e \<in> set (rt_execs rt)" and o: "record_outcome W r e rt = Some rt'"
  shows "moves (mget (rt_processes rt)) (mget (rt_processes rt'))"
proof -
  obtain p where p: "mget (rt_processes rt) (ex_process e) = Some p" "busy (ps_status p)" using rt_execD [OF ok e] by blast
  note fail = fail_moves [OF ok p refl]
  have fin: "rt_processes (to_finish st a f e rt) = rt_processes rt" for st a f by (simp add: to_finish_def put_exec_def)
  show ?thesis
  proof (cases "qr_status r")
    case ResumeCompleted
    then obtain lc where lc: "last_call W (rt_log rt) p = Some lc"
      using o p(1) by (auto simp: record_outcome_def bind_eq_Some_conv)
    show ?thesis
    proof (cases "guest_abort lc")
      case (Some reason)
      then obtain rt2 where "retry_aborted_section W p reason rt = Some rt2" "rt' = drop_exec e rt2"
        using o ResumeCompleted p(1) lc by (auto simp: record_outcome_def)
      then show ?thesis using abort_moves [OF ok p] by simp
    next
      case None
      then show ?thesis using o ResumeCompleted p(1) lc fail fin
        by (cases "answer_from_journal (wi_sys W) lc") (auto simp: record_outcome_def)
    qed
  next
    case ResumeYielded
    then show ?thesis using o fin by (auto simp: record_outcome_def)
  next
    case ResumeStopped
    then show ?thesis using o fin by (auto simp: record_outcome_def)
  next
    case ResumeFailed
    then show ?thesis using o p(1) fail by (auto simp: record_outcome_def)
  qed
qed

lemma stop_moves:
  assumes ok: "rt_ok rt" and s: "stop_process W pid rt = Some (z, rt')"
  shows "moves (mget (rt_processes rt)) (mget (rt_processes rt'))"
proof (cases "mget (rt_processes rt) pid")
  case None
  then show ?thesis using s by (simp add: stop_process_def)
next
  case (Some p)
  note id = rt_okD(1) [OF ok Some]
  show ?thesis
  proof (cases "ps_status p = ProcessQueued \<or> ps_status p = ProcessRunning")
    case True
    let ?p = "p\<lparr>ps_stop_requested := True, ps_status := ProcessStopping, ps_updated := rt_now W rt\<rparr>"
    let ?rt = "cancel_exec (ps_stop p) (put_process ?p rt)"
    obtain l where l: "snd (append_process W ?p ?rt) = ?rt\<lparr>rt_log := l\<rparr>"
      using append_process_log [of W ?p ?rt] by (metis snd_conv)
    have "rt' = ?rt\<lparr>rt_log := l\<rparr>" by (rule trans [OF stop_running [OF Some True s] l])
    then have P: "mget (rt_processes rt') = (mget (rt_processes rt))(pid \<mapsto> ?p)"
      using id by (simp add: cancel_exec_def put_process_def)
    have l: "life_of ?p = (life_of p)\<lparr>lf_status := ProcessStopping\<rparr>" by (simp add: life_of_def)
    have "life_step (life_of p) (life_of ?p)" unfolding l by (rule life_step.stopping) (use True in simp)
    then show ?thesis unfolding P
      by (intro moves_update [where P = "mget (rt_processes rt)", OF Some]) (simp_all add: same_identity_def)
  next
    case False
    show ?thesis
    proof (cases "ps_status p = ProcessWaitingTask")
      case True
      then have f: "finish W p ProcessStopped '''' (Some Canceled) rt = Some rt'"
        using s Some by (auto simp: stop_process_def bind_eq_Some_conv)
      show ?thesis by (rule finish_moves [OF ok Some f]) (rule life_step.parked_stopped, use True in simp)
    next
      case other: False
      then show ?thesis using s Some False by (auto simp: stop_process_def split: if_splits)
    qed
  qed
qed

lemma quantum_call_moves:
  assumes ok: "rt_ok rt" and c: "quantum_call c g e rt = Some (u, rt')"
  shows "moves (mget (rt_processes rt)) (mget (rt_processes rt'))"
proof -
  obtain p where p: "mget (rt_processes rt) (ex_process e) = Some p" using c by (auto simp: quantum_call_def bind_eq_Some_conv)
  obtain w where "rt' = put_exec (e\<lparr>ex_quantum := Running (guest_after g w)\<rparr>) (put_cworld p w rt)"
    using c p by (auto simp: quantum_call_def split: prod.splits)
  then have "mget (rt_processes rt') = (mget (rt_processes rt))(ex_process e \<mapsto>
      p\<lparr>ps_history := lj_history (tp_journal w), ps_length := lj_length (tp_journal w)\<rparr>)"
    using rt_okD(1) [OF ok p] by (simp add: put_exec_def put_cworld_def put_process_def)
  from silent_moves [OF p this] show ?thesis by (simp add: life_of_def same_identity_def)
qed

lemma exec_mark_moves:
  assumes ok: "rt_ok rt" and e: "e \<in> set (rt_execs rt)" and m: "exec_mark W e rt = Some rt'"
  shows "moves (mget (rt_processes rt)) (mget (rt_processes rt'))"
proof -
  obtain p where p: "mget (rt_processes rt) (ex_process e) = Some p" "busy (ps_status p)" using rt_execD [OF ok e] by blast
  let ?p = "p\<lparr>ps_stop := Some (ex_id e), ps_status := ProcessRunning, ps_started := Some (rt_now W rt), ps_updated := rt_now W rt\<rparr>"
  obtain l where "snd (append_process W ?p (put_process ?p rt)) = (put_process ?p rt)\<lparr>rt_log := l\<rparr>"
    using append_process_log [of W ?p "put_process ?p rt"] by (metis snd_conv)
  then have P: "mget (rt_processes rt') = (mget (rt_processes rt))(ex_process e \<mapsto> ?p)"
    using m p(1) rt_okD(1) [OF ok p(1)] by (auto simp: exec_mark_def Let_def put_exec_def put_process_def)
  have l: "life_of ?p = (life_of p)\<lparr>lf_status := ProcessRunning\<rparr>" by (simp add: life_of_def)
  have "life_step (life_of p) (life_of ?p)" unfolding l by (rule life_step.started) (use p(2) in simp)
  then show ?thesis unfolding P
    by (intro moves_update [where P = "mget (rt_processes rt)", OF p(1)]) (simp_all add: same_identity_def)
qed

lemma step_moves:
  assumes "rt_step W rt rt'" "rt_ok rt"
  shows "moves (mget (rt_processes rt)) (mget (rt_processes rt'))"
  using assms(1)
proof cases
  case (create_session name tags y)
  then have "rt_processes rt' = rt_processes rt" by (cases rule: create_session_parts [OF create_session(2)]) simp_all
  then show ?thesis by simp
next
  case (rename_session sid name y)
  have "rt_processes rt' = rt_processes rt"
    by (cases rule: rename_session_parts [OF rename_session]) (simp_all add: put_session_def)
  then show ?thesis by simp
next
  case (create_process sid input spec z)
  show ?thesis
  proof (cases rule: create_process_parts [OF create_process(2)])
    case 1
    then show ?thesis by simp
  next
    case (2 pid rt1 s p s' spec1 program)
    have "mget (rt_processes rt) pid = None" using create_process(1) 2(1) unfolding fresh_id_def by blast
    moreover have "life_of p = new_life" by (simp add: 2(4) new_process_def life_of_def new_life_def)
    ultimately have "move (mget (rt_processes rt) k) (((mget (rt_processes rt))(pid \<mapsto> p)) k)" for k
      by (cases "k = pid") (simp_all add: move_def)
    then show ?thesis unfolding moves_def using 2(8) by simp
  qed
next
  case (stop pid z)
  then show ?thesis by (rule stop_moves [OF assms(2)])
next
  case (retry pid mode z)
  then show ?thesis by (rule retry_moves [OF assms(2)])
next
  case (resolve tid token a t)
  then show ?thesis by (rule resolve_moves [OF assms(2)])
next
  case (decide a tid h now d)
  then show ?thesis using on_tasks_parts'(2) [OF decide(2)] by simp
next
  case (settle now tid)
  then show ?thesis by (simp add: settle_task_def)
next
  case (wake pid x)
  then show ?thesis by (rule wake_moves [OF assms(2)])
next
  case (exec_begin e)
  obtain e' where "rt' = put_exec e' rt" using exec_begin_execs [OF exec_begin(3)] by blast
  then show ?thesis by (simp add: put_exec_def)
next
  case (exec_mark e)
  then show ?thesis using exec_mark_moves [OF assms(2)] by blast
next
  case (exec_land e r)
  obtain p where p: "mget (rt_processes rt) (ex_process e) = Some p" using rt_execD [OF assms(2) exec_land(1)] by blast
  have "mget (rt_processes rt') = (mget (rt_processes rt))(ex_process e \<mapsto> p\<lparr>ps_stop := None\<rparr>)"
    using exec_land(4) p rt_okD(1) [OF assms(2) p] by (auto simp: exec_land_def put_exec_def put_process_def)
  from silent_moves [OF p this] show ?thesis by (simp add: life_of_def same_identity_def)
next
  case (outcome e r)
  then show ?thesis using outcome_moves [OF assms(2)] by blast
next
  case (exec_finish e status answer failure)
  obtain p where p: "mget (rt_processes rt) (ex_process e) = Some p" "busy (ps_status p)" "quantum_ok e p"
    using rt_execD [OF assms(2) exec_finish(1)] by blast
  obtain rt1 where f: "finish W p status answer failure rt = Some rt1" "rt' = drop_exec e rt1"
    using exec_finish(3) p(1) by (auto simp: exec_finish_def)
  have "\<not> busy status" using p(3) exec_finish(2) by (simp add: quantum_ok_def)
  then have "moves (mget (rt_processes rt)) (mget (rt_processes rt1))"
    using finish_moves [OF assms(2) p(1) f(1)] life_step.ended [of "life_of p" status answer] p(2) by simp
  then show ?thesis using f(2) by simp
next
  case (quantum_drop e)
  then show ?thesis by (simp add: quantum_drop_def put_exec_def)
next
  case (quantum_start e ctx)
  obtain q x where "rt' = put_exec (e\<lparr>ex_quantum := q\<rparr>) (rt\<lparr>rt_ext := x\<rparr>)"
    using quantum_start_execs [OF quantum_start(7)] by blast
  then show ?thesis by (simp add: put_exec_def)
next
  case (setup_cancelled e x)
  then show ?thesis by (simp add: quantum_end_def put_exec_def)
next
  case (quantum_call e g c u)
  then show ?thesis using quantum_call_moves [OF assms(2)] by blast
next
  case (quantum_end e g r)
  then show ?thesis by (simp add: quantum_end_def put_exec_def)
next
  case close_begin
  then show ?thesis by (simp add: close_begin_def)
next
  case close_cancel
  then show ?thesis by (simp add: close_cancel_def)
next
  case (tick l)
  then show ?thesis by simp
next
  case (outside x)
  then show ?thesis by simp
qed

subsection \<open>Runs\<close>

text \<open>The lives of all processes, and a step of them: each stays, takes a step, or begins.\<close>

fun life_moves :: "life option \<Rightarrow> life option \<Rightarrow> bool" where
  "life_moves None None = True"
| "life_moves None (Some b) = (b = new_life)"
| "life_moves (Some a) None = False"
| "life_moves (Some a) (Some b) = (b = a \<or> life_step a b)"

definition lives :: "('l, 'r, 's, 'x) runtime \<Rightarrow> string \<Rightarrow> life option" where
  "lives rt pid = map_option life_of (mget (rt_processes rt) pid)"

lemma moves_lives:
  assumes "moves (mget (rt_processes rt)) (mget (rt_processes rt'))"
  shows "life_moves (lives rt pid) (lives rt' pid)"
proof -
  have "move (mget (rt_processes rt) pid) (mget (rt_processes rt') pid)" using assms unfolding moves_def by blast
  then show ?thesis
    by (cases "mget (rt_processes rt) pid"; cases "mget (rt_processes rt') pid") (auto simp: move_def lives_def)
qed

interpretation lives: simulating_system "\<lambda>rt. provider_keeps W \<and> (\<exists>l x. rt = empty_runtime l x)" "rt_step W"
    "\<lambda>rt. provider_keeps W \<and> rt_ok rt" lives "\<lambda>A B. \<forall>pid. life_moves (A pid) (B pid)" for W
proof (unfold_locales, goal_cases)
  case (1 rt rt')
  then have m: "moves (mget (rt_processes rt)) (mget (rt_processes rt'))" using step_moves [OF 1(2)] by blast
  show ?case using moves_lives [OF m] by blast
qed

text \<open>What a step of a life, and so a run, never takes back.\<close>

definition life_ahead :: "life \<Rightarrow> life \<Rightarrow> bool" where
  "life_ahead a b \<longleftrightarrow>
     lf_attempt a \<le> lf_attempt b \<and> lf_revision a \<le> lf_revision b \<and> lf_aborts a \<le> lf_aborts b \<and>
     (lf_status a = ProcessCompleted \<longrightarrow> b = a \<or> lf_revision a < lf_revision b)"

lemma life_step_ahead: "life_step a b \<Longrightarrow> life_ahead a b"
  by (cases rule: life_step.cases) (auto simp: life_ahead_def)

lemma life_ahead_trans: "life_ahead a b \<Longrightarrow> life_ahead b c \<Longrightarrow> life_ahead a c"
  by (auto simp: life_ahead_def)

lemma life_run_ahead: "life_step\<^sup>*\<^sup>* a b \<Longrightarrow> life_ahead a b"
  by (induction rule: rtranclp_induct) (auto simp: life_ahead_def [of a a] intro: life_ahead_trans life_step_ahead)

definition goes_on :: "'r process_state \<Rightarrow> 'r process_state \<Rightarrow> bool" where
  "goes_on p p' \<longleftrightarrow> same_identity p p' \<and> life_step\<^sup>*\<^sup>* (life_of p) (life_of p')"

lemma goes_on_refl: "goes_on p p"
  by (simp add: goes_on_def same_identity_def)

lemma goes_on_trans: "goes_on p q \<Longrightarrow> goes_on q r \<Longrightarrow> goes_on p r"
  by (auto simp: goes_on_def intro: same_identity_trans rtranclp_trans)

lemma run_goes_on:
  assumes "(rt_step W)\<^sup>*\<^sup>* rt rt'" "provider_keeps W" "rt_ok rt" and p: "mget (rt_processes rt) pid = Some p"
  shows "\<exists>p'. mget (rt_processes rt') pid = Some p' \<and> goes_on p p'"
proof -
  let ?R = "\<lambda>a b. \<forall>p. mget (rt_processes a) pid = Some p \<longrightarrow> (\<exists>p'. mget (rt_processes b) pid = Some p' \<and> goes_on p p')"
  have "?R rt rt'"
  proof (rule rt.run_keeps [OF assms(1), of ?R])
    show "?R a c" if "?R a b" "?R b c" for a b c using that goes_on_trans by meson
    show "?R a b" if "provider_keeps W \<and> rt_ok a" "rt_step W a b" for a b
    proof (intro allI impI)
      fix p assume p: "mget (rt_processes a) pid = Some p"
      have "move (mget (rt_processes a) pid) (mget (rt_processes b) pid)"
        using step_moves [OF that(2)] that(1) unfolding moves_def by blast
      then show "\<exists>p'. mget (rt_processes b) pid = Some p' \<and> goes_on p p'"
        using p by (auto simp: move_def goes_on_def split: option.splits)
    qed
  qed (use assms goes_on_refl in auto)
  then show ?thesis using p by blast
qed

lemma reachable_new_life:
  assumes "reachable W rt" "provider_keeps W" "mget (rt_processes rt) pid = Some p"
  shows "life_step\<^sup>*\<^sup>* new_life (life_of p)"
proof -
  have "\<forall>a. lives rt pid = Some a \<longrightarrow> life_step\<^sup>*\<^sup>* new_life a"
  proof -
    obtain rt0 where r: "(rt_step W)\<^sup>*\<^sup>* rt0 rt" "rt_ok rt0" "rt_processes rt0 = []"
      using assms(1) empty_ok unfolding reachable_def by (force simp: empty_runtime_def)
    have "(\<lambda>A B. \<forall>pid. life_moves (A pid) (B pid))\<^sup>*\<^sup>* (lives rt0) (lives rt)"
      using lives.run_simulates [OF r(1)] assms(2) r(2) by blast
    then show ?thesis
    proof (induction rule: rtranclp_induct)
      case base
      show ?case by (simp add: lives_def r(3))
    next
      case (step A B)
      then have "life_moves (A pid) (B pid)" by blast
      then show ?case using step(3)
        by (cases "A pid"; cases "B pid") (auto intro: rtranclp.rtrancl_into_rtrancl)
    qed
  qed
  then show ?thesis using assms(3) by (simp add: lives_def)
qed

subsection \<open>A run that fails inside a section\<close>

definition demo_exec ::
    "exec_phase \<Rightarrow> (demo_data mem_log, demo_result, bytes, syscall list) quantum \<Rightarrow>
     (demo_data mem_log, demo_result, bytes, syscall list) execution"
where
  "demo_exec ph q =
     \<lparr>ex_id = 0, ex_process = demo_pid, ex_phase = ph, ex_cred = proc_context demo_new_process, ex_program = ''a'',
      ex_digest = pg_digest demo_program, ex_cancelled = False, ex_quantum = q\<rparr>"

definition demo_crash :: quantum_result where
  "demo_crash = \<lparr>qr_status = ResumeFailed, qr_err = Some (Plain ''trap'')\<rparr>"

abbreviation demo_begin :: syscall where
  "demo_begin \<equiv> \<lparr>sc_name = sys_begin, sc_args = ''null''\<rparr>"

lemma demo_new_sel [simp]:
  "ps_id demo_new_process = demo_pid" "ps_session demo_new_process = demo_sid" "ps_manifest demo_new_process = demo_spec"
  "ps_stop_requested demo_new_process = False" "ps_digest demo_new_process = pg_digest demo_program"
  "ps_history demo_new_process = []" "ps_length demo_new_process = 0" "ps_revision demo_new_process = 1"
  "ps_status demo_new_process = ProcessQueued" "ps_last_failure demo_new_process = 0" "ps_aborts demo_new_process = 0"
  by (simp_all add: demo_new_process_def new_process_def)

lemma demo_begun: "demo_run (demo_queued\<lparr>rt_execs := [demo_exec Submitted Unstarted]\<rparr>)"
proof (rule demo_run_step [OF demo_runs(3)])
  have b: "exec_begin (launched 0 demo_pid) demo_queued = Some (demo_queued\<lparr>rt_execs := [demo_exec Submitted Unstarted]\<rparr>)"
    by (simp add: exec_begin_def launched_def put_exec_def demo_exec_def demo_spec_def)
  show "rt_step demo_wiring demo_queued (demo_queued\<lparr>rt_execs := [demo_exec Submitted Unstarted]\<rparr>)"
    by (rule rt_step.exec_begin [OF _ _ b]) (simp_all add: launched_def)
qed

definition demo_chain_of :: "(demo_result, (demo_data mem_log, demo_result, process_context, bytes, syscall list) cworld) table \<Rightarrow>
    (process_context, demo_result, (demo_data mem_log, demo_result, process_context, bytes, syscall list) cworld) dispatcher" where
  "demo_chain_of T =
     wrap (schema_api.truncate demo_text_api) demo_sys (log_journal_ops open_evlog (Inr \<circ> DemoRecord)) T
       (protocol_dispatch demo_sys open_evlog demo_chain_codec demo_entropy demo_config
         (lifecycle_of demo_wiring demo_program demo_new_process []) T (drivers_dispatch demo_sys T))"

definition demo_guest_of where
  "demo_guest_of T = \<lparr>gr_chain = demo_chain_of T, gr_cursor = 0, gr_pending = False, gr_schemas = []\<rparr>"

lemma demo_started:
  obtains T where "demo_run (demo_queued\<lparr>rt_execs := [demo_exec Submitted (Running (demo_guest_of T))]\<rparr>)"
proof -
  obtain T where T: "build_table demo_spec (new_table :: (demo_result, (demo_data mem_log, demo_result, process_context, bytes, syscall list) cworld) table) = Inr T"
    using build_table_cases [OF wf_new_table, of demo_spec]
    by (fastforce simp: new_table_def split: sum.splits)
  let ?rt = "demo_queued\<lparr>rt_execs := [demo_exec Submitted Unstarted]\<rparr>"
  have v: "verify (log_journal_ops open_evlog (Inr \<circ> DemoRecord)) (proc_journal l demo_new_process) = None" for l :: "demo_data mem_log"
    by (simp add: verify_def proc_journal_def new_log_journal_def log_journal_ops_def)
  have h: "history_before ?rt demo_new_process = Some []"
    by (simp add: history_before_def demo_held_def history_of_def)
  have sh: "shares_history demo_spec" by (simp add: shares_history_def demo_spec_def)
  have w: "wi_provider demo_wiring = (\<lambda>_ _ x. (Inr new_table, x))" "wi_enc demo_wiring = Inr \<circ> DemoRecord"
    by (simp_all add: demo_wiring_def)
  have q: "quantum_chain demo_wiring (proc_context demo_new_process) demo_program ?rt = Some (Inr (demo_chain_of T), ?rt)"
    by (simp add: quantum_chain_def proc_context_def [of demo_new_process] h w new_dispatcher_def T v demo_chain_of_def sh)
  have b: "registry_bound (wi_programs demo_wiring) ''a'' (pg_digest demo_program) = Inr demo_program"
    by (simp add: registry_bound_def)
  have s: "quantum_start demo_wiring None (demo_exec Submitted Unstarted) ?rt =
      Some (demo_queued\<lparr>rt_execs := [demo_exec Submitted (Running (demo_guest_of T))]\<rparr>)"
    using q b by (simp add: quantum_start_def demo_exec_def put_exec_def demo_guest_of_def)
  have "rt_step demo_wiring ?rt (demo_queued\<lparr>rt_execs := [demo_exec Submitted (Running (demo_guest_of T))]\<rparr>)"
    by (rule rt_step.quantum_start [OF _ _ _ _ _ _ s])
      (simp_all add: demo_exec_def submitted_def context_done_def guests_running_def)
  from demo_run_step [OF demo_begun this] show ?thesis by (rule that)
qed

text \<open>The guest opens a section, and then its quantum ends, in any way.\<close>

definition demo_mid :: "demo_result history" where
  "demo_mid =
     [(0, [(intent_record demo_begin)\<lparr>jr_position := 0, jr_revision := 1\<rparr>]),
      (1, [(completion_record (mk_result demo_sys ''{}''))\<lparr>jr_position := 1, jr_revision := 1\<rparr>])]"

lemma demo_call:
  "\<exists>y w. demo_chain_of T [] (proc_context demo_new_process) demo_begin no_auth
       \<lparr>tp_journal = proc_journal l demo_new_process, tp_cursor = 0, tp_pending = False, mw_taints = [],
        mw_schemas = [], cw_tasks = [], cw_ext = []\<rparr> = (y, w) \<and>
     lj_history (tp_journal w) = demo_mid \<and> lj_length (tp_journal w) = 2 \<and>
     ml_full (lj_log (tp_journal w)) = ml_full l \<and> ml_now (lj_log (tp_journal w)) = ml_now l"
  if "\<not> ml_full l"
  using that
  by (simp add: demo_chain_of_def wrap_def validator_dispatch_def control_call_def track_dispatch_def replay_dispatch_def
      tape_next_def tape_begin_def append_record_def log_journal_ops_def lj_append_def proc_journal_def new_log_journal_def
      open_evlog_def mem_evlog_def replay_drive_def stamp_dispatch_def protocol_dispatch_def savepoint_dispatch_def tape_commit_def
      demo_mid_def history_add_def at_pos_def demo_sys_def intent_record_def completion_record_def Let_def encode_event_def)

lemma demo_called:
  obtains rt g where "demo_run rt" "rt_sessions rt = [(demo_sid, demo_held)]"
    "rt_processes rt = [(demo_pid, demo_new_process\<lparr>ps_history := demo_mid, ps_length := 2\<rparr>)]"
    "rt_execs rt = [demo_exec Submitted (Running g)]" "\<not> rt_closed rt" "\<not> rt_cancelled rt" "\<not> ml_full (rt_log rt)"
proof -
  obtain T where T: "demo_run (demo_queued\<lparr>rt_execs := [demo_exec Submitted (Running (demo_guest_of T))]\<rparr>)"
    using demo_started .
  let ?g = "demo_guest_of T"
  let ?e = "demo_exec Submitted (Running ?g)"
  let ?rt = "demo_queued\<lparr>rt_execs := [?e]\<rparr>"
  have ext: "rt_ext demo_queued = []"
    using demo_create by (auto simp: demo_queued_def launch_def put_session_def put_process_def demo_opened_def demo_boot_def empty_runtime_def)
  have w0: "cworld_of ?rt demo_new_process ?g =
      \<lparr>tp_journal = proc_journal (rt_log demo_queued) demo_new_process, tp_cursor = 0, tp_pending = False, mw_taints = [],
        mw_schemas = [], cw_tasks = [], cw_ext = []\<rparr>"
    by (simp add: cworld_of_def demo_guest_of_def ext)
  obtain y w where c: "gr_chain ?g [] (ex_cred ?e) demo_begin no_auth (cworld_of ?rt demo_new_process ?g) = (y, w)"
    "lj_history (tp_journal w) = demo_mid" "lj_length (tp_journal w) = 2" "\<not> ml_full (lj_log (tp_journal w))"
    using demo_call [of "rt_log demo_queued" T] unfolding w0 by (auto simp: demo_guest_of_def demo_exec_def)
  let ?rt' = "put_exec (?e\<lparr>ex_quantum := Running (guest_after ?g w)\<rparr>) (put_cworld demo_new_process w ?rt)"
  have q: "quantum_call demo_begin ?g ?e ?rt = Some (y, ?rt')"
  proof -
    have "mget (rt_processes ?rt) (ex_process ?e) = Some demo_new_process" by (simp add: demo_exec_def)
    then show ?thesis using c(1) by (simp add: quantum_call_def)
  qed
  have "rt_step demo_wiring ?rt ?rt'" by (rule rt_step.quantum_call [OF _ _ q]) (simp_all add: demo_exec_def)
  note r = demo_run_step [OF T this]
  show ?thesis
    by (rule that [OF r, of "guest_after ?g w"]) (use c in \<open>simp_all add: put_exec_def put_cworld_def put_process_def demo_exec_def\<close>)
qed

lemma demo_landed:
  fixes r :: quantum_result
  obtains rt p where "demo_run rt" "rt_sessions rt = [(demo_sid, demo_held)]" "rt_processes rt = [(demo_pid, p)]"
    "rt_execs rt = [demo_exec (Outcome r) (Landed r)]" "\<not> rt_closed rt" "\<not> ml_full (rt_log rt)"
    "ps_id p = demo_pid" "ps_session p = demo_sid" "ps_history p = demo_mid" "ps_length p = 2" "ps_revision p = 1"
    "ps_last_failure p = 0" "ps_aborts p = 0" "\<not> ps_stop_requested p" "ps_status p = ProcessRunning"
proof -
  obtain rt g where rt: "demo_run rt" "rt_sessions rt = [(demo_sid, demo_held)]"
    "rt_processes rt = [(demo_pid, demo_new_process\<lparr>ps_history := demo_mid, ps_length := 2\<rparr>)]"
    "rt_execs rt = [demo_exec Submitted (Running g)]" "\<not> rt_closed rt" "\<not> rt_cancelled rt" "\<not> ml_full (rt_log rt)"
    using demo_called .
  let ?p = "demo_new_process\<lparr>ps_history := demo_mid, ps_length := 2\<rparr>"
  let ?rt1 = "rt\<lparr>rt_execs := [demo_exec Submitted (Landed r)]\<rparr>"
  have s1: "rt_step demo_wiring rt ?rt1"
  proof -
    have "?rt1 = quantum_end r (demo_exec Submitted (Running g)) rt"
      using rt(4) by (simp add: quantum_end_def put_exec_def demo_exec_def)
    moreover have "rt_step demo_wiring rt (quantum_end r (demo_exec Submitted (Running g)) rt)"
      by (rule rt_step.quantum_end) (simp_all add: rt(4), simp add: demo_exec_def)
    ultimately show ?thesis by simp
  qed
  let ?p2 = "?p\<lparr>ps_stop := Some 0, ps_status := ProcessRunning, ps_started := Some (rt_now demo_wiring ?rt1),
      ps_updated := rt_now demo_wiring ?rt1\<rparr>"
  obtain l where l: "append_process demo_wiring ?p2 (put_process ?p2 ?rt1) = (None, (put_process ?p2 ?rt1)\<lparr>rt_log := l\<rparr>)" "\<not> ml_full l"
    using demo_append [of "put_process ?p2 ?rt1" ?p2] rt(7) by (auto simp: put_process_def)
  let ?rt2 = "put_exec (demo_exec Awaiting (Landed r)) ((put_process ?p2 ?rt1)\<lparr>rt_log := l\<rparr>)"
  have s2: "rt_step demo_wiring ?rt1 ?rt2"
  proof (rule rt_step.exec_mark)
    show "demo_exec Submitted (Landed r) \<in> set (rt_execs ?rt1)" by simp
    show "ex_phase (demo_exec Submitted (Landed r)) = Submitted" by (simp add: demo_exec_def)
    show "exec_mark demo_wiring (demo_exec Submitted (Landed r)) ?rt1 = Some ?rt2"
      using l(1) rt(3) by (simp add: exec_mark_def Let_def demo_exec_def)
  qed
  let ?p3 = "?p2\<lparr>ps_stop := None\<rparr>"
  let ?rt3 = "put_exec (demo_exec (Outcome r) (Landed r)) (put_process ?p3 ?rt2)"
  have x2: "rt_execs ?rt2 = [demo_exec Awaiting (Landed r)]" by (simp add: put_exec_def demo_exec_def put_process_def)
  have p2: "mget (rt_processes ?rt2) demo_pid = Some ?p2" by (simp add: put_exec_def put_process_def)
  have s3: "rt_step demo_wiring ?rt2 ?rt3"
  proof (rule rt_step.exec_land)
    show "demo_exec Awaiting (Landed r) \<in> set (rt_execs ?rt2)" using x2 by simp
    show "ex_phase (demo_exec Awaiting (Landed r)) = Awaiting"
      "ex_quantum (demo_exec Awaiting (Landed r)) = Landed r" by (simp_all add: demo_exec_def)
    have "mget (rt_processes ?rt2) (ex_process (demo_exec Awaiting (Landed r))) = Some ?p2"
      using p2 by (simp add: demo_exec_def)
    then show "exec_land r (demo_exec Awaiting (Landed r)) ?rt2 = Some ?rt3"
      by (simp only: exec_land_def bind.bind_lunit) (simp add: demo_exec_def)
  qed
  show ?thesis
  proof (rule that [of ?rt3 ?p3])
    show "demo_run ?rt3" by (rule demo_run_step [OF demo_run_step [OF demo_run_step [OF rt(1) s1] s2] s3])
    show "rt_execs ?rt3 = [demo_exec (Outcome r) (Landed r)]"
      using x2 by (simp add: put_exec_def put_process_def demo_exec_def)
  qed (use rt l(2) in \<open>simp_all add: put_exec_def put_process_def\<close>)
qed

subsection \<open>Properties\<close>

text \<open>The failed run is run again: the next attempt of the same revision.\<close>

lemma demo_rerun:
  obtains rt p rt' p' where "reachable demo_wiring rt" "rt_execs rt = [demo_exec (Outcome demo_crash) (Landed demo_crash)]"
    "record_outcome demo_wiring demo_crash (demo_exec (Outcome demo_crash) (Landed demo_crash)) rt = Some rt'"
    "mget (rt_processes rt) demo_pid = Some p" "mget (rt_processes rt') demo_pid = Some p'"
    "ps_status p = ProcessRunning" "ps_status p' = ProcessQueued" "ps_attempt p' = Suc (ps_attempt p)" "ps_length p = 2"
    "ps_last_failure p = 0" "ps_last_failure p' = 2"
proof -
  obtain rt p where run: "demo_run rt"
    and rt: "rt_sessions rt = [(demo_sid, demo_held)]" "rt_processes rt = [(demo_pid, p)]"
    "rt_execs rt = [demo_exec (Outcome demo_crash) (Landed demo_crash)]" "\<not> rt_closed rt" "\<not> ml_full (rt_log rt)"
    and p: "ps_id p = demo_pid" "ps_session p = demo_sid" "ps_history p = demo_mid" "ps_length p = 2" "ps_revision p = 1"
    "ps_last_failure p = 0" "ps_aborts p = 0" "\<not> ps_stop_requested p" "ps_status p = ProcessRunning"
    using demo_landed [of demo_crash] .
  have reach: "reachable demo_wiring rt" by (rule demo_run_reachable [OF run])
  have ok: "proc_ok p" using rt_okD(3) [OF reachable_ok [OF reach demo_keeps], of demo_pid p] rt(2) by simp
  have "lj_recs (proc_journal () p) =
      [(intent_record demo_begin)\<lparr>jr_position := 0, jr_revision := 1\<rparr>,
       (completion_record (mk_result demo_sys ''{}''))\<lparr>jr_position := 1, jr_revision := 1\<rparr>]"
    by (simp add: lj_recs_def proc_journal_def new_log_journal_def p demo_mid_def get_at_def at_pos_def upt_rec
        intent_record_def completion_record_def)
  then have "open_sections p = 1"
    by (simp add: open_sections_def intent_record_def completion_record_def)
  then obtain off where off: "outermost_open_begin (proc_journal_ops demo_wiring) (proc_journal (rt_log rt) p) = Inr (off, True)"
    using proc_open_section [OF ok, of demo_wiring "rt_log rt"] by auto
  let ?p = "p\<lparr>ps_last_failure := 2\<rparr>"
  let ?q = "queued (rt_now demo_wiring (put_process ?p rt)) ?p"
  let ?s = "demo_held\<lparr>ss_active := demo_pid, ss_updated := ps_updated ?q\<rparr>"
  obtain l where l: "append_process demo_wiring ?q (put_session ?s (put_process ?q (put_process ?p rt))) =
      (None, (put_session ?s (put_process ?q (put_process ?p rt)))\<lparr>rt_log := l\<rparr>)"
    using demo_append [of "put_session ?s (put_process ?q (put_process ?p rt))" ?q] rt(5)
    by (auto simp: put_process_def put_session_def)
  have r: "relaunch demo_wiring ?p (put_process ?p rt) =
      Some (Inr (process_snapshot_of ?q), launch demo_pid ((put_session ?s (put_process ?q (put_process ?p rt)))\<lparr>rt_log := l\<rparr>))"
    using l rt(1,4) p(1,2) by (simp add: relaunch_def Let_def put_process_def)
  let ?e = "demo_exec (Outcome demo_crash) (Landed demo_crash)"
  let ?rt = "drop_exec ?e (launch demo_pid ((put_session ?s (put_process ?q (put_process ?p rt)))\<lparr>rt_log := l\<rparr>))"
  have "redrive_after_failure demo_wiring p rt = Some (True, launch demo_pid ((put_session ?s (put_process ?q (put_process ?p rt)))\<lparr>rt_log := l\<rparr>))"
    using off p r rt(4) by (simp add: redrive_after_failure_def)
  then have "record_outcome demo_wiring demo_crash ?e rt = Some ?rt"
    using rt(2) by (simp add: record_outcome_def demo_crash_def fail_process_def demo_exec_def)
  then show ?thesis
    by (rule that [OF reach rt(3), of _ p ?q]) (use rt(2) p in \<open>simp_all add: put_process_def put_session_def queued_def\<close>)
qed

text \<open>C8. The runtime implements the life of a process. In every reachable state, whatever step
  is taken by whom, every process keeps its identity and its life either stays as it is or
  takes one step of the abstract machine: a run goes through its statuses, the next attempt
  begins from a status that allows it, only a fork begins a revision, and only an abort with
  budget left spends one. No process disappears, and a new one starts as new.\<close>

theorem runtime_refines_life:
  assumes "reachable W rt" and "provider_keeps W" and "rt_step W rt rt'"
  shows "(\<forall>pid p. mget (rt_processes rt) pid = Some p \<longrightarrow>
      (\<exists>p'. mget (rt_processes rt') pid = Some p' \<and> same_identity p p' \<and>
        (life_of p' = life_of p \<or> life_step (life_of p) (life_of p')))) \<and>
    (\<forall>pid p'. mget (rt_processes rt) pid = None \<longrightarrow> mget (rt_processes rt') pid = Some p' \<longrightarrow> life_of p' = new_life)"
proof -
  have m: "move (mget (rt_processes rt) pid) (mget (rt_processes rt') pid)" for pid
    using step_moves [OF assms(3) reachable_ok [OF assms(1,2)]] unfolding moves_def by blast
  show ?thesis
  proof (intro conjI allI impI)
    fix pid p assume "mget (rt_processes rt) pid = Some p"
    then show "\<exists>p'. mget (rt_processes rt') pid = Some p' \<and> same_identity p p' \<and>
        (life_of p' = life_of p \<or> life_step (life_of p) (life_of p'))"
      using m [of pid] by (auto simp: move_def split: option.splits)
  next
    fix pid p' assume "mget (rt_processes rt) pid = None" "mget (rt_processes rt') pid = Some p'"
    then show "life_of p' = new_life" using m [of pid] by (simp add: move_def)
  qed
qed

theorem runtime_refines_life_witness:
  "\<exists>(p :: demo_result process_state) (p' :: demo_result process_state). life_step (life_of p) (life_of p') \<and> ps_status p = ProcessRunning \<and>
     ps_status p' = ProcessQueued \<and> ps_attempt p' = Suc (ps_attempt p)"
proof -
  obtain rt p rt' p' where d: "reachable demo_wiring rt" "rt_execs rt = [demo_exec (Outcome demo_crash) (Landed demo_crash)]"
    "record_outcome demo_wiring demo_crash (demo_exec (Outcome demo_crash) (Landed demo_crash)) rt = Some rt'"
    "mget (rt_processes rt) demo_pid = Some p" "mget (rt_processes rt') demo_pid = Some p'"
    "ps_status p = ProcessRunning" "ps_status p' = ProcessQueued" "ps_attempt p' = Suc (ps_attempt p)"
    using demo_rerun .
  have "rt_step demo_wiring rt rt'" by (rule rt_step.outcome [OF _ _ d(3)]) (use d(2) in \<open>simp_all add: demo_exec_def\<close>)
  from conjunct1 [OF runtime_refines_life [OF d(1) demo_keeps this], rule_format, OF d(4)] d(5)
  have "life_of p' = life_of p \<or> life_step (life_of p) (life_of p')" by simp
  moreover have "life_of p' \<noteq> life_of p" using d(6,7) by (metis life_sel(1) process_status.distinct(1))
  ultimately show ?thesis using d(6-8) by blast
qed

text \<open>C9. A run never takes back what it did. Over any run of the runtime from any reachable state,
  a process goes from its creation to where it is, and from there on, by steps of the
  abstract machine alone, keeps its session, input, manifest and program, and its attempts,
  revisions and aborts only grow; and a completed process keeps its status and its answer for
  as long as no new revision is begun.\<close>

theorem runs_move_forward:
  assumes "reachable W rt" and "provider_keeps W" and "(rt_step W)\<^sup>*\<^sup>* rt rt'"
    and "mget (rt_processes rt) pid = Some p"
  shows "\<exists>p'. mget (rt_processes rt') pid = Some p' \<and> same_identity p p' \<and>
    life_step\<^sup>*\<^sup>* new_life (life_of p) \<and> life_step\<^sup>*\<^sup>* (life_of p) (life_of p') \<and>
    ps_attempt p \<le> ps_attempt p' \<and> ps_revision p \<le> ps_revision p' \<and> ps_aborts p \<le> ps_aborts p' \<and>
    (ps_status p = ProcessCompleted \<and> ps_revision p' = ps_revision p \<longrightarrow>
       ps_status p' = ProcessCompleted \<and> ps_answer p' = ps_answer p)"
proof -
  obtain p' where p': "mget (rt_processes rt') pid = Some p'" "same_identity p p'" "life_step\<^sup>*\<^sup>* (life_of p) (life_of p')"
    using run_goes_on [OF assms(3,2) reachable_ok [OF assms(1,2)] assms(4)] by (auto simp: goes_on_def)
  have a: "life_ahead (life_of p) (life_of p')" by (rule life_run_ahead [OF p'(3)])
  have "ps_status p' = ProcessCompleted \<and> ps_answer p' = ps_answer p"
    if "ps_status p = ProcessCompleted" "ps_revision p' = ps_revision p"
  proof -
    have "life_of p' = life_of p" using a that by (simp add: life_ahead_def)
    then show ?thesis using that(1) by (metis life_sel(1,5))
  qed
  then show ?thesis using p' a reachable_new_life [OF assms(1,2,4)] by (auto simp: life_ahead_def)
qed

theorem runs_move_forward_witness:
  "\<exists>(rt :: demo_runtime) rt' p p'. (rt_step demo_wiring)\<^sup>*\<^sup>* rt rt' \<and> mget (rt_processes rt) demo_pid = Some p \<and>
     mget (rt_processes rt') demo_pid = Some p' \<and> ps_attempt p' = Suc (ps_attempt p) \<and>
     life_step\<^sup>*\<^sup>* new_life (life_of p) \<and> life_step\<^sup>*\<^sup>* (life_of p) (life_of p')"
proof -
  obtain rt p rt' p' where d: "reachable demo_wiring rt" "rt_execs rt = [demo_exec (Outcome demo_crash) (Landed demo_crash)]"
    "record_outcome demo_wiring demo_crash (demo_exec (Outcome demo_crash) (Landed demo_crash)) rt = Some rt'"
    "mget (rt_processes rt) demo_pid = Some p" "mget (rt_processes rt') demo_pid = Some p'"
    "ps_attempt p' = Suc (ps_attempt p)"
    using demo_rerun .
  have "rt_step demo_wiring rt rt'" by (rule rt_step.outcome [OF _ _ d(3)]) (use d(2) in \<open>simp_all add: demo_exec_def\<close>)
  then have s: "(rt_step demo_wiring)\<^sup>*\<^sup>* rt rt'" by blast
  from runs_move_forward [OF d(1) demo_keeps s d(4)] d(5) have "life_step\<^sup>*\<^sup>* new_life (life_of p) \<and> life_step\<^sup>*\<^sup>* (life_of p) (life_of p')"
    by auto
  then show ?thesis using s d(4-6) by blast
qed

end
