(* ===== verification/Recorded.thy ===== *)
theory Recorded
  imports Life
begin

text \<open>
  What the log of the runtime says: the last recorded state of every process, every process's
  history and every session, as \<open>restore\<close> would read them. Every operation that appends
  changes one of them, and an append that fails changes none.
\<close>

subsection \<open>Reading the log\<close>

definition folded_of :: "('l, 'd, 'r, 's, 'v, 'i, 'x) wiring \<Rightarrow> 'l \<Rightarrow> string \<Rightarrow> folded option" where
  "folded_of W l sid =
     (case fold_events (wi_codec W) (stream (wi_log W) sid l) no_states of Inr f \<Rightarrow> Some f | Inl _ \<Rightarrow> None)"

definition histories_of ::
    "('l, 'd, 'r, 's, 'v, 'i, 'x) wiring \<Rightarrow> 'l \<Rightarrow> string \<Rightarrow> (string, 'r history) gomap option" where
  "histories_of W l sid =
     (case fold_journals (wi_dec W) (stream (wi_log W) sid l) of Inr hs \<Rightarrow> Some hs | Inl _ \<Rightarrow> None)"

definition log_reads :: "('l, 'd, 'r, 's, 'v, 'i, 'x) wiring \<Rightarrow> 'l \<Rightarrow> bool" where
  "log_reads W l \<longleftrightarrow> (\<forall>sid. folded_of W l sid \<noteq> None \<and> histories_of W l sid \<noteq> None)"

definition rec_process :: "('l, 'd, 'r, 's, 'v, 'i, 'x) wiring \<Rightarrow> 'l \<Rightarrow> string \<Rightarrow> string \<Rightarrow> process_rec option" where
  "rec_process W l sid pid = Option.bind (folded_of W l sid) (\<lambda>f. mget (fd_processes f) pid)"

definition rec_session :: "('l, 'd, 'r, 's, 'v, 'i, 'x) wiring \<Rightarrow> 'l \<Rightarrow> string \<Rightarrow> session_rec option" where
  "rec_session W l sid = map_option fd_session (folded_of W l sid)"

definition rec_history :: "('l, 'd, 'r, 's, 'v, 'i, 'x) wiring \<Rightarrow> 'l \<Rightarrow> string \<Rightarrow> string \<Rightarrow> 'r history" where
  "rec_history W l sid pid = (case histories_of W l sid of Some hs \<Rightarrow> history_in pid hs | None \<Rightarrow> [])"

definition rec_tasks :: "('l, 'd, 'r, 's, 'v, 'i, 'x) wiring \<Rightarrow> 'l \<Rightarrow> string \<Rightarrow> (string, task_record) gomap option" where
  "rec_tasks W l sid = map_option fd_tasks (folded_of W l sid)"

lemmas rec_defs = rec_process_def rec_session_def rec_history_def rec_tasks_def

text \<open>
  What the theorems on the log assume of the log and of the codecs: what is appended is read back,
  and what is encoded decodes to its JSON form.
\<close>

definition recording :: "('l, 'd, 'r, 's, 'v, 'i, 'x) wiring \<Rightarrow> 'r json_forms \<Rightarrow> bool" where
  "recording W F \<longleftrightarrow>
     log_laws (wi_log W) \<and> codec_laws (wi_codec W) F \<and> codec_ok (wi_enc W) (wi_dec W) (jf_syscall F) (jf_result F)"

definition record_form :: "'r json_forms \<Rightarrow> 'r jrecord \<Rightarrow> 'r jrecord" where
  "record_form F = json_record (jf_syscall F) (jf_result F)"

definition history_form :: "'r json_forms \<Rightarrow> 'r history \<Rightarrow> 'r history" where
  "history_form F = json_history (jf_syscall F) (jf_result F)"

lemma history_form_add: "history_form F (history_add r h) = history_add (record_form F r) (history_form F h)"
  by (simp add: history_form_def record_form_def json_history_add)

lemma json_wf_history [simp]: "wf_history (json_history cf rf h) = wf_history h"
  by (simp add: wf_history_def json_history_keys)

lemma history_form_Nil [simp]: "history_form F [] = []"
  by (simp add: history_form_def)

definition same_streams :: "('l, 'd, 'r, 's, 'v, 'i, 'x) wiring \<Rightarrow> 'l \<Rightarrow> 'l \<Rightarrow> bool" where
  "same_streams W l l' \<longleftrightarrow> (\<forall>s. stream (wi_log W) s l' = stream (wi_log W) s l)"

lemma same_streams_refl [simp]: "same_streams W l l"
  by (simp add: same_streams_def)

lemma same_streams_trans: "same_streams W a b \<Longrightarrow> same_streams W b c \<Longrightarrow> same_streams W a c"
  by (simp add: same_streams_def)

lemma same_streams_view:
  assumes "same_streams W l l'"
  shows "log_reads W l' = log_reads W l" "rec_process W l' = rec_process W l" "rec_session W l' = rec_session W l"
    "rec_history W l' = rec_history W l" "rec_tasks W l' = rec_tasks W l"
proof -
  have "folded_of W l' = folded_of W l" "histories_of W l' = histories_of W l"
    using assms by (auto simp: same_streams_def folded_of_def histories_of_def fun_eq_iff)
  then show "log_reads W l' = log_reads W l" "rec_process W l' = rec_process W l" "rec_session W l' = rec_session W l"
    "rec_history W l' = rec_history W l" "rec_tasks W l' = rec_tasks W l"
    by (simp_all add: log_reads_def rec_defs fun_eq_iff)
qed

text \<open>One event at the end of one stream.\<close>

lemma appended_view:
  fixes W :: "('l, 'd, 'r, 's, 'v, 'i, 'x) wiring"
  assumes "log_laws (wi_log W)" "log_reads W l" "el_append (wi_log W) sid ev l = (None, l')"
  obtains f hs where "folded_of W l sid = Some f" "histories_of W l sid = Some hs"
    "folded_of W l' = (folded_of W l)(sid := (case fold_event (wi_codec W) ev f of Inr g \<Rightarrow> Some g | Inl _ \<Rightarrow> None))"
    "histories_of W l' = (histories_of W l)(sid :=
       (case fold_journals_loop (wi_dec W) hs [ev] of Inr hs' \<Rightarrow> Some hs' | Inl _ \<Rightarrow> None))"
proof -
  obtain n where n: "stream (wi_log W) sid l' = stream (wi_log W) sid l @ [ev\<lparr>ev_seq := n\<rparr>]"
    "\<And>s. s \<noteq> sid \<Longrightarrow> stream (wi_log W) s l' = stream (wi_log W) s l"
    using log_append_ok [OF assms(1,3)] by metis
  obtain f hs where fh: "folded_of W l sid = Some f" "histories_of W l sid = Some hs"
    using assms(2) unfolding log_reads_def by blast
  have f: "fold_events (wi_codec W) (stream (wi_log W) sid l) no_states = Inr f"
    using fh(1) by (auto simp: folded_of_def split: sum.splits)
  have h: "fold_journals_loop (wi_dec W) [] (stream (wi_log W) sid l) = Inr hs"
    using fh(2) by (auto simp: histories_of_def fold_journals_def split: sum.splits)
  have seq: "fold_journals_loop dec hs [ev\<lparr>ev_seq := n\<rparr>] = fold_journals_loop dec hs [ev]" for dec :: "'d \<Rightarrow> err + 'r jrecord" and hs
    by (auto split: sum.split)
  show ?thesis
  proof (rule that [OF fh])
    show "folded_of W l' = (folded_of W l)(sid := (case fold_event (wi_codec W) ev f of Inr g \<Rightarrow> Some g | Inl _ \<Rightarrow> None))"
    proof
      fix s show "folded_of W l' s = ((folded_of W l)(sid := (case fold_event (wi_codec W) ev f of Inr g \<Rightarrow> Some g | Inl _ \<Rightarrow> None))) s"
        using n f by (cases "s = sid") (simp_all add: folded_of_def fold_events_snoc split: sum.split)
    qed
    show "histories_of W l' = (histories_of W l)(sid :=
       (case fold_journals_loop (wi_dec W) hs [ev] of Inr hs' \<Rightarrow> Some hs' | Inl _ \<Rightarrow> None))"
    proof
      fix s show "histories_of W l' s = ((histories_of W l)(sid :=
       (case fold_journals_loop (wi_dec W) hs [ev] of Inr hs' \<Rightarrow> Some hs' | Inl _ \<Rightarrow> None))) s"
      proof (cases "s = sid")
        case True
        then show ?thesis using n h
          by (simp only: histories_of_def fold_journals_def fold_journals_loop_append seq sum.case fun_upd_same)
      next
        case False
        then show ?thesis using n(2) by (simp add: histories_of_def)
      qed
    qed
  qed
qed

lemma not_syscall_kind [simp]:
  "ev_process_state \<noteq> ev_syscall" "ev_session_state \<noteq> ev_syscall" "ev_task_created \<noteq> ev_syscall"
  "ev_task_resolved \<noteq> ev_syscall" "ev_syscall \<noteq> ev_process_state" "ev_syscall \<noteq> ev_session_state"
  "ev_syscall \<noteq> ev_task_created" "ev_syscall \<noteq> ev_task_resolved"
  by (simp_all add: ev_process_state_def ev_session_state_def ev_task_created_def ev_task_resolved_def ev_syscall_def)

text \<open>An event of any kind but a journal record leaves the histories.\<close>

lemma state_event_view:
  assumes "log_laws (wi_log W)" "log_reads W l" "el_append (wi_log W) sid ev l = (None, l')"
    and "ev_kind ev \<noteq> ev_syscall" and g: "\<And>f. fold_event (wi_codec W) ev f = Inr (g f)"
  shows "log_reads W l'" "rec_history W l' = rec_history W l"
    "\<exists>f. folded_of W l sid = Some f \<and> folded_of W l' = (folded_of W l)(sid \<mapsto> g f)"
proof -
  obtain f hs where v: "folded_of W l sid = Some f" "histories_of W l sid = Some hs"
    "folded_of W l' = (folded_of W l)(sid := (case fold_event (wi_codec W) ev f of Inr g \<Rightarrow> Some g | Inl _ \<Rightarrow> None))"
    "histories_of W l' = (histories_of W l)(sid :=
       (case fold_journals_loop (wi_dec W) hs [ev] of Inr hs' \<Rightarrow> Some hs' | Inl _ \<Rightarrow> None))"
    using appended_view [OF assms(1-3)] by metis
  have h: "histories_of W l' = histories_of W l" using v(2,4) assms(4) by (auto simp: fun_eq_iff)
  show "\<exists>f. folded_of W l sid = Some f \<and> folded_of W l' = (folded_of W l)(sid \<mapsto> g f)" using v(1,3) g by simp
  show "log_reads W l'" using assms(2) v(3) g h by (simp add: log_reads_def)
  show "rec_history W l' = rec_history W l" using h by (simp add: rec_history_def fun_eq_iff)
qed

text \<open>Only the stream of one session is written.\<close>

definition touches :: "('l, 'd, 'r, 's, 'v, 'i, 'x) wiring \<Rightarrow> string \<Rightarrow> 'l \<Rightarrow> 'l \<Rightarrow> bool" where
  "touches W sid l l' \<longleftrightarrow> (\<forall>s. s \<noteq> sid \<longrightarrow> stream (wi_log W) s l' = stream (wi_log W) s l)"

lemma append_touches:
  assumes "log_laws (wi_log W)" "el_append (wi_log W) sid ev l = (y, l')"
  shows "touches W sid l l'" "y \<noteq> None \<Longrightarrow> same_streams W l l'"
  using assms log_append_ok [OF assms(1), of sid ev l l'] log_append_err [OF assms(1), of sid ev l _ l']
  by (cases y; force simp: touches_def same_streams_def)+

lemma same_streams_touches: "same_streams W l l' \<Longrightarrow> touches W sid l l'"
  by (simp add: same_streams_def touches_def)

subsection \<open>What an operation records\<close>

lemma append_event_effect:
  assumes "log_laws (wi_log W)" "append_event W sid x rt = (y, rt')"
  obtains l where "rt' = rt\<lparr>rt_log := l\<rparr>" "touches W sid (rt_log rt) l"
    "y \<noteq> None \<Longrightarrow> same_streams W (rt_log rt) l"
    "y = None \<Longrightarrow> \<exists>ev. x = Inr ev \<and> el_append (wi_log W) sid ev (rt_log rt) = (None, l)"
proof (cases x)
  case (Inl e)
  then have "y = Some e" "rt' = rt\<lparr>rt_log := rt_log rt\<rparr>" using assms(2) by (simp_all add: append_event_def)
  then show ?thesis using that [of "rt_log rt"] by (simp add: same_streams_touches)
next
  case (Inr ev)
  obtain z l where a: "el_append (wi_log W) sid ev (rt_log rt) = (z, l)" by fastforce
  then have "y = z" "rt' = rt\<lparr>rt_log := l\<rparr>" using assms(2) Inr by (simp_all add: append_event_def)
  then show ?thesis using that [of l] append_touches [OF assms(1) a] a Inr by auto
qed

lemma process_recorded:
  assumes W: "recording W F" and l: "log_reads W (rt_log rt)" and a: "append_process W p rt = (y, rt')"
  shows "log_reads W (rt_log rt')" "rec_history W (rt_log rt') = rec_history W (rt_log rt)"
    "rec_session W (rt_log rt') = rec_session W (rt_log rt)" "rec_tasks W (rt_log rt') = rec_tasks W (rt_log rt)"
    "touches W (ps_session p) (rt_log rt) (rt_log rt')"
    "rec_process W (rt_log rt') =
      (if y = None then (rec_process W (rt_log rt))(ps_session p :=
         (rec_process W (rt_log rt) (ps_session p))(json_text (ps_id p) \<mapsto> process_form F (stored_process p)))
       else rec_process W (rt_log rt))"
proof -
  have laws: "log_laws (wi_log W)" "codec_laws (wi_codec W) F" using W by (simp_all add: recording_def)
  obtain l' where l': "rt' = rt\<lparr>rt_log := l'\<rparr>" "touches W (ps_session p) (rt_log rt) l'"
    "y \<noteq> None \<Longrightarrow> same_streams W (rt_log rt) l'"
    "y = None \<Longrightarrow> \<exists>ev. process_state_event (wi_codec W) (rt_now W rt) (stored_process p) = Inr ev \<and>
        el_append (wi_log W) (ps_session p) ev (rt_log rt) = (None, l')"
    using append_event_effect [OF laws(1) a [unfolded append_process_def]] by metis
  show "touches W (ps_session p) (rt_log rt) (rt_log rt')" using l'(1,2) by simp
  have "log_reads W l' \<and> rec_history W l' = rec_history W (rt_log rt) \<and> rec_session W l' = rec_session W (rt_log rt) \<and>
    rec_tasks W l' = rec_tasks W (rt_log rt) \<and> rec_process W l' =
      (if y = None then (rec_process W (rt_log rt))(ps_session p :=
         (rec_process W (rt_log rt) (ps_session p))(json_text (ps_id p) \<mapsto> process_form F (stored_process p)))
       else rec_process W (rt_log rt))"
  proof (cases y)
    case (Some e)
    then have "same_streams W (rt_log rt) l'" using l'(3) by simp
    note same_streams_view [OF this]
    then show ?thesis using l Some by simp
  next
    case None
    obtain ev where ev: "process_state_event (wi_codec W) (rt_now W rt) (stored_process p) = Inr ev"
      "el_append (wi_log W) (ps_session p) ev (rt_log rt) = (None, l')" using l'(4) None by blast
    have k: "ev_kind ev = ev_process_state" "cd_dec_process (wi_codec W) (ev_data ev) = Inr (process_form F (stored_process p))"
      using ev(1) laws(2) by (auto simp: process_state_event_def encode_event_def codec_laws_def split: sum.splits)
    have "pr_id (stored_process p) = ps_id p" by (simp add: stored_process_def)
    then have g: "fold_event (wi_codec W) ev f =
        Inr (f\<lparr>fd_processes := mput (json_text (ps_id p)) (process_form F (stored_process p)) (fd_processes f)\<rparr>)" for f
      using k by (simp add: fold_event_def)
    have ns: "ev_kind ev \<noteq> ev_syscall" by (simp add: k(1))
    note v = state_event_view [OF laws(1) l ev(2) ns g]
    then show ?thesis using None by (auto simp: rec_process_def rec_session_def rec_tasks_def fun_eq_iff)
  qed
  then show "log_reads W (rt_log rt')" "rec_history W (rt_log rt') = rec_history W (rt_log rt)"
    "rec_session W (rt_log rt') = rec_session W (rt_log rt)" "rec_tasks W (rt_log rt') = rec_tasks W (rt_log rt)"
    "rec_process W (rt_log rt') =
      (if y = None then (rec_process W (rt_log rt))(ps_session p :=
         (rec_process W (rt_log rt) (ps_session p))(json_text (ps_id p) \<mapsto> process_form F (stored_process p)))
       else rec_process W (rt_log rt))" using l'(1) by simp_all
qed

lemma session_recorded:
  assumes W: "recording W F" and l: "log_reads W (rt_log rt)" and a: "append_session W s rt = (y, rt')"
  shows "log_reads W (rt_log rt')" "rec_history W (rt_log rt') = rec_history W (rt_log rt)"
    "rec_process W (rt_log rt') = rec_process W (rt_log rt)" "rec_tasks W (rt_log rt') = rec_tasks W (rt_log rt)"
    "touches W (ss_id s) (rt_log rt) (rt_log rt')"
    "\<exists>old. rec_session W (rt_log rt) (ss_id s) = Some old \<and> rec_session W (rt_log rt') =
      (if y = None then (rec_session W (rt_log rt))(ss_id s \<mapsto> merge_session old (session_form F (stored_session s)))
       else rec_session W (rt_log rt))"
    "y \<noteq> None \<Longrightarrow> same_streams W (rt_log rt) (rt_log rt')"
proof -
  have laws: "log_laws (wi_log W)" "codec_laws (wi_codec W) F" using W by (simp_all add: recording_def)
  obtain l' where l': "rt' = rt\<lparr>rt_log := l'\<rparr>" "touches W (ss_id s) (rt_log rt) l'"
    "y \<noteq> None \<Longrightarrow> same_streams W (rt_log rt) l'"
    "y = None \<Longrightarrow> \<exists>ev. session_state_event (wi_codec W) (rt_now W rt) (stored_session s) = Inr ev \<and>
        el_append (wi_log W) (ss_id s) ev (rt_log rt) = (None, l')"
    using append_event_effect [OF laws(1) a [unfolded append_session_def]] by metis
  show "touches W (ss_id s) (rt_log rt) (rt_log rt')" "y \<noteq> None \<Longrightarrow> same_streams W (rt_log rt) (rt_log rt')" using l'(1-3) by simp_all
  obtain f where f: "folded_of W (rt_log rt) (ss_id s) = Some f" using l unfolding log_reads_def by blast
  have "log_reads W l' \<and> rec_history W l' = rec_history W (rt_log rt) \<and> rec_process W l' = rec_process W (rt_log rt) \<and>
    rec_tasks W l' = rec_tasks W (rt_log rt) \<and> rec_session W l' =
      (if y = None then (rec_session W (rt_log rt))(ss_id s \<mapsto> merge_session (fd_session f) (session_form F (stored_session s)))
       else rec_session W (rt_log rt))"
  proof (cases y)
    case (Some e)
    then have "same_streams W (rt_log rt) l'" using l'(3) by simp
    note same_streams_view [OF this]
    then show ?thesis using l Some by simp
  next
    case None
    obtain ev where ev: "session_state_event (wi_codec W) (rt_now W rt) (stored_session s) = Inr ev"
      "el_append (wi_log W) (ss_id s) ev (rt_log rt) = (None, l')" using l'(4) None by blast
    have k: "ev_kind ev = ev_session_state" "cd_dec_session (wi_codec W) (ev_data ev) = Inr (session_form F (stored_session s))"
      using ev(1) laws(2) by (auto simp: session_state_event_def encode_event_def codec_laws_def split: sum.splits)
    have g: "fold_event (wi_codec W) ev f = Inr (f\<lparr>fd_session := merge_session (fd_session f) (session_form F (stored_session s))\<rparr>)" for f
      using k by (simp add: fold_event_def)
    have ns: "ev_kind ev \<noteq> ev_syscall" by (simp add: k(1))
    note v = state_event_view [OF laws(1) l ev(2) ns g]
    then show ?thesis using None f by (auto simp: rec_process_def rec_session_def rec_tasks_def fun_eq_iff)
  qed
  then show "log_reads W (rt_log rt')" "rec_history W (rt_log rt') = rec_history W (rt_log rt)"
    "rec_process W (rt_log rt') = rec_process W (rt_log rt)" "rec_tasks W (rt_log rt') = rec_tasks W (rt_log rt)"
    "\<exists>old. rec_session W (rt_log rt) (ss_id s) = Some old \<and> rec_session W (rt_log rt') =
      (if y = None then (rec_session W (rt_log rt))(ss_id s \<mapsto> merge_session old (session_form F (stored_session s)))
       else rec_session W (rt_log rt))"
    using l'(1) f by (simp_all add: rec_session_def)
qed

text \<open>A task event.\<close>

lemma task_recorded:
  assumes W: "recording W F" and l: "log_reads W l"
    and a: "store_append (wi_log W) (task_event (wi_codec W) kind) r l = (y, l')"
    and kind: "kind = ev_task_created \<or> kind = ev_task_resolved"
  shows "log_reads W l'" "rec_history W l' = rec_history W l" "rec_process W l' = rec_process W l"
    "rec_session W l' = rec_session W l" "touches W (pc_session (tk_scope r)) l l'" "y \<noteq> None \<Longrightarrow> same_streams W l l'"
proof -
  have laws: "log_laws (wi_log W)" "codec_laws (wi_codec W) F" using W by (simp_all add: recording_def)
  have "log_reads W l' \<and> rec_history W l' = rec_history W l \<and> rec_process W l' = rec_process W l \<and>
    rec_session W l' = rec_session W l \<and> touches W (pc_session (tk_scope r)) l l' \<and> (y \<noteq> None \<longrightarrow> same_streams W l l')"
  proof (cases "task_event (wi_codec W) kind (el_now (wi_log W) l) r")
    case (Inl e)
    then have "l' = l" using a by (simp add: store_append_def)
    then show ?thesis using l by (simp add: same_streams_touches)
  next
    case (Inr ev)
    then have e: "el_append (wi_log W) (pc_session (tk_scope r)) ev l = (y, l')" using a by (simp add: store_append_def)
    note t = append_touches [OF laws(1) e]
    show ?thesis
    proof (cases y)
      case (Some z)
      then show ?thesis using same_streams_view [OF t(2)] t l by simp
    next
      case None
      have k: "ev_kind ev = kind" using Inr by (auto simp: task_event_def encode_event_def split: sum.splits)
      then have ns: "ev_kind ev \<noteq> ev_syscall" using kind by auto
      note v = state_event_view [OF laws(1) l e [unfolded None] ns fold_event_task [OF laws(2) Inr kind]]
      then show ?thesis using t None by (auto simp: rec_process_def rec_session_def rec_tasks_def fun_eq_iff)
    qed
  qed
  then show "log_reads W l'" "rec_history W l' = rec_history W l" "rec_process W l' = rec_process W l"
    "rec_session W l' = rec_session W l" "touches W (pc_session (tk_scope r)) l l'" "y \<noteq> None \<Longrightarrow> same_streams W l l'" by simp_all
qed

text \<open>A journal record.\<close>

lemma record_recorded:
  assumes W: "recording W F" and l: "log_reads W (lj_log j)"
    and a: "append_record (proc_journal_ops W) r j = (y, j')"
  shows "log_reads W (lj_log j')" "rec_process W (lj_log j') = rec_process W (lj_log j)"
    "rec_session W (lj_log j') = rec_session W (lj_log j)" "rec_tasks W (lj_log j') = rec_tasks W (lj_log j)" "touches W (lj_session j) (lj_log j) (lj_log j')"
    "names j' = names j"
    "y \<noteq> None \<Longrightarrow> same_streams W (lj_log j) (lj_log j') \<and> journal_view j' = journal_view j"
    "y = None \<Longrightarrow> lj_history j' = history_add (r\<lparr>jr_position := lj_length j, jr_revision := lj_revision j\<rparr>) (lj_history j) \<and>
       lj_length j' = Suc (lj_length j) \<and>
       rec_history W (lj_log j') = (rec_history W (lj_log j))(lj_session j := (rec_history W (lj_log j) (lj_session j))
         (lj_process j := history_add (record_form F (r\<lparr>jr_position := lj_length j, jr_revision := lj_revision j\<rparr>))
            (rec_history W (lj_log j) (lj_session j) (lj_process j))))"
proof -
  have laws: "log_laws (wi_log W)" "codec_ok (wi_enc W) (wi_dec W) (jf_syscall F) (jf_result F)"
    using W by (simp_all add: recording_def)
  let ?l = "lj_log j"
  let ?r = "r\<lparr>jr_position := lj_length j, jr_revision := lj_revision j\<rparr>"
  let ?goal = "log_reads W (lj_log j') \<and> rec_process W (lj_log j') = rec_process W ?l \<and>
    rec_session W (lj_log j') = rec_session W ?l \<and> rec_tasks W (lj_log j') = rec_tasks W ?l \<and> touches W (lj_session j) ?l (lj_log j') \<and> names j' = names j \<and>
    (y \<noteq> None \<longrightarrow> same_streams W ?l (lj_log j') \<and> journal_view j' = journal_view j) \<and>
    (y = None \<longrightarrow> lj_history j' = history_add ?r (lj_history j) \<and> lj_length j' = Suc (lj_length j) \<and>
       rec_history W (lj_log j') = (rec_history W ?l)(lj_session j := (rec_history W ?l (lj_session j))
         (lj_process j := history_add (record_form F ?r) (rec_history W ?l (lj_session j) (lj_process j)))))"
  have a': "lj_append (wi_log W) (wi_enc W) (r\<lparr>jr_position := lj_length j\<rparr>) j = (y, j')"
    using a by (simp add: append_record_def proc_journal_ops_def log_journal_ops_def)
  have ?goal
  proof (cases "encode_event (wi_enc W) ev_syscall (lj_process j) (lj_revision j) (el_now (wi_log W) ?l) ?r")
    case (Inl e)
    then have "y = Some e" "j' = j" using a' by (simp_all add: lj_append_def)
    then show ?thesis using l by (simp add: same_streams_touches)
  next
    case (Inr ev)
    obtain z l' where e: "el_append (wi_log W) (lj_session j) ev ?l = (z, l')" by fastforce
    note t = append_touches [OF laws(1) e]
    show ?thesis
    proof (cases z)
      case (Some x)
      then have "y = Some x" "j' = j\<lparr>lj_log := l'\<rparr>" using a' Inr e by (simp_all add: lj_append_def)
      moreover have "same_streams W ?l l'" using t(2) Some by simp
      ultimately show ?thesis using same_streams_view [of W ?l l'] t(1) l by (simp add: names_def journal_view_def)
    next
      case None
      then have j: "y = None" "j' = j\<lparr>lj_log := l', lj_history := history_add ?r (lj_history j), lj_length := lj_length j + 1\<rparr>"
        using a' Inr e by (simp_all add: lj_append_def)
      have k: "ev_kind ev = ev_syscall" "ev_proc ev = lj_process j" "wi_dec W (ev_data ev) = Inr (record_form F ?r)"
        using Inr laws(2) by (auto simp: encode_event_def codec_ok_def record_form_def split: sum.splits)
      obtain f hs where v: "folded_of W ?l (lj_session j) = Some f" "histories_of W ?l (lj_session j) = Some hs"
        "folded_of W l' = (folded_of W ?l)(lj_session j := (case fold_event (wi_codec W) ev f of Inr g \<Rightarrow> Some g | Inl _ \<Rightarrow> None))"
        "histories_of W l' = (histories_of W ?l)(lj_session j :=
           (case fold_journals_loop (wi_dec W) hs [ev] of Inr hs' \<Rightarrow> Some hs' | Inl _ \<Rightarrow> None))"
        using appended_view [OF laws(1) l e [unfolded None]] by metis
      have fe: "fold_event (wi_codec W) ev f = Inr f" by (simp add: fold_event_def k(1))
      have he: "fold_journals_loop (wi_dec W) hs [ev] = Inr (mput (lj_process j) (history_add (record_form F ?r) (history_in (lj_process j) hs)) hs)"
        by (simp add: k history_in_def)
      have fo: "folded_of W l' = folded_of W ?l" using v(1,3) fe by (simp add: fun_upd_idem)
      have "rec_history W l' = (rec_history W ?l)(lj_session j := (rec_history W ?l (lj_session j))
         (lj_process j := history_add (record_form F ?r) (rec_history W ?l (lj_session j) (lj_process j))))"
        using v(2) v(4) [unfolded he sum.case] by (auto simp: rec_history_def history_in_def fun_eq_iff)
      moreover have "log_reads W l'" using l fo v(4) [unfolded he sum.case] by (simp add: log_reads_def)
      ultimately show ?thesis using fo t(1) j by (simp add: names_def rec_process_def rec_session_def rec_tasks_def fun_eq_iff)
    qed
  qed
  then show "log_reads W (lj_log j')" "rec_process W (lj_log j') = rec_process W (lj_log j)"
    "rec_session W (lj_log j') = rec_session W (lj_log j)" "rec_tasks W (lj_log j') = rec_tasks W (lj_log j)" "touches W (lj_session j) (lj_log j) (lj_log j')"
    "names j' = names j"
    "y \<noteq> None \<Longrightarrow> same_streams W (lj_log j) (lj_log j') \<and> journal_view j' = journal_view j"
    "y = None \<Longrightarrow> lj_history j' = history_add ?r (lj_history j) \<and> lj_length j' = Suc (lj_length j) \<and>
       rec_history W (lj_log j') = (rec_history W (lj_log j))(lj_session j := (rec_history W (lj_log j) (lj_session j))
         (lj_process j := history_add (record_form F ?r) (rec_history W (lj_log j) (lj_session j) (lj_process j))))"
    by blast+
qed

end
