(* ===== verification/Logged.thy ===== *)
theory Logged
  imports Recorded
begin

text \<open>
  The log and the memory agree in every reachable state: what is recorded of a process is the
  process at some moment since its last recorded change, its whole history is on the log, and
  the tasks on the log are the tasks in memory. It is what a restart relies on.
\<close>

subsection \<open>What is recorded of a process\<close>

text \<open>
  The identity of a process, as its records give it: the same process, session and creation time,
  and the JSON form of its input, its manifest and its program's digest. Its identifiers are ones
  JSON keeps: a prefix and hexadecimal digits.
\<close>

definition same_record :: "'r json_forms \<Rightarrow> 'r process_state \<Rightarrow> process_rec \<Rightarrow> bool" where
  "same_record F p r \<longleftrightarrow>
     pr_id r = ps_id p \<and> pr_session r = ps_session p \<and> pr_input r = json_text (ps_input p) \<and>
     pr_manifest r = jf_manifest F (ps_manifest p) \<and> pr_digest r = json_text (ps_digest p) \<and>
     pr_created r = ps_created p"

definition ids_kept :: "'r process_state \<Rightarrow> bool" where
  "ids_kept p \<longleftrightarrow> json_kept (ps_id p) \<and> json_kept (ps_session p)"

lemma ids_kept_same: "same_identity p p' \<Longrightarrow> ids_kept p' = ids_kept p"
  by (simp add: ids_kept_def same_identity_def)

text \<open>The journal a restart opens for a recorded state, over the process's history.\<close>

definition recorded_journal :: "'r process_state \<Rightarrow> process_rec \<Rightarrow> (unit, 'r) log_journal" where
  "recorded_journal p r =
     new_log_journal () (ps_session p) (ps_id p) (pr_revision r) (ps_history p)
       (history_length (ps_history p) (pr_revision r) (pr_fork r))"

definition proc_logged :: "'r json_forms \<Rightarrow> 'r process_state \<Rightarrow> process_rec \<Rightarrow> bool" where
  "proc_logged F p r \<longleftrightarrow>
     same_record F p r \<and> pr_aborts r \<le> max_abort_retries \<and> pr_revision r \<le> ps_revision p \<and>
     (pr_revision r = ps_revision p \<longrightarrow> pr_fork r = ps_fork p) \<and>
     (pr_revision r < ps_revision p \<longrightarrow> wf_journal (recorded_journal p r))"

definition len_ok :: "'r process_state \<Rightarrow> bool" where
  "len_ok p \<longleftrightarrow> history_length (ps_history p) (ps_revision p) (ps_fork p) = ps_length p"

lemma stored_logged: "proc_ok p \<Longrightarrow> ids_kept p \<Longrightarrow> proc_logged F p (process_form F (stored_process p))"
  by (simp add: proc_logged_def same_record_def stored_process_def proc_ok_def ids_kept_def json_keptD)

lemma proc_logged_wf:
  assumes "proc_logged F p r" "proc_ok p" "len_ok p"
  shows "wf_journal (recorded_journal p r)"
proof (cases "pr_revision r < ps_revision p")
  case True
  then show ?thesis using assms(1) by (simp add: proc_logged_def)
next
  case False
  then have "recorded_journal p r = proc_journal () p"
    using assms(1,3) by (simp add: proc_logged_def recorded_journal_def proc_journal_def len_ok_def)
  then show ?thesis using assms(2) by (simp add: proc_ok_def)
qed

text \<open>A later state of the process, over the same history.\<close>

lemma proc_logged_later:
  assumes "proc_logged F p r" "proc_ok p" "len_ok p" "same_identity p p'" "ps_history p' = ps_history p"
    and "ps_revision p \<le> ps_revision p'" "ps_revision p' = ps_revision p \<Longrightarrow> ps_fork p' = ps_fork p"
  shows "proc_logged F p' r"
  using assms proc_logged_wf [OF assms(1-3)]
  by (auto simp: proc_logged_def same_record_def recorded_journal_def same_identity_def)

lemma fork_length:
  assumes "lj_ok j"
  shows "history_length (lj_history j) (Suc (lj_revision j)) off = off"
proof -
  have d: "distinct (map fst (lj_history j))" using assms by (simp add: lj_ok_def)
  have none: "jr_revision r \<noteq> Suc (lj_revision j)" if "r \<in> set (at_pos (lj_history j) i)" for i r
    using assms that unfolding lj_ok_def by (metis Suc_n_not_le_n)
  have "history_length (lj_history j) (Suc (lj_revision j)) off \<le> m \<longleftrightarrow> off \<le> m" for m
    unfolding history_length_at_pos [OF d] using none by blast
  then show ?thesis by (meson antisym order_refl)
qed

lemma fork_len_ok:
  assumes f: "fork_process off p rt = (p1, rt1)" and p: "proc_ok p" "off \<le> ps_length p"
  shows "len_ok p1"
proof -
  have p1: "ps_history p1 = ps_history p" "ps_revision p1 = Suc (ps_revision p)" "ps_fork p1 = off" "ps_length p1 = off"
    using f by (auto simp: fork_process_def Let_def)
  have "lj_ok (proc_journal () p)" using p(1) proc_ok_journal [of p "()"] by simp
  from fork_length [OF this, of off] have "history_length (ps_history p) (Suc (ps_revision p)) off = off"
    by (simp add: proc_journal_def new_log_journal_def)
  then show ?thesis by (simp add: len_ok_def p1)
qed

subsection \<open>The invariant\<close>

text \<open>
  A log that takes every append, and a manifest the encoder takes (a grant's configuration can make
  it panic or fail, the rest of a process's record cannot): then what is recorded of the process
  is always up to date while the runtime is open.
\<close>

definition takes_all :: "('l, 'd) evlog \<Rightarrow> bool" where
  "takes_all L \<longleftrightarrow> (\<forall>s ev l. fst (el_append L s ev l) = None)"

definition encodable :: "'d durable_codec \<Rightarrow> manifest \<Rightarrow> bool" where
  "encodable D m \<longleftrightarrow> (\<forall>r. pr_manifest r = m \<longrightarrow> (\<exists>d. cd_enc_process D r = Inr d))"

definition exact :: "('l, 'd, 'r, 's, 'v, 'i, 'x) wiring \<Rightarrow> ('l, 'r, 's, 'x) runtime \<Rightarrow> 'r process_state \<Rightarrow> bool" where
  "exact W rt p \<longleftrightarrow> takes_all (wi_log W) \<and> encodable (wi_codec W) (ps_manifest p) \<and> \<not> rt_closed rt"

lemma exact_append:
  assumes "takes_all (wi_log W)" "encodable (wi_codec W) (ps_manifest p)" "append_process W p x = (y, x')"
  shows "y = None"
proof -
  have "pr_manifest (stored_process p) = ps_manifest p" by (simp add: stored_process_def)
  then obtain d where "cd_enc_process (wi_codec W) (stored_process p) = Inr d" using assms(2) unfolding encodable_def by blast
  then obtain ev where ev: "process_state_event (wi_codec W) (rt_now W x) (stored_process p) = Inr ev"
    by (simp add: process_state_event_def encode_event_def)
  have "fst (el_append (wi_log W) (ps_session p) ev (rt_log x)) = None" using assms(1) unfolding takes_all_def by blast
  then show ?thesis using assms(3) ev by (auto simp: append_process_def append_event_def split: prod.splits)
qed

lemma exact_same: "same_identity p p' \<Longrightarrow> exact W rt p' = exact W rt p"
  by (simp add: exact_def same_identity_def)

abbreviation running_procs :: "('l, 'r, 's, 'x) runtime \<Rightarrow> string set" where
  "running_procs rt \<equiv> ex_process ` set (rt_execs rt)"

definition process_recorded_at ::
    "('l, 'd, 'r, 's, 'v, 'i, 'x) wiring \<Rightarrow> 'r json_forms \<Rightarrow> ('l, 'r, 's, 'x) runtime \<Rightarrow> string \<Rightarrow> 'r process_state \<Rightarrow> bool"
where
  "process_recorded_at W F rt pid p \<longleftrightarrow>
     ids_kept p \<and> len_ok p \<and> rec_history W (rt_log rt) (ps_session p) pid = history_form F (ps_history p) \<and>
     (\<exists>r. rec_process W (rt_log rt) (ps_session p) pid = Some r \<and> proc_logged F p r \<and>
        (pid \<in> running_procs rt \<longrightarrow> pr_revision r = ps_revision p) \<and>
        (exact W rt p \<longrightarrow> r = process_form F (stored_process p)))"

definition session_recorded_at ::
    "('l, 'd, 'r, 's, 'v, 'i, 'x) wiring \<Rightarrow> 'l \<Rightarrow> string \<Rightarrow> string option \<Rightarrow> bool"
where
  "session_recorded_at W l sid name \<longleftrightarrow>
     (case name of
        None \<Rightarrow> stream (wi_log W) sid l = []
      | Some n \<Rightarrow> sid \<noteq> '''' \<and> json_kept sid \<and>
          (\<exists>q. rec_session W l sid = Some q \<and> se_id q = sid \<and> se_name q = json_text n \<and> se_active q = ''''))"

definition session_name :: "('l, 'r, 's, 'x) runtime \<Rightarrow> string \<Rightarrow> string option" where
  "session_name rt sid = map_option ss_name (mget (rt_sessions rt) sid)"

abbreviation rt_store :: "('l, 'r, 's, 'x) runtime \<Rightarrow> 'l task_store" where
  "rt_store rt \<equiv> \<lparr>ts_records = rt_tasks rt, ts_log = rt_log rt\<rparr>"

definition tasks_recorded ::
    "('l, 'd, 'r, 's, 'v, 'i, 'x) wiring \<Rightarrow> 'r json_forms \<Rightarrow> (string \<Rightarrow> string option) \<Rightarrow> 'l task_store \<Rightarrow> bool"
where
  "tasks_recorded W F N s \<longleftrightarrow>
     store_wf s \<and> tasks_kept s \<and> tasks_logged (wi_log W) (wi_codec W) F s \<and>
     (\<forall>k r. mget (ts_records s) k = Some r \<longrightarrow> N (pc_session (tk_scope r)) \<noteq> None)"

definition log_ok :: "('l, 'd, 'r, 's, 'v, 'i, 'x) wiring \<Rightarrow> 'r json_forms \<Rightarrow> ('l, 'r, 's, 'x) runtime \<Rightarrow> bool" where
  "log_ok W F rt \<longleftrightarrow>
     log_reads W (rt_log rt) \<and>
     (\<forall>pid p. mget (rt_processes rt) pid = Some p \<longrightarrow> process_recorded_at W F rt pid p) \<and>
     (\<forall>sid pid. (\<forall>p. mget (rt_processes rt) pid = Some p \<longrightarrow> ps_session p \<noteq> sid) \<longrightarrow>
        rec_process W (rt_log rt) sid pid = None \<and> rec_history W (rt_log rt) sid pid = []) \<and>
     (\<forall>sid. session_recorded_at W (rt_log rt) sid (session_name rt sid)) \<and>
     tasks_recorded W F (session_name rt) (rt_store rt)"

lemma log_okD:
  assumes "log_ok W F rt"
  shows "log_reads W (rt_log rt)" "mget (rt_processes rt) pid = Some p \<Longrightarrow> process_recorded_at W F rt pid p"
    "(\<And>p. mget (rt_processes rt) pid = Some p \<Longrightarrow> ps_session p \<noteq> sid) \<Longrightarrow>
       rec_process W (rt_log rt) sid pid = None \<and> rec_history W (rt_log rt) sid pid = []"
    "session_recorded_at W (rt_log rt) sid (session_name rt sid)" "tasks_recorded W F (session_name rt) (rt_store rt)"
  using assms unfolding log_ok_def by blast+

lemma tasks_logged_view:
  assumes "rec_tasks W l' = rec_tasks W l"
  shows "tasks_logged (wi_log W) (wi_codec W) F \<lparr>ts_records = m, ts_log = l'\<rparr> =
    tasks_logged (wi_log W) (wi_codec W) F \<lparr>ts_records = m, ts_log = l\<rparr>"
proof -
  have r: "tasks_logged (wi_log W) (wi_codec W) F \<lparr>ts_records = m, ts_log = l\<rparr> \<longleftrightarrow>
      (\<forall>sid. \<exists>ts. rec_tasks W l sid = Some ts \<and> distinct (map fst ts) \<and> (\<forall>x \<in> set ts. tk_id (snd x) = fst x) \<and>
        mget ts = logged_tasks F sid m)" for l
    unfolding tasks_logged_def rec_tasks_def folded_of_def by (intro arg_cong [of _ _ All] ext) (auto split: sum.split)
  show ?thesis unfolding r using assms by simp
qed

lemma tasks_recorded_view:
  assumes "tasks_recorded W F N \<lparr>ts_records = m, ts_log = l\<rparr>" "rec_tasks W l' = rec_tasks W l"
    "\<And>k. N k \<noteq> None \<Longrightarrow> N' k \<noteq> None"
  shows "tasks_recorded W F N' \<lparr>ts_records = m, ts_log = l'\<rparr>"
  using assms(1) tasks_logged_view [OF assms(2), of F m] assms(3)
  unfolding tasks_recorded_def store_wf_def tasks_kept_def by simp

lemma session_recorded_cong:
  assumes "stream (wi_log W) k l' = stream (wi_log W) k l" "rec_session W l' k = rec_session W l k"
  shows "session_recorded_at W l' k N = session_recorded_at W l k N"
  using assms by (simp add: session_recorded_at_def split: option.split)

text \<open>Sessions, when a stream of one of them is written and none of their records.\<close>

lemma session_recorded_touch:
  assumes "session_recorded_at W l k N" "rec_session W l' = rec_session W l" "touches W sid l l'" "k = sid \<longrightarrow> N \<noteq> None"
  shows "session_recorded_at W l' k N"
  using assms by (cases N) (auto simp: session_recorded_at_def touches_def)

subsection \<open>Changes that record nothing or one process\<close>

lemma log_ok_same:
  assumes lo: "log_ok W F rt" and s: "same_streams W (rt_log rt) (rt_log rt')"
    and rt': "mget (rt_processes rt') = mget (rt_processes rt)" "session_name rt' = session_name rt"
      "rt_tasks rt' = rt_tasks rt" "running_procs rt' \<subseteq> running_procs rt" "rt_closed rt \<longrightarrow> rt_closed rt'"
  shows "log_ok W F rt'"
proof -
  note v = same_streams_view [OF s]
  have st: "stream (wi_log W) sid (rt_log rt') = stream (wi_log W) sid (rt_log rt)" for sid
    using s by (simp add: same_streams_def)
  have ex: "exact W rt' p \<Longrightarrow> exact W rt p" for p using rt'(5) by (auto simp: exact_def)
  have "process_recorded_at W F rt' pid p" if "mget (rt_processes rt) pid = Some p" for pid p
    using log_okD(2) [OF lo that] rt'(4) ex unfolding process_recorded_at_def v by blast
  moreover have "session_recorded_at W (rt_log rt') sid (session_name rt sid)" for sid
    using log_okD(4) [OF lo, of sid] unfolding session_recorded_at_def v st .
  moreover have "tasks_recorded W F (session_name rt) (rt_store rt')"
    using tasks_recorded_view [OF log_okD(5) [OF lo] v(5)] rt'(3) by auto
  ultimately show ?thesis using log_okD(1,3) [OF lo] unfolding log_ok_def rt'(1,2) v by blast
qed

text \<open>One process changes, and its session's stream may be written.\<close>

lemma log_ok_written:
  assumes lo: "log_ok W F rt" and s: "session_name rt (ps_session p) \<noteq> None" and p: "mget (rt_processes rt) pid = Some p"
    and rt': "mget (rt_processes rt') = (mget (rt_processes rt))(pid \<mapsto> p')" "session_name rt' = session_name rt"
      "rt_tasks rt' = rt_tasks rt" "running_procs rt' \<subseteq> insert pid (running_procs rt)" "rt_closed rt \<longrightarrow> rt_closed rt'"
    and p': "ps_session p' = ps_session p" "len_ok p'" "ids_kept p'"
    and l: "log_reads W (rt_log rt')"
      "rec_history W (rt_log rt') = (rec_history W (rt_log rt))
         (ps_session p := (rec_history W (rt_log rt) (ps_session p))(pid := history_form F (ps_history p')))"
      "rec_session W (rt_log rt') = rec_session W (rt_log rt)" "rec_tasks W (rt_log rt') = rec_tasks W (rt_log rt)"
      "touches W (ps_session p) (rt_log rt) (rt_log rt')"
      "rec_process W (rt_log rt') = (rec_process W (rt_log rt))(ps_session p := (rec_process W (rt_log rt) (ps_session p))(pid \<mapsto> r))"
    and r: "proc_logged F p' r" "pid \<in> running_procs rt' \<Longrightarrow> pr_revision r = ps_revision p'"
      "exact W rt' p' \<Longrightarrow> r = process_form F (stored_process p')"
  shows "log_ok W F rt'"
proof -
  have ex: "exact W rt' q \<Longrightarrow> exact W rt q" for q using rt'(5) by (auto simp: exact_def)
  have own: "process_recorded_at W F rt' pid p'"
    using p' l(2,6) r unfolding process_recorded_at_def by simp
  have other: "process_recorded_at W F rt' k q" if q: "mget (rt_processes rt) k = Some q" "k \<noteq> pid" for k q
  proof -
    have "rec_process W (rt_log rt') (ps_session q) k = rec_process W (rt_log rt) (ps_session q) k"
      using l(6) q(2) by simp
    moreover have "k \<in> running_procs rt' \<Longrightarrow> k \<in> running_procs rt" using rt'(4) q(2) by blast
    moreover obtain r where "rec_process W (rt_log rt) (ps_session q) k = Some r" "proc_logged F q r"
      "k \<in> running_procs rt \<longrightarrow> pr_revision r = ps_revision q" "exact W rt q \<longrightarrow> r = process_form F (stored_process q)"
      using log_okD(2) [OF lo q(1)] unfolding process_recorded_at_def by blast
    ultimately show ?thesis using log_okD(2) [OF lo q(1)] ex q(2) unfolding process_recorded_at_def l(2) by auto
  qed
  have "process_recorded_at W F rt' k q" if "mget (rt_processes rt') k = Some q" for k q
    using that own other by (cases "k = pid") (auto simp: rt'(1))
  moreover have "rec_process W (rt_log rt') sid k = None \<and> rec_history W (rt_log rt') sid k = []"
    if "\<forall>q. mget (rt_processes rt') k = Some q \<longrightarrow> ps_session q \<noteq> sid" for sid k
  proof -
    have n: "ps_session q \<noteq> sid" if "mget (rt_processes rt) k = Some q" for q
      using that \<open>\<forall>q. mget (rt_processes rt') k = Some q \<longrightarrow> ps_session q \<noteq> sid\<close> p p'(1)
      by (cases "k = pid") (auto simp: rt'(1))
    have "\<not> (sid = ps_session p \<and> k = pid)" using n p by blast
    then show ?thesis using log_okD(3) [OF lo n] l(2,6) by auto
  qed
  moreover have "session_recorded_at W (rt_log rt') sid (session_name rt' sid)" for sid
    unfolding rt'(2) by (rule session_recorded_touch [OF log_okD(4) [OF lo] l(3,5)]) (use s in simp)
  moreover have "tasks_recorded W F (session_name rt') (rt_store rt')"
    using tasks_recorded_view [OF log_okD(5) [OF lo] l(4)] rt'(2,3) by auto
  ultimately show ?thesis using l(1) unfolding log_ok_def by blast
qed

lemma log_ok_process:
  assumes lo: "log_ok W F rt" and ok: "rt_ok rt" and p: "mget (rt_processes rt) pid = Some p"
    and rt': "mget (rt_processes rt') = (mget (rt_processes rt))(pid \<mapsto> p')" "session_name rt' = session_name rt"
      "rt_tasks rt' = rt_tasks rt" "running_procs rt' \<subseteq> insert pid (running_procs rt)" "rt_closed rt \<longrightarrow> rt_closed rt'"
    and p': "ps_session p' = ps_session p" "ps_history p' = ps_history p" "len_ok p'" "ids_kept p'"
    and l: "log_reads W (rt_log rt')" "rec_history W (rt_log rt') = rec_history W (rt_log rt)"
      "rec_session W (rt_log rt') = rec_session W (rt_log rt)" "rec_tasks W (rt_log rt') = rec_tasks W (rt_log rt)"
      "touches W (ps_session p) (rt_log rt) (rt_log rt')"
      "rec_process W (rt_log rt') = (rec_process W (rt_log rt))(ps_session p := (rec_process W (rt_log rt) (ps_session p))(pid \<mapsto> r))"
    and r: "proc_logged F p' r" "pid \<in> running_procs rt' \<Longrightarrow> pr_revision r = ps_revision p'"
      "exact W rt' p' \<Longrightarrow> r = process_form F (stored_process p')"
  shows "log_ok W F rt'"
proof -
  obtain s where s: "mget (rt_sessions rt) (ps_session p) = Some s" using rt_okD(4) [OF ok p] by blast
  have N: "session_name rt (ps_session p) \<noteq> None" using s by (simp add: session_name_def)
  have h: "rec_history W (rt_log rt') =
      (rec_history W (rt_log rt))(ps_session p := (rec_history W (rt_log rt) (ps_session p))(pid := history_form F (ps_history p')))"
    using log_okD(2) [OF lo p] l(2) p'(2) by (auto simp: process_recorded_at_def fun_eq_iff)
  show ?thesis by (rule log_ok_written [OF lo N p rt' p'(1,3,4) l(1) h l(3-6) r])
qed

text \<open>A change of one process that is appended, whether the append succeeds or not.\<close>

lemma log_ok_append:
  assumes W: "recording W F" and lo: "log_ok W F rt" and ok: "rt_ok rt" and p: "mget (rt_processes rt) pid = Some p"
    and a: "append_process W p' x = (y, x')" "rt_log x = rt_log rt" "rt_log rt' = rt_log x'"
    and rt': "mget (rt_processes rt') = (mget (rt_processes rt))(pid \<mapsto> p')" "session_name rt' = session_name rt"
      "rt_tasks rt' = rt_tasks rt" "running_procs rt' \<subseteq> insert pid (running_procs rt)" "rt_closed rt \<longrightarrow> rt_closed rt'"
    and p': "same_identity p p'" "ps_history p' = ps_history p" "len_ok p'" "proc_ok p'" "ps_revision p \<le> ps_revision p'"
      "ps_revision p' = ps_revision p \<Longrightarrow> ps_fork p' = ps_fork p"
    and own: "pid \<in> running_procs rt' \<Longrightarrow> y = None \<or> ps_revision p' = ps_revision p \<and> pid \<in> running_procs rt"
  shows "log_ok W F rt'"
proof -
  have id: "ps_id p' = pid" "ps_session p' = ps_session p" using p'(1) rt_okD(1) [OF ok p] by (simp_all add: same_identity_def)
  have "ids_kept p" using log_okD(2) [OF lo p] by (simp add: process_recorded_at_def)
  then have ik: "ids_kept p'" using ids_kept_same [OF p'(1)] by simp
  then have key: "json_text pid = pid" using id(1) by (simp add: ids_kept_def json_keptD)
  note e = process_recorded [OF W _ a(1), unfolded a(2) a(3) [symmetric] id key, OF log_okD(1) [OF lo]]
  show ?thesis
  proof (cases y)
    case None
    show ?thesis
      by (rule log_ok_process [OF lo ok p rt' id(2) p'(2,3) ik e(1-5), of "process_form F (stored_process p')"])
        (use e(6) None stored_logged [OF p'(4) ik] in \<open>simp_all add: stored_process_def\<close>)
  next
    case (Some z)
    obtain r where r: "rec_process W (rt_log rt) (ps_session p) pid = Some r" "proc_logged F p r"
      "pid \<in> running_procs rt \<longrightarrow> pr_revision r = ps_revision p" and len: "len_ok p"
      using log_okD(2) [OF lo p] unfolding process_recorded_at_def by blast
    have same: "rec_process W (rt_log rt') =
        (rec_process W (rt_log rt))(ps_session p := (rec_process W (rt_log rt) (ps_session p))(pid \<mapsto> r))"
      using e(6) Some r(1) by (simp add: fun_upd_idem)
    show ?thesis
    proof (rule log_ok_process [OF lo ok p rt' id(2) p'(2,3) ik e(1-5) same])
      show "proc_logged F p' r" by (rule proc_logged_later [OF r(2) rt_okD(3) [OF ok p] len p'(1,2,5,6)])
      show "pr_revision r = ps_revision p'" if "pid \<in> running_procs rt'" using own [OF that] r(3) Some by simp
      show "r = process_form F (stored_process p')" if "exact W rt' p'"
        using exact_append [OF _ _ a(1)] that Some by (simp add: exact_def)
    qed
  qed
qed

text \<open>A change of one process that is not appended.\<close>

lemma log_ok_silent:
  assumes lo: "log_ok W F rt" and ok: "rt_ok rt" and p: "mget (rt_processes rt) pid = Some p"
    and s: "same_streams W (rt_log rt) (rt_log rt')"
    and rt': "mget (rt_processes rt') = (mget (rt_processes rt))(pid \<mapsto> p')" "session_name rt' = session_name rt"
      "rt_tasks rt' = rt_tasks rt" "running_procs rt' \<subseteq> running_procs rt" "rt_closed rt \<longrightarrow> rt_closed rt'"
    and p': "same_identity p p'" "ps_history p' = ps_history p" "len_ok p'" "ps_revision p \<le> ps_revision p'"
      "ps_revision p' = ps_revision p \<Longrightarrow> ps_fork p' = ps_fork p"
    and own: "pid \<in> running_procs rt' \<Longrightarrow> ps_revision p' = ps_revision p"
    and ex: "exact W rt' p' \<Longrightarrow> stored_process p' = stored_process p"
  shows "log_ok W F rt'"
proof -
  note v = same_streams_view [OF s]
  have id: "ps_session p' = ps_session p" using p'(1) by (simp add: same_identity_def)
  obtain r where r: "rec_process W (rt_log rt) (ps_session p) pid = Some r" "proc_logged F p r"
    "pid \<in> running_procs rt \<longrightarrow> pr_revision r = ps_revision p"
    "exact W rt p \<longrightarrow> r = process_form F (stored_process p)" and len: "len_ok p" and ik: "ids_kept p"
    using log_okD(2) [OF lo p] unfolding process_recorded_at_def by blast
  have ik': "ids_kept p'" using ids_kept_same [OF p'(1)] ik by simp
  show ?thesis
  proof (rule log_ok_process [OF lo ok p rt'(1-3) _ rt'(5) id p'(2,3) ik'])
    show "proc_logged F p' r" by (rule proc_logged_later [OF r(2) rt_okD(3) [OF ok p] len p'(1,2,4,5)])
    show "rec_process W (rt_log rt') =
        (rec_process W (rt_log rt))(ps_session p := (rec_process W (rt_log rt) (ps_session p))(pid \<mapsto> r))"
      using v(2) r(1) by (simp add: fun_upd_idem)
    show "pr_revision r = ps_revision p'" if "pid \<in> running_procs rt'" using own [OF that] r(3) rt'(4) that by auto
    show "r = process_form F (stored_process p')" if "exact W rt' p'"
      using r(4) ex [OF that] that rt'(5) exact_same [OF p'(1), of W] by (auto simp: exact_def)
  qed (use v log_okD(1) [OF lo] rt'(4) same_streams_touches [OF s] in auto)
qed

subsection \<open>What the operations append\<close>

lemma put_log [simp]:
  "rt_log (put_process p rt) = rt_log rt" "rt_log (put_session s rt) = rt_log rt" "rt_log (put_exec e rt) = rt_log rt"
  "rt_log (launch pid rt) = rt_log rt" "rt_log (cancel_exec k rt) = rt_log rt"
  by (simp_all add: put_process_def put_session_def put_exec_def launch_def cancel_exec_def)

lemma relaunch_append:
  assumes r: "relaunch W p rt = Some (y, rt')"
  shows "rt_closed rt \<and> rt' = rt \<or>
    \<not> rt_closed rt \<and> (\<exists>x a x'. append_process W (queued (rt_now W rt) p) x = (a, x') \<and> rt_log x = rt_log rt \<and>
       rt_log rt' = rt_log x' \<and> (a = None \<longleftrightarrow> \<not> isl y))"
proof (cases "rt_closed rt")
  case True
  then show ?thesis using r by (simp add: relaunch_def)
next
  case False
  let ?p = "queued (rt_now W rt) p"
  obtain s where s: "mget (rt_sessions rt) (ps_session p) = Some s" using r False by (auto simp: relaunch_def bind_eq_Some_conv)
  let ?x = "put_session (s\<lparr>ss_active := ps_id p, ss_updated := ps_updated ?p\<rparr>) (put_process ?p rt)"
  obtain a x' where a: "append_process W ?p ?x = (a, x')" by fastforce
  have "rt_log rt' = rt_log x' \<and> (a = None \<longleftrightarrow> \<not> isl y)"
    using r s False a by (cases a) (auto simp: relaunch_def Let_def)
  then show ?thesis using a False by (intro disjI2 conjI exI [of _ ?x] exI [of _ a] exI [of _ x']) simp_all
qed

lemma finish_append:
  assumes "finish W p st a f rt = Some rt'"
  obtains x y where "append_process W (finished (rt_now W rt) (rt_taints rt) st a f p) x = (y, rt')" "rt_log x = rt_log rt"
proof -
  obtain s where s: "mget (rt_sessions rt) (ps_session p) = Some s" using assms by (auto simp: finish_def bind_eq_Some_conv)
  let ?p = "finished (rt_now W rt) (rt_taints rt) st a f p"
  let ?rt1 = "if is_terminal st then rt\<lparr>rt_taints := forget_process (proc_context p) (rt_taints rt)\<rparr> else rt"
  let ?x = "put_session (s\<lparr>ss_active := (if st \<noteq> ProcessWaitingTask \<and> ss_active s = ps_id p then '''' else ss_active s),
                ss_updated := rt_now W rt\<rparr>) (put_process ?p ?rt1)"
  have "rt' = snd (append_process W ?p ?x)" using assms s by (simp add: finish_def Let_def)
  then show ?thesis using that [of ?x "fst (append_process W ?p ?x)"] by simp
qed

text \<open>Runs that end or begin again keep identity, history, revision and fork.\<close>

lemma finished_record:
  "same_identity p (finished now tt st a f p)" "ps_history (finished now tt st a f p) = ps_history p"
  "len_ok (finished now tt st a f p) = len_ok p" "ps_revision (finished now tt st a f p) = ps_revision p"
  "ps_fork (finished now tt st a f p) = ps_fork p"
  by (simp_all add: finished_def same_identity_def len_ok_def)

lemma queued_record:
  "same_identity p (queued now p)" "ps_history (queued now p) = ps_history p" "len_ok (queued now p) = len_ok p"
  "ps_revision (queued now p) = ps_revision p" "ps_fork (queued now p) = ps_fork p"
  by (simp_all add: queued_def same_identity_def len_ok_def)

lemma name_put:
  "mget (rt_sessions rt') = (mget (rt_sessions rt))(k \<mapsto> s') \<Longrightarrow> mget (rt_sessions rt) k = Some s \<Longrightarrow>
     ss_name s' = ss_name s \<Longrightarrow> session_name rt' = session_name rt"
  by (auto simp: session_name_def fun_eq_iff)

lemma name_same: "rt_sessions rt' = rt_sessions rt \<Longrightarrow> session_name rt' = session_name rt"
  by (simp add: session_name_def fun_eq_iff)

lemma finish_log:
  assumes W: "recording W F" and lo: "log_ok W F rt" and ok: "rt_ok rt" and p: "mget (rt_processes rt) pid = Some p"
    and f: "finish W p st a f rt = Some rt1"
    and rt': "rt_processes rt' = rt_processes rt1" "rt_sessions rt' = rt_sessions rt1" "rt_log rt' = rt_log rt1"
      "rt_tasks rt' = rt_tasks rt" "running_procs rt' \<subseteq> running_procs rt" "rt_closed rt' = rt_closed rt"
  shows "log_ok W F rt'"
proof -
  note d = rt_okD [OF ok p]
  obtain s where s: "mget (rt_sessions rt) (ps_session p) = Some s" "ss_id s = ps_session p" using d(4) by blast
  let ?p = "finished (rt_now W rt) (rt_taints rt) st a f p"
  note fp = finish_parts [OF f s(1)]
  obtain x y where a: "append_process W ?p x = (y, rt1)" "rt_log x = rt_log rt" using finish_append [OF f] .
  have P: "mget (rt_processes rt') = (mget (rt_processes rt))(pid \<mapsto> ?p)" using fp(1) rt'(1) d(1) by simp
  have S: "mget (rt_sessions rt') = (mget (rt_sessions rt))(ps_session p \<mapsto>
      s\<lparr>ss_active := (if st \<noteq> ProcessWaitingTask \<and> ss_active s = ps_id p then '''' else ss_active s), ss_updated := rt_now W rt\<rparr>)"
    using fp(2) rt'(2) s(2) by simp
  have N: "session_name rt' = session_name rt" by (rule name_put [OF S s(1)]) simp
  have len: "len_ok p" using log_okD(2) [OF lo p] by (simp add: process_recorded_at_def)
  show ?thesis
    by (rule log_ok_append [OF W lo ok p a rt'(3) P N rt'(4)])
      (use rt'(5,6) finished_record [where p = p] len d(3) in auto)
qed

lemma relaunch_log:
  assumes W: "recording W F" and lo: "log_ok W F rt" and ok: "rt_ok rt" and p0: "mget (rt_processes rt) pid = Some p0"
    and rt1: "mget (rt_processes rt1) = (mget (rt_processes rt))(pid \<mapsto> p)" "rt_sessions rt1 = rt_sessions rt"
      "rt_execs rt1 = rt_execs rt" "rt_tasks rt1 = rt_tasks rt" "rt_log rt1 = rt_log rt" "rt_closed rt1 = rt_closed rt"
    and p: "same_identity p0 p" "ps_history p = ps_history p0" "len_ok p" "proc_ok p" "ps_revision p0 \<le> ps_revision p"
      "ps_revision p = ps_revision p0 \<Longrightarrow> ps_fork p = ps_fork p0"
    and r: "relaunch W p rt1 = Some (y, rt2)"
    and rt': "rt_processes rt' = rt_processes rt2" "rt_sessions rt' = rt_sessions rt2" "rt_log rt' = rt_log rt2"
      "rt_tasks rt' = rt_tasks rt2" "running_procs rt' \<subseteq> running_procs rt2" "rt_closed rt' = rt_closed rt2"
    and own: "pid \<in> running_procs rt' \<Longrightarrow> isl y \<Longrightarrow> ps_revision p = ps_revision p0 \<and> pid \<in> running_procs rt"
  shows "log_ok W F rt'"
proof -
  note d = rt_okD [OF ok p0]
  obtain s where s: "mget (rt_sessions rt) (ps_session p0) = Some s" "ss_id s = ps_session p0" using d(4) by blast
  have id: "ps_id p = pid" "ps_session p = ps_session p0" using p(1) d(1) by (simp_all add: same_identity_def)
  have s1: "mget (rt_sessions rt1) (ps_session p) = Some s" using s(1) rt1(2) id(2) by simp
  show ?thesis
  proof (cases "rt_closed rt1")
    case True
    then have same: "rt2 = rt1" "isl y" using r by (auto simp: relaunch_def)
    show ?thesis
      by (rule log_ok_silent [OF lo ok p0, of rt' p])
        (use rt' same rt1 True p own name_same [of rt1 rt] name_same [of rt' rt1] in \<open>auto simp: exact_def\<close>)
  next
    case False
    let ?p = "queued (rt_now W rt1) p"
    let ?s = "s\<lparr>ss_active := ps_id p, ss_updated := rt_now W rt1\<rparr>"
    obtain x a x' where a: "append_process W ?p x = (a, x')" "rt_log x = rt_log rt" "rt_log rt' = rt_log x'" "a = None \<longleftrightarrow> \<not> isl y"
      using relaunch_append [OF r] False rt1(5) rt'(3) by auto
    have parts: "rt_processes rt2 = mput (ps_id p) ?p (rt_processes rt1)" "rt_sessions rt2 = mput (ss_id s) ?s (rt_sessions rt1)"
      "rt_tasks rt2 = rt_tasks rt1" "rt_closed rt2 = rt_closed rt1" "running_procs rt2 \<subseteq> insert pid (running_procs rt1)"
      by (atomize (full), cases rule: relaunch_cases [OF r s1]) (use False id(1) in \<open>auto simp: launched_ok\<close>)
    have P: "mget (rt_processes rt') = (mget (rt_processes rt))(pid \<mapsto> ?p)" using parts(1) rt'(1) rt1(1) id by simp
    have S: "mget (rt_sessions rt') = (mget (rt_sessions rt))(ps_session p0 \<mapsto> ?s)" using parts(2) rt'(2) rt1(2) s(2) by simp
    have N: "session_name rt' = session_name rt" by (rule name_put [OF S s(1)]) simp
    have R: "running_procs rt' \<subseteq> insert pid (running_procs rt)" using rt'(5) parts(5) rt1(3) by auto
    have I: "same_identity p0 ?p" using p(1) queued_record(1) by (rule same_identity_trans)
    show ?thesis
      by (rule log_ok_append [OF W lo ok p0 a(1-3) P N _ R _ I])
        (use queued_record [where p = p] p own a(4) parts(3,4) rt' rt1 in auto)
  qed
qed

end
