(* ===== verification/Writes.thy ===== *)
theory Writes
  imports Quantum
begin

text \<open>
  What a chain writes to the log: journal records of its own quantum and tasks of its own
  process revision, and nothing else. The locale \<open>chain_world\<close> is what a predicate on the chain's
  world must tolerate for that to keep it; every chain the runtime builds over drivers that keep
  to themselves keeps every such predicate.
\<close>

definition log_unread :: "('l, 'd) evlog \<Rightarrow> 'l \<Rightarrow> 'l \<Rightarrow> bool" where
  "log_unread L l l' \<longleftrightarrow> (\<forall>s. stream L s l' = stream L s l)"

lemma log_unread_refl [simp]: "log_unread L l l"
  by (simp add: log_unread_def)

text \<open>A world that differs only in what is neither on the journal nor a task.\<close>

definition quiet_step :: "('l, 'd) evlog \<Rightarrow> ('l, 'r, 'k, 's, 'x) cworld \<Rightarrow> ('l, 'r, 'k, 's, 'x) cworld \<Rightarrow> bool" where
  "quiet_step L w w' \<longleftrightarrow>
     journal_view (tp_journal w') = journal_view (tp_journal w) \<and>
     log_unread L (lj_log (tp_journal w)) (lj_log (tp_journal w')) \<and> cw_tasks w' = cw_tasks w"

lemma quiet_step_trans: "quiet_step L u v \<Longrightarrow> quiet_step L v w \<Longrightarrow> quiet_step L u w"
  by (simp add: quiet_step_def log_unread_def)

lemma quiet_step_refl [simp]: "quiet_step L w w"
  by (simp add: quiet_step_def)

lemma quiet_update [simp]:
  "quiet_step L w (w\<lparr>tp_cursor := n\<rparr>)" "quiet_step L w (w\<lparr>tp_pending := b\<rparr>)" "quiet_step L w (w\<lparr>mw_taints := ts\<rparr>)"
  "quiet_step L w (w\<lparr>mw_schemas := m\<rparr>)" "quiet_step L w (w\<lparr>cw_ext := x\<rparr>)"
  "quiet_step L w (w\<lparr>tp_cursor := n, tp_pending := b\<rparr>)"
  by (simp_all add: quiet_step_def)

locale chain_world =
  fixes L :: "('l, 'd) evlog" and enc :: "'r jrecord \<Rightarrow> err + 'd" and D :: "'d durable_codec"
    and cred :: process_context
    and good :: "('l, 'r, process_context, 's, 'x) cworld \<Rightarrow> bool"
  assumes quiet: "good w \<Longrightarrow> quiet_step L w w' \<Longrightarrow> good w'"
    and journaled: "good w \<Longrightarrow> append_record (log_journal_ops L enc) r (tp_journal w) = (y, j) \<Longrightarrow> good (w\<lparr>tp_journal := j\<rparr>)"
    and park: "good w \<Longrightarrow> tk_scope q = cred \<Longrightarrow> tk_state q = Pending \<Longrightarrow>
      find_task (cw_tasks w) cred (tk_position q) = None \<Longrightarrow>
      store_create L D q \<lparr>ts_records = cw_tasks w, ts_log = lj_log (tp_journal w)\<rparr> = (z, \<lparr>ts_records = ts, ts_log = l\<rparr>) \<Longrightarrow>
      json_kept (tk_id q) \<Longrightarrow> good (w\<lparr>tp_journal := (tp_journal w)\<lparr>lj_log := l\<rparr>, cw_tasks := ts\<rparr>)"

text \<open>A dispatcher keeps a predicate, on the calls of one process revision.\<close>

definition keeps ::
    "(('l, 'r, process_context, 's, 'x) cworld \<Rightarrow> bool) \<Rightarrow> process_context \<Rightarrow>
     (process_context, 'r, ('l, 'r, process_context, 's, 'x) cworld) dispatcher \<Rightarrow> bool"
where
  "keeps good cred d \<longleftrightarrow> (\<forall>t c a w. good w \<longrightarrow> good (snd (d t cred c a w)))"

text \<open>The layers below the task layer write nothing.\<close>

definition writes_nothing ::
    "('l, 'd) evlog \<Rightarrow> ('k, 'r, ('l, 'r, 'k, 's, 'x) cworld) dispatcher \<Rightarrow> bool" where
  "writes_nothing L d \<longleftrightarrow> (\<forall>t k c a w. quiet_step L w (snd (d t k c a w)))"

definition handlers_write_nothing :: "('l, 'd) evlog \<Rightarrow> ('r, ('l, 'r, 'k, 's, 'x) cworld) table \<Rightarrow> bool" where
  "handlers_write_nothing L t \<longleftrightarrow>
     (\<forall>key e. mget (t_entries t) key = Some e \<longrightarrow> (\<forall>tt c w. quiet_step L w (snd (e_handler e tt c w))))"

lemma drivers_write_nothing:
  assumes "handlers_write_nothing L T"
  shows "writes_nothing L (drivers_dispatch S T)"
proof -
  have cap: "quiet_step L w (snd (cap_dispatch S T t k c a w))" for t k c a w
  proof (cases "resolve T c")
    case (Inl e)
    then show ?thesis by (simp add: cap_dispatch_refused)
  next
    case (Inr e)
    then have "quiet_step L w (snd (e_handler e t c w))"
      using assms resolve_entry unfolding handlers_write_nothing_def by blast
    then show ?thesis using Inr by (simp add: cap_dispatch_def Let_def)
  qed
  show ?thesis
    unfolding writes_nothing_def drivers_dispatch_def
    by (intro allI) (simp add: progress_dispatch_def timer_dispatch_def Let_def cap split: option.split)
qed

context chain_world
begin

lemma task_keeps_good:
  assumes "writes_nothing L next"
  shows "keeps good cred (task_dispatch S L D E C next)"
proof -
  have nx: "good u" "cw_tasks u = cw_tasks w" "lj_length (tp_journal u) = lj_length (tp_journal w)"
    if "good w" "next t k c a w = (y, u)" for t k c a w y u
  proof -
    have q: "quiet_step L w u" using assms that(2) unfolding writes_nothing_def by (metis snd_conv)
    show "good u" by (rule quiet [OF that(1) q])
    show "cw_tasks u = cw_tasks w" "lj_length (tp_journal u) = lj_length (tp_journal w)"
      using q by (simp_all add: quiet_step_def journal_view_def)
  qed
  have "good w'" if g: "good w" and d: "task_dispatch S L D E C next t cred c a w = (y, w')" for t c a w y w'
    using d
  proof (cases rule: task_dispatch_cases)
    case (1 r)
    have "w' = w \<or> next t cred (tk_syscall r) (tk_resolution r) w = (y, w')" using task_resume_cases [OF 1(2)] by blast
    then show ?thesis using g nx(1) by blast
  next
    case 2
    then show ?thesis using nx(1) [OF g] by blast
  next
    case (3 r w1 x e)
    show ?thesis unfolding 3(5) by (rule quiet [OF nx(1) [OF g 3(2)]]) simp
  next
    case (4 r w1 x q o1 l ts)
    have q: "tk_scope q = cred" "tk_state q = Pending" "tk_position q = int (lj_length (tp_journal w)) - 1"
      by (subst 4(4), simp add: new_task_def stamp_task_token_def)+
    have g1: "good (w1\<lparr>cw_ext := x\<rparr>)" by (rule quiet [OF nx(1) [OF g 4(2)]]) simp
    have t1: "cw_tasks (w1\<lparr>cw_ext := x\<rparr>) = cw_tasks w1" "tp_journal (w1\<lparr>cw_ext := x\<rparr>) = tp_journal w1" by simp_all
    have f: "find_task (cw_tasks w1) cred (tk_position q) = None" using 4(1) q(3) nx(2) [OF g 4(2)] by simp
    show ?thesis unfolding 4(7)
      using park [OF g1 q(1,2), unfolded t1, OF f 4(5) 4(8)] by simp
  qed
  then show ?thesis unfolding keeps_def by (metis prod.collapse)
qed

lemma world_keeps_good:
  assumes "keeps good cred next"
  shows "keeps good cred (world_dispatch S L E next)"
proof -
  have "good (snd (world_dispatch S L E next t cred c a w))" if g: "good w" for t c a w
  proof (cases "sc_name c = sys_now \<or> sc_name c = sys_random")
    case False
    then show ?thesis using assms g by (simp add: world_dispatch_def keeps_def)
  next
    case True
    obtain x w' where d: "world_dispatch S L E next t cred c a w = (x, w')" by fastforce
    have "quiet_step L w w'" using world_view [OF d True] by (simp add: quiet_step_def)
    then show ?thesis using quiet [OF g] d by simp
  qed
  then show ?thesis unfolding keeps_def by blast
qed

lemma protocol_keeps_good:
  assumes "writes_nothing L drivers"
  shows "keeps good cred (stamp_dispatch S T' (protocol_dispatch S L D E C l T drivers))"
proof -
  have "keeps good cred (lifecycle_dispatch S l T (task_dispatch S L D E C drivers))"
    using task_keeps_good [OF assms, of S E C] unfolding keeps_def
    by (simp add: lifecycle_dispatch_def case_prod_unfold split: bool.split option.split)
  from world_keeps_good [OF this, of S E] show ?thesis unfolding keeps_def protocol_dispatch_def
    by (simp add: stamp_dispatch_def savepoint_dispatch_def case_prod_unfold split: sum.split)
qed

lemma replay_keeps_good:
  assumes "keeps good cred next"
  shows "keeps good cred (replay_dispatch S (log_journal_ops L enc) next)"
proof -
  let ?J = "log_journal_ops L enc"
  have commit: "good (snd (tape_commit ?J r w))" if g: "good w" for r w
  proof -
    obtain y j where a: "append_record ?J (completion_record r) (tp_journal w) = (y, j)" by fastforce
    have g1: "good (w\<lparr>tp_journal := j\<rparr>)" by (rule journaled [OF g a])
    have "good (w\<lparr>tp_journal := j, tp_cursor := n, tp_pending := b\<rparr>)" for n b
      using quiet [OF g1, of "w\<lparr>tp_journal := j, tp_cursor := n, tp_pending := b\<rparr>"] by (simp add: quiet_step_def)
    then show ?thesis using a g1 by (simp add: tape_commit_def split: option.split)
  qed
  have opened: "good (snd (tape_begin ?J c w))" if g: "good w" for c w
  proof -
    obtain y j where a: "append_record ?J (intent_record c) (tp_journal w) = (y, j)" by fastforce
    have g1: "good (w\<lparr>tp_journal := j\<rparr>)" by (rule journaled [OF g a])
    have "good (w\<lparr>tp_journal := j, tp_cursor := n, tp_pending := b\<rparr>)" for n b
      using quiet [OF g1, of "w\<lparr>tp_journal := j, tp_cursor := n, tp_pending := b\<rparr>"] by (simp add: quiet_step_def)
    then show ?thesis using a g g1 by (simp add: tape_begin_def split: option.split)
  qed
  have served: "good (snd (tape_next ?J c w))" if g: "good w" for c w
  proof -
    have "quiet_step L w (snd (tape_next ?J c w))"
      by (simp add: tape_next_def quiet_step_def split: sum.split option.split)
    then show ?thesis by (rule quiet [OF g])
  qed
  have drive: "good (snd (replay_drive S ?J next t cred c a w))" if g: "good w" for t c a w
  proof -
    obtain y u where n: "next t cred c a w = (y, u)" by fastforce
    have u: "good u" using assms g n unfolding keeps_def by (metis snd_conv)
    show ?thesis
    proof (cases y)
      case (Inl e)
      then show ?thesis using n u by (simp add: replay_drive_def)
    next
      case (Inr r)
      obtain o1 v where v: "tape_commit ?J r u = (o1, v)" by fastforce
      have "good v" using commit [OF u, of r] v by simp
      then show ?thesis using n Inr u v by (simp add: replay_drive_def split: option.split)
    qed
  qed
  have "good (snd (replay_dispatch S ?J next t cred c a w))" if g: "good w" for t c a w
  proof -
    obtain y u where y: "tape_next ?J c w = (y, u)" by fastforce
    have u: "good u" using served [OF g, of c] y by simp
    obtain o1 v where v: "tape_begin ?J c u = (o1, v)" by fastforce
    have "good v" using opened [OF u, of c] v by simp
    then show ?thesis using y u v drive by (simp add: replay_dispatch_def split: sum.split option.split)
  qed
  then show ?thesis unfolding keeps_def by blast
qed

lemma track_keeps_good:
  assumes "keeps good cred next"
  shows "keeps good cred (track_dispatch S next)"
proof -
  have "good (snd (track_dispatch S next t cred c a w))" if g: "good w" for t c a w
  proof -
    obtain y u where n: "next (taint_of (mw_taints w) cred) cred c a w = (y, u)" by fastforce
    have u: "good u" using assms g n unfolding keeps_def by (metis snd_conv)
    show ?thesis
    proof (cases "control_call c")
      case True
      then show ?thesis using assms g by (simp add: track_dispatch_def keeps_def)
    next
      case False
      then show ?thesis using n u quiet [OF u] by (cases y) (simp_all add: track_dispatch_def)
    qed
  qed
  then show ?thesis unfolding keeps_def by blast
qed

lemma validator_keeps_good:
  assumes "keeps good cred next"
  shows "keeps good cred (validator_dispatch A S T next)"
proof -
  have "good (snd (validator_dispatch A S T next t cred c a w))" if g: "good w" for t c a w
  proof -
    have gm: "good (w\<lparr>mw_schemas := m\<rparr>)" for m by (rule quiet [OF g]) simp
    have gn: "good (snd (next t cred c a (w\<lparr>mw_schemas := m\<rparr>)))" "good (snd (next t cred c a w))" for m
      using assms gm g unfolding keeps_def by blast+
    show ?thesis using g gm gn
      by (simp add: validator_dispatch_def Let_def case_prod_unfold split: option.split sum.split)
  qed
  then show ?thesis unfolding keeps_def by blast
qed

lemma wrapped_keeps_good:
  assumes "keeps good cred (stamp_dispatch S T beneath)"
  shows "keeps good cred (wrap A S (log_journal_ops L enc) T beneath)"
  unfolding wrap_def by (rule validator_keeps_good [OF track_keeps_good [OF replay_keeps_good [OF assms]]])

end

text \<open>The chain of a quantum keeps whatever tolerates what a quantum may write.\<close>

definition chain_writes ::
    "('l, 'd) evlog \<Rightarrow> ('r jrecord \<Rightarrow> err + 'd) \<Rightarrow> 'd durable_codec \<Rightarrow> process_context \<Rightarrow>
     (process_context, 'r, ('l, 'r, process_context, 's, 'x) cworld) dispatcher \<Rightarrow> bool"
where
  "chain_writes L enc D cred d \<longleftrightarrow> (\<forall>good. chain_world L enc D cred good \<longrightarrow> keeps good cred d)"

lemma new_dispatcher_writes:
  assumes "new_dispatcher A S L D enc E C l m (Inr t0) j = Inr d" "handlers_write_nothing L t0"
  shows "chain_writes L enc D cred d"
proof -
  obtain T where T: "build_table m t0 = Inr T"
    "d = wrap A S (log_journal_ops L enc) T (protocol_dispatch S L D E C l T (drivers_dispatch S T))"
    using assms(1) by (auto simp: new_dispatcher_def split: sum.splits option.splits)
  have "handlers_write_nothing L T" using assms(2) build_table_entries [OF T(1)] by (simp add: handlers_write_nothing_def)
  note dr = drivers_write_nothing [OF this]
  show ?thesis unfolding chain_writes_def T(2)
    by (intro allI impI chain_world.wrapped_keeps_good chain_world.protocol_keeps_good dr) assumption+
qed

end
