(* ===== verification/Kept.thy ===== *)
theory Kept
  imports Logged Writes
begin

text \<open>
  Every step of the runtime keeps the agreement of log and memory (\<open>log_ok\<close>), whatever the log
  refuses: the task store's writes, the journal records and tasks a chain writes in a quantum,
  and the changes the operations record.
\<close>

subsection \<open>Tasks\<close>

text \<open>What an operation of the store writes: nothing, a record, or a record the log refused.\<close>

inductive task_write ::
    "('l, 'd) evlog \<Rightarrow> 'd durable_codec \<Rightarrow> (string \<Rightarrow> string option) \<Rightarrow> 'l task_store \<Rightarrow> 'l task_store \<Rightarrow> bool"
  for L D N s where
  same: "task_write L D N s s"
| refused: "kind = ev_task_created \<or> kind = ev_task_resolved \<Longrightarrow>
     store_append L (task_event D kind) r (ts_log s) = (Some e, l) \<Longrightarrow> task_write L D N s (s\<lparr>ts_log := l\<rparr>)"
| put: "kind = ev_task_created \<or> kind = ev_task_resolved \<Longrightarrow>
     store_append L (task_event D kind) r (ts_log s) = (None, l) \<Longrightarrow> N (pc_session (tk_scope r)) \<noteq> None \<Longrightarrow>
     tk_id r = tid \<Longrightarrow> json_kept tid \<Longrightarrow> task_write L D N s (s\<lparr>ts_records := mput tid r (ts_records s), ts_log := l\<rparr>)"

lemma create_writes:
  assumes "store_create L D r s = (x, s')" "N (pc_session (tk_scope r)) \<noteq> None" "json_kept (tk_id r)"
  shows "task_write L D N s s'"
  using assms(1)
proof (cases rule: store_create_cases)
  case (1 l)
  then show ?thesis using task_write.refused [of ev_task_created L D r s] by (auto simp: task_created_event_def)
next
  case 2
  then show ?thesis using task_write.same by simp
next
  case (3 l)
  show ?thesis unfolding 3(4)
    by (rule task_write.put [OF _ 3(2) [unfolded task_created_event_def]]) (use assms(2,3) in simp_all)
qed

lemma resolve_writes:
  assumes "store_resolve L D tid h a now s = (y, s')" "store_wf s" "tasks_kept s"
    and "\<And>k r. mget (ts_records s) k = Some r \<Longrightarrow> N (pc_session (tk_scope r)) \<noteq> None"
  shows "task_write L D N s s'"
  using assms(1)
proof (cases rule: store_resolve_cases)
  case 1
  then show ?thesis using task_write.same by simp
next
  case (2 r l e)
  show ?thesis unfolding 2(3) by (rule task_write.refused [OF _ 2(1) [unfolded task_resolved_event_def]]) simp
next
  case (3 r r' l)
  show ?thesis unfolding 3(8)
    by (rule task_write.put [OF _ 3(7) [unfolded task_resolved_event_def]])
      (use 3(6) store_wf_id [OF assms(2) 3(2)] tasks_keptD [OF assms(3) 3(2)] assms(4) [OF 3(2)] in simp_all)
qed

lemma settle_writes:
  assumes "store_settle L D tid now s = (x, s')" "store_wf s" "tasks_kept s"
    and "\<And>k r. mget (ts_records s) k = Some r \<Longrightarrow> N (pc_session (tk_scope r)) \<noteq> None"
  shows "task_write L D N s s'"
  using assms(1)
proof (cases rule: store_settle_cases)
  case 1
  then show ?thesis using task_write.same by simp
next
  case (2 r l e)
  show ?thesis unfolding 2(3) by (rule task_write.refused [OF _ 2(1) [unfolded task_resolved_event_def]]) simp
next
  case (3 r r' l)
  show ?thesis unfolding 3(6)
    by (rule task_write.put [OF _ 3(5) [unfolded task_resolved_event_def]])
      (use 3(4) store_wf_id [OF assms(2) 3(2)] tasks_keptD [OF assms(3) 3(2)] assms(4) [OF 3(2)] in simp_all)
qed

lemma log_ok_tasks:
  assumes W: "recording W F" and lo: "log_ok W F rt"
    and w: "task_write (wi_log W) (wi_codec W) (session_name rt) (rt_store rt) s'"
    and t: "store_step (wi_log W) (wi_codec W) (rt_store rt) s'"
    and rt': "mget (rt_processes rt') = mget (rt_processes rt)" "session_name rt' = session_name rt"
      "rt_tasks rt' = ts_records s'" "rt_log rt' = ts_log s'" "running_procs rt' \<subseteq> running_procs rt"
      "rt_closed rt \<longrightarrow> rt_closed rt'"
  shows "log_ok W F rt'"
proof -
  let ?l = "rt_log rt" and ?l' = "ts_log s'"
  have laws: "log_laws (wi_log W)" "codec_laws (wi_codec W) F" using W by (simp_all add: recording_def)
  have T: "store_wf (rt_store rt)" "tasks_logged (wi_log W) (wi_codec W) F (rt_store rt)" "tasks_kept (rt_store rt)"
    "mget (rt_tasks rt) k = Some r \<Longrightarrow> session_name rt (pc_session (tk_scope r)) \<noteq> None" for k r
    using log_okD(5) [OF lo] unfolding tasks_recorded_def by auto
  have named: "session_name rt (pc_session (tk_scope r)) \<noteq> None" if "mget (ts_records s') k = Some r" for k r
    using w
  proof cases
    case (put kind q l tid)
    then show ?thesis using that T(4) [of k r] by (cases "k = tid") simp_all
  qed (use that T(4) [of k r] in simp_all)
  have kept: "tasks_kept s'"
    using w
  proof cases
    case (put kind q l tid)
    then show ?thesis using T(3) by (auto simp: tasks_kept_def split: if_splits)
  qed (use T(3) in \<open>simp_all add: tasks_kept_def\<close>)
  have v: "log_reads W ?l' \<and> rec_history W ?l' = rec_history W ?l \<and> rec_process W ?l' = rec_process W ?l \<and>
    rec_session W ?l' = rec_session W ?l \<and>
    (same_streams W ?l ?l' \<or> (\<exists>sid. touches W sid ?l ?l' \<and> session_name rt sid \<noteq> None))"
    using w
  proof cases
    case same
    then show ?thesis using log_okD(1) [OF lo] by simp
  next
    case (refused kind r e l)
    show ?thesis using task_recorded [OF W log_okD(1) [OF lo] refused(3) [simplified] refused(2)] refused(1) by simp
  next
    case (put kind r l tid)
    show ?thesis using task_recorded [OF W log_okD(1) [OF lo] put(3) [simplified] put(2)] put(1,4) by auto
  qed
  then have view: "log_reads W ?l'" "rec_history W ?l' = rec_history W ?l" "rec_process W ?l' = rec_process W ?l"
    and sr: "rec_session W ?l' = rec_session W ?l"
    and touch: "same_streams W ?l ?l' \<or> (\<exists>sid. touches W sid ?l ?l' \<and> session_name rt sid \<noteq> None)" by blast+
  have S: "session_recorded_at W ?l' sid (session_name rt sid)" for sid
    using touch
  proof
    assume "same_streams W ?l ?l'"
    then have st: "stream (wi_log W) sid ?l' = stream (wi_log W) sid ?l" by (simp add: same_streams_def)
    show ?thesis using log_okD(4) [OF lo, of sid] unfolding session_recorded_at_def st sr .
  next
    assume "\<exists>sid. touches W sid ?l ?l' \<and> session_name rt sid \<noteq> None"
    then obtain k where k: "touches W k ?l ?l'" "session_name rt k \<noteq> None" by blast
    show ?thesis by (rule session_recorded_touch [OF log_okD(4) [OF lo] sr k(1)]) (use k(2) in simp)
  qed
  have ex: "exact W rt' p \<Longrightarrow> exact W rt p" for p using rt'(6) by (auto simp: exact_def)
  have "process_recorded_at W F rt' pid p" if "mget (rt_processes rt) pid = Some p" for pid p
    using log_okD(2) [OF lo that] rt'(5) ex unfolding process_recorded_at_def rt'(4) view(2,3) by blast
  moreover have s': "rt_store rt' = s'" using rt'(3,4) by simp
  have "tasks_recorded W F (session_name rt) (rt_store rt')"
    unfolding s' tasks_recorded_def using store_step_wf [OF t T(1)] tasks_logged_step [OF laws T(1,2) t kept] named kept by simp
  ultimately show ?thesis using log_okD(3) [OF lo] S view(1) unfolding log_ok_def rt'(1,2,4) view(2,3) by blast
qed

subsection \<open>A quantum's calls\<close>

text \<open>The world of a running process's chain, whose log agrees with the memory it is written back to.\<close>

definition world_logged ::
    "('l, 'd, 'r, 's, 'v, 'i, 'x) wiring \<Rightarrow> 'r json_forms \<Rightarrow> ('l, 'r, 's, 'x) runtime \<Rightarrow> 'r process_state \<Rightarrow>
     ('l, 'r, process_context, 's, 'x) cworld \<Rightarrow> bool"
where
  "world_logged W F rt p w \<longleftrightarrow>
     recording W F \<and> rt_ok rt \<and> mget (rt_processes rt) (ps_id p) = Some p \<and> ps_id p \<in> running_procs rt \<and>
     names (tp_journal w) = (ps_session p, ps_id p, ps_revision p) \<and> lj_ok (tp_journal w) \<and>
     log_ok W F (put_cworld p w rt)"

lemma put_cworld_parts [simp]:
  "rt_log (put_cworld p w rt) = lj_log (tp_journal w)" "rt_tasks (put_cworld p w rt) = cw_tasks w"
  "rt_sessions (put_cworld p w rt) = rt_sessions rt" "rt_closed (put_cworld p w rt) = rt_closed rt"
  "rt_execs (put_cworld p w rt) = rt_execs rt" "session_name (put_cworld p w rt) = session_name rt"
  by (simp_all add: put_cworld_def put_process_def session_name_def fun_eq_iff)

lemma put_cworld_processes:
  "mget (rt_processes (put_cworld p w rt)) =
    (mget (rt_processes rt))(ps_id p \<mapsto> p\<lparr>ps_history := lj_history (tp_journal w), ps_length := lj_length (tp_journal w)\<rparr>)"
  by (simp add: put_cworld_def put_process_def)

lemma world_session:
  assumes "world_logged W F rt p w"
  shows "session_name rt (ps_session p) \<noteq> None"
proof -
  have "rt_ok rt" "mget (rt_processes rt) (ps_id p) = Some p" using assms by (simp_all add: world_logged_def)
  then obtain s where "mget (rt_sessions rt) (ps_session p) = Some s" using rt_okD(4) by blast
  then show ?thesis by (simp add: session_name_def)
qed

lemma world_quiet:
  assumes "world_logged W F rt p w" "quiet_step (wi_log W) w w'"
  shows "world_logged W F rt p w'"
proof -
  have j: "journal_view (tp_journal w') = journal_view (tp_journal w)" using assms(2) by (simp add: quiet_step_def)
  note v = journal_view_cong [OF j]
  have n: "names (tp_journal w') = names (tp_journal w)" using v by (simp add: names_def)
  have "log_ok W F (put_cworld p w' rt)"
  proof (rule log_ok_same)
    show "log_ok W F (put_cworld p w rt)" using assms(1) by (simp add: world_logged_def)
    show "same_streams W (rt_log (put_cworld p w rt)) (rt_log (put_cworld p w' rt))"
      using assms(2) by (simp add: quiet_step_def log_unread_def same_streams_def)
    show "mget (rt_processes (put_cworld p w' rt)) = mget (rt_processes (put_cworld p w rt))"
      using v by (simp add: put_cworld_processes)
  qed (use assms(2) in \<open>simp_all add: quiet_step_def\<close>)
  then show ?thesis using assms(1) v(1) n by (simp add: world_logged_def)
qed

lemma world_record:
  assumes w: "world_logged W F rt p w" and a: "append_record (log_journal_ops (wi_log W) (wi_enc W)) r (tp_journal w) = (y, j)"
  shows "world_logged W F rt p (w\<lparr>tp_journal := j\<rparr>)"
proof -
  have W: "recording W F" and lo: "log_ok W F (put_cworld p w rt)" and ok: "rt_ok rt" and p: "mget (rt_processes rt) (ps_id p) = Some p"
    and run: "ps_id p \<in> running_procs rt" and n: "names (tp_journal w) = (ps_session p, ps_id p, ps_revision p)"
    and jo: "lj_ok (tp_journal w)"
    using w by (simp_all add: world_logged_def)
  let ?rt = "put_cworld p w rt" and ?rt' = "put_cworld p (w\<lparr>tp_journal := j\<rparr>) rt"
  let ?p = "p\<lparr>ps_history := lj_history (tp_journal w), ps_length := lj_length (tp_journal w)\<rparr>"
  let ?p' = "p\<lparr>ps_history := lj_history j, ps_length := lj_length j\<rparr>"
  have reads: "log_reads W (lj_log (tp_journal w))" using log_okD(1) [OF lo] by simp
  note e = record_recorded [OF W reads a [folded proc_journal_ops_def]]
  show ?thesis
  proof (cases y)
    case (Some z)
    then have "quiet_step (wi_log W) w (w\<lparr>tp_journal := j\<rparr>)"
      using e(7) by (simp add: quiet_step_def same_streams_def log_unread_def)
    then show ?thesis by (rule world_quiet [OF w])
  next
    case None
    let ?r = "r\<lparr>jr_position := lj_length (tp_journal w), jr_revision := lj_revision (tp_journal w)\<rparr>"
    note e8 = e(8) [OF None]
    have nm: "lj_session (tp_journal w) = ps_session p" "lj_process (tp_journal w) = ps_id p"
      "lj_revision (tp_journal w) = ps_revision p" using n by (simp_all add: names_def)
    have P: "mget (rt_processes ?rt) (ps_id p) = Some ?p" by (simp add: put_cworld_processes)
    note rec = log_okD(2) [OF lo P]
    have hist: "rec_history W (lj_log (tp_journal w)) (ps_session p) (ps_id p) = history_form F (lj_history (tp_journal w))"
      and len: "len_ok ?p" and ik: "ids_kept ?p"
      using rec by (simp_all add: process_recorded_at_def)
    obtain q where q: "rec_process W (lj_log (tp_journal w)) (ps_session p) (ps_id p) = Some q" "proc_logged F ?p q"
      "pr_revision q = ps_revision p" "exact W ?rt ?p \<longrightarrow> q = process_form F (stored_process ?p)"
      using rec run by (auto simp: process_recorded_at_def)
    have jadd: "lj_history j = history_add ?r (lj_history (tp_journal w))" "lj_length j = Suc (lj_length (tp_journal w))"
      using e8 by simp_all
    have len': "len_ok ?p'"
      using lj_add_length [OF jo, of ?r "ps_fork p"] len nm jadd by (simp add: len_ok_def)
    have "names j = names (tp_journal w)" using e(6) .
    moreover have "lj_ok j"
    proof -
      have "lj_append (wi_log W) (wi_enc W) (r\<lparr>jr_position := lj_length (tp_journal w)\<rparr>) (tp_journal w) = (y, j)"
        "jr_position (r\<lparr>jr_position := lj_length (tp_journal w)\<rparr>) = lj_length (tp_journal w)"
        using a by (simp_all add: append_record_def log_journal_ops_def)
      then show ?thesis
      proof (cases rule: lj_append_cases)
        case (refused x l)
        then show ?thesis using None by simp
      next
        case (stored l)
        show ?thesis unfolding stored(2)
          by (rule lj_add_ok(1) [OF jo]) simp_all
      qed
    qed
    moreover have "log_ok W F ?rt'"
    proof (rule log_ok_written [OF lo _ P, where p' = ?p' and r = q])
      show "session_name ?rt (ps_session ?p) \<noteq> None" using world_session [OF w] by simp
      show "mget (rt_processes ?rt') = (mget (rt_processes ?rt))(ps_id p \<mapsto> ?p')"
        by (simp add: put_cworld_processes)
      show "rec_history W (rt_log ?rt') = (rec_history W (rt_log ?rt))
          (ps_session ?p := (rec_history W (rt_log ?rt) (ps_session ?p))(ps_id p := history_form F (ps_history ?p')))"
        using e8 nm hist by (simp add: history_form_add)
      show "rec_process W (rt_log ?rt') = (rec_process W (rt_log ?rt))
          (ps_session ?p := (rec_process W (rt_log ?rt) (ps_session ?p))(ps_id p \<mapsto> q))"
        using e(2) q(1) by (simp add: fun_upd_idem)
      show "proc_logged F ?p' q" using q(2,3) by (simp add: proc_logged_def same_record_def)
      show "q = process_form F (stored_process ?p')" if "exact W ?rt' ?p'"
        using q(4) that by (simp add: exact_def stored_process_def)
      show "ids_kept ?p'" using ik by (simp add: ids_kept_def)
    qed (use e(1,3-5) nm len' q(3) in \<open>simp_all add: subset_insertI\<close>)
    ultimately show ?thesis using w n by (simp add: world_logged_def)
  qed
qed

lemma world_park:
  assumes w: "world_logged W F rt p w" and q: "tk_scope q = proc_context p" "tk_state q = Pending"
    "find_task (cw_tasks w) (proc_context p) (tk_position q) = None"
    and c: "store_create (wi_log W) (wi_codec W) q \<lparr>ts_records = cw_tasks w, ts_log = lj_log (tp_journal w)\<rparr> =
      (z, \<lparr>ts_records = ts, ts_log = l\<rparr>)"
    and kept: "json_kept (tk_id q)"
  shows "world_logged W F rt p (w\<lparr>tp_journal := (tp_journal w)\<lparr>lj_log := l\<rparr>, cw_tasks := ts\<rparr>)"
proof -
  let ?rt = "put_cworld p w rt"
  let ?w = "w\<lparr>tp_journal := (tp_journal w)\<lparr>lj_log := l\<rparr>, cw_tasks := ts\<rparr>"
  have S: "session_name ?rt (pc_session (tk_scope q)) \<noteq> None"
    using world_session [OF w] q(1) by (simp add: proc_context_def)
  have c': "store_create (wi_log W) (wi_codec W) q (rt_store ?rt) = (z, \<lparr>ts_records = ts, ts_log = l\<rparr>)"
    using c by simp
  have t: "store_step (wi_log W) (wi_codec W) (rt_store ?rt) \<lparr>ts_records = ts, ts_log = l\<rparr>"
    by (rule store_step.create [OF q(2) _ c']) (simp add: q)
  have "log_ok W F (put_cworld p ?w rt)"
    by (rule log_ok_tasks [OF _ _ create_writes [where N = "session_name ?rt", OF c' S kept] t])
      (use w in \<open>simp_all add: world_logged_def put_cworld_processes\<close>)
  moreover have "names (tp_journal ?w) = names (tp_journal w)" "lj_ok (tp_journal ?w) = lj_ok (tp_journal w)"
    by (simp_all add: names_def lj_ok_def)
  ultimately show ?thesis using w by (simp add: world_logged_def)
qed

interpretation logged_chain: chain_world "wi_log W" "wi_enc W" "wi_codec W" "proc_context p" "world_logged W F rt p"
  for W :: "('l, 'd, 'r, 's, 'v, 'i, 'x) wiring" and F and rt and p
  by unfold_locales (fact world_quiet, fact world_record, fact world_park)

end
