(* ===== verification/Agree.thy ===== *)
theory Agree
  imports Kept
begin

text \<open>
  The operations of the runtime keep the agreement of log and memory: sessions that are made or
  renamed, processes that are created, stopped, retried or ended, and the quanta. The theorem
  over the transition system is an invariant of every run from an empty log.
\<close>

subsection \<open>Sessions\<close>

text \<open>One session is made or renamed, and its record is appended.\<close>

lemma log_ok_session:
  assumes W: "recording W F" and lo: "log_ok W F rt" and a: "append_session W s x = (None, x')" "rt_log x = rt_log rt"
    "rt_log rt' = rt_log x'"
    and s: "ss_id s = sid" "sid \<noteq> ''''" "json_kept sid"
    and rt': "mget (rt_processes rt') = mget (rt_processes rt)" "session_name rt' = (session_name rt)(sid \<mapsto> ss_name s)"
      "rt_tasks rt' = rt_tasks rt" "running_procs rt' \<subseteq> running_procs rt" "rt_closed rt \<longrightarrow> rt_closed rt'"
  shows "log_ok W F rt'"
proof -
  note e = session_recorded [OF W _ a(1), unfolded a(2) a(3) [symmetric] s(1), OF log_okD(1) [OF lo]]
  obtain old where old: "rec_session W (rt_log rt') =
      (rec_session W (rt_log rt))(sid \<mapsto> merge_session old (session_form F (stored_session s)))"
    using e(6) by auto
  have ex: "exact W rt' p \<Longrightarrow> exact W rt p" for p using rt'(5) by (auto simp: exact_def)
  have P: "process_recorded_at W F rt' pid p" if "mget (rt_processes rt) pid = Some p" for pid p
    using log_okD(2) [OF lo that] rt'(4) ex unfolding process_recorded_at_def e(2,3) by blast
  have S: "session_recorded_at W (rt_log rt') k (session_name rt' k)" for k
  proof (cases "k = sid")
    case True
    then show ?thesis using old rt'(2) s(2,3) json_keptD [OF s(3)]
      by (simp add: session_recorded_at_def merge_session_def stored_session_def s(1))
  next
    case False
    then have "session_name rt' k = session_name rt k" "stream (wi_log W) k (rt_log rt') = stream (wi_log W) k (rt_log rt)"
      "rec_session W (rt_log rt') k = rec_session W (rt_log rt) k"
      using rt'(2) e(5) old by (simp_all add: touches_def)
    then show ?thesis using log_okD(4) [OF lo, of k] session_recorded_cong by metis
  qed
  have N: "session_name rt k \<noteq> None \<Longrightarrow> session_name rt' k \<noteq> None" for k using rt'(2) by simp
  have "tasks_recorded W F (session_name rt') (rt_store rt')"
    using tasks_recorded_view [OF log_okD(5) [OF lo] e(4) N] rt'(3) by simp
  then show ?thesis using log_okD(3) [OF lo] e(1) P S unfolding log_ok_def rt'(1) e(2,3) by blast
qed

text \<open>Identifiers are a prefix and hexadecimal digits.\<close>

lemma random_id_kept:
  assumes "random_id W pre rt0 = (Inr i, rt)" "\<forall>a \<in> set pre. byte a < 128"
  shows "json_kept i"
proof -
  obtain raw where "i = pre @ hex_encode raw"
    using assms(1) by (auto simp: random_id_def split: sum.splits prod.splits)
  then show ?thesis using id_kept [OF assms(2)] by simp
qed

lemma create_session_append:
  assumes "create_session W name tags rt0 = Some (y, rt')"
  obtains (quiet) "rt_log rt' = rt_log rt0" "rt_sessions rt' = rt_sessions rt0"
  | (tried) sid s rt z x' where "random_id W ''ses_'' rt0 = (Inr sid, rt)" "rt_log rt = rt_log rt0" "ss_id s = sid"
      "append_session W s rt = (z, x')" "rt_log rt' = rt_log x'"
      "rt_sessions rt' = (if z = None then mput sid s (rt_sessions rt0) else rt_sessions rt0)"
proof -
  obtain x rt where x: "random_id W ''ses_'' rt0 = (x, rt)" by fastforce
  obtain ext where rt: "rt = rt0\<lparr>rt_ext := ext\<rparr>" using random_id_result [OF x] by blast
  show ?thesis
  proof (cases x)
    case (Inl e)
    then have "rt' = rt" using assms x by (simp add: create_session_def)
    then show ?thesis using quiet rt by simp
  next
    case (Inr sid)
    show ?thesis
    proof (cases "rt_closed rt \<or> check_session_name_free (trim_space name) '''' rt \<noteq> None")
      case True
      then have "rt' = rt" using assms x Inr by (auto simp: create_session_def Let_def split: if_splits)
      then show ?thesis using quiet rt by simp
    next
      case False
      let ?s = "\<lparr>ss_id = sid, ss_name = trim_space name, ss_tags = tags, ss_processes = [], ss_active = '''',
          ss_created = rt_now W rt, ss_updated = rt_now W rt\<rparr>"
      obtain z x' where a: "append_session W ?s rt = (z, x')" by fastforce
      obtain l where x': "x' = rt\<lparr>rt_log := l\<rparr>" using append_session_log [of W ?s rt] a by auto
      have "rt_log rt' = rt_log x' \<and> rt_sessions rt' = (if z = None then mput sid ?s (rt_sessions rt0) else rt_sessions rt0)"
        using assms x Inr False a x' rt
        by (cases z) (auto simp: create_session_def Let_def put_session_def bind_eq_Some_conv)
      then show ?thesis using tried [of sid rt ?s z x'] x Inr a rt by simp
    qed
  qed
qed

lemma refused_session:
  assumes W: "recording W F" and l: "log_reads W (rt_log rt)" and a: "append_session W s x = (Some z, x')" "rt_log x = rt_log rt"
  shows "same_streams W (rt_log rt) (rt_log x')"
  using session_recorded(7) [OF W _ a(1)] l a(2) by simp

lemma create_session_kept:
  assumes W: "recording W F" and lo: "log_ok W F rt0" and f: "fresh_id W ''ses_'' rt0"
    and c: "create_session W name tags rt0 = Some (y, rt')"
  shows "log_ok W F rt'"
proof -
  have parts: "rt_processes rt' = rt_processes rt0" "rt_execs rt' = rt_execs rt0" "rt_closed rt' = rt_closed rt0"
    "rt_tasks rt' = rt_tasks rt0"
    by (atomize (full), cases rule: create_session_parts [OF c]) simp_all
  show ?thesis
  proof (cases rule: create_session_append [OF c])
    case 1
    then show ?thesis using parts name_same [OF 1(2)] by (intro log_ok_same [OF lo]) simp_all
  next
    case (2 sid s rt z x')
    show ?thesis
    proof (cases z)
      case (Some e)
      then have N: "session_name rt' = session_name rt0" using 2(6) by (intro name_same) simp
      have "same_streams W (rt_log rt0) (rt_log rt')"
        using refused_session [OF W log_okD(1) [OF lo] 2(4) [unfolded Some] 2(2)] 2(5) by simp
      then show ?thesis using parts N by (intro log_ok_same [OF lo]) simp_all
    next
      case None
      have "sid \<noteq> ''''" using random_id_prefix [OF 2(1)] by auto
      moreover have "json_kept sid" by (rule random_id_kept [OF 2(1)]) simp
      ultimately show ?thesis
        by (intro log_ok_session [OF W lo 2(4) [unfolded None] 2(2,5,3)])
          (use parts 2(6) None in \<open>simp_all add: session_name_def fun_eq_iff\<close>)
    qed
  qed
qed

lemma rename_session_kept:
  assumes W: "recording W F" and lo: "log_ok W F rt" and ok: "rt_ok rt" and c: "rename_session W sid name rt = Some (y, rt')"
  shows "log_ok W F rt'"
proof (cases "rt_closed rt \<or> mget (rt_sessions rt) sid = None \<or> check_session_name_free (trim_space name) sid rt \<noteq> None")
  case True
  then have "rt' = rt" using c by (auto simp: rename_session_def Let_def split: if_splits option.splits)
  then show ?thesis using lo by simp
next
  case False
  then obtain s where s: "mget (rt_sessions rt) sid = Some s" by auto
  let ?s = "s\<lparr>ss_name := trim_space name, ss_updated := rt_now W rt\<rparr>"
  obtain z x' where a: "append_session W ?s rt = (z, x')" by fastforce
  obtain l where x': "x' = rt\<lparr>rt_log := l\<rparr>" using append_session_log [of W ?s rt] a by auto
  have id: "ss_id s = sid" using ok s unfolding rt_ok_def sessions_ok_def by blast
  have c': "(case append_session W ?s rt of
               (Some e, rt1) \<Rightarrow> Some (Inl e, rt1)
             | (None, rt1) \<Rightarrow> do {
                 let rt2 = put_session ?s rt1;
                 snap \<leftarrow> session_snapshot_of W rt2 ?s;
                 Some (Inr snap, rt2)
               }) = Some (y, rt')"
    using c False s by (simp add: rename_session_def Let_def)
  have rt': "rt' = (if z = None then put_session ?s x' else x')"
    using c' unfolding a by (cases z) (auto simp: Let_def bind_eq_Some_conv)
  show ?thesis
  proof (cases z)
    case (Some e)
    then have N: "session_name rt' = session_name rt" using rt' x' by (intro name_same) simp
    show ?thesis using rt' x' Some N refused_session [OF W log_okD(1) [OF lo] a [unfolded Some] refl]
      by (intro log_ok_same [OF lo]) simp_all
  next
    case None
    have "sid \<noteq> ''''" "json_kept sid"
      using log_okD(4) [OF lo, of sid] s by (simp_all add: session_recorded_at_def session_name_def)
    then show ?thesis
      by (intro log_ok_session [OF W lo a [unfolded None] refl, of _ sid])
        (use rt' None x' id in \<open>simp_all add: put_session_def session_name_def fun_eq_iff\<close>)
  qed
qed

subsection \<open>Processes\<close>

lemma refused_process:
  assumes W: "recording W F" and l: "log_reads W (rt_log rt)" and a: "append_process W p x = (Some z, x')" "rt_log x = rt_log rt"
  shows "same_streams W (rt_log rt) (rt_log x')"
proof -
  have laws: "log_laws (wi_log W)" using W by (simp add: recording_def)
  obtain l where "x' = x\<lparr>rt_log := l\<rparr>" "Some z \<noteq> None \<Longrightarrow> same_streams W (rt_log x) l"
    using append_event_effect [OF laws a(1) [unfolded append_process_def]] by metis
  then show ?thesis using a(2) by simp
qed

lemma create_process_append:
  fixes rt0 :: "('l, 'r, 's, 'x) runtime"
  assumes "create_process W sid input spec rt0 = (y, rt')"
  obtains (quiet) e where "y = Inl e" "rt_log rt' = rt_log rt0"
  | (tried) pid rt p z x' where "random_id W ''proc_'' rt0 = (Inr pid, rt)" "rt_log rt = rt_log rt0"
      "append_process W p rt = (z, x')" "rt_log rt' = rt_log x'" "z = None \<longleftrightarrow> \<not> isl y"
      "z = None \<longrightarrow> mget (rt_processes rt') pid = Some p"
proof -
  obtain x rt where x: "random_id W ''proc_'' rt0 = (x, rt)" by fastforce
  obtain ext where rt: "rt = rt0\<lparr>rt_ext := ext\<rparr>" using random_id_result [OF x] by blast
  show ?thesis
  proof (cases "\<exists>spec1 program pid s. check_request W input spec = Inr (spec1, program) \<and> x = Inr pid \<and> \<not> rt_closed rt \<and>
      mget (rt_sessions rt) sid = Some s \<and> ss_active s = ''''")
    case False
    then have "(\<exists>e. y = Inl e) \<and> (rt' = rt \<or> rt' = rt0)"
      using assms x by (auto simp: create_process_def split: sum.splits prod.splits option.splits if_splits)
    then show ?thesis using quiet rt by auto
  next
    case True
    then obtain spec1 program pid s where t: "check_request W input spec = Inr (spec1, program)" "x = Inr pid" "\<not> rt_closed rt"
      "mget (rt_sessions rt) sid = Some s" "ss_active s = ''''" by blast
    let ?p = "new_process pid sid input spec1 (pg_digest program) (rt_now W rt) :: 'r process_state"
    let ?s = "s\<lparr>ss_processes := ss_processes s @ [pid], ss_active := pid, ss_updated := rt_now W rt\<rparr>"
    obtain z x' where a: "append_process W ?p rt = (z, x')" by fastforce
    have c: "(case append_process W ?p rt of
                    (Some e, rt1) \<Rightarrow> (Inl e, rt1)
                  | (None, rt1) \<Rightarrow>
                      (Inr (process_snapshot_of ?p), launch pid (put_session ?s (put_process ?p rt1)))) = (y, rt')"
      using assms x t by (simp add: create_process_def Let_def)
    have id: "ps_id ?p = pid" by (simp add: new_process_def)
    have "rt_log rt' = rt_log x' \<and> (z = None \<longleftrightarrow> \<not> isl y) \<and> (z = None \<longrightarrow> mget (rt_processes rt') pid = Some ?p)"
      using c id unfolding a by (cases z) (auto simp: launch_def put_session_def put_process_def)
    then show ?thesis using tried [of pid rt ?p z x'] x t(2) a rt by simp
  qed
qed

lemma new_process_len [simp]: "len_ok (new_process pid sid input spec digest now)"
  by (simp add: len_ok_def new_process_def history_length_def)

lemma create_process_kept:
  assumes W: "recording W F" and lo: "log_ok W F rt0" and ok: "rt_ok rt0" and f: "fresh_id W ''proc_'' rt0"
    and c: "create_process W sid input spec rt0 = (y, rt')"
  shows "log_ok W F rt'"
proof (cases rule: create_process_parts [OF c])
  case 1
  have same: "log_ok W F rt'" if "same_streams W (rt_log rt0) (rt_log rt')"
    using 1 name_same [OF 1(1)] by (intro log_ok_same [OF lo that]) simp_all
  show ?thesis
  proof (cases rule: create_process_append [OF c])
    case (2 pid rt p z x')
    then obtain e where "z = Some e" using 1(8) by (cases z) auto
    then show ?thesis using refused_process [OF W log_okD(1) [OF lo] _ 2(2)] 2(3,4) same by auto
  qed (use same in simp)
next
  case (2 pid rt s p s' spec1 program)
  obtain x x' where a: "append_process W p x = (None, x')" "rt_log x = rt_log rt0" "rt_log rt' = rt_log x'"
  proof (cases rule: create_process_append [OF c])
    case (1 e)
    then show ?thesis using 2(15) by simp
  next
    case t: (2 pid1 rt1 p1 z x')
    have "pid1 = pid" "z = None" using t(1,5) 2(1,15) by simp_all
    then show ?thesis using that [of rt1 x'] t 2(8) by simp
  qed
  have p: "ps_id p = pid" "ps_session p = sid" "ps_history p = []" "len_ok p" "proc_ok p"
    using 2(4) new_process_ok by (simp_all add: new_process_def) (simp_all add: len_ok_def history_length_def new_process_ok)
  have "json_kept pid" by (rule random_id_kept [OF 2(1)]) simp
  moreover have "json_kept sid"
    using log_okD(4) [OF lo, of sid] 2(5) by (simp add: session_recorded_at_def session_name_def)
  ultimately have ik: "ids_kept p" "json_text pid = pid" using p(1,2) by (simp_all add: ids_kept_def json_keptD)
  note e = process_recorded [OF W _ a(1), unfolded a(2) a(3) [symmetric] p(1,2) ik(2), OF log_okD(1) [OF lo]]
  have none: "mget (rt_processes rt0) pid = None" using f 2(1) unfolding fresh_id_def by blast
  have P: "mget (rt_processes rt') = (mget (rt_processes rt0))(pid \<mapsto> p)" using 2(8) by simp
  have ex: "exact W rt' q \<Longrightarrow> exact W rt0 q" for q using 2(13) by (auto simp: exact_def)
  have N: "session_name rt' k \<noteq> None" if "session_name rt0 k \<noteq> None" for k
    using that 2(9) by (simp add: session_name_def)
  have own: "process_recorded_at W F rt' pid p"
    using e(2,6) p ik(1) stored_logged [OF p(5) ik(1)] log_okD(3) [OF lo, of pid sid] none
    by (simp add: process_recorded_at_def) (simp add: stored_process_def)
  have "process_recorded_at W F rt' k q" if "mget (rt_processes rt') k = Some q" for k q
  proof (cases "k = pid")
    case True
    then show ?thesis using own that P by simp
  next
    case False
    then have q: "mget (rt_processes rt0) k = Some q" using that P by simp
    have "rec_process W (rt_log rt') (ps_session q) k = rec_process W (rt_log rt0) (ps_session q) k" using e(6) False by simp
    moreover have "k \<in> running_procs rt' \<longleftrightarrow> k \<in> running_procs rt0" using 2(10) False by (auto simp: launched_ok)
    ultimately show ?thesis using log_okD(2) [OF lo q] ex unfolding process_recorded_at_def e(2) by auto
  qed
  moreover have "rec_process W (rt_log rt') k i = None \<and> rec_history W (rt_log rt') k i = []"
    if "\<forall>q. mget (rt_processes rt') i = Some q \<longrightarrow> ps_session q \<noteq> k" for k i
  proof -
    have "ps_session q \<noteq> k" if "mget (rt_processes rt0) i = Some q" for q
      using that \<open>\<forall>q. mget (rt_processes rt') i = Some q \<longrightarrow> ps_session q \<noteq> k\<close> none P by (cases "i = pid") auto
    note old = log_okD(3) [OF lo this]
    have "\<not> (k = sid \<and> i = pid)" using that P p(2) by auto
    then show ?thesis using old e(2,6) by auto
  qed
  moreover have "session_recorded_at W (rt_log rt') k (session_name rt' k)" for k
  proof -
    have "ss_id s = sid" using ok 2(5) unfolding rt_ok_def sessions_ok_def by blast
    then have n: "session_name rt' k = session_name rt0 k" "session_name rt0 sid \<noteq> None"
      using 2(5,7,9) by (simp_all add: session_name_def)
    show ?thesis unfolding n(1) by (rule session_recorded_touch [OF log_okD(4) [OF lo] e(3,5)]) (use n(2) in simp)
  qed
  moreover have "tasks_recorded W F (session_name rt') (rt_store rt')"
    using tasks_recorded_view [OF log_okD(5) [OF lo] e(4) N] 2(12) by simp
  ultimately show ?thesis using e(1) unfolding log_ok_def by blast
qed

text \<open>A step that writes neither the log nor a task nor a process.\<close>

lemma log_ok_quiet:
  assumes "log_ok W F rt" "rt_log rt' = rt_log rt" "rt_processes rt' = rt_processes rt" "rt_sessions rt' = rt_sessions rt"
    and "rt_tasks rt' = rt_tasks rt" "running_procs rt' \<subseteq> running_procs rt" "rt_closed rt \<longrightarrow> rt_closed rt'"
  shows "log_ok W F rt'"
  using assms(2-) name_same [OF assms(4)] by (intro log_ok_same [OF assms(1)]) simp_all

lemma running_put_exec [simp]:
  "e \<in> set (rt_execs rt) \<Longrightarrow> ex_process e' = ex_process e \<Longrightarrow> running_procs (put_exec e' rt) \<subseteq> running_procs rt"
  by (auto simp: put_exec_def)

lemma put_exec_rest [simp]:
  "rt_processes (put_exec e rt) = rt_processes rt" "rt_sessions (put_exec e rt) = rt_sessions rt"
  "rt_tasks (put_exec e rt) = rt_tasks rt" "rt_closed (put_exec e rt) = rt_closed rt"
  by (simp_all add: put_exec_def)

lemma log_ok_put_exec:
  assumes "log_ok W F rt" "e \<in> set (rt_execs rt)" "ex_process e' = ex_process e"
  shows "log_ok W F (put_exec e' rt)"
  by (rule log_ok_quiet [OF assms(1)]) (use assms(2,3) running_put_exec in simp_all)

lemma log_ok_drop_exec:
  assumes "log_ok W F rt"
  shows "log_ok W F (drop_exec e rt)"
  by (rule log_ok_quiet [OF assms]) (auto simp: drop_exec_def)

lemma running_map: "cancelling f \<Longrightarrow> rt_execs rt' = map f (rt_execs rt) \<Longrightarrow> running_procs rt' = running_procs rt"
  by (simp add: image_image cancelling_parts(2))

lemma running_cancel: "running_procs (cancel_exec k (put_process p rt)) = running_procs rt"
  by (rule running_map [OF cancel_exec_cancelling [of k]]) (simp add: cancel_exec_def put_process_def)

lemma stop_kept:
  assumes W: "recording W F" and lo: "log_ok W F rt" and ok: "rt_ok rt" and s: "stop_process W pid rt = Some (z, rt')"
  shows "log_ok W F rt'"
proof (cases "mget (rt_processes rt) pid")
  case None
  then show ?thesis using s lo by (simp add: stop_process_def)
next
  case (Some p)
  note d = rt_okD [OF ok Some]
  have len: "len_ok p" using log_okD(2) [OF lo Some] by (simp add: process_recorded_at_def)
  consider (busy) "ps_status p = ProcessQueued \<or> ps_status p = ProcessRunning" | (parked) "ps_status p = ProcessWaitingTask"
    | (other) "\<not> (ps_status p = ProcessQueued \<or> ps_status p = ProcessRunning)" "ps_status p \<noteq> ProcessWaitingTask" by blast
  then show ?thesis
  proof cases
    case busy
    let ?p = "p\<lparr>ps_stop_requested := True, ps_status := ProcessStopping, ps_updated := rt_now W rt\<rparr>"
    let ?x = "cancel_exec (ps_stop p) (put_process ?p rt)"
    obtain y x' where a: "append_process W ?p ?x = (y, x')" by fastforce
    obtain l where "x' = ?x\<lparr>rt_log := l\<rparr>" using append_process_log [of W ?p ?x] a by auto
    then have x': "rt_processes x' = rt_processes ?x" "rt_sessions x' = rt_sessions ?x" "rt_tasks x' = rt_tasks ?x"
      "rt_execs x' = rt_execs ?x" "rt_closed x' = rt_closed ?x" by simp_all
    have rt': "rt' = x'" using stop_running [OF Some busy s] a by simp
    have P: "mget (rt_processes x') = (mget (rt_processes rt))(pid \<mapsto> ?p)" using x'(1) d(1) by (simp add: cancel_exec_def put_process_def)
    have N: "session_name x' = session_name rt" by (rule name_same) (simp add: x'(2) cancel_exec_def put_process_def)
    have R: "running_procs x' = running_procs rt" using x'(4) by (simp add: running_cancel)
    show ?thesis unfolding rt'
      by (rule log_ok_append [OF W lo ok Some a _ refl P N])
        (use x'(3,5) R len d(3) in \<open>simp_all add: cancel_exec_def put_process_def subset_insertI same_identity_def len_ok_def proc_ok_def proc_journal_def\<close>)
  next
    case parked
    then have f: "finish W p ProcessStopped '''' (Some Canceled) rt = Some rt'"
      using s Some by (auto simp: stop_process_def bind_eq_Some_conv)
    obtain t where t: "mget (rt_sessions rt) (ps_session p) = Some t" using d(4) by blast
    note fp = finish_parts [OF f t]
    show ?thesis by (rule finish_log [OF W lo ok Some f]) (simp_all add: fp)
  next
    case other
    then show ?thesis using s Some lo by (auto simp: stop_process_def split: if_splits)
  qed
qed

text \<open>A fork, and no launch when the append of a relaunch is refused.\<close>

lemma fork_logged:
  assumes "fork_process off p rt = (p1, rt1)" "proc_ok p" "off \<le> ps_length p"
  shows "same_identity p p1" "ps_history p1 = ps_history p" "len_ok p1" "proc_ok p1" "ps_revision p1 = Suc (ps_revision p)"
  using fork_life(2) [OF assms(1)] fork_len_ok [OF assms] fork_ok [OF assms] assms(1)
  by (auto simp: fork_process_def Let_def)

lemma relaunch_refused:
  assumes "relaunch W p rt = Some (Inl x, rt')"
  shows "rt_execs rt' = rt_execs rt"
proof (cases "rt_closed rt")
  case True
  then show ?thesis using assms by (simp add: relaunch_def)
next
  case False
  then obtain s where "mget (rt_sessions rt) (ps_session p) = Some s" using assms by (auto simp: relaunch_def bind_eq_Some_conv)
  from relaunch_cases [OF assms this] show ?thesis by cases simp_all
qed

lemma retry_kept:
  assumes W: "recording W F" and lo: "log_ok W F rt" and ok: "rt_ok rt" and r: "retry W pid mode rt = Some (z, rt')"
  shows "log_ok W F rt'"
proof (cases rule: retry_cases [OF r ok])
  case (2 p0 p rt1 s)
  note d = rt_okD [OF ok 2(1)]
  have len: "len_ok p0" using log_okD(2) [OF lo 2(1)] by (simp add: process_recorded_at_def)
  have p: "same_identity p0 p \<and> ps_history p = ps_history p0 \<and> len_ok p \<and> proc_ok p \<and> ps_revision p0 \<le> ps_revision p \<and>
      (ps_revision p = ps_revision p0 \<longrightarrow> ps_fork p = ps_fork p0)"
    using 2(18)
  proof
    assume "p = p0 \<and> rt1 = rt \<and> mode = RetryResume"
    then show ?thesis using len d(3) by (simp add: same_identity_def)
  next
    assume "\<exists>k. k \<le> ps_length p0 \<and> fork_process k p0 rt = (p, rt1)"
    then obtain k where k: "k \<le> ps_length p0" "fork_process k p0 rt = (p, rt1)" by blast
    show ?thesis using fork_logged [OF k(2) d(3) k(1)] by simp
  qed
  have own: "pid \<notin> running_procs rt'" if refused: "isl z"
  proof -
    obtain x where "z = Inl x" using refused by (auto simp: isl_def)
    then have "rt_execs rt' = rt_execs rt" using relaunch_refused 2(4,17) by metis
    then show ?thesis using not_busy_no_exec [OF ok 2(1,16)] by auto
  qed
  show ?thesis
    by (rule relaunch_log [OF W lo ok 2(1-4) 2(6,8,7) _ _ _ _ _ _ 2(17)]) (use p own in simp_all)
qed (use lo in simp)

lemma wake_kept:
  assumes W: "recording W F" and lo: "log_ok W F rt" and ok: "rt_ok rt" and r: "wake W pid rt = Some (x, rt')"
  shows "log_ok W F rt'"
proof -
  have "rt' = rt \<or> (\<exists>z. retry W pid RetryResume rt = Some (z, rt'))"
    using r by (auto simp: wake_def bind_eq_Some_conv split: if_splits)
  then show ?thesis using retry_kept [OF W lo ok] lo by auto
qed

subsection \<open>Tasks\<close>

lemma on_tasks_kept:
  assumes W: "recording W F" and lo: "log_ok W F rt" and f: "on_tasks f rt = (d, rt')"
    and w: "\<And>x s'. f (rt_store rt) = (x, s') \<Longrightarrow> task_write (wi_log W) (wi_codec W) (session_name rt) (rt_store rt) s'"
    and t: "\<And>x s'. f (rt_store rt) = (x, s') \<Longrightarrow> store_step (wi_log W) (wi_codec W) (rt_store rt) s'"
  shows "log_ok W F rt'"
proof -
  obtain x s' where s': "f (rt_store rt) = (x, s')" by fastforce
  have rt': "rt' = rt\<lparr>rt_tasks := ts_records s', rt_log := ts_log s'\<rparr>" using f s' by (simp add: on_tasks_def)
  have N: "session_name rt' = session_name rt" by (rule name_same) (simp add: rt')
  show ?thesis by (rule log_ok_tasks [OF W lo w [OF s'] t [OF s'] _ N]) (simp_all add: rt')
qed

lemma tasks_named:
  assumes "log_ok W F rt"
  shows "store_wf (rt_store rt)" "tasks_kept (rt_store rt)" "mget (ts_records (rt_store rt)) k = Some r \<Longrightarrow> session_name rt (pc_session (tk_scope r)) \<noteq> None"
  using log_okD(5) [OF assms] unfolding tasks_recorded_def by blast+

lemma decide_kept:
  assumes W: "recording W F" and lo: "log_ok W F rt" and a: "resolvable_decision (au_decision a)"
    and d: "on_tasks (store_resolve (wi_log W) (wi_codec W) tid h a now) rt = (d, rt')"
  shows "log_ok W F rt'"
  by (rule on_tasks_kept [OF W lo d])
    (use a resolve_writes [where N = "session_name rt", OF _ tasks_named [OF lo]] in \<open>auto intro: store_step.resolve\<close>)

lemma settle_kept:
  assumes W: "recording W F" and lo: "log_ok W F rt"
  shows "log_ok W F (settle_task W now tid rt)"
proof -
  obtain d rt' where d: "on_tasks (store_settle (wi_log W) (wi_codec W) tid now) rt = (d, rt')" by fastforce
  have "log_ok W F rt'"
    by (rule on_tasks_kept [OF W lo d])
      (use settle_writes [where N = "session_name rt", OF _ tasks_named [OF lo]] in \<open>auto intro: store_step.settle\<close>)
  then show ?thesis using d by (simp add: settle_task_def)
qed

lemma resolve_kept:
  assumes W: "recording W F" and lo: "log_ok W F rt" and ok: "rt_ok rt" and r: "resolve_task W tid token a rt = Some (t, rt')"
  shows "log_ok W F rt'"
proof (cases "resolvable_decision (au_decision a)")
  case False
  then show ?thesis using r lo by (simp add: resolve_task_def)
next
  case True
  obtain d rt1 where d: "on_tasks (store_resolve (wi_log W) (wi_codec W) tid (cr_sha256 (tc_crypto (wi_tasks W)) token)
      a (rt_now W rt)) rt = (d, rt1)" by fastforce
  have lo1: "log_ok W F rt1" by (rule decide_kept [OF W lo True d])
  have "rt' = rt \<or> rt' = rt1 \<or> (\<exists>pid x. wake W pid rt1 = Some (x, rt'))"
    using r d by (auto simp: resolve_task_def split: if_splits sum.splits)
  then show ?thesis using lo lo1 wake_kept [OF W lo1 on_tasks_ok' [OF ok d]] by blast
qed

subsection \<open>Executions\<close>

lemma exec_finish_kept:
  assumes W: "recording W F" and lo: "log_ok W F rt" and ok: "rt_ok rt" and c: "exec_finish W st a f e rt = Some rt'"
  shows "log_ok W F rt'"
proof -
  obtain p rt1 where p: "mget (rt_processes rt) (ex_process e) = Some p" "finish W p st a f rt = Some rt1" "rt' = drop_exec e rt1"
    using c by (auto simp: exec_finish_def bind_eq_Some_conv)
  obtain s where "mget (rt_sessions rt) (ps_session p) = Some s" using rt_okD(4) [OF ok p(1)] by blast
  note fp = finish_parts [OF p(2) this]
  have "log_ok W F rt1" by (rule finish_log [OF W lo ok p(1,2)]) (simp_all add: fp)
  then show ?thesis unfolding p(3) by (rule log_ok_drop_exec)
qed

lemma exec_mark_kept:
  assumes W: "recording W F" and lo: "log_ok W F rt" and ok: "rt_ok rt" and e: "e \<in> set (rt_execs rt)"
    and c: "exec_mark W e rt = Some rt'"
  shows "log_ok W F rt'"
proof -
  obtain p where p: "mget (rt_processes rt) (ex_process e) = Some p" using rt_execD [OF ok e] by blast
  note d = rt_okD [OF ok p]
  let ?p = "p\<lparr>ps_stop := Some (ex_id e), ps_status := ProcessRunning, ps_started := Some (rt_now W rt), ps_updated := rt_now W rt\<rparr>"
  obtain y x' where a: "append_process W ?p (put_process ?p rt) = (y, x')" by fastforce
  obtain l where "x' = (put_process ?p rt)\<lparr>rt_log := l\<rparr>" using append_process_log [of W ?p "put_process ?p rt"] a by auto
  then have x': "rt_processes x' = rt_processes (put_process ?p rt)" "rt_sessions x' = rt_sessions rt" "rt_tasks x' = rt_tasks rt"
    "rt_execs x' = rt_execs rt" "rt_closed x' = rt_closed rt" by (simp_all add: put_process_def)
  have P: "mget (rt_processes x') = (mget (rt_processes rt))(ex_process e \<mapsto> ?p)" using x'(1) d(1) by (simp add: put_process_def)
  have "len_ok p" using log_okD(2) [OF lo p] by (simp add: process_recorded_at_def)
  then have "log_ok W F x'"
    by (intro log_ok_append [OF W lo ok p a _ refl P name_same [OF x'(2)]])
      (use x' d(3) e in \<open>simp_all add: subset_insertI same_identity_def len_ok_def proc_ok_def proc_journal_def\<close>)
  then have "log_ok W F (put_exec (e\<lparr>ex_phase := Awaiting, ex_cancelled := ex_cancelled e \<or> ps_stop_requested p\<rparr>) x')"
    by (rule log_ok_put_exec) (use e x'(4) in simp_all)
  then show ?thesis using c p a by (simp add: exec_mark_def Let_def)
qed

lemma exec_land_kept:
  assumes lo: "log_ok W F rt" and ok: "rt_ok rt" and e: "e \<in> set (rt_execs rt)" and c: "exec_land r e rt = Some rt'"
  shows "log_ok W F rt'"
proof -
  obtain p where p: "mget (rt_processes rt) (ex_process e) = Some p" using rt_execD [OF ok e] by blast
  let ?p = "p\<lparr>ps_stop := None\<rparr>"
  have rt': "rt' = put_exec (e\<lparr>ex_phase := Outcome r\<rparr>) (put_process ?p rt)" using c p by (simp add: exec_land_def)
  have N: "session_name (put_process ?p rt) = session_name rt" by (rule name_same) (simp add: put_process_def)
  have "len_ok p" using log_okD(2) [OF lo p] by (simp add: process_recorded_at_def)
  then have "log_ok W F (put_process ?p rt)"
    by (intro log_ok_silent [where p' = ?p, OF lo ok p _ _ N])
      (use rt_okD(1) [OF ok p] in \<open>simp_all add: put_process_def same_identity_def len_ok_def stored_process_def\<close>)
  then show ?thesis unfolding rt' by (rule log_ok_put_exec) (use e in \<open>simp_all add: put_process_def\<close>)
qed

lemma own_dropped:
  assumes "rt_ok rt" "e \<in> set (rt_execs rt)" "rt_execs rt2 = rt_execs rt"
  shows "ex_process e \<notin> running_procs (drop_exec e rt2)"
proof
  assume "ex_process e \<in> running_procs (drop_exec e rt2)"
  then obtain y where "y \<in> set (rt_execs rt)" "ex_id y \<noteq> ex_id e" "ex_process y = ex_process e"
    using assms(3) by (auto simp: drop_exec_def)
  then show False using own_exec_dropped [OF assms(1,2)] by blast
qed

lemma abort_kept:
  assumes W: "recording W F" and lo: "log_ok W F rt" and ok: "rt_ok rt" and e: "e \<in> set (rt_execs rt)"
    and p: "mget (rt_processes rt) (ex_process e) = Some p" and a: "retry_aborted_section W p reason rt = Some rt2"
  shows "log_ok W F (drop_exec e rt2)"
proof -
  note d = rt_okD [OF ok p]
  obtain off where off: "outermost_open_begin (proc_journal_ops W) (proc_journal (rt_log rt) p) = Inr (off, 0 < open_sections p)"
    "0 < open_sections p \<longrightarrow> off \<le> ps_length p \<and> 2 \<le> off"
    using proc_open_section [OF d(3)] .
  show ?thesis
  proof (cases "open_sections p = 0 \<or> max_abort_retries \<le> ps_aborts p")
    case True
    then obtain f where f: "finish W p ProcessFailed '''' f rt = Some rt2"
      using a off(1) by (auto simp: retry_aborted_section_def split: if_splits)
    obtain s where "mget (rt_sessions rt) (ps_session p) = Some s" using d(4) by blast
    note fp = finish_parts [OF f this]
    have "log_ok W F rt2" by (rule finish_log [OF W lo ok p f]) (simp_all add: fp)
    then show ?thesis by (rule log_ok_drop_exec)
  next
    case False
    let ?p0 = "p\<lparr>ps_aborts := ps_aborts p + 1\<rparr>"
    obtain p1 rt1 where f: "fork_process off ?p0 rt = (p1, rt1)" by fastforce
    then obtain y where y: "relaunch W p1 rt1 = Some (y, rt2)"
      using a off(1) False by (auto simp: retry_aborted_section_def Let_def)
    note fp = fork_parts [OF f]
    have k: "proc_ok ?p0" using d(3) False by (simp add: proc_ok_def proc_journal_def)
    have k2: "off \<le> ps_length ?p0" using off(2) False by simp
    note fl = fork_logged [OF f k k2]
    have I: "same_identity p p1" using fl(1) by (simp add: same_identity_def)
    have own: "ex_process e \<notin> running_procs (drop_exec e rt2)" if refused: "isl y"
    proof -
      obtain x where "y = Inl x" using refused by (auto simp: isl_def)
      then have "rt_execs rt2 = rt_execs rt" using relaunch_refused y fp(3) by metis
      then show ?thesis by (rule own_dropped [OF ok e])
    qed
    have P1: "mget (rt_processes rt1) = (mget (rt_processes rt))(ex_process e \<mapsto> p1)" using fp(1) d(1) by simp
    show ?thesis
      by (rule relaunch_log [OF W lo ok p P1 fp(2,3,7,5,6) I _ fl(3,4) _ _ y])
        (use fl own in \<open>auto simp: drop_exec_def\<close>)
  qed
qed

lemma fail_kept:
  assumes W: "recording W F" and lo: "log_ok W F rt" and ok: "rt_ok rt" and e: "e \<in> set (rt_execs rt)"
    and p: "mget (rt_processes rt) (ex_process e) = Some p" and a: "fail_process W e p f rt = Some rt'"
  shows "log_ok W F rt'"
proof -
  note d = rt_okD [OF ok p]
  let ?p = "p\<lparr>ps_last_failure := ps_length p\<rparr>"
  obtain again rt1 where r: "redrive_after_failure W p rt = Some (again, rt1)"
    "rt' = (if again then drop_exec e rt1 else to_finish ProcessFailed '''' f e rt1)"
    using a by (auto simp: fail_process_def)
  have "rt1 = rt \<and> \<not> again \<or> (\<exists>y. relaunch W ?p (put_process ?p rt) = Some (y, rt1) \<and> (again \<longleftrightarrow> \<not> isl y))"
    using r(1) by (auto simp: redrive_after_failure_def split: sum.splits prod.splits option.splits if_splits)
  then show ?thesis
  proof
    assume "rt1 = rt \<and> \<not> again"
    then show ?thesis using r(2) lo log_ok_put_exec [OF lo e] by (simp add: to_finish_def)
  next
    assume "\<exists>y. relaunch W ?p (put_process ?p rt) = Some (y, rt1) \<and> (again \<longleftrightarrow> \<not> isl y)"
    then obtain y where y: "relaunch W ?p (put_process ?p rt) = Some (y, rt1)" "again \<longleftrightarrow> \<not> isl y" by blast
    have P1: "mget (rt_processes (put_process ?p rt)) = (mget (rt_processes rt))(ex_process e \<mapsto> ?p)"
      using d(1) by (simp add: put_process_def)
    have "len_ok p" using log_okD(2) [OF lo p] by (simp add: process_recorded_at_def)
    then have "log_ok W F rt1"
      by (intro relaunch_log [OF W lo ok p P1 _ _ _ _ _ _ _ _ _ _ _ y(1)])
        (use d(3) e in \<open>simp_all add: put_process_def same_identity_def len_ok_def proc_ok_def proc_journal_def\<close>)
    moreover have "rt_execs rt1 = rt_execs rt" if "\<not> again"
    proof -
      obtain x where "y = Inl x" using y(2) \<open>\<not> again\<close> by (auto simp: isl_def)
      then show ?thesis using relaunch_refused [of W ?p "put_process ?p rt" x rt1] y(1) by (simp add: put_process_def)
    qed
    ultimately show ?thesis using r(2) log_ok_drop_exec log_ok_put_exec [of W F rt1 e] e by (auto simp: to_finish_def)
  qed
qed

lemma outcome_kept:
  assumes W: "recording W F" and lo: "log_ok W F rt" and ok: "rt_ok rt" and e: "e \<in> set (rt_execs rt)"
    and o: "record_outcome W r e rt = Some rt'"
  shows "log_ok W F rt'"
proof -
  obtain p where p: "mget (rt_processes rt) (ex_process e) = Some p" using rt_execD [OF ok e] by blast
  note fail = fail_kept [OF W lo ok e p]
  have fin: "log_ok W F (to_finish st a f e rt)" for st a f
    unfolding to_finish_def by (rule log_ok_put_exec [OF lo e]) simp
  show ?thesis
  proof (cases "qr_status r")
    case ResumeCompleted
    then obtain lc where lc: "last_call W (rt_log rt) p = Some lc"
      using o p by (auto simp: record_outcome_def bind_eq_Some_conv)
    show ?thesis
    proof (cases "guest_abort lc")
      case (Some reason)
      then obtain rt2 where "retry_aborted_section W p reason rt = Some rt2" "rt' = drop_exec e rt2"
        using o ResumeCompleted p lc by (auto simp: record_outcome_def)
      then show ?thesis using abort_kept [OF W lo ok e p] by simp
    next
      case None
      then show ?thesis using o ResumeCompleted p lc fail fin
        by (cases "answer_from_journal (wi_sys W) lc") (auto simp: record_outcome_def)
    qed
  next
    case ResumeYielded
    then show ?thesis using o fin by (auto simp: record_outcome_def)
  next
    case ResumeStopped
    then show ?thesis using o fin by (auto simp: record_outcome_def)
  next
    case ResumeFailed
    then show ?thesis using o p fail by (auto simp: record_outcome_def)
  qed
qed

subsection \<open>Quanta\<close>

text \<open>Drivers that keep to themselves: they leave the journal, the tape and the tasks, and the log.\<close>

definition provider_apart :: "('l, 'd, 'r, 's, 'v, 'i, 'x) wiring \<Rightarrow> bool" where
  "provider_apart W \<longleftrightarrow>
     (\<forall>cred m x t0 x'. wi_provider W cred m x = (Inr t0, x') \<longrightarrow>
        handlers_keep t0 \<and> handlers_write_nothing (wi_log W) t0)"

lemma apart_keeps: "provider_apart W \<Longrightarrow> provider_keeps W"
  by (simp add: provider_apart_def provider_keeps_def)

definition chains_write :: "('l, 'd, 'r, 's, 'v, 'i, 'x) wiring \<Rightarrow> ('l, 'r, 's, 'x) runtime \<Rightarrow> bool" where
  "chains_write W rt \<longleftrightarrow>
     (\<forall>x \<in> set (guests rt). chain_writes (wi_log W) (wi_enc W) (wi_codec W) (fst x) (snd x))"

lemma built_writes:
  assumes "provider_apart W" "built_chain W cred d"
  shows "chain_writes (wi_log W) (wi_enc W) (wi_codec W) cred d"
proof -
  obtain m x t0 x' l j where b: "wi_provider W cred m x = (Inr t0, x')"
    "new_dispatcher (schema_api.truncate (wi_schemas W)) (wi_sys W) (wi_log W) (wi_codec W) (wi_enc W)
       (wi_entropy W) (wi_tasks W) l m (Inr t0) j = Inr d"
    using assms(2) unfolding built_chain_def by blast
  have "handlers_write_nothing (wi_log W) t0" using assms(1) b(1) unfolding provider_apart_def by blast
  from new_dispatcher_writes [OF b(2) this] show ?thesis .
qed

lemma subseq_set: "subseq xs ys \<Longrightarrow> set xs \<subseteq> set ys"
  by (induction rule: list_emb.induct) auto

lemma step_chains:
  assumes s: "rt_step W rt rt'" and ok: "rt_ok rt" and W: "provider_apart W" and c: "chains_write W rt"
  shows "chains_write W rt'"
  using step_guests [OF s ok]
proof
  assume "no_new_guests rt rt'"
  then have "set (guests rt') \<subseteq> set (guests rt)" unfolding no_new_guests_def by (rule subseq_set)
  then show ?thesis using c unfolding chains_write_def by blast
next
  assume "\<exists>e ctx. e \<in> set (rt_execs rt) \<and> submitted e \<and> guests_running rt < wi_workers W \<and> quantum_start W ctx e rt = Some rt'"
  then obtain e ctx where e: "e \<in> set (rt_execs rt)" "submitted e" "quantum_start W ctx e rt = Some rt'" by blast
  obtain p where p: "mget (rt_processes rt) (ex_process e) = Some p" "quantum_ok e p" using rt_execD [OF ok e(1)] by blast
  have "ex_cred e = proc_context p" using p(2) e(2) by (simp add: quantum_ok_def)
  then have pc: "pc_process (ex_cred e) = ex_process e" using rt_okD(1) [OF ok p(1)] by (simp add: proc_context_def)
  obtain q x where q: "rt' = put_exec (e\<lparr>ex_quantum := q\<rparr>) (rt\<lparr>rt_ext := x\<rparr>)"
    "\<And>g. q = Running g \<Longrightarrow> built_chain W (ex_cred e) (gr_chain g) \<and> gr_cursor g = 0 \<and> \<not> gr_pending g"
    using quantum_start_chain [OF p(1) pc e(3)] by metis
  have "chain_writes (wi_log W) (wi_enc W) (wi_codec W) (fst y) (snd y)" if y: "y \<in> set (guests rt')" for y
  proof -
    have "set (guests rt') \<subseteq> set (guests rt) \<union> set_option (guest_of (e\<lparr>ex_quantum := q\<rparr>))"
      unfolding q(1) by (rule guests_start(2) [OF ok _ e(1)]) simp_all
    then consider "y \<in> set (guests rt)" | "guest_of (e\<lparr>ex_quantum := q\<rparr>) = Some y" using y by auto
    then show ?thesis
    proof cases
      case 1
      then show ?thesis using c unfolding chains_write_def by blast
    next
      case 2
      then obtain g where g: "q = Running g" "y = (ex_cred e, gr_chain g)"
        by (auto simp: guest_of_def split: quantum.splits)
      show ?thesis using built_writes [OF W] q(2) [OF g(1)] g(2) by simp
    qed
  qed
  then show ?thesis unfolding chains_write_def by blast
qed

lemma quantum_call_kept:
  assumes W: "recording W F" and lo: "log_ok W F rt" and ok: "rt_ok rt" and ch: "chains_write W rt"
    and e: "e \<in> set (rt_execs rt)" "ex_quantum e = Running g" and c: "quantum_call c g e rt = Some (u, rt')"
  shows "log_ok W F rt'"
proof -
  obtain p where p: "mget (rt_processes rt) (ex_process e) = Some p" "quantum_ok e p" using rt_execD [OF ok e(1)] by blast
  note d = rt_okD [OF ok p(1)]
  have g: "quantum_tape (guest_tape p g)" "ex_cred e = proc_context p" using p(2) e(2) by (auto simp: quantum_ok_def)
  obtain w where w: "w = snd (gr_chain g [] (ex_cred e) c no_auth (cworld_of rt p g))"
    "rt' = put_exec (e\<lparr>ex_quantum := Running (guest_after g w)\<rparr>) (put_cworld p w rt)"
    using c p(1) by (auto simp: quantum_call_def split: prod.splits)
  have "(ex_cred e, gr_chain g) \<in> set (guests rt)"
    using e by (auto simp: guests_def List.map_filter_def guest_of_def intro!: rev_image_eqI [of e])
  then have "chain_writes (wi_log W) (wi_enc W) (wi_codec W) (proc_context p) (gr_chain g)"
    using ch g(2) unfolding chains_write_def by fastforce
  then have k: "keeps (world_logged W F rt p) (proc_context p) (gr_chain g)"
    unfolding chain_writes_def using logged_chain.chain_world_axioms by blast
  have jo: "lj_ok (proc_journal (rt_log rt) p)" using d(3) proc_ok_journal [of p "rt_log rt"] by simp
  have "log_ok W F (put_cworld p (cworld_of rt p g) rt)"
    by (rule log_ok_same [OF lo])
      (use p(1) d(1) in \<open>simp_all add: put_cworld_processes cworld_of_def proc_journal_def new_log_journal_def fun_upd_idem\<close>)
  then have "world_logged W F rt p (cworld_of rt p g)"
    using W ok p(1) d(1) e(1) jo
    by (simp add: world_logged_def cworld_of_def) (simp add: names_def proc_journal_def new_log_journal_def)
  then have "world_logged W F rt p w" using k g(2) unfolding keeps_def w(1) by simp
  then have "log_ok W F (put_cworld p w rt)" by (simp add: world_logged_def)
  then show ?thesis unfolding w(2) by (rule log_ok_put_exec) (use e(1) in simp_all)
qed

subsection \<open>Every step\<close>

definition agrees :: "('l, 'd, 'r, 's, 'v, 'i, 'x) wiring \<Rightarrow> 'r json_forms \<Rightarrow> ('l, 'r, 's, 'x) runtime \<Rightarrow> bool" where
  "agrees W F rt \<longleftrightarrow> recording W F \<and> provider_apart W \<and> rt_ok rt \<and> chains_write W rt \<and> log_ok W F rt"

lemma step_log_ok:
  assumes s: "rt_step W rt rt'" and "agrees W F rt"
  shows "log_ok W F rt'"
proof -
  have W: "recording W F" and ok: "rt_ok rt" and ch: "chains_write W rt" and lo: "log_ok W F rt"
    using assms(2) by (simp_all add: agrees_def)
  note put = log_ok_put_exec [OF lo]
  from s show ?thesis
  proof cases
    case (exec_begin e)
    then obtain e' where "rt' = put_exec e' rt" "ex_process e' = ex_process e" using exec_begin_execs by blast
    then show ?thesis using put [OF exec_begin(1)] by simp
  next
    case (quantum_start e ctx)
    obtain q x where q: "rt' = put_exec (e\<lparr>ex_quantum := q\<rparr>) (rt\<lparr>rt_ext := x\<rparr>)"
      using quantum_start_execs [OF quantum_start(7)] by blast
    have "log_ok W F (rt\<lparr>rt_ext := x\<rparr>)" by (rule log_ok_quiet [OF lo]) simp_all
    then show ?thesis unfolding q by (rule log_ok_put_exec) (use quantum_start(1) in simp_all)
  next
    case close_begin
    let ?f = "\<lambda>e. if held_stop (ex_id e) (rt_processes rt) then e\<lparr>ex_cancelled := True\<rparr> else e"
    have X: "rt_execs rt' = map ?f (rt_execs rt)" if "\<not> rt_closed rt" using that close_begin by (simp add: close_begin_def)
    have "cancelling ?f" by (simp add: cancelling_def)
    from running_map [OF this X] have "running_procs rt' = running_procs rt"
      using close_begin by (cases "rt_closed rt") (simp_all add: close_begin_def)
    moreover have "rt_log rt' = rt_log rt" "rt_processes rt' = rt_processes rt" "rt_sessions rt' = rt_sessions rt"
      "rt_tasks rt' = rt_tasks rt" "rt_closed rt \<longrightarrow> rt_closed rt'"
      using close_begin by (simp_all add: close_begin_def)
    ultimately show ?thesis by (intro log_ok_quiet [OF lo]) simp_all
  next
    case (tick l)
    show ?thesis unfolding tick(1)
      by (rule log_ok_same [OF lo]) (use tick(2) in \<open>simp_all add: same_streams_def session_name_def fun_eq_iff\<close>)
  next
    case (create_session name tags y)
    show ?thesis by (rule create_session_kept [OF W lo create_session])
  next
    case (rename_session sid name y)
    show ?thesis by (rule rename_session_kept [OF W lo ok rename_session])
  next
    case (create_process sid input spec z)
    show ?thesis by (rule create_process_kept [OF W lo ok create_process])
  next
    case (stop pid z)
    show ?thesis by (rule stop_kept [OF W lo ok stop])
  next
    case (retry pid mode z)
    show ?thesis by (rule retry_kept [OF W lo ok retry])
  next
    case (resolve tid token a t)
    show ?thesis by (rule resolve_kept [OF W lo ok resolve])
  next
    case (decide a tid h now d)
    show ?thesis by (rule decide_kept [OF W lo decide])
  next
    case (settle now tid)
    show ?thesis unfolding settle(1) by (rule settle_kept [OF W lo])
  next
    case (wake pid x)
    show ?thesis by (rule wake_kept [OF W lo ok wake])
  next
    case (exec_mark e)
    show ?thesis by (rule exec_mark_kept [OF W lo ok exec_mark(1,3)])
  next
    case (exec_land e r)
    show ?thesis by (rule exec_land_kept [OF lo ok exec_land(1,4)])
  next
    case (outcome e r)
    show ?thesis by (rule outcome_kept [OF W lo ok outcome(1,3)])
  next
    case (exec_finish e status answer failure)
    show ?thesis by (rule exec_finish_kept [OF W lo ok exec_finish(3)])
  next
    case (quantum_drop e)
    show ?thesis unfolding quantum_drop(1) quantum_drop_def by (rule put [OF quantum_drop(2)]) simp
  next
    case (setup_cancelled e x)
    show ?thesis unfolding setup_cancelled(1) quantum_end_def by (rule put [OF setup_cancelled(2)]) simp
  next
    case (quantum_call e g c u)
    show ?thesis by (rule quantum_call_kept [OF W lo ok ch quantum_call])
  next
    case (quantum_end e g r)
    show ?thesis unfolding quantum_end(1) quantum_end_def by (rule put [OF quantum_end(2)]) simp
  next
    case close_cancel
    show ?thesis unfolding close_cancel by (rule log_ok_quiet [OF lo]) (simp_all add: close_cancel_def)
  next
    case (outside x)
    show ?thesis unfolding outside by (rule log_ok_quiet [OF lo]) simp_all
  qed
qed

lemma empty_log_ok:
  fixes rt :: "('l, 'r, 's, 'x) runtime"
  assumes "rt = empty_runtime l x" "\<forall>s. stream (wi_log W) s l = []"
  shows "log_ok W F rt"
proof -
  have f: "folded_of W l sid = Some no_states" "histories_of W l sid = Some []" for sid
    using assms(2) by (simp_all add: folded_of_def histories_of_def fold_journals_def)
  have t: "tasks_logged (wi_log W) (wi_codec W) F \<lparr>ts_records = [], ts_log = l\<rparr>"
    using assms(2) by (simp add: tasks_logged_def no_states_def logged_tasks_def session_tasks_def fun_eq_iff)
  show ?thesis
    using f t assms(2)
    by (simp add: assms(1) log_ok_def empty_runtime_def log_reads_def rec_defs no_states_def history_in_def
        session_recorded_at_def session_name_def tasks_recorded_def store_wf_def tasks_kept_def)
qed

interpretation agrees: invariant_system
    "\<lambda>rt. recording W F \<and> provider_apart W \<and> (\<exists>l x. rt = empty_runtime l x \<and> (\<forall>s. stream (wi_log W) s l = []))"
    "rt_step W" "agrees W F" for W F
proof (unfold_locales, goal_cases)
  case (1 rt)
  then obtain l x where e: "rt = empty_runtime l x" "\<forall>s. stream (wi_log W) s l = []" by blast
  have "rt_ok rt" unfolding e(1) by (rule empty_ok)
  moreover have "chains_write W rt" by (simp add: chains_write_def guests_def e(1) empty_runtime_def List.map_filter_def)
  ultimately show ?case using 1 empty_log_ok [OF e] unfolding agrees_def by blast
next
  case (2 rt rt')
  then show ?case
    using rt_step_ok [OF 2(2)] step_chains [OF 2(2)] step_log_ok [OF 2(2,1)] apart_keeps unfolding agrees_def by blast
qed

text \<open>The states of runs that begin with nothing on the log.\<close>

definition recorded_run :: "('l, 'd, 'r, 's, 'v, 'i, 'x) wiring \<Rightarrow> ('l, 'r, 's, 'x) runtime \<Rightarrow> bool" where
  "recorded_run W rt \<longleftrightarrow> (\<exists>l x. (\<forall>s. stream (wi_log W) s l = []) \<and> (rt_step W)\<^sup>*\<^sup>* (empty_runtime l x) rt)"

lemma recorded_run_agrees:
  "recorded_run W rt \<Longrightarrow> recording W F \<Longrightarrow> provider_apart W \<Longrightarrow> agrees W F rt"
  using agrees.reached_good [of W F] unfolding recorded_run_def by blast

lemma recorded_run_reachable: "recorded_run W rt \<Longrightarrow> reachable W rt"
  unfolding recorded_run_def reachable_def by blast

end
