(* ===== verification/Restart.thy ===== *)
theory Restart
  imports Agree
begin

text \<open>
  A restart: \<open>restore\<close> over the log of an earlier run gives back the sessions, processes, journals
  and tasks of that run, whatever step it was stopped after.
\<close>

subsection \<open>One session\<close>

definition restored_from :: "'r history \<Rightarrow> process_rec \<Rightarrow> 'r process_state" where
  "restored_from h r = restored_process [(pr_id r, h)] r"

lemma restored_process_from: "restored_process hs r = restored_from (history_in (pr_id r) hs) r"
  by (simp add: restored_from_def restored_process_def history_in_def)

lemma restored_from_id [simp]: "ps_id (restored_from h r) = pr_id r" "ps_session (restored_from h r) = pr_session r"
  "ps_manifest (restored_from h r) = pr_manifest r"
  by (simp_all add: restored_from_def restored_process_def Let_def)

lemma append_process_touches:
  assumes "log_laws (wi_log W)" "append_process W p rt = (y, rt')"
  shows "touches W (ps_session p) (rt_log rt) (rt_log rt')" "\<exists>l. rt' = rt\<lparr>rt_log := l\<rparr>"
proof -
  obtain l where "rt' = rt\<lparr>rt_log := l\<rparr>" "touches W (ps_session p) (rt_log rt) l"
    using append_event_effect [OF assms(1) assms(2) [unfolded append_process_def]] by metis
  then show "touches W (ps_session p) (rt_log rt) (rt_log rt')" "\<exists>l. rt' = rt\<lparr>rt_log := l\<rparr>" by auto
qed

lemma touches_trans: "touches W s a b \<Longrightarrow> touches W s b c \<Longrightarrow> touches W s a c"
  by (simp add: touches_def)

text \<open>The loop over a session's processes: every one is put, and only the session's stream is written.\<close>

definition restored_over :: "(string, 'r history) gomap \<Rightarrow> process_rec list \<Rightarrow> 'r procs \<Rightarrow> 'r procs" where
  "restored_over hs rs P k =
     (case List.find (\<lambda>r. pr_id r = k) rs of Some r \<Rightarrow> Some (restored_process hs r) | None \<Rightarrow> P k)"

lemma restore_processes_effect:
  fixes rt :: "('l, 'r, 's, 'x) runtime"
  assumes W: "log_laws (wi_log W)" and r: "restore_processes W hs s rs rt = (y, rt')"
    and rs: "distinct (map pr_id rs)" "\<forall>r \<in> set rs. pr_session r = sid"
    and s: "mget (rt_sessions rt) (ss_id s) = Some s"
  shows "touches W sid (rt_log rt) (rt_log rt')"
    "y = None \<Longrightarrow> mget (rt_processes rt') = restored_over hs rs (mget (rt_processes rt)) \<and>
       mget (rt_sessions rt') = (mget (rt_sessions rt))(ss_id s \<mapsto> s\<lparr>ss_processes := ss_processes s @ map pr_id rs\<rparr>)"
    "rt_tasks rt' = rt_tasks rt" "rt_execs rt' = rt_execs rt" "rt_closed rt' = rt_closed rt"
    "takes_all (wi_log W) \<and> (\<forall>r \<in> set rs. encodable (wi_codec W) (pr_manifest r)) \<Longrightarrow> y = None"
proof -
  let ?goal = "\<lambda>s rs rt. touches W sid (rt_log rt) (rt_log rt') \<and>
    (y = None \<longrightarrow> mget (rt_processes rt') = restored_over hs rs (mget (rt_processes rt)) \<and>
       mget (rt_sessions rt') = (mget (rt_sessions rt))(ss_id s \<mapsto> s\<lparr>ss_processes := ss_processes s @ map pr_id rs\<rparr>)) \<and>
    rt_tasks rt' = rt_tasks rt \<and> rt_execs rt' = rt_execs rt \<and> rt_closed rt' = rt_closed rt \<and>
    (takes_all (wi_log W) \<and> (\<forall>r \<in> set rs. encodable (wi_codec W) (pr_manifest r)) \<longrightarrow> y = None)"
  have "?goal s rs rt" using r rs s
  proof (induction rs arbitrary: s rt)
    case Nil
    then show ?case by (simp add: touches_def restored_over_def fun_eq_iff)
  next
    case (Cons r rs)
    let ?p = "restored_process hs r :: 'r process_state"
    let ?s = "s\<lparr>ss_processes := ss_processes s @ [ps_id ?p]\<rparr>"
    let ?rt = "put_session ?s (put_process ?p rt)"
    have p: "ps_id ?p = pr_id r" "ps_session ?p = sid" "ps_manifest ?p = pr_manifest r"
      using Cons.prems(3) by (simp_all add: restored_process_from)
    have find: "List.find (\<lambda>q. pr_id q = pr_id r) rs = None" using Cons.prems(2) by (auto simp: find_None_iff image_iff)
    have onward: "?goal s (r # rs) rt"
      if go: "restore_processes W hs ?s rs (?rt\<lparr>rt_log := l\<rparr>) = (y, rt')" "touches W sid (rt_log rt) l" for l
    proof -
      have pm: "mget (rt_processes (?rt\<lparr>rt_log := l\<rparr>)) = (mget (rt_processes rt))(pr_id r \<mapsto> ?p)"
        "mget (rt_sessions (?rt\<lparr>rt_log := l\<rparr>)) = (mget (rt_sessions rt))(ss_id s \<mapsto> ?s)"
        "rt_tasks (?rt\<lparr>rt_log := l\<rparr>) = rt_tasks rt" "rt_execs (?rt\<lparr>rt_log := l\<rparr>) = rt_execs rt"
        "rt_closed (?rt\<lparr>rt_log := l\<rparr>) = rt_closed rt"
        using p by (simp_all add: put_session_def put_process_def)
      have d: "distinct (map pr_id rs)" "\<forall>q \<in> set rs. pr_session q = sid" using Cons.prems(2,3) by simp_all
      have "mget (rt_sessions (?rt\<lparr>rt_log := l\<rparr>)) (ss_id ?s) = Some ?s" using pm(2) by simp
      note ih = Cons.IH [OF go(1) d this, unfolded pm]
      have over: "restored_over hs (r # rs) P = restored_over hs rs (P(pr_id r \<mapsto> ?p))" for P :: "'r procs"
        using find by (auto simp: restored_over_def fun_eq_iff split: option.split)
      show ?thesis
        unfolding over using ih touches_trans [OF go(2)] p(1) by (simp add: fun_upd_def fun_eq_iff)
    qed
    show ?case
    proof (cases "ps_status ?p \<noteq> pr_status r")
      case False
      then have "restore_processes W hs ?s rs (?rt\<lparr>rt_log := rt_log rt\<rparr>) = (y, rt')"
        using Cons.prems(1) by (simp add: Let_def put_session_def put_process_def)
      then show ?thesis by (rule onward) (simp add: touches_def)
    next
      case True
      obtain z x where a: "append_process W ?p ?rt = (z, x)" by fastforce
      obtain l where x: "x = ?rt\<lparr>rt_log := l\<rparr>" using append_process_touches(2) [OF W a] by blast
      have t: "touches W sid (rt_log rt) l" using append_process_touches(1) [OF W a] x p(2) by simp
      show ?thesis
      proof (cases z)
        case (Some e)
        then have "y = Some e" "rt' = x" using Cons.prems(1) True a by (simp_all add: Let_def)
        then show ?thesis using t x Some exact_append [OF _ _ a] p(3) by (auto simp: put_session_def put_process_def)
      next
        case None
        then have "restore_processes W hs ?s rs (?rt\<lparr>rt_log := l\<rparr>) = (y, rt')"
          using Cons.prems(1) True a x by (simp add: Let_def)
        then show ?thesis by (rule onward [OF _ t])
      qed
    qed
  qed
  then show "touches W sid (rt_log rt) (rt_log rt')"
    "y = None \<Longrightarrow> mget (rt_processes rt') = restored_over hs rs (mget (rt_processes rt)) \<and>
       mget (rt_sessions rt') = (mget (rt_sessions rt))(ss_id s \<mapsto> s\<lparr>ss_processes := ss_processes s @ map pr_id rs\<rparr>)"
    "rt_tasks rt' = rt_tasks rt" "rt_execs rt' = rt_execs rt" "rt_closed rt' = rt_closed rt"
    "takes_all (wi_log W) \<and> (\<forall>r \<in> set rs. encodable (wi_codec W) (pr_manifest r)) \<Longrightarrow> y = None" by blast+
qed

subsection \<open>What the log projects\<close>

text \<open>Reading as documented: every stream can be read, and the log lists exactly the streams that have events.\<close>

definition readable :: "('l, 'd) evlog \<Rightarrow> bool" where
  "readable L \<longleftrightarrow>
     (\<forall>s l. \<exists>es. el_read L s l = Inr es) \<and>
     (\<forall>l. \<exists>sids. el_sessions L l = Inr sids \<and> distinct sids \<and> (\<forall>s. s \<in> set sids \<longleftrightarrow> stream L s l \<noteq> []))"

lemma readable_stream: "readable L \<Longrightarrow> el_read L s l = Inr (stream L s l)"
  unfolding readable_def stream_def by (metis sum.simps(6))

lemma derived_identity [simp]:
  "se_id (fold derive_session ps s) = se_id s" "se_name (fold derive_session ps s) = se_name s"
  by (induction ps arbitrary: s) (simp_all add: derive_session_def Let_def)

lemma session_reads:
  assumes "log_reads W l"
  obtains pj hs where "fold_stream (wi_codec W) (stream (wi_log W) sid l) = Inr pj"
    "fold_journals (wi_dec W) (stream (wi_log W) sid l) = Inr hs"
proof -
  obtain f hs where "folded_of W l sid = Some f" "histories_of W l sid = Some hs" using assms unfolding log_reads_def by blast
  then show ?thesis
    by (intro that [of "project f" hs])
      (auto simp: folded_of_def histories_of_def fold_stream_def no_states_def split: sum.splits)
qed

lemma session_projection:
  fixes W :: "('l, 'd, 'r, 's, 'v, 'i, 'x) wiring"
  assumes lo: "log_ok W F rt" and n: "session_name rt sid = Some n"
    and pj: "fold_stream (wi_codec W) (stream (wi_log W) sid (rt_log rt)) = Inr pj"
      "fold_journals (wi_dec W) (stream (wi_log W) sid (rt_log rt)) = Inr hs"
  shows "history_in pid hs = rec_history W (rt_log rt) sid pid"
    "r \<in> set (pj_processes pj) \<longleftrightarrow> rec_process W (rt_log rt) sid (pr_id r) = Some r"
    "distinct (map pr_id (pj_processes pj))" "se_id (pj_session pj) = sid" "se_name (pj_session pj) = json_text n"
    "mget (ts_records (store_seed (pj_tasks pj) (s0 :: 'l task_store))) k =
       (case logged_tasks F sid (rt_tasks rt) k of Some r \<Rightarrow> Some r | None \<Rightarrow> mget (ts_records s0) k)"
proof -
  obtain q where q: "rec_session W (rt_log rt) sid = Some q" "se_id q = sid" "se_name q = json_text n"
    using log_okD(4) [OF lo, of sid] n by (auto simp: session_recorded_at_def)
  have tl: "tasks_logged (wi_log W) (wi_codec W) F (rt_store rt)" using log_okD(5) [OF lo] by (simp add: tasks_recorded_def)
  obtain f where f: "fold_events (wi_codec W) (stream (wi_log W) sid (rt_log rt)) no_states = Inr f" "pj = project f"
    using pj(1) by (auto simp: fold_stream_def no_states_def split: sum.splits)
  have fo: "folded_of W (rt_log rt) sid = Some f" using f(1) by (simp add: folded_of_def)
  have key: "keyed (fd_processes f)" using fold_events_processes [OF f(1)] by (simp add: no_states_def keyed_def)
  have ps: "pj_processes pj = sort_key (\<lambda>p. (pr_created p, pr_id p)) (map snd (fd_processes f))"
    by (simp add: f(2) project_def Let_def)
  have sorted: "distinct (map pr_id (sort_key key rs)) = distinct (map pr_id rs)"
    for key :: "process_rec \<Rightarrow> instant \<times> string" and rs by (simp add: distinct_map)
  show "history_in pid hs = rec_history W (rt_log rt) sid pid" using pj(2) by (simp add: rec_history_def histories_of_def)
  show "r \<in> set (pj_processes pj) \<longleftrightarrow> rec_process W (rt_log rt) sid (pr_id r) = Some r"
    using keyed_values(1) [OF key, of r] fo by (simp add: ps rec_process_def)
  show "distinct (map pr_id (pj_processes pj))" using keyed_values(2) [OF key] unfolding ps sorted .
  have "fd_session f = q" using q(1) fo by (simp add: rec_session_def)
  then show "se_id (pj_session pj) = sid" "se_name (pj_session pj) = json_text n"
    using q(2,3) by (simp_all add: f(2) project_def Let_def)
  show "mget (ts_records (store_seed (pj_tasks pj) s0)) k =
       (case logged_tasks F sid (rt_tasks rt) k of Some r \<Rightarrow> Some r | None \<Rightarrow> mget (ts_records s0) k)"
  proof (rule seed_projection [OF tl, where sid = sid])
    fix g
    assume g: "fold_events (wi_codec W) (stream (wi_log W) sid (ts_log (rt_store rt))) no_states = Inr g"
      and seed: "\<And>(s0 :: 'l task_store) k. mget (ts_records (store_seed (pj_tasks (project g)) s0)) k =
       (case logged_tasks F sid (ts_records (rt_store rt)) k of Some r \<Rightarrow> Some r | None \<Rightarrow> mget (ts_records s0) k)"
    have "g = f" using g f(1) by simp
    then show ?thesis using seed f(2) by simp
  qed
qed

lemma named_stream:
  assumes lo: "log_ok W F rt"
  shows "stream (wi_log W) sid (rt_log rt) \<noteq> [] \<longleftrightarrow> session_name rt sid \<noteq> None"
proof
  show "session_name rt sid \<noteq> None" if "stream (wi_log W) sid (rt_log rt) \<noteq> []"
    using log_okD(4) [OF lo, of sid] that by (auto simp: session_recorded_at_def split: option.splits)
  show "stream (wi_log W) sid (rt_log rt) \<noteq> []" if "session_name rt sid \<noteq> None"
  proof
    assume "stream (wi_log W) sid (rt_log rt) = []"
    then have "rec_session W (rt_log rt) sid = Some zero_session"
      by (simp add: rec_session_def folded_of_def no_states_def)
    then show False using log_okD(4) [OF lo, of sid] that
      by (auto simp: session_recorded_at_def zero_session_def split: option.splits)
  qed
qed

subsection \<open>All sessions\<close>

text \<open>The memory a restart has rebuilt once it has read the sessions in a set.\<close>

definition restored_state ::
    "('l, 'd, 'r, 's, 'v, 'i, 'x) wiring \<Rightarrow> 'r json_forms \<Rightarrow> 'l \<Rightarrow> 'r process_state \<Rightarrow> 'r process_state"
where
  "restored_state W F l p = restored_from (history_form F (ps_history p)) (the (rec_process W l (ps_session p) (ps_id p)))"

definition rebuilt ::
    "('l, 'd, 'r, 's, 'v, 'i, 'x) wiring \<Rightarrow> 'r json_forms \<Rightarrow> ('l, 'r, 's, 'x) runtime \<Rightarrow> string set \<Rightarrow>
     ('l, 'r, 's, 'x) runtime \<Rightarrow> bool"
where
  "rebuilt W F rt D rt2 \<longleftrightarrow>
     (\<forall>k. mget (rt_processes rt2) k =
        (case mget (rt_processes rt) k of
           Some p \<Rightarrow> if ps_session p \<in> D then Some (restored_state W F (rt_log rt) p) else None | None \<Rightarrow> None)) \<and>
     (\<forall>k. (k \<notin> D \<longrightarrow> mget (rt_sessions rt2) k = None) \<and>
        (k \<in> D \<longrightarrow> (\<exists>s. mget (rt_sessions rt2) k = Some s \<and> ss_id s = k \<and>
           map_option json_text (session_name rt k) = Some (ss_name s) \<and>
           set (ss_processes s) = {pid. \<exists>p. mget (rt_processes rt) pid = Some p \<and> ps_session p = k}))) \<and>
     (\<forall>k. mget (rt_tasks rt2) k =
        (case mget (rt_tasks rt) k of
           Some r \<Rightarrow> if pc_session (tk_scope r) \<in> D then Some (task_form F r) else None | None \<Rightarrow> None)) \<and>
     rt_execs rt2 = [] \<and> \<not> rt_closed rt2 \<and>
     (\<forall>s. s \<notin> D \<longrightarrow> stream (wi_log W) s (rt_log rt2) = stream (wi_log W) s (rt_log rt))"

lemma find_key: "distinct (map f xs) \<Longrightarrow> x \<in> set xs \<Longrightarrow> f x = k \<Longrightarrow> List.find (\<lambda>y. f y = k) xs = Some x"
  by (induction xs) auto

text \<open>Booting cannot fail on a log that takes every append, when the restored manifests are encodable.\<close>

definition bootable :: "('l, 'd, 'r, 's, 'v, 'i, 'x) wiring \<Rightarrow> 'r json_forms \<Rightarrow> ('l, 'r, 's, 'x) runtime \<Rightarrow> bool" where
  "bootable W F rt \<longleftrightarrow>
     takes_all (wi_log W) \<and>
     (\<forall>pid p. mget (rt_processes rt) pid = Some p \<longrightarrow> encodable (wi_codec W) (jf_manifest F (ps_manifest p)))"

lemma rebuilt_session:
  fixes rt :: "('l, 'r, 's, 'x) runtime"
  assumes W: "log_laws (wi_log W)" and lo: "log_ok W F rt" and ok: "rt_ok rt"
    and b: "rebuilt W F rt D rt2" and sid: "sid \<notin> D" "session_name rt sid = Some n"
    and pj: "fold_stream (wi_codec W) (stream (wi_log W) sid (rt_log rt)) = Inr pj"
      "fold_journals (wi_dec W) (stream (wi_log W) sid (rt_log rt)) = Inr hs"
    and r: "restore_session W pj hs rt2 = (y, rt3)"
  shows "bootable W F rt \<Longrightarrow> y = None"
    "y = None \<Longrightarrow> rebuilt W F rt (insert sid D) (snd (on_tasks (\<lambda>s. ((), store_seed (pj_tasks pj) s)) rt3))"
proof -
  note p = session_projection [OF lo sid(2) pj]
  have rec: "\<exists>r. rec_process W (rt_log rt) sid pid = Some r \<and> pr_id r = pid \<and> pr_session r = sid \<and>
      pr_manifest r = jf_manifest F (ps_manifest q) \<and>
      rec_history W (rt_log rt) sid pid = history_form F (ps_history q)"
    if "mget (rt_processes rt) pid = Some q" "ps_session q = sid" for pid q
    using log_okD(2) [OF lo that(1)] rt_okD(1) [OF ok that(1)] that(2)
    by (auto simp: process_recorded_at_def proc_logged_def same_record_def)
  have none: "\<exists>q. mget (rt_processes rt) pid = Some q \<and> ps_session q = sid" if "rec_process W (rt_log rt) sid pid = Some r" for pid r
  proof (rule ccontr)
    assume "\<nexists>q. mget (rt_processes rt) pid = Some q \<and> ps_session q = sid"
    then have "ps_session q \<noteq> sid" if "mget (rt_processes rt) pid = Some q" for q using that by blast
    from log_okD(3) [OF lo this] show False using \<open>rec_process W (rt_log rt) sid pid = Some r\<close> by simp
  qed
  let ?rs = "pj_processes pj"
  have mem: "\<exists>q. mget (rt_processes rt) (pr_id r) = Some q \<and> pr_session r = sid \<and> pr_manifest r = jf_manifest F (ps_manifest q)"
    if "r \<in> set ?rs" for r
  proof -
    have r: "rec_process W (rt_log rt) sid (pr_id r) = Some r" using p(2) [of r] that by blast
    obtain q where q: "mget (rt_processes rt) (pr_id r) = Some q" "ps_session q = sid" using none [OF r] by blast
    then show ?thesis using rec [OF q] r by auto
  qed
  then have rs: "\<forall>r \<in> set ?rs. pr_session r = sid" by blast
  have ids: "set (map pr_id ?rs) = {pid. \<exists>q. mget (rt_processes rt) pid = Some q \<and> ps_session q = sid}"
  proof (intro set_eqI iffI)
    fix pid assume "pid \<in> set (map pr_id ?rs)"
    then obtain r where "r \<in> set ?rs" "pr_id r = pid" by auto
    then have "rec_process W (rt_log rt) sid pid = Some r" using p(2) [of r] by blast
    then show "pid \<in> {pid. \<exists>q. mget (rt_processes rt) pid = Some q \<and> ps_session q = sid}" using none by simp
  next
    fix pid assume "pid \<in> {pid. \<exists>q. mget (rt_processes rt) pid = Some q \<and> ps_session q = sid}"
    then obtain q where "mget (rt_processes rt) pid = Some q" "ps_session q = sid" by blast
    from rec [OF this] obtain r where "rec_process W (rt_log rt) sid pid = Some r" "pr_id r = pid" by blast
    then have "r \<in> set ?rs" using p(2) [of r] by blast
    then show "pid \<in> set (map pr_id ?rs)" using \<open>pr_id r = pid\<close> by auto
  qed
  let ?s = "restored_session (pj_session pj)"
  have s: "ss_id ?s = sid" "ss_name ?s = json_text n" "ss_processes ?s = []" using p(4,5) by (simp_all add: restored_session_def)
  have put: "mget (rt_sessions (put_session ?s rt2)) (ss_id ?s) = Some ?s" by (simp add: put_session_def)
  have rp: "restore_processes W hs ?s ?rs (put_session ?s rt2) = (y, rt3)" using r by (simp add: restore_session_def Let_def)
  note e = restore_processes_effect [OF W rp p(3) rs put]
  show "y = None" if "bootable W F rt"
  proof (rule e(6), intro conjI ballI)
    show "takes_all (wi_log W)" using that by (simp add: bootable_def)
    show "encodable (wi_codec W) (pr_manifest r)" if "r \<in> set ?rs" for r
      using mem [OF that] \<open>bootable W F rt\<close> unfolding bootable_def by metis
  qed
  assume y: "y = None"
  note b' = b [unfolded rebuilt_def]
  let ?rt = "snd (on_tasks (\<lambda>s. ((), store_seed (pj_tasks pj) s)) rt3)"
  have seedlog: "ts_log (store_seed ts s0) = ts_log s0" for ts and s0 :: "'l task_store"
    by (induction ts arbitrary: s0) (simp_all add: store_seed_def)
  have rt: "rt_processes ?rt = rt_processes rt3" "rt_sessions ?rt = rt_sessions rt3" "rt_execs ?rt = rt_execs rt3"
    "rt_closed ?rt = rt_closed rt3" "rt_log ?rt = rt_log rt3"
    "rt_tasks ?rt = ts_records (store_seed (pj_tasks pj) (rt_store rt3))"
    by (simp_all add: on_tasks_def seedlog)
  have procs: "mget (rt_processes rt3) k =
      (case mget (rt_processes rt) k of
         Some q \<Rightarrow> if ps_session q \<in> insert sid D then Some (restored_state W F (rt_log rt) q) else None | None \<Rightarrow> None)" for k
  proof (cases "\<exists>q. mget (rt_processes rt) k = Some q \<and> ps_session q = sid")
    case True
    then obtain q where q: "mget (rt_processes rt) k = Some q" "ps_session q = sid" by blast
    obtain r where r: "rec_process W (rt_log rt) sid k = Some r" "pr_id r = k"
      "rec_history W (rt_log rt) sid k = history_form F (ps_history q)"
      using rec [OF q] by blast
    have "r \<in> set ?rs" using p(2) [of r] r(1,2) by blast
    then have f: "List.find (\<lambda>r. pr_id r = k) ?rs = Some r" using find_key [OF p(3)] r(2) by blast
    have "restored_process hs r = restored_state W F (rt_log rt) q"
      using r q rt_okD(1) [OF ok q(1)] p(1) [of k] by (simp add: restored_process_from restored_state_def)
    then show ?thesis using e(2) [OF y] f q by (simp add: restored_over_def)
  next
    case False
    then have "k \<notin> set (map pr_id ?rs)" unfolding ids by blast
    then have "List.find (\<lambda>r. pr_id r = k) ?rs = None" by (auto simp: find_None_iff image_iff)
    then have "mget (rt_processes rt3) k = mget (rt_processes rt2) k"
      using e(2) [OF y] by (simp add: restored_over_def put_session_def)
    then show ?thesis using b' False by (auto split: option.splits)
  qed
  have sess: "(k \<notin> insert sid D \<longrightarrow> mget (rt_sessions rt3) k = None) \<and>
      (k \<in> insert sid D \<longrightarrow> (\<exists>s. mget (rt_sessions rt3) k = Some s \<and> ss_id s = k \<and>
           map_option json_text (session_name rt k) = Some (ss_name s) \<and>
           set (ss_processes s) = {pid. \<exists>p. mget (rt_processes rt) pid = Some p \<and> ps_session p = k}))" for k
  proof (cases "k = sid")
    case True
    then show ?thesis using e(2) [OF y] s sid(2) ids by (simp add: put_session_def)
  next
    case False
    then have "mget (rt_sessions rt3) k = mget (rt_sessions rt2) k" using e(2) [OF y] s by (simp add: put_session_def)
    then show ?thesis using b' False by simp
  qed
  have tasks: "mget (rt_tasks ?rt) k =
      (case mget (rt_tasks rt) k of
         Some r \<Rightarrow> if pc_session (tk_scope r) \<in> insert sid D then Some (task_form F r) else None | None \<Rightarrow> None)" for k
  proof -
    have "mget (rt_tasks ?rt) k = (case logged_tasks F sid (rt_tasks rt) k of Some r \<Rightarrow> Some r | None \<Rightarrow> mget (rt_tasks rt2) k)"
      unfolding rt(6) p(6) using e(3) by (simp add: put_session_def split: option.split)
    then show ?thesis using b' by (auto simp: logged_tasks_def session_tasks_def split: option.splits)
  qed
  have st: "stream (wi_log W) k (rt_log rt3) = stream (wi_log W) k (rt_log rt)" if "k \<notin> insert sid D" for k
    using e(1) b' that by (simp add: touches_def put_session_def)
  show "rebuilt W F rt (insert sid D) ?rt"
    unfolding rebuilt_def rt(1-5) using procs sess tasks st e(4,5) b' by (simp add: put_session_def)
qed

lemma rebuilt_sessions:
  assumes W: "log_laws (wi_log W)" "readable (wi_log W)" and lo: "log_ok W F rt" and ok: "rt_ok rt"
  shows "restore_sessions W sids rt2 = (y, rt3) \<Longrightarrow> rebuilt W F rt D rt2 \<Longrightarrow> distinct sids \<Longrightarrow> set sids \<inter> D = {} \<Longrightarrow>
    \<forall>sid \<in> set sids. session_name rt sid \<noteq> None \<Longrightarrow>
    (bootable W F rt \<longrightarrow> y = None) \<and> (y = None \<longrightarrow> rebuilt W F rt (D \<union> set sids) rt3)"
proof (induction sids arbitrary: D rt2)
  case Nil
  then show ?case by simp
next
  case (Cons sid sids)
  obtain n where n: "session_name rt sid = Some n" using Cons.prems(5) by auto
  have sid: "sid \<notin> D" using Cons.prems(4) by auto
  have st: "stream (wi_log W) sid (rt_log rt2) = stream (wi_log W) sid (rt_log rt)"
    using Cons.prems(2) sid unfolding rebuilt_def by blast
  obtain pj hs where pj: "fold_stream (wi_codec W) (stream (wi_log W) sid (rt_log rt)) = Inr pj"
    "fold_journals (wi_dec W) (stream (wi_log W) sid (rt_log rt)) = Inr hs"
    using session_reads [OF log_okD(1) [OF lo]] by metis
  obtain z rt1 where r: "restore_session W pj hs rt2 = (z, rt1)" by fastforce
  note s = rebuilt_session [OF W(1) lo ok Cons.prems(2) sid n pj r]
  have go: "(case restore_session W pj hs rt2 of
      (Some e, rt1) \<Rightarrow> (Some e, rt1)
    | (None, rt1) \<Rightarrow> restore_sessions W sids (snd (on_tasks (\<lambda>s. ((), store_seed (pj_tasks pj) s)) rt1))) = (y, rt3)"
    using Cons.prems(1) readable_stream [OF W(2)] st pj by simp
  show ?case
  proof (cases z)
    case (Some e)
    then show ?thesis using s(1) go r by auto
  next
    case None
    then have "restore_sessions W sids (snd (on_tasks (\<lambda>s. ((), store_seed (pj_tasks pj) s)) rt1)) = (y, rt3)"
      using go r by simp
    then show ?thesis using Cons.IH [OF _ s(2) [OF None]] Cons.prems(3-5) by auto
  qed
qed

subsection \<open>The whole restart\<close>

lemma restart_rebuilds:
  fixes rt :: "('l, 'r, 's, 'x) runtime"
  assumes W: "recording W F" "readable (wi_log W)" and lo: "log_ok W F rt" and ok: "rt_ok rt"
    and r: "restore W (empty_runtime (rt_log rt) x) = (y, rt')"
  shows "bootable W F rt \<Longrightarrow> y = None" "y = None \<Longrightarrow> rebuilt W F rt {sid. session_name rt sid \<noteq> None} rt'"
proof -
  have laws: "log_laws (wi_log W)" using W(1) by (simp add: recording_def)
  obtain sids where sids: "el_sessions (wi_log W) (rt_log rt) = Inr sids" "distinct sids"
    "\<And>s. s \<in> set sids \<longleftrightarrow> stream (wi_log W) s (rt_log rt) \<noteq> []"
    using W(2) unfolding readable_def by blast
  have D: "set sids = {sid. session_name rt sid \<noteq> None}" using sids(3) named_stream [OF lo] by blast
  have rs: "restore_sessions W sids (empty_runtime (rt_log rt) x) = (y, rt')"
    using r sids(1) by (simp add: restore_def empty_runtime_def)
  have b: "rebuilt W F rt {} (empty_runtime (rt_log rt) x)"
    by (auto simp: rebuilt_def empty_runtime_def split: option.split)
  note all = rebuilt_sessions [OF laws W(2) lo ok rs b sids(2)]
  show "bootable W F rt \<Longrightarrow> y = None" "y = None \<Longrightarrow> rebuilt W F rt {sid. session_name rt sid \<noteq> None} rt'"
    using all D by auto
qed

text \<open>A process before and after: what it was, in the form JSON gives it.\<close>

definition recovered :: "'r json_forms \<Rightarrow> 'r process_state \<Rightarrow> 'r process_state \<Rightarrow> bool" where
  "recovered F p q \<longleftrightarrow>
     ps_id q = ps_id p \<and> ps_session q = ps_session p \<and> ps_input q = json_text (ps_input p) \<and>
     ps_manifest q = jf_manifest F (ps_manifest p) \<and> ps_digest q = json_text (ps_digest p) \<and>
     ps_created q = ps_created p \<and> ps_history q = history_form F (ps_history p) \<and> proc_ok q \<and> \<not> busy (ps_status q) \<and>
     ps_revision q \<le> ps_revision p \<and>
     (ps_revision q = ps_revision p \<longrightarrow>
        ps_length q = ps_length p \<and>
        lj_recs (proc_journal () q) = map (record_form F) (lj_recs (proc_journal () p)))"

lemma not_busy_interrupted [simp]: "\<not> busy (interrupted_status st)"
  by (cases st) (simp_all add: interrupted_status_def)

lemma restored_state_recovered:
  assumes lo: "log_ok W F rt" and ok: "rt_ok rt" and p: "mget (rt_processes rt) pid = Some p"
  shows "recovered F p (restored_state W F (rt_log rt) p)"
    "exact W rt p \<Longrightarrow> stored_process (restored_state W F (rt_log rt) p) =
       (process_form F (stored_process p))\<lparr>pr_status := interrupted_status (ps_status p)\<rparr>"
proof -
  have id: "ps_id p = pid" by (rule rt_okD(1) [OF ok p])
  obtain r where r: "rec_process W (rt_log rt) (ps_session p) pid = Some r" "proc_logged F p r" "len_ok p"
    "exact W rt p \<longrightarrow> r = process_form F (stored_process p)"
    using log_okD(2) [OF lo p] unfolding process_recorded_at_def by blast
  let ?q = "restored_state W F (rt_log rt) p"
  have q: "?q = restored_from (history_form F (ps_history p)) r" using r(1) by (simp add: restored_state_def id)
  have j: "proc_journal () ?q = json_journal (jf_syscall F) (jf_result F) (recorded_journal p r)"
    using r(2) by (simp add: q restored_from_def restored_process_def Let_def history_in_def proc_journal_def recorded_journal_def
        proc_logged_def same_record_def new_log_journal_def json_journal_def history_form_def)
  have wf: "wf_journal (recorded_journal p r)" by (rule proc_logged_wf [OF r(2) rt_okD(3) [OF ok p] r(3)])
  then have jo: "lj_ok (recorded_journal p r)" "wf_records (lj_recs (recorded_journal p r))"
    by (simp_all add: wf_journal_def)
  have "proc_ok ?q" unfolding proc_ok_def j
    using jo wf r(2)
    by (simp add: wf_journal_def json_journal_recs q restored_from_def restored_process_def Let_def proc_logged_def)
  moreover have "ps_id ?q = ps_id p" "ps_session ?q = ps_session p" "ps_input ?q = json_text (ps_input p)"
    "ps_manifest ?q = jf_manifest F (ps_manifest p)" "ps_digest ?q = json_text (ps_digest p)" "ps_created ?q = ps_created p"
    "ps_history ?q = history_form F (ps_history p)" "\<not> busy (ps_status ?q)" "ps_revision ?q = pr_revision r"
    using r(2) by (simp_all add: q restored_from_def restored_process_def Let_def history_in_def
        proc_logged_def same_record_def)
  moreover have "ps_length ?q = ps_length p \<and> lj_recs (proc_journal () ?q) = map (record_form F) (lj_recs (proc_journal () p))"
    if "pr_revision r = ps_revision p"
  proof -
    have same: "recorded_journal p r = proc_journal () p"
      using r(2,3) that by (simp add: recorded_journal_def proc_journal_def proc_logged_def len_ok_def)
    have "lj_length (proc_journal () ?q) = lj_length (proc_journal () p)" unfolding j same by simp
    then have "ps_length ?q = ps_length p" by (simp add: proc_journal_def new_log_journal_def)
    then show ?thesis using jo(1) unfolding j same by (simp add: json_journal_recs record_form_def)
  qed
  ultimately show "recovered F p ?q" using r(2) by (simp add: recovered_def proc_logged_def)
  show "stored_process ?q = (process_form F (stored_process p))\<lparr>pr_status := interrupted_status (ps_status p)\<rparr>" if "exact W rt p"
    using r(4) that by (simp add: q restored_from_def restored_process_def Let_def stored_process_def process_form_def)
qed



subsection \<open>On a concrete run\<close>

lemma demo_recording: "recording demo_wiring demo_forms" "readable (wi_log demo_wiring)" "provider_apart demo_wiring"
  "takes_all (wi_log demo_wiring)" "encodable (wi_codec demo_wiring) m"
proof -
  have "codec_laws demo_chain_codec (demo_forms :: demo_result json_forms)"
    using demo_codec_laws [where 'r = demo_result] by (simp add: codec_laws_def demo_chain_codec_def demo_codec_def)
  moreover have f: "jf_syscall demo_forms = demo_form" "jf_result demo_forms = id"
    by (simp_all add: demo_forms_def demo_form_def fun_eq_iff)
  have "codec_ok (wi_enc demo_wiring) (wi_dec demo_wiring) (jf_syscall demo_forms) (jf_result demo_forms)"
    unfolding f by (simp add: codec_ok_def demo_wiring_def)
  ultimately show "recording demo_wiring demo_forms" using open_evlog_laws by (simp add: recording_def)
  show "readable (wi_log demo_wiring)"
    by (force simp: readable_def open_evlog_def mem_evlog_def stream_def filter_empty_conv image_iff)
  show "provider_apart demo_wiring"
    by (simp add: provider_apart_def demo_wiring_def handlers_keep_def handlers_write_nothing_def new_table_def)
  show "takes_all (wi_log demo_wiring)" by (simp add: takes_all_def open_evlog_def mem_evlog_def)
  show "encodable (wi_codec demo_wiring) m" by (simp add: encodable_def demo_chain_codec_def)
qed

lemma demo_recorded: "recorded_run demo_wiring demo_opened" "recorded_run demo_wiring demo_queued"
proof -
  have e: "\<forall>s. stream (wi_log demo_wiring) s \<lparr>ml_events = [], ml_now = 7, ml_full = False\<rparr> = []"
    by (simp add: stream_def open_evlog_def mem_evlog_def)
  have "(rt_step demo_wiring)\<^sup>*\<^sup>* demo_boot demo_opened" using demo_steps(1) by blast
  moreover have "(rt_step demo_wiring)\<^sup>*\<^sup>* demo_boot demo_queued"
    using calculation demo_steps(2) by (rule rtranclp.rtrancl_into_rtrancl)
  ultimately show "recorded_run demo_wiring demo_opened" "recorded_run demo_wiring demo_queued"
    using e unfolding recorded_run_def demo_boot_def by blast+
qed



end
