(* ===== verification/Owned.thy ===== *)
theory Owned
  imports Total Agree
begin

text \<open>
  Every task belongs to a process of the runtime: tasks are made by the chain of a quantum, in the
  name of the process it runs for, no operation moves one to another process, and a process is
  never removed. So nothing is dereferenced that is not there, whatever the API is asked for.
\<close>

subsection \<open>Where tasks come from\<close>

definition scopes_from :: "(string, task_record) gomap \<Rightarrow> (string, task_record) gomap \<Rightarrow> bool" where
  "scopes_from ts ts' \<longleftrightarrow>
     (\<forall>k r'. mget ts' k = Some r' \<longrightarrow> (\<exists>k0 r. mget ts k0 = Some r \<and> tk_scope r' = tk_scope r))"

lemma scopes_refl [simp]: "scopes_from ts ts"
  by (auto simp: scopes_from_def)

lemma scopes_put:
  assumes "mget ts tid = Some r" "tk_scope r' = tk_scope r"
  shows "scopes_from ts (mput tid r' ts)"
  using assms by (auto simp: scopes_from_def)

lemma resolve_scopes:
  assumes "on_tasks (store_resolve L D tid h a now) rt = (y, rt')"
  shows "scopes_from (rt_tasks rt) (rt_tasks rt')"
proof -
  obtain x s where s: "store_resolve L D tid h a now (rt_store rt) = (x, s)" "rt_tasks rt' = ts_records s"
    using assms by (auto simp: on_tasks_def split: prod.splits)
  from s(1) show ?thesis
    by (cases rule: store_resolve_cases) (auto simp: s(2) intro: scopes_put)
qed

lemma settle_scopes: "scopes_from (rt_tasks rt) (rt_tasks (settle_task W now tid rt))"
proof -
  obtain x s where s: "store_settle (wi_log W) (wi_codec W) tid now (rt_store rt) = (x, s)" by fastforce
  then have t: "rt_tasks (settle_task W now tid rt) = ts_records s" by (simp add: settle_task_def on_tasks_def)
  from s show ?thesis by (cases rule: store_settle_cases) (auto simp: t intro: scopes_put)
qed

lemma relaunch_tasks:
  assumes "relaunch W p rt = Some (y, rt')"
  shows "rt_tasks rt' = rt_tasks rt"
proof (cases "rt_closed rt")
  case True
  then show ?thesis using assms by (auto simp: relaunch_def)
next
  case False
  then obtain s where "mget (rt_sessions rt) (ps_session p) = Some s"
    using assms by (auto simp: relaunch_def bind_eq_Some_conv)
  from relaunch_cases [OF assms this] show ?thesis by cases simp_all
qed

lemma retry_tasks:
  assumes "rt_ok rt" "retry W pid mode rt = Some (z, rt')"
  shows "rt_tasks rt' = rt_tasks rt"
proof (cases rule: retry_cases [OF assms(2,1)])
  case (2 p0 p rt1 s)
  then show ?thesis using relaunch_tasks [OF 2(17)] by simp
qed simp

lemma wake_tasks:
  assumes "rt_ok rt" "wake W pid rt = Some (x, rt')"
  shows "rt_tasks rt' = rt_tasks rt"
proof -
  have "rt' = rt \<or> (\<exists>z. retry W pid RetryResume rt = Some (z, rt'))"
    using assms(2) by (auto simp: wake_def bind_eq_Some_conv split: if_splits)
  then show ?thesis using retry_tasks [OF assms(1)] by blast
qed

lemma finish_tasks:
  assumes "rt_ok rt" "mget (rt_processes rt) pid = Some p" "finish W p st a f rt = Some rt'"
  shows "rt_tasks rt' = rt_tasks rt"
proof -
  obtain s where "mget (rt_sessions rt) (ps_session p) = Some s" using rt_okD(4) [OF assms(1,2)] by blast
  from finish_parts(5) [OF assms(3) this] show ?thesis .
qed

lemma put_exec_tasks [simp]: "rt_tasks (put_exec e rt) = rt_tasks rt"
  by (simp add: put_exec_def)

lemma fail_tasks:
  assumes "fail_process W e p f rt = Some rt'"
  shows "rt_tasks rt' = rt_tasks rt"
proof -
  let ?p = "p\<lparr>ps_last_failure := ps_length p\<rparr>"
  obtain again rt1 where r: "redrive_after_failure W p rt = Some (again, rt1)" "rt_tasks rt' = rt_tasks rt1"
    using assms by (auto simp: fail_process_def to_finish_def split: if_splits)
  have "rt1 = rt \<or> (\<exists>y. relaunch W ?p (put_process ?p rt) = Some (y, rt1))"
    using r(1) by (auto simp: redrive_after_failure_def split: sum.splits prod.splits option.splits if_splits)
  then show ?thesis using r(2) relaunch_tasks by (fastforce simp: put_process_def)
qed

lemma abort_tasks:
  assumes "rt_ok rt" "mget (rt_processes rt) pid = Some p" "retry_aborted_section W p reason rt = Some rt2"
  shows "rt_tasks rt2 = rt_tasks rt"
proof -
  have "(\<exists>f. finish W p ProcessFailed '''' f rt = Some rt2) \<or>
      (\<exists>off p1 rt1 y. fork_process off (p\<lparr>ps_aborts := ps_aborts p + 1\<rparr>) rt = (p1, rt1) \<and> relaunch W p1 rt1 = Some (y, rt2))"
    using assms(3) by (fastforce simp: retry_aborted_section_def Let_def split: sum.splits prod.splits if_splits)
  then show ?thesis using finish_tasks [OF assms(1,2)] relaunch_tasks fork_parts(7) by metis
qed

lemma outcome_tasks:
  assumes ok: "rt_ok rt" and o: "record_outcome W r e rt = Some rt'"
  shows "rt_tasks rt' = rt_tasks rt"
proof (cases "qr_status r")
  case ResumeCompleted
  then obtain p lc where p: "mget (rt_processes rt) (ex_process e) = Some p" "last_call W (rt_log rt) p = Some lc"
    using o by (auto simp: record_outcome_def bind_eq_Some_conv)
  show ?thesis
  proof (cases "guest_abort lc")
    case (Some reason)
    then obtain rt2 where "retry_aborted_section W p reason rt = Some rt2" "rt' = drop_exec e rt2"
      using o ResumeCompleted p by (auto simp: record_outcome_def)
    then show ?thesis using abort_tasks [OF ok p(1)] by simp
  next
    case None
    then show ?thesis using o ResumeCompleted p fail_tasks
      by (cases "answer_from_journal (wi_sys W) lc") (auto simp: record_outcome_def to_finish_def)
  qed
qed (use o fail_tasks in \<open>auto simp: record_outcome_def to_finish_def bind_eq_Some_conv\<close>)

lemma stop_tasks:
  assumes ok: "rt_ok rt" and s: "stop_process W pid rt = Some (z, rt')"
  shows "rt_tasks rt' = rt_tasks rt"
proof (cases "mget (rt_processes rt) pid")
  case None
  then show ?thesis using s by (simp add: stop_process_def)
next
  case (Some p)
  show ?thesis
  proof (cases "ps_status p = ProcessQueued \<or> ps_status p = ProcessRunning")
    case True
    let ?p = "p\<lparr>ps_stop_requested := True, ps_status := ProcessStopping, ps_updated := rt_now W rt\<rparr>"
    let ?rt = "cancel_exec (ps_stop p) (put_process ?p rt)"
    obtain l where l: "snd (append_process W ?p ?rt) = ?rt\<lparr>rt_log := l\<rparr>"
      using append_process_log [of W ?p ?rt] by (metis snd_conv)
    have "rt' = ?rt\<lparr>rt_log := l\<rparr>" by (rule trans [OF stop_running [OF Some True s] l])
    then show ?thesis by (simp add: cancel_exec_def put_process_def)
  next
    case False
    then show ?thesis using s Some finish_tasks [OF ok Some]
      by (auto simp: stop_process_def bind_eq_Some_conv split: if_splits)
  qed
qed

subsection \<open>The invariant\<close>

text \<open>The tasks of a world or of a runtime, all of them some process's.\<close>

definition tasks_owned :: "string set \<Rightarrow> (string, task_record) gomap \<Rightarrow> bool" where
  "tasks_owned P ts \<longleftrightarrow> (\<forall>k r. mget ts k = Some r \<longrightarrow> pc_process (tk_scope r) \<in> P)"

lemma tasks_owned_from: "tasks_owned P ts \<Longrightarrow> scopes_from ts ts' \<Longrightarrow> P \<subseteq> P' \<Longrightarrow> tasks_owned P' ts'"
  unfolding tasks_owned_def scopes_from_def by (metis subsetD)

interpretation owned_chain: chain_world L enc D cred "\<lambda>w. pc_process cred \<in> P \<and> tasks_owned P (cw_tasks w)"
  for L :: "('l, 'd) evlog" and enc :: "'r jrecord \<Rightarrow> err + 'd" and D cred P
proof (unfold_locales, goal_cases)
  case (1 w w')
  then show ?case by (simp add: quiet_step_def)
next
  case (2 w r y j)
  then show ?case by simp
next
  case (3 w q z ts l)
  have "ts = cw_tasks w \<or> ts = mput (tk_id q) q (cw_tasks w)"
    using 3(5) by (cases rule: store_create_cases) auto
  then show ?case using 3(1,2) by (auto simp: tasks_owned_def split: if_splits)
qed

definition owned :: "('l, 'd, 'r, 's, 'v, 'i, 'x) wiring \<Rightarrow> ('l, 'r, 's, 'x) runtime \<Rightarrow> bool" where
  "owned W rt \<longleftrightarrow> provider_apart W \<and> rt_ok rt \<and> chains_write W rt \<and>
     tasks_owned (dom (mget (rt_processes rt))) (rt_tasks rt)"

lemma quantum_call_owned:
  assumes ok: "rt_ok rt" and ch: "chains_write W rt" and o: "tasks_owned (dom (mget (rt_processes rt))) (rt_tasks rt)"
    and e: "e \<in> set (rt_execs rt)" "ex_quantum e = Running g" and c: "quantum_call c g e rt = Some (u, rt')"
  shows "tasks_owned (dom (mget (rt_processes rt'))) (rt_tasks rt')"
proof -
  let ?P = "dom (mget (rt_processes rt))"
  obtain p where p: "mget (rt_processes rt) (ex_process e) = Some p" "quantum_ok e p" using rt_execD [OF ok e(1)] by blast
  have "ex_cred e = proc_context p" using p(2) e(2) by (auto simp: quantum_ok_def)
  then have cred: "pc_process (ex_cred e) \<in> ?P" using p(1) rt_okD(1) [OF ok p(1)] by (simp add: proc_context_def domI)
  obtain w where w: "w = snd (gr_chain g [] (ex_cred e) c no_auth (cworld_of rt p g))"
    "rt' = put_exec (e\<lparr>ex_quantum := Running (guest_after g w)\<rparr>) (put_cworld p w rt)"
    using c p(1) by (auto simp: quantum_call_def split: prod.splits)
  have "(ex_cred e, gr_chain g) \<in> set (guests rt)"
    using e by (auto simp: guests_def List.map_filter_def guest_of_def intro!: rev_image_eqI [of e])
  then have "chain_writes (wi_log W) (wi_enc W) (wi_codec W) (ex_cred e) (gr_chain g)"
    using ch unfolding chains_write_def by fastforce
  then have k: "keeps (\<lambda>w. pc_process (ex_cred e) \<in> ?P \<and> tasks_owned ?P (cw_tasks w)) (ex_cred e) (gr_chain g)"
    unfolding chain_writes_def using owned_chain.chain_world_axioms by blast
  have "tasks_owned ?P (cw_tasks w)"
    using k cred o unfolding keeps_def w(1) by (simp add: cworld_of_def)
  moreover have "?P \<subseteq> dom (mget (rt_processes rt'))"
    unfolding w(2) by (auto simp: put_exec_def put_cworld_processes)
  moreover have "rt_tasks rt' = cw_tasks w" unfolding w(2) by simp
  ultimately show ?thesis unfolding tasks_owned_def by (metis subsetD)
qed

lemma step_processes:
  assumes "rt_step W rt rt'" "provider_keeps W" "rt_ok rt"
  shows "dom (mget (rt_processes rt)) \<subseteq> dom (mget (rt_processes rt'))"
  using run_goes_on [where W = W, OF r_into_rtranclp [of "rt_step W", OF assms(1)] assms(2,3)] by blast

lemma step_tasks_owned:
  assumes s: "rt_step W rt rt'" and o: "owned W rt"
  shows "tasks_owned (dom (mget (rt_processes rt'))) (rt_tasks rt')"
proof -
  have W: "provider_apart W" and ok: "rt_ok rt" and ch: "chains_write W rt"
    and t: "tasks_owned (dom (mget (rt_processes rt))) (rt_tasks rt)" using o by (simp_all add: owned_def)
  note grow = step_processes [OF s apart_keeps [OF W] ok]
  have moved: ?thesis if "scopes_from (rt_tasks rt) (rt_tasks rt')" by (rule tasks_owned_from [OF t that grow])
  from s show ?thesis
  proof cases
    case (create_session name tags y)
    show ?thesis by (rule moved) (cases rule: create_session_parts [OF create_session(2)]; simp)
  next
    case (rename_session sid name y)
    show ?thesis by (rule moved) (cases rule: rename_session_parts [OF rename_session]; simp add: put_session_def)
  next
    case (create_process sid input spec z)
    show ?thesis by (rule moved) (cases rule: create_process_parts [OF create_process(2)]; simp)
  next
    case (stop pid z)
    show ?thesis by (rule moved) (simp add: stop_tasks [OF ok stop])
  next
    case (retry pid mode z)
    show ?thesis by (rule moved) (simp add: retry_tasks [OF ok retry])
  next
    case (resolve tid token a x)
    obtain d rt1 where d: "on_tasks (store_resolve (wi_log W) (wi_codec W) tid (cr_sha256 (tc_crypto (wi_tasks W)) token)
        a (rt_now W rt)) rt = (d, rt1)" by fastforce
    have "rt' = rt \<or> rt' = rt1 \<or> (\<exists>pid x. wake W pid rt1 = Some (x, rt'))"
      using resolve d by (auto simp: resolve_task_def split: if_splits sum.splits)
    then have "rt' = rt \<or> rt_tasks rt' = rt_tasks rt1" using wake_tasks [OF on_tasks_ok' [OF ok d]] by blast
    then show ?thesis using moved resolve_scopes [OF d] by auto
  next
    case (decide a tid h now d)
    show ?thesis by (rule moved [OF resolve_scopes [OF decide(2)]])
  next
    case (settle now tid)
    show ?thesis by (rule moved) (simp add: settle(1) settle_scopes)
  next
    case (wake pid x)
    show ?thesis by (rule moved) (simp add: wake_tasks [OF ok wake])
  next
    case (exec_begin e)
    obtain e' where "rt' = put_exec e' rt" using exec_begin_execs [OF exec_begin(3)] by blast
    then show ?thesis using moved by simp
  next
    case (exec_mark e)
    then obtain p where p: "mget (rt_processes rt) (ex_process e) = Some p" by (auto simp: exec_mark_def bind_eq_Some_conv)
    let ?p = "p\<lparr>ps_stop := Some (ex_id e), ps_status := ProcessRunning, ps_started := Some (rt_now W rt), ps_updated := rt_now W rt\<rparr>"
    obtain l where "snd (append_process W ?p (put_process ?p rt)) = (put_process ?p rt)\<lparr>rt_log := l\<rparr>"
      using append_process_log [of W ?p "put_process ?p rt"] by (metis snd_conv)
    then have "rt_tasks rt' = rt_tasks rt" using exec_mark(3) p by (auto simp: exec_mark_def Let_def put_process_def)
    then show ?thesis using moved by simp
  next
    case (exec_land e r)
    then have "rt_tasks rt' = rt_tasks rt" by (auto simp: exec_land_def bind_eq_Some_conv put_process_def)
    then show ?thesis using moved by simp
  next
    case (outcome e r)
    show ?thesis by (rule moved) (simp add: outcome_tasks [OF ok outcome(3)])
  next
    case (exec_finish e status answer failure)
    then obtain p rt1 where "mget (rt_processes rt) (ex_process e) = Some p" "finish W p status answer failure rt = Some rt1"
      "rt' = drop_exec e rt1" by (auto simp: exec_finish_def bind_eq_Some_conv)
    then have "rt_tasks rt' = rt_tasks rt" using finish_tasks [OF ok] by simp
    then show ?thesis using moved by simp
  next
    case (quantum_drop e)
    show ?thesis by (rule moved) (simp add: quantum_drop(1) quantum_drop_def)
  next
    case (quantum_start e ctx)
    obtain q x where "rt' = put_exec (e\<lparr>ex_quantum := q\<rparr>) (rt\<lparr>rt_ext := x\<rparr>)"
      using quantum_start_execs [OF quantum_start(7)] by blast
    then show ?thesis using moved by simp
  next
    case (setup_cancelled e x)
    show ?thesis by (rule moved) (simp add: setup_cancelled(1) quantum_end_def)
  next
    case (quantum_call e g c u)
    show ?thesis by (rule quantum_call_owned [OF ok ch t quantum_call])
  next
    case (quantum_end e g r)
    show ?thesis by (rule moved) (simp add: quantum_end(1) quantum_end_def)
  next
    case close_begin
    show ?thesis by (rule moved) (simp add: close_begin close_begin_def)
  next
    case close_cancel
    show ?thesis by (rule moved) (simp add: close_cancel close_cancel_def)
  next
    case (tick l)
    show ?thesis by (rule moved) (simp add: tick(1))
  next
    case (outside x)
    show ?thesis by (rule moved) (simp add: outside)
  qed
qed

interpretation owned: invariant_system "\<lambda>rt. provider_apart W \<and> (\<exists>l x. rt = empty_runtime l x)" "rt_step W" "owned W" for W
proof (unfold_locales, goal_cases)
  case (1 rt)
  then obtain l x where e: "rt = empty_runtime l x" by blast
  show ?case using 1 empty_ok
    by (simp add: owned_def e chains_write_def guests_def empty_runtime_def List.map_filter_def tasks_owned_def)
next
  case (2 rt rt')
  then show ?case
    using rt_step_ok [OF 2(2)] step_chains [OF 2(2)] step_tasks_owned [OF 2(2,1)] apart_keeps unfolding owned_def by blast
qed

lemma reachable_owned: "reachable W rt \<Longrightarrow> provider_apart W \<Longrightarrow> owned W rt"
  using owned.reached_good [of W] unfolding reachable_def by blast

subsection \<open>Nothing is missing\<close>

lemma owned_task:
  assumes "owned W rt" "mget (rt_tasks rt) tid = Some r"
  shows "mget (rt_processes rt) (pc_process (tk_scope r)) \<noteq> None"
  using assms unfolding owned_def tasks_owned_def by blast


lemma demo_apart: "provider_apart demo_wiring"
  by (simp add: provider_apart_def demo_wiring_def handlers_keep_def handlers_write_nothing_def new_table_def)


end
