(* ===== verification/Reruns.thy ===== *)
theory Reruns
  imports Life
begin

text \<open>
  What begins another attempt of a process, and what a stop does to one. Every step of the
  runtime is classified by what it does to a process's budget: a retry may begin a revision, an
  outcome may spend an abort or a failure, and nothing else touches it.
\<close>

subsection \<open>The budget\<close>

definition kept :: "'r process_state \<Rightarrow> 'r process_state \<Rightarrow> bool" where
  "kept p p' \<longleftrightarrow> ps_aborts p' = ps_aborts p \<and> ps_revision p' = ps_revision p \<and> ps_last_failure p' = ps_last_failure p"

definition refork :: "'r process_state \<Rightarrow> 'r process_state \<Rightarrow> bool" where
  "refork p p' \<longleftrightarrow> ps_aborts p' = ps_aborts p \<and> ps_revision p' = Suc (ps_revision p) \<and> ps_last_failure p' = 0"

definition spent :: "'r process_state \<Rightarrow> 'r process_state \<Rightarrow> bool" where
  "spent p p' \<longleftrightarrow>
     ps_aborts p' = Suc (ps_aborts p) \<and> ps_aborts p < max_abort_retries \<and> ps_revision p' = Suc (ps_revision p) \<and>
       ps_last_failure p' = 0 \<or>
     ps_aborts p' = ps_aborts p \<and> ps_revision p' = ps_revision p \<and> ps_last_failure p \<noteq> ps_length p \<and>
       ps_last_failure p' = ps_length p \<and> ps_length p' = ps_length p"

text \<open>
  What is left of a process's automatic reruns while its journal has at most \<open>n\<close> records: an
  abort spends one of its budget and opens a new revision, and a failure is run again at most
  once per length.
\<close>

definition rerun_measure :: "nat \<Rightarrow> 'r process_state \<Rightarrow> nat" where
  "rerun_measure n p = (max_abort_retries - ps_aborts p) * Suc n + (n - ps_last_failure p)"

lemma spent_measure:
  assumes r: "spent p p'" and p: "ps_last_failure p \<le> ps_length p" and n: "ps_length p \<le> n"
  shows "rerun_measure n p' < rerun_measure n p"
  using r unfolding spent_def
proof (elim conjE disjE)
  assume a: "ps_aborts p' = Suc (ps_aborts p)" "ps_aborts p < max_abort_retries" "ps_last_failure p' = 0"
  then obtain k where "max_abort_retries - ps_aborts p = Suc k" "max_abort_retries - ps_aborts p' = k"
    by (metis Suc_diff_Suc diff_Suc_Suc)
  then show ?thesis using a(3) by (simp add: rerun_measure_def)
next
  assume "ps_aborts p' = ps_aborts p" "ps_last_failure p \<noteq> ps_length p" "ps_last_failure p' = ps_length p"
  then show ?thesis using p n by (simp add: rerun_measure_def)
qed

lemma kept_refl [simp]: "kept p p"
  by (simp add: kept_def)

lemma kept_measure: "kept p p' \<Longrightarrow> rerun_measure n p' = rerun_measure n p"
  by (simp add: kept_def rerun_measure_def)

lemma refork_measure: "refork p p' \<Longrightarrow> rerun_measure n p' \<le> rerun_measure n p + n"
  by (simp add: refork_def rerun_measure_def)

lemma queued_budget:
  "ps_attempt (queued now p) = Suc (ps_attempt p)" "ps_aborts (queued now p) = ps_aborts p"
  "ps_revision (queued now p) = ps_revision p" "ps_last_failure (queued now p) = ps_last_failure p"
  "ps_length (queued now p) = ps_length p"
  by (simp_all add: queued_def)

lemma finished_budget: "kept p (finished now tt st a f p)" "ps_attempt (finished now tt st a f p) = ps_attempt p"
  by (simp_all add: finished_def kept_def)

lemma fork_budget:
  assumes "fork_process off p rt = (p1, rt1)"
  shows "ps_attempt p1 = ps_attempt p" "ps_aborts p1 = ps_aborts p" "ps_revision p1 = Suc (ps_revision p)"
    "ps_last_failure p1 = 0" "ps_length p1 = off"
  using assms by (auto simp: fork_process_def Let_def)

lemma fork_refork: "fork_process off p rt = (p1, rt1) \<Longrightarrow> refork p p1"
  using fork_budget unfolding refork_def by blast

subsection \<open>Outcomes\<close>

text \<open>An outcome leaves the budget and the attempt alone, or spends some of it, and then it may
  begin the next attempt.\<close>

definition outcome_spends :: "'r process_state \<Rightarrow> 'r process_state \<Rightarrow> bool" where
  "outcome_spends p p' \<longleftrightarrow>
     kept p p' \<and> ps_attempt p' = ps_attempt p \<or>
     spent p p' \<and> (ps_attempt p' = ps_attempt p \<or> ps_attempt p' = Suc (ps_attempt p))"

text \<open>The abort an outcome may run again: the guest's own, in an open section, with budget left.\<close>

definition abort_reruns ::
    "('l, 'd, 'r, 's, 'v, 'i, 'x) wiring \<Rightarrow> ('l, 'r, 's, 'x) runtime \<Rightarrow> 'r process_state \<Rightarrow> quantum_result \<Rightarrow> bool"
where
  "abort_reruns W rt p r \<longleftrightarrow>
     qr_status r = ResumeCompleted \<and>
     (case last_call W (rt_log rt) p of None \<Rightarrow> False | Some lc \<Rightarrow> guest_abort lc \<noteq> None) \<and>
     0 < open_sections p \<and> ps_aborts p < max_abort_retries"

lemma abort_spends:
  assumes ok: "rt_ok rt" and p: "mget (rt_processes rt) pid = Some p"
    and a: "retry_aborted_section W p reason rt = Some rt'"
  shows "\<exists>p'. mget (rt_processes rt') = (mget (rt_processes rt))(pid \<mapsto> p') \<and> outcome_spends p p' \<and>
    (ps_attempt p' \<noteq> ps_attempt p \<longrightarrow> 0 < open_sections p \<and> ps_aborts p < max_abort_retries)"
proof -
  note d = rt_okD [OF ok p(1)]
  obtain s where s: "mget (rt_sessions rt) (ps_session p) = Some s" using d(4) by blast
  obtain off where off: "outermost_open_begin (proc_journal_ops W) (proc_journal (rt_log rt) p) = Inr (off, 0 < open_sections p)"
    using proc_open_section [OF d(3)] .
  show ?thesis
  proof (cases "open_sections p = 0 \<or> max_abort_retries \<le> ps_aborts p")
    case True
    then obtain f where f: "finish W p ProcessFailed '''' f rt = Some rt'"
      using a off by (auto simp: retry_aborted_section_def split: if_splits)
    show ?thesis
      by (rule exI [of _ "finished (rt_now W rt) (rt_taints rt) ProcessFailed '''' f p"])
        (use finish_parts(1) [OF f s] d(1) in \<open>simp add: outcome_spends_def finished_budget\<close>)
  next
    case False
    let ?p0 = "p\<lparr>ps_aborts := ps_aborts p + 1\<rparr>"
    obtain p1 rt1 where f: "fork_process off ?p0 rt = (p1, rt1)" by fastforce
    then obtain y where y: "relaunch W p1 rt1 = Some (y, rt')"
      using a off False by (auto simp: retry_aborted_section_def Let_def)
    note fp = fork_parts [OF f] and fb = fork_budget [OF f]
    have id: "ps_id p1 = pid" using fp(8) d(1) by simp
    have P1: "mget (rt_processes rt1) = (mget (rt_processes rt))(pid \<mapsto> p1)" using fp(1) d(1) by simp
    have s: "outcome_spends p p1" "outcome_spends p (queued (rt_now W rt1) p1)"
      using fb False by (simp_all add: outcome_spends_def spent_def queued_budget)
    have "\<exists>p'. mget (rt_processes rt') = (mget (rt_processes rt))(pid \<mapsto> p') \<and> outcome_spends p p'"
      using relaunch_processes [OF y] P1 s id by auto
    then show ?thesis using False by auto
  qed
qed

lemma fail_spends:
  assumes ok: "rt_ok rt" and p: "mget (rt_processes rt) pid = Some p"
    and a: "fail_process W e p f rt = Some rt'"
  shows "\<exists>p'. mget (rt_processes rt') = (mget (rt_processes rt))(pid \<mapsto> p') \<and> outcome_spends p p' \<and>
    (ps_attempt p' \<noteq> ps_attempt p \<longrightarrow> \<not> ps_stop_requested p)"
proof -
  note d = rt_okD [OF ok p(1)]
  obtain again rt1 where r: "redrive_after_failure W p rt = Some (again, rt1)" "rt_processes rt' = rt_processes rt1"
    using a by (auto simp: fail_process_def to_finish_def put_exec_def drop_exec_def split: if_splits)
  let ?p = "p\<lparr>ps_last_failure := ps_length p\<rparr>"
  have "rt1 = rt \<or> ps_last_failure p \<noteq> ps_length p \<and> \<not> ps_stop_requested p \<and>
      (\<exists>y. relaunch W ?p (put_process ?p rt) = Some (y, rt1))"
    using r(1) by (auto simp: redrive_after_failure_def split: sum.splits prod.splits option.splits if_splits)
  then show ?thesis
  proof
    assume "rt1 = rt"
    then show ?thesis using r(2) p by (intro exI [of _ p]) (simp add: fun_upd_idem outcome_spends_def)
  next
    assume "ps_last_failure p \<noteq> ps_length p \<and> \<not> ps_stop_requested p \<and>
      (\<exists>y. relaunch W ?p (put_process ?p rt) = Some (y, rt1))"
    then obtain y where y: "ps_last_failure p \<noteq> ps_length p" "\<not> ps_stop_requested p"
      "relaunch W ?p (put_process ?p rt) = Some (y, rt1)" by blast
    have s: "outcome_spends p ?p" "outcome_spends p (queued (rt_now W (put_process ?p rt)) ?p)"
      using y(1) by (simp_all add: outcome_spends_def spent_def queued_budget)
    have "\<exists>p'. mget (rt_processes rt') = (mget (rt_processes rt))(pid \<mapsto> p') \<and> outcome_spends p p'"
      using relaunch_processes [OF y(3)] s r(2) d(1) by (auto simp: put_process_def)
    then show ?thesis using y(2) by blast
  qed
qed

lemma outcome_spends:
  assumes ok: "rt_ok rt" and p: "mget (rt_processes rt) (ex_process e) = Some p" and o: "record_outcome W r e rt = Some rt'"
  shows "\<exists>p'. mget (rt_processes rt') = (mget (rt_processes rt))(ex_process e \<mapsto> p') \<and> outcome_spends p p' \<and>
    (ps_attempt p' \<noteq> ps_attempt p \<longrightarrow> \<not> ps_stop_requested p \<or> abort_reruns W rt p r)"
proof -
  have stay: ?thesis if "rt_processes rt' = rt_processes rt"
    by (rule exI [of _ p]) (use that p in \<open>simp add: fun_upd_idem outcome_spends_def\<close>)
  have fin: "rt_processes (to_finish st a f e rt) = rt_processes rt" for st a f by (simp add: to_finish_def put_exec_def)
  have fail: ?thesis if "fail_process W e p f rt = Some rt'" for f using fail_spends [OF ok p that] by blast
  show ?thesis
  proof (cases "qr_status r")
    case ResumeCompleted
    then obtain lc where lc: "last_call W (rt_log rt) p = Some lc"
      using o p(1) by (auto simp: record_outcome_def bind_eq_Some_conv)
    show ?thesis
    proof (cases "guest_abort lc")
      case (Some reason)
      then obtain rt2 where a: "retry_aborted_section W p reason rt = Some rt2" "rt' = drop_exec e rt2"
        using o ResumeCompleted p(1) lc by (auto simp: record_outcome_def)
      have "abort_reruns W rt p r \<longleftrightarrow> 0 < open_sections p \<and> ps_aborts p < max_abort_retries"
        using ResumeCompleted lc Some by (simp add: abort_reruns_def)
      then show ?thesis using abort_spends [OF ok p a(1)] a(2) by auto
    next
      case None
      then have "(\<exists>f. fail_process W e p f rt = Some rt') \<or> rt_processes rt' = rt_processes rt"
        using o ResumeCompleted p(1) lc fin
        by (cases "answer_from_journal (wi_sys W) lc") (auto simp: record_outcome_def)
      then show ?thesis using fail stay by blast
    qed
  next
    case ResumeYielded
    show ?thesis by (rule stay) (use o ResumeYielded fin in \<open>auto simp: record_outcome_def\<close>)
  next
    case ResumeStopped
    show ?thesis by (rule stay) (use o ResumeStopped fin in \<open>auto simp: record_outcome_def\<close>)
  next
    case ResumeFailed
    then show ?thesis using o p(1) fail by (auto simp: record_outcome_def)
  qed
qed

subsection \<open>Every step\<close>

definition self_rerun ::
    "('l, 'd, 'r, 's, 'v, 'i, 'x) wiring \<Rightarrow> string \<Rightarrow> ('l, 'r, 's, 'x) runtime \<Rightarrow> ('l, 'r, 's, 'x) runtime \<Rightarrow> bool"
where
  "self_rerun W pid rt rt' \<longleftrightarrow>
     (\<exists>e \<in> set (rt_execs rt). ex_process e = pid \<and>
        (\<exists>r. ex_phase e = Outcome r \<and> record_outcome W r e rt = Some rt')) \<and>
     map_option ps_attempt (mget (rt_processes rt') pid) \<noteq> map_option ps_attempt (mget (rt_processes rt) pid)"

text \<open>What a step that is no outcome does to a process: it keeps its budget, or a retry forks it.\<close>

definition unspent :: "'r process_state option \<Rightarrow> 'r process_state option \<Rightarrow> bool" where
  "unspent x y \<longleftrightarrow>
     (case x of None \<Rightarrow> True | Some p \<Rightarrow> (case y of None \<Rightarrow> False | Some p' \<Rightarrow> kept p p' \<or> refork p p'))"

lemma unspent_refl [simp]: "unspent x x"
  by (simp add: unspent_def split: option.split)

lemma unspent_update:
  assumes "P pid = Some p" "kept p p' \<or> refork p p'" "P' = P(pid \<mapsto> p')"
  shows "unspent (P k) (P' k)"
  using assms by (cases "k = pid") (simp_all add: unspent_def split: option.split)

lemma retry_unspent:
  assumes ok: "rt_ok rt" and r: "retry W pid mode rt = Some (z, rt')"
  shows "unspent (mget (rt_processes rt) k) (mget (rt_processes rt') k)"
proof (cases rule: retry_cases [OF r ok])
  case (2 p0 p rt1 s)
  have b: "kept p0 p \<or> refork p0 p" using 2(18) by (auto simp: fork_refork)
  have q: "kept p0 (queued now p) \<or> refork p0 (queued now p)" for now
    using b by (simp add: kept_def refork_def queued_budget)
  have "mget (rt_processes rt') = (mget (rt_processes rt))(pid \<mapsto> p) \<or>
      mget (rt_processes rt') = (mget (rt_processes rt))(pid \<mapsto> queued (rt_now W rt1) p)"
    using relaunch_processes [OF 2(17)] 2(2,9) by auto
  then show ?thesis
    using unspent_update [where P = "mget (rt_processes rt)", OF 2(1) b]
      unspent_update [where P = "mget (rt_processes rt)", OF 2(1) q] by blast
qed simp

lemma wake_unspent:
  assumes "rt_ok rt" "wake W pid rt = Some (x, rt')"
  shows "unspent (mget (rt_processes rt) k) (mget (rt_processes rt') k)"
proof -
  have "rt' = rt \<or> (\<exists>z. retry W pid RetryResume rt = Some (z, rt'))"
    using assms(2) by (auto simp: wake_def bind_eq_Some_conv split: if_splits)
  then show ?thesis using retry_unspent [OF assms(1)] by auto
qed

lemma finish_unspent:
  assumes ok: "rt_ok rt" and p: "mget (rt_processes rt) pid = Some p" and f: "finish W p st a f rt = Some rt'"
  shows "unspent (mget (rt_processes rt) k) (mget (rt_processes rt') k)"
proof -
  obtain s where "mget (rt_sessions rt) (ps_session p) = Some s" using rt_okD(4) [OF ok p] by blast
  then have "mget (rt_processes rt') = (mget (rt_processes rt))(pid \<mapsto> finished (rt_now W rt) (rt_taints rt) st a f p)"
    using finish_parts(1) [OF f] rt_okD(1) [OF ok p] by simp
  then show ?thesis by (rule unspent_update [where P = "mget (rt_processes rt)", OF p, rotated]) (simp add: finished_budget)
qed

lemma stop_unspent:
  assumes ok: "rt_ok rt" and s: "stop_process W pid rt = Some (z, rt')"
  shows "unspent (mget (rt_processes rt) k) (mget (rt_processes rt') k)"
proof (cases "mget (rt_processes rt) pid")
  case None
  then show ?thesis using s by (simp add: stop_process_def)
next
  case (Some p)
  show ?thesis
  proof (cases "ps_status p = ProcessQueued \<or> ps_status p = ProcessRunning")
    case True
    let ?p = "p\<lparr>ps_stop_requested := True, ps_status := ProcessStopping, ps_updated := rt_now W rt\<rparr>"
    let ?rt = "cancel_exec (ps_stop p) (put_process ?p rt)"
    obtain l where l: "snd (append_process W ?p ?rt) = ?rt\<lparr>rt_log := l\<rparr>"
      using append_process_log [of W ?p ?rt] by (metis snd_conv)
    have "rt' = ?rt\<lparr>rt_log := l\<rparr>" by (rule trans [OF stop_running [OF Some True s] l])
    then have "mget (rt_processes rt') = (mget (rt_processes rt))(pid \<mapsto> ?p)"
      using rt_okD(1) [OF ok Some] by (simp add: cancel_exec_def put_process_def)
    then show ?thesis by (rule unspent_update [where P = "mget (rt_processes rt)", OF Some, rotated]) (simp add: kept_def)
  next
    case False
    then have "rt' = rt \<or> (\<exists>st a f. finish W p st a f rt = Some rt')"
      using s Some by (auto simp: stop_process_def bind_eq_Some_conv split: if_splits)
    then show ?thesis using finish_unspent [OF ok Some] by auto
  qed
qed

lemma step_budget:
  assumes s: "rt_step W rt rt'" and ok: "rt_ok rt"
  shows "unspent (mget (rt_processes rt) pid) (mget (rt_processes rt') pid) \<or>
    (\<exists>e r. e \<in> set (rt_execs rt) \<and> ex_process e = pid \<and> ex_phase e = Outcome r \<and> record_outcome W r e rt = Some rt')"
proof -
  let ?P = "mget (rt_processes rt)" and ?P' = "mget (rt_processes rt')"
  have same: ?thesis if "rt_processes rt' = rt_processes rt" using that by simp
  have one: ?thesis if "?P k = Some p" "?P' = ?P(k \<mapsto> p')" "kept p p'" for k p p'
    using unspent_update [where P = ?P, OF that(1) disjI1 [OF that(3)] that(2)] by blast
  from s show ?thesis
  proof cases
    case (create_session name tags y)
    show ?thesis by (rule same) (cases rule: create_session_parts [OF create_session(2)]; simp)
  next
    case (rename_session sid name y)
    show ?thesis by (rule same) (cases rule: rename_session_parts [OF rename_session]; simp add: put_session_def)
  next
    case (create_process sid input spec z)
    show ?thesis
    proof (cases rule: create_process_parts [OF create_process(2)])
      case 1
      then show ?thesis by (intro same)
    next
      case (2 k rt1 s p s' spec1 program)
      have "?P k = None" using create_process(1) 2(1) unfolding fresh_id_def by blast
      then show ?thesis using 2(8) by (cases "k = pid") (simp_all add: unspent_def)
    qed
  next
    case (stop k z)
    show ?thesis by (rule disjI1 [OF stop_unspent [OF ok stop]])
  next
    case (retry k mode z)
    show ?thesis by (rule disjI1 [OF retry_unspent [OF ok retry]])
  next
    case (resolve tid token a x)
    obtain d rt1 where d: "on_tasks (store_resolve (wi_log W) (wi_codec W) tid (cr_sha256 (tc_crypto (wi_tasks W)) token)
        a (rt_now W rt)) rt = (d, rt1)" by fastforce
    have "rt' = rt \<or> rt' = rt1 \<or> (\<exists>pid x. wake W pid rt1 = Some (x, rt'))"
      using resolve d by (auto simp: resolve_task_def split: if_splits sum.splits)
    then have "unspent (?P pid) (?P' pid)"
      using wake_unspent [OF on_tasks_ok' [OF ok d], where k = pid] on_tasks_parts'(2) [OF d] by auto
    then show ?thesis ..
  next
    case (decide a tid h now d)
    show ?thesis by (rule same [OF on_tasks_parts'(2) [OF decide(2)]])
  next
    case (settle now tid)
    show ?thesis by (rule same) (simp add: settle(1) settle_task_def)
  next
    case (wake k x)
    show ?thesis by (rule disjI1 [OF wake_unspent [OF ok wake]])
  next
    case (exec_begin e)
    obtain e' where "rt' = put_exec e' rt" using exec_begin_execs [OF exec_begin(3)] by blast
    then show ?thesis by (intro same) (simp add: put_exec_def)
  next
    case (exec_mark e)
    then obtain p where p: "?P (ex_process e) = Some p" by (auto simp: exec_mark_def bind_eq_Some_conv)
    let ?p = "p\<lparr>ps_stop := Some (ex_id e), ps_status := ProcessRunning, ps_started := Some (rt_now W rt), ps_updated := rt_now W rt\<rparr>"
    obtain l where "snd (append_process W ?p (put_process ?p rt)) = (put_process ?p rt)\<lparr>rt_log := l\<rparr>"
      using append_process_log [of W ?p "put_process ?p rt"] by (metis snd_conv)
    then have "?P' = ?P(ex_process e \<mapsto> ?p)"
      using exec_mark(3) p rt_okD(1) [OF ok p] by (auto simp: exec_mark_def Let_def put_exec_def put_process_def)
    then show ?thesis by (rule one [OF p]) (simp add: kept_def)
  next
    case (exec_land e r)
    then obtain p where p: "?P (ex_process e) = Some p" by (auto simp: exec_land_def bind_eq_Some_conv)
    have "?P' = ?P(ex_process e \<mapsto> p\<lparr>ps_stop := None\<rparr>)"
      using exec_land(4) p rt_okD(1) [OF ok p] by (auto simp: exec_land_def put_exec_def put_process_def)
    then show ?thesis by (rule one [OF p]) (simp add: kept_def)
  next
    case (outcome e r)
    show ?thesis
    proof (cases "ex_process e = pid")
      case True
      then show ?thesis using outcome by blast
    next
      case False
      obtain p where "?P (ex_process e) = Some p" using rt_execD [OF ok outcome(1)] by blast
      then have "?P' pid = ?P pid" using outcome_spends [OF ok _ outcome(3)] False by fastforce
      then show ?thesis by simp
    qed
  next
    case (exec_finish e status answer failure)
    then obtain p rt1 where p: "?P (ex_process e) = Some p" "finish W p status answer failure rt = Some rt1"
      "rt' = drop_exec e rt1" by (auto simp: exec_finish_def bind_eq_Some_conv)
    then show ?thesis using finish_unspent [OF ok p(1,2), where k = pid] by simp
  next
    case (quantum_drop e)
    show ?thesis by (rule same) (simp add: quantum_drop(1) quantum_drop_def put_exec_def)
  next
    case (quantum_start e ctx)
    obtain q x where "rt' = put_exec (e\<lparr>ex_quantum := q\<rparr>) (rt\<lparr>rt_ext := x\<rparr>)"
      using quantum_start_execs [OF quantum_start(7)] by blast
    then show ?thesis by (intro same) (simp add: put_exec_def)
  next
    case (setup_cancelled e x)
    show ?thesis by (rule same) (simp add: setup_cancelled(1) quantum_end_def put_exec_def)
  next
    case (quantum_call e g c u)
    then obtain p where p: "?P (ex_process e) = Some p" by (auto simp: quantum_call_def bind_eq_Some_conv)
    obtain w where "rt' = put_exec (e\<lparr>ex_quantum := Running (guest_after g w)\<rparr>) (put_cworld p w rt)"
      using quantum_call(3) p by (auto simp: quantum_call_def split: prod.splits)
    then have "?P' = ?P(ex_process e \<mapsto> p\<lparr>ps_history := lj_history (tp_journal w), ps_length := lj_length (tp_journal w)\<rparr>)"
      using rt_okD(1) [OF ok p] by (simp add: put_exec_def put_cworld_def put_process_def)
    then show ?thesis by (rule one [OF p]) (simp add: kept_def)
  next
    case (quantum_end e g r)
    show ?thesis by (rule same) (simp add: quantum_end(1) quantum_end_def put_exec_def)
  next
    case close_begin
    show ?thesis by (rule same) (simp add: close_begin close_begin_def)
  next
    case close_cancel
    show ?thesis by (rule same) (simp add: close_cancel close_cancel_def)
  next
    case (tick l)
    show ?thesis by (rule same) (simp add: tick(1))
  next
    case (outside x)
    show ?thesis by (rule same) (simp add: outside)
  qed
qed

text \<open>The forks of a process that no abort made: those of its retries.\<close>

definition retry_forks :: "'r process_state \<Rightarrow> 'r process_state \<Rightarrow> nat" where
  "retry_forks p p' = (ps_revision p' - ps_revision p) - (ps_aborts p' - ps_aborts p)"

definition budget_after :: "nat \<Rightarrow> nat \<Rightarrow> 'r process_state \<Rightarrow> 'r process_state \<Rightarrow> bool" where
  "budget_after n k p p' \<longleftrightarrow>
     ps_aborts p \<le> ps_aborts p' \<and> ps_aborts p' - ps_aborts p \<le> ps_revision p' - ps_revision p \<and>
     ps_revision p \<le> ps_revision p' \<and>
     k + rerun_measure n p' \<le> rerun_measure n p + n * retry_forks p p'"

lemma budget_trans:
  assumes "budget_after n i p q" "budget_after n j q r"
  shows "budget_after n (i + j) p r"
proof -
  have "retry_forks p r = retry_forks p q + retry_forks q r"
    using assms unfolding budget_after_def retry_forks_def by arith
  then have "n * retry_forks p r = n * retry_forks p q + n * retry_forks q r" by (simp add: distrib_left)
  then show ?thesis using assms unfolding budget_after_def by linarith
qed

lemma step_budget_after:
  assumes s: "rt_step W rt rt'" and ok: "rt_ok rt"
    and p: "mget (rt_processes rt) pid = Some p" "mget (rt_processes rt') pid = Some p'" and n: "ps_length p \<le> n"
  shows "budget_after n (if self_rerun W pid rt rt' then 1 else 0) p p'"
    "self_rerun W pid rt rt' \<Longrightarrow> spent p p' \<and> ps_attempt p' = Suc (ps_attempt p)"
proof -
  have len: "ps_last_failure p \<le> ps_length p" using rt_okD(3) [OF ok p(1)] by (simp add: proc_ok_def)
  have spends: "outcome_spends p p'" if "e \<in> set (rt_execs rt)" "ex_process e = pid" "record_outcome W r e rt = Some rt'" for e r
    using outcome_spends [OF ok _ that(3)] p that(2) by fastforce
  have over: "budget_after n k p p'" if "spent p p'" "k \<le> 1" for k
    using spent_measure [OF that(1) len n] that unfolding budget_after_def spent_def by auto
  have keep: "budget_after n 0 p p'" if "kept p p'" using kept_measure [OF that] that by (simp add: budget_after_def kept_def)
  have forked: "budget_after n 0 p p'" if "refork p p'"
    using refork_measure [OF that] that by (simp add: budget_after_def refork_def retry_forks_def)
  show r: "spent p p' \<and> ps_attempt p' = Suc (ps_attempt p)" if "self_rerun W pid rt rt'"
    using that spends p unfolding self_rerun_def outcome_spends_def by auto
  show "budget_after n (if self_rerun W pid rt rt' then 1 else 0) p p'"
  proof (cases "self_rerun W pid rt rt'")
    case True
    then show ?thesis using over r by simp
  next
    case False
    have "kept p p' \<or> refork p p' \<or> outcome_spends p p'"
      using step_budget [OF s ok, of pid] spends p by (auto simp: unspent_def)
    then show ?thesis using False keep forked over by (auto simp: outcome_spends_def)
  qed
qed

subsection \<open>Properties\<close>

text \<open>C11. Automatic reruns are bounded. Take any stretch of any run, from a reachable state, in
  which a process's journal never exceeds \<open>n\<close> records. The outcomes that made the process run
  again by themselves are at most what was left of its reruns at the start, plus \<open>n\<close> for each
  fork a retry made of it meanwhile; and what is left at any moment is at most ten times
  \<open>n + 1\<close> plus \<open>n\<close>. Each of them is the next attempt, and either an abort within the budget,
  which begins a revision, or the first failure at this length of this revision's journal. (A
  section that keeps failing with an ever longer journal is run again each time.)\<close>

theorem automatic_reruns_end:
  assumes "reachable W (f 0)" and "provider_keeps W" and "\<And>i. i < m \<Longrightarrow> rt_step W (f i) (f (Suc i))"
    and "mget (rt_processes (f 0)) pid = Some p"
    and "\<And>i q. i < m \<Longrightarrow> mget (rt_processes (f i)) pid = Some q \<Longrightarrow> ps_length q \<le> n"
  shows "\<exists>p'. mget (rt_processes (f m)) pid = Some p' \<and>
    card {i. i < m \<and> self_rerun W pid (f i) (f (Suc i))} + rerun_measure n p' \<le> rerun_measure n p + n * retry_forks p p' \<and>
    rerun_measure n p \<le> max_abort_retries * Suc n + n \<and>
    (\<forall>i < m. self_rerun W pid (f i) (f (Suc i)) \<longrightarrow>
       (\<exists>q q'. mget (rt_processes (f i)) pid = Some q \<and> mget (rt_processes (f (Suc i))) pid = Some q' \<and>
          spent q q' \<and> ps_attempt q' = Suc (ps_attempt q)))"
proof -
  have ok: "rt_ok (f i)" "(rt_step W)\<^sup>*\<^sup>* (f 0) (f i)" if "i \<le> m" for i
  proof -
    show r: "(rt_step W)\<^sup>*\<^sup>* (f 0) (f i)" using that
    proof (induction i)
      case (Suc i)
      then show ?case using assms(3) [of i] by (simp add: rtranclp.rtrancl_into_rtrancl [of "rt_step W"])
    qed simp
    show "rt_ok (f i)" using rt.run_good [OF r] assms(2) reachable_ok [OF assms(1,2)] by blast
  qed
  have here: "\<exists>q. mget (rt_processes (f i)) pid = Some q" if "i \<le> m" for i
    using run_goes_on [OF ok(2) [OF that] assms(2) reachable_ok [OF assms(1,2)] assms(4)] by blast
  have bound: "\<exists>q. mget (rt_processes (f i)) pid = Some q \<and>
      budget_after n (card {j. j < i \<and> self_rerun W pid (f j) (f (Suc j))}) p q" if "i \<le> m" for i
    using that
  proof (induction i)
    case 0
    then show ?case using assms(4) by (simp add: budget_after_def)
  next
    case (Suc i)
    let ?C = "\<lambda>i. {j. j < i \<and> self_rerun W pid (f j) (f (Suc j))}"
    obtain q where q: "mget (rt_processes (f i)) pid = Some q" "budget_after n (card (?C i)) p q" using Suc by auto
    obtain q' where q': "mget (rt_processes (f (Suc i))) pid = Some q'" using here [OF Suc.prems] by blast
    have "budget_after n (if self_rerun W pid (f i) (f (Suc i)) then 1 else 0) q q'"
      by (rule step_budget_after(1) [OF assms(3) _ q(1) q' assms(5) [OF _ q(1)]]) (use ok(1) Suc.prems in simp_all)
    from budget_trans [OF q(2) this] have "budget_after n (card (?C i) + (if self_rerun W pid (f i) (f (Suc i)) then 1 else 0)) p q'" .
    moreover have "?C (Suc i) = (if self_rerun W pid (f i) (f (Suc i)) then insert i (?C i) else ?C i)"
      by (auto simp: less_Suc_eq)
    then have "card (?C (Suc i)) = card (?C i) + (if self_rerun W pid (f i) (f (Suc i)) then 1 else 0)" by simp
    ultimately show ?case using q' by simp
  qed
  have k: "rerun_measure n p \<le> max_abort_retries * Suc n + n"
    unfolding rerun_measure_def by (intro add_mono mult_le_mono1) simp_all
  have each: "\<exists>q q'. mget (rt_processes (f i)) pid = Some q \<and> mget (rt_processes (f (Suc i))) pid = Some q' \<and>
      spent q q' \<and> ps_attempt q' = Suc (ps_attempt q)" if "i < m" "self_rerun W pid (f i) (f (Suc i))" for i
  proof -
    have i: "i \<le> m" "Suc i \<le> m" using that(1) by simp_all
    obtain q q' where q: "mget (rt_processes (f i)) pid = Some q" "mget (rt_processes (f (Suc i))) pid = Some q'"
      using here [OF i(1)] here [OF i(2)] by blast
    show ?thesis
      using step_budget_after(2) [OF assms(3) [OF that(1)] _ q assms(5) [OF that(1) q(1)] that(2)] ok(1) that(1) q by auto
  qed
  obtain p' where "mget (rt_processes (f m)) pid = Some p'"
    "budget_after n (card {i. i < m \<and> self_rerun W pid (f i) (f (Suc i))}) p p'" using bound [OF order_refl] by blast
  then show ?thesis using k each unfolding budget_after_def by blast
qed

theorem automatic_reruns_end_witness:
  "\<exists>(f :: nat \<Rightarrow> demo_runtime) p p'. reachable demo_wiring (f 0) \<and> rt_step demo_wiring (f 0) (f 1) \<and> self_rerun demo_wiring demo_pid (f 0) (f 1) \<and>
     mget (rt_processes (f 0)) demo_pid = Some p \<and> mget (rt_processes (f 1)) demo_pid = Some p' \<and>
     1 + rerun_measure 2 p' \<le> rerun_measure 2 p + 2 * retry_forks p p'"
proof -
  obtain rt p rt' p' where d: "reachable demo_wiring rt" "rt_execs rt = [demo_exec (Outcome demo_crash) (Landed demo_crash)]"
    "record_outcome demo_wiring demo_crash (demo_exec (Outcome demo_crash) (Landed demo_crash)) rt = Some rt'"
    "mget (rt_processes rt) demo_pid = Some p" "mget (rt_processes rt') demo_pid = Some p'"
    "ps_attempt p' = Suc (ps_attempt p)" "ps_length p = 2"
    using demo_rerun .
  define f where "f i = (if i = 0 then rt else rt')" for i :: nat
  have f: "f 0 = rt" "f (Suc 0) = rt'" by (simp_all add: f_def)
  have s: "rt_step demo_wiring rt rt'" by (rule rt_step.outcome [OF _ _ d(3)]) (use d(2) in \<open>simp_all add: demo_exec_def\<close>)
  have r: "self_rerun demo_wiring demo_pid rt rt'"
    using d(2-6) by (simp add: self_rerun_def demo_exec_def)
  have step: "rt_step demo_wiring (f i) (f (Suc i))" if "i < 1" for i using that s f by simp
  have len: "ps_length q \<le> 2" if "i < 1" "mget (rt_processes (f i)) demo_pid = Some q" for i q
    using that d(4,7) by (simp add: f_def)
  have "reachable demo_wiring (f 0)" "mget (rt_processes (f 0)) demo_pid = Some p" using d(1,4) f by simp_all
  from automatic_reruns_end [where f = f and m = 1 and n = 2, OF this(1) demo_keeps step this(2) len] d(5)
  have "card {i. i < 1 \<and> self_rerun demo_wiring demo_pid (f i) (f (Suc i))} + rerun_measure 2 p' \<le>
      rerun_measure 2 p + 2 * retry_forks p p'" using f(2) by auto
  moreover have "{i. i < 1 \<and> self_rerun demo_wiring demo_pid (f i) (f (Suc i))} = {0}" using r f by auto
  ultimately show ?thesis using d(1,4,5) s r f by (intro exI [of _ f] exI [of _ p] exI [of _ p']) simp
qed



end
