(* ===== verification/GrantCodec.thy ===== *)
theory GrantCodec
  imports Manifest Utf8
begin

text \<open>
  The JSON form of a grant (\<open>UnmarshalJSON\<close> and \<open>MarshalJSON\<close> of \<open>manifest.go\<close>): a flat object
  in which the runtime owns two keys and every other key is the driver's configuration. A panic
  is \<^term>\<open>None\<close>.
\<close>

subsection \<open>Objects of raw messages\<close>

text \<open>
  \<open>json.Unmarshal\<close> into a \<open>map[string]json.RawMessage\<close>: a later member of a name replaces an
  earlier one, and \<open>null\<close> leaves a nil map.
\<close>

definition decode_members :: "bytes \<Rightarrow> err + (bytes, raw) gomap option" where
  "decode_members s =
     (case raw_unmarshal s of
        Some RNull \<Rightarrow> Inr None
      | Some (RObj ms) \<Rightarrow> Inr (Some (fold (\<lambda>(k, v). mput (unquote k) v) ms []))
      | _ \<Rightarrow> Inl json_error)"

text \<open>\<open>json.Marshal\<close> of such a map: the keys in order, the messages compacted.\<close>

definition marshal_members :: "(bytes, raw) gomap \<Rightarrow> bytes" where
  "marshal_members m = render (RObj (map (\<lambda>(k, v). (body_of k, html v)) (sort_key fst m)))"

text \<open>\<open>json.Unmarshal\<close> of one message into a variable that holds \<open>old\<close>.\<close>

definition decode_into :: "(json \<Rightarrow> 'a option) \<Rightarrow> 'a \<Rightarrow> raw \<Rightarrow> err + 'a" where
  "decode_into get old v =
     (case value_of v of
        JNull \<Rightarrow> Inr old
      | j \<Rightarrow> (case get j of Some x \<Rightarrow> Inr x | None \<Rightarrow> Inl json_error))"

definition decode_member :: "(json \<Rightarrow> 'a option) \<Rightarrow> (bytes, raw) gomap \<Rightarrow> bytes \<Rightarrow> 'a \<Rightarrow> err + 'a" where
  "decode_member get m key old = (case mget m key of Some v \<Rightarrow> decode_into get old v | None \<Rightarrow> Inr old)"

subsection \<open>Grants\<close>

definition syscall_key :: string where "syscall_key = ''syscall''"
definition hidden_key :: string where "hidden_key = ''hidden''"

definition runtime_keys :: "string list" where
  "runtime_keys = [syscall_key, hidden_key]"

definition grant_unmarshal :: "bytes \<Rightarrow> grant \<Rightarrow> err option \<times> grant" where
  "grant_unmarshal data g =
     (case decode_members data of
        Inl e \<Rightarrow> (Some e, g)
      | Inr decoded \<Rightarrow>
          let m = (case decoded of Some m \<Rightarrow> m | None \<Rightarrow> []) in
          case decode_member as_string m syscall_key (g_syscall g) of
            Inl e \<Rightarrow> (Some e, g)
          | Inr sc \<Rightarrow>
              (case decode_member as_bool m hidden_key (g_hidden g) of
                 Inl e \<Rightarrow> (Some e, g\<lparr>g_syscall := sc\<rparr>)
               | Inr h \<Rightarrow>
                   let rest = filter (\<lambda>(k, v). k \<notin> set runtime_keys) m in
                   (None, g\<lparr>g_syscall := sc, g_hidden := h,
                            g_config := (if rest = [] then '''' else marshal_members rest)\<rparr>)))"

definition grant_marshal :: "grant \<Rightarrow> (err + bytes) option" where
  "grant_marshal g =
     (case (if g_config g = '''' then Inr (Some []) else decode_members (g_config g)) of
        Inl e \<Rightarrow> Some (Inl e)
      | Inr None \<Rightarrow> None
      | Inr (Some m) \<Rightarrow>
          let m1 = mput syscall_key (RStr (body_of (g_syscall g))) m;
              m2 = (if g_hidden g then mput hidden_key (RBool True) m1 else m1) in
          Some (Inr (marshal_members m2)))"

subsection \<open>Reading an object that was written\<close>

definition members_ok :: "(bytes, raw) gomap \<Rightarrow> bool" where
  "members_ok m \<longleftrightarrow> distinct (map fst m) \<and> (\<forall>(k, v) \<in> set m. utf8 k \<and> raw_wf (max_nesting - 1) v)"

definition html_members :: "(bytes, raw) gomap \<Rightarrow> (bytes, raw) gomap" where
  "html_members m = map (\<lambda>(k, v). (k, html v)) (sort_key fst m)"

lemma members_ok_mput: "members_ok m \<Longrightarrow> utf8 k \<Longrightarrow> raw_wf (max_nesting - 1) v \<Longrightarrow> members_ok (mput k v m)"
  unfolding members_ok_def by (auto dest: mput_values)

lemma members_ok_filter: "members_ok m \<Longrightarrow> members_ok (filter P m)"
  by (auto simp: members_ok_def distinct_map inj_on_def)

lemma members_ok_html: "members_ok m \<Longrightarrow> members_ok (html_members m)"
proof -
  assume m: "members_ok m"
  have "map fst (html_members m) = map fst (sort_key fst m)" by (auto simp: html_members_def)
  then have "distinct (map fst (html_members m))" using m by (simp add: members_ok_def distinct_map)
  then show ?thesis using m unfolding members_ok_def by (auto simp: html_members_def intro: html_wf)
qed

lemma decoded_members_ok:
  assumes "decode_members s = Inr (Some m)"
  shows "members_ok m"
proof -
  obtain ms where ms: "raw_unmarshal s = Some (RObj ms)" "m = fold (\<lambda>(k, v). mput (unquote k) v) ms []"
    using assms by (auto simp: decode_members_def split: option.splits raw.splits)
  have wf: "\<forall>(k, v) \<in> set ms. raw_wf (max_nesting - 1) v" using unmarshal_wf [OF ms(1)] by auto
  have "members_ok (fold (\<lambda>(k, v). mput (unquote k) v) ms acc)" if "members_ok acc" for acc
    using that wf
  proof (induction ms arbitrary: acc)
    case (Cons x ms)
    obtain k v where x: "x = (k, v)" by fastforce
    have "members_ok (mput (unquote k) v acc)" using Cons.prems x by (intro members_ok_mput unquote_utf8) simp_all
    then show ?case using Cons x by simp
  qed simp
  from this [of "[]"] show ?thesis unfolding ms(2) by (simp add: members_ok_def)
qed

lemma fold_mput_new:
  "distinct (map fst (acc @ ms)) \<Longrightarrow> fold (\<lambda>(k, v). mput k v) ms acc = acc @ ms"
proof (induction ms arbitrary: acc)
  case (Cons m ms)
  obtain k v where m: "m = (k, v)" by fastforce
  have "k \<notin> fst ` set acc" using Cons.prems m by auto
  then have "mput k v acc = acc @ [(k, v)]" by (induction acc) auto
  then show ?case using Cons.IH [of "acc @ [(k, v)]"] Cons.prems m by simp
qed simp

lemma fold_unquoted:
  "\<forall>(k, v) \<in> set xs. unquote (body_of k) = k \<Longrightarrow>
   fold (\<lambda>(k, v). mput (unquote k) v) (map (\<lambda>(k, v). (body_of k, html v)) xs) acc =
   fold (\<lambda>(k, v). mput k v) (map (\<lambda>(k, v). (k, html v)) xs) acc"
  by (induction xs arbitrary: acc) auto

lemma decode_marshalled:
  assumes m: "members_ok m"
  shows "decode_members (marshal_members m) = Inr (Some (html_members m))"
proof -
  let ?xs = "sort_key fst m"
  have ok: "unquote (body_of k) = k" "literal_body (body_of k)" "raw_wf (max_nesting - 1) (html v)" if "(k, v) \<in> set ?xs" for k v
    using that m body_of_utf8 [of k] html_wf [of _ v] by (auto simp: members_ok_def)
  have "0 < max_nesting" by (simp add: max_nesting_def)
  then have "raw_wf max_nesting (RObj (map (\<lambda>(k, v). (body_of k, html v)) ?xs))" using ok(2,3) by auto
  then have u: "raw_unmarshal (marshal_members m) = Some (RObj (map (\<lambda>(k, v). (body_of k, html v)) ?xs))"
    unfolding marshal_members_def by (rule unmarshal_written)
  have "fold (\<lambda>(k, v). mput k v) (html_members m) [] = html_members m"
    using members_ok_html [OF m] fold_mput_new [of "[]" "html_members m"] by (simp add: members_ok_def)
  moreover have "\<forall>(k, v) \<in> set ?xs. unquote (body_of k) = k" using ok(1) by blast
  ultimately show ?thesis by (simp add: decode_members_def u fold_unquoted html_members_def)
qed

lemma marshal_html [simp]: "marshal_members (html_members m) = marshal_members m"
proof -
  have "sorted (map fst (html_members m))"
    using sorted_sort_key [of fst m] by (simp add: html_members_def case_prod_beta comp_def)
  then have "sort_key fst (html_members m) = html_members m" by (rule sort_key_id_if_sorted)
  then show ?thesis by (simp add: marshal_members_def) (simp add: html_members_def case_prod_beta comp_def)
qed

lemma html_members_filter:
  "filter (\<lambda>(k, v). P k) (html_members m) = html_members (filter (\<lambda>(k, v). P k) m)"
  by (simp add: html_members_def filter_map comp_def case_prod_beta' filter_sort)

lemma html_members_Nil [simp]: "html_members m = [] \<longleftrightarrow> m = []" "html_members [] = []"
  by (auto simp: html_members_def) (metis length_0_conv length_sort)

lemma html_members_get:
  assumes "distinct (map fst m)"
  shows "mget (html_members m) k = map_option html (mget m k)"
proof -
  have "mget (sort_key fst m) = mget m"
    using assms by (intro map_of_inject_set [THEN iffD2]) (simp_all add: distinct_map)
  then show ?thesis by (simp add: html_members_def map_of_map [unfolded comp_def])
qed

subsection \<open>Properties\<close>

definition zero_grant :: grant where
  "zero_grant = \<lparr>g_syscall = '''', g_hidden = False, g_config = ''''\<rparr>"

lemma decoded_string:
  assumes "decode_member as_string m k '''' = Inr s"
  shows "utf8 s"
proof (cases "mget m k")
  case (Some v)
  then show ?thesis using assms unquote_utf8
    by (cases v) (auto simp: decode_member_def decode_into_def)
qed (use assms in \<open>simp add: decode_member_def\<close>)

lemma grant_unmarshal_parts:
  assumes "grant_unmarshal data zero_grant = (None, g)"
  obtains m where "decode_members data = Inr (Some m) \<or> decode_members data = Inr None \<and> m = []" "members_ok m" "utf8 (g_syscall g)"
    "g_config g = (let rest = filter (\<lambda>(k, v). k \<notin> set runtime_keys) m in if rest = [] then '''' else marshal_members rest)"
proof -
  obtain decoded where d: "decode_members data = Inr decoded"
    using assms by (auto simp: grant_unmarshal_def split: sum.splits)
  let ?m = "case decoded of Some m \<Rightarrow> m | None \<Rightarrow> []"
  obtain sc h where sc: "decode_member as_string ?m syscall_key '''' = Inr sc" "decode_member as_bool ?m hidden_key False = Inr h"
    and g: "g = zero_grant\<lparr>g_syscall := sc, g_hidden := h, g_config := (let rest = filter (\<lambda>(k, v). k \<notin> set runtime_keys) ?m in
      if rest = [] then '''' else marshal_members rest)\<rparr>"
    using assms d by (auto simp: grant_unmarshal_def zero_grant_def Let_def split: sum.splits)
  show ?thesis
  proof (rule that [of ?m])
    show "decode_members data = Inr (Some ?m) \<or> decode_members data = Inr None \<and> ?m = []" using d by (cases decoded) auto
    show "members_ok ?m" using decoded_members_ok [of data] d by (cases decoded) (auto simp: members_ok_def)
    show "utf8 (g_syscall g)" using decoded_string [OF sc(1)] g by simp
    show "g_config g = (let rest = filter (\<lambda>(k, v). k \<notin> set runtime_keys) ?m in if rest = [] then '''' else marshal_members rest)"
      using g by simp
  qed
qed

lemma filter_mput: "\<not> P k \<Longrightarrow> filter (\<lambda>(k, v). P k) (mput k v m) = filter (\<lambda>(k, v). P k) m"
  by (induction m) auto

lemma filter_html: "filter (\<lambda>(k, v). P k) (html_members (filter (\<lambda>(k, v). P k) m)) = html_members (filter (\<lambda>(k, v). P k) m)"
  by (simp add: html_members_filter)

lemma mget_filter: "mget (filter (\<lambda>(k, v). P k) m) k = (if P k then mget m k else None)"
  by (induction m) auto

lemma panics: "grant_marshal h = None \<longleftrightarrow> raw_unmarshal (g_config h) = Some RNull"
proof (cases "g_config h = ''''")
  case True
  have "raw_unmarshal '''' = None" by (simp add: raw_unmarshal_def skip_ws_def)
  then show ?thesis using True by (simp add: grant_marshal_def Let_def)
next
  case False
  then show ?thesis
    by (auto simp: grant_marshal_def decode_members_def Let_def split: option.split raw.split)
qed

text \<open>C25. A grant survives its JSON form. Whatever document decodes to a grant, encoding the grant
  neither fails nor panics, and decoding what it writes gives exactly the same grant; the grant's
  configuration holds the document's other keys, each with its last value, and nothing else. Of
  all grants, those whose configuration is the document \<open>null\<close> panic, and no other: decoding
  \<open>null\<close> leaves a nil map, and the syscall's name is then stored in it.\<close>

theorem grant_round_trip:
  assumes "grant_unmarshal data zero_grant = (None, g)"
  shows "(\<exists>doc. grant_marshal g = Some (Inr doc) \<and> grant_unmarshal doc zero_grant = (None, g)) \<and>
    (\<forall>m. decode_members data = Inr (Some m) \<longrightarrow>
       (\<exists>kept. (if g_config g = '''' then Inr (Some []) else decode_members (g_config g)) = Inr (Some kept) \<and>
          (\<forall>k. mget kept k = (if k \<in> set runtime_keys then None else map_option html (mget m k))))) \<and>
    (\<forall>h. grant_marshal h = None \<longleftrightarrow> raw_unmarshal (g_config h) = Some RNull)"
proof -
  obtain m where m: "decode_members data = Inr (Some m) \<or> decode_members data = Inr None \<and> m = []" "members_ok m"
    "utf8 (g_syscall g)"
    "g_config g = (let rest = filter (\<lambda>(k, v). k \<notin> set runtime_keys) m in if rest = [] then '''' else marshal_members rest)"
    using grant_unmarshal_parts [OF assms] by metis
  let ?rest = "filter (\<lambda>(k, v). k \<notin> set runtime_keys) m"
  let ?kept = "html_members ?rest"
  have ok: "members_ok ?rest" by (rule members_ok_filter [OF m(2)])
  have kept: "members_ok ?kept" by (rule members_ok_html [OF ok])
  have cfg: "(if g_config g = '''' then Inr (Some []) else decode_members (g_config g)) = Inr (Some ?kept)"
  proof (cases "?rest = []")
    case False
    then have "g_config g = marshal_members ?rest" using m(4) by simp
    moreover have "marshal_members ?rest \<noteq> ''''" by (simp add: marshal_members_def)
    ultimately show ?thesis using decode_marshalled [OF ok] by simp
  qed (use m(4) in simp)
  let ?m1 = "mput syscall_key (RStr (body_of (g_syscall g))) ?kept"
  let ?m2 = "if g_hidden g then mput hidden_key (RBool True) ?m1 else ?m1"
  have keys: "utf8 syscall_key" "utf8 hidden_key" "syscall_key \<noteq> hidden_key"
    by (auto simp: syscall_key_def hidden_key_def intro!: ascii_utf8)
  have out: "k \<in> set runtime_keys \<longleftrightarrow> k = syscall_key \<or> k = hidden_key" for k by (auto simp: runtime_keys_def)
  have "members_ok ?m1" using kept m(3) body_of_utf8 keys by (intro members_ok_mput) simp_all
  then have ok2: "members_ok ?m2" using keys by (simp add: members_ok_mput)
  have get: "mget (html_members ?m2) k = map_option html (mget ?m2 k)" for k
    using ok2 by (intro html_members_get) (simp add: members_ok_def)
  have kget: "mget ?kept k = (if k \<in> set runtime_keys then None else map_option html (mget m k))" for k
    using ok by (subst html_members_get) (simp_all add: members_ok_def mget_filter)
  have sc: "decode_member as_string (html_members ?m2) syscall_key '''' = Inr (g_syscall g)"
    using keys(3) m(3) body_of_utf8 by (simp add: decode_member_def get decode_into_def html_body_of)
  have h: "decode_member as_bool (html_members ?m2) hidden_key False = Inr (g_hidden g)"
    using keys(3) kget [of hidden_key] out by (simp add: decode_member_def get decode_into_def)
  have "filter (\<lambda>(k, v). k \<notin> set runtime_keys) ?m2 = ?kept"
    by (simp add: filter_mput filter_html out del: set_simps)
  then have rest: "filter (\<lambda>(k, v). k \<notin> set runtime_keys) (html_members ?m2) = html_members ?kept"
    by (simp add: html_members_filter)
  have "grant_unmarshal (marshal_members ?m2) zero_grant = (None, g)"
    using sc h m(4) by (simp add: grant_unmarshal_def decode_marshalled [OF ok2] rest zero_grant_def Let_def)
  moreover have "grant_marshal g = Some (Inr (marshal_members ?m2))" unfolding grant_marshal_def cfg by simp
  moreover have "m' = m" if "decode_members data = Inr (Some m')" for m' using m(1) that by auto
  ultimately show ?thesis using cfg kget panics by blast
qed

definition demo_grant_doc :: bytes where
  "demo_grant_doc = ''{'' @ [CHR 0x22] @ ''syscall'' @ [CHR 0x22] @ '':'' @ [CHR 0x22] @ ''a'' @ [CHR 0x22] @ '','' @
     [CHR 0x22] @ ''b'' @ [CHR 0x22] @ '': null}''"

lemma demo_grant_decoded:
  "decode_members demo_grant_doc = Inr (Some [(syscall_key, RStr ''a''), (''b'', RNull)])"
proof -
  have d: "0 < max_nesting" by (simp add: max_nesting_def)
  have s: "skip_ws (CHR '' '' # s) = skip_ws s" for s by (simp add: skip_ws_def json_ws_def)
  have "raw_unmarshal demo_grant_doc = Some (RObj [(syscall_key, RStr ''a''), (''b'', RNull)])"
    using d by (simp add: raw_unmarshal_def demo_grant_doc_def s syscall_key_def skip_ws_def [of "[]"])
  then show ?thesis by (simp add: decode_members_def syscall_key_def unquote_ascii)
qed

lemma grant_round_trip_witness:
  "\<exists>g. grant_unmarshal demo_grant_doc zero_grant = (None, g) \<and> g_syscall g = ''a'' \<and>
     (\<exists>doc. grant_marshal g = Some (Inr doc) \<and> grant_unmarshal doc zero_grant = (None, g))"
proof -
  obtain g where g: "grant_unmarshal demo_grant_doc zero_grant = (None, g)" "g_syscall g = ''a''"
    by (simp add: grant_unmarshal_def demo_grant_decoded decode_member_def decode_into_def hidden_key_def syscall_key_def
        unquote_ascii Let_def)
  then show ?thesis using grant_round_trip [OF g(1)] by blast
qed

end
