(* ===== verification/Spec2Isabelle.thy ===== *)
theory Spec2Isabelle
  imports Restart Owned Reruns Pool GrantCodec
begin

text \<open>
  The Aurora capability runtime: a model of its Go code and the theorems that make it correct.

  \<^bold>\<open>The program.\<close> The runtime executes guest programs (wasm) as processes inside sessions.
  A guest has no effect but its syscalls. A syscall travels down a chain of dispatchers that
  \<open>newDispatcher\<close> (\<open>internal/agent/chain.go\<close>) builds for every quantum, from the outside in:

    \<^item> the reference monitor (\<open>monitor/\<close>): the Validator refuses what is not granted or does
      not match its schema, Track accumulates the labels of what the guest has observed, and Stamp
      marks every result with where it came from;
    \<^item> the replay boundary (\<open>replay/\<close>, \<open>journaled/\<close>): serves the recorded result of a
      call made before, or writes the call's intent, runs it, and writes its result;
    \<^item> the runtime's own layers (\<open>internal/agent/\<close>): section markers, clock and entropy,
      input, output and abort, the task layer that parks a call until a human decides it or a timer
      fires, and progress;
    \<^item> routing and the approval gate over the grant table (\<open>capability/\<close>), and below it the
      drivers, which the application supplies.

  Around the chain, the runtime (\<open>internal/agent/\<close>) keeps sessions, processes and tasks in
  memory, records every change in an append-only event log, runs quanta on a bounded pool, reruns
  what failed inside an open section, and rebuilds everything from the log when it starts.

  \<^bold>\<open>The theories\<close>, in the order they build on each other.

    \<^item> \<open>Prelude\<close>: finite maps in insertion order (\<open>gomap\<close>), lists, the collections of
      automation. \<open>Transition\<close>: the contracts of a transition system, as locales that the
      task store, the pool and the runtime interpret. \<open>GoText\<close> and \<open>GoJson\<close>: what the code uses of Go's \<open>strings\<close>,
      \<open>strconv\<close>, \<open>utf8\<close>, \<open>hex\<close> and \<open>encoding/json\<close>; \<open>RawJson\<close> and \<open>Utf8\<close>: raw messages, with the
      proof that what is written is read back.
    \<^item> \<open>SysApi\<close>: the interface to the processor's \<open>sys\<close> package and to errors.
    \<^item> \<open>Capability\<close> (\<open>capability/capability.go\<close>, \<open>context.go\<close>, \<open>labels.go\<close>,
      \<open>table.go\<close>) and \<open>Routing\<close> (\<open>capability/dispatcher.go\<close>): the grant table, what
      a call resolves to, the approval gate and the prompt.
    \<^item> \<open>Tape\<close> (\<open>journaled/tape.go\<close>, \<open>replay/replay.go\<close>): records, cursors, the
      replay dispatcher; the locale \<open>journal_store\<close> is what it asks of a journal.
      \<open>EventLog\<close> (\<open>eventlog.go\<close>) and \<open>Journal\<close> (\<open>journal.go\<close>): the log's
      contract and the runtime's journal over it, which interprets the locale.
    \<^item> \<open>Monitor\<close> (\<open>monitor/*.go\<close>): Validator, Track, Stamp, the taint of a revision.
    \<^item> \<open>Manifest\<close> and \<open>GrantCodec\<close> (\<open>manifest.go\<close>), \<open>Durable\<close> (\<open>durable/*.go\<close>),
      \<open>TaskStore\<close> (\<open>taskstore.go\<close>): what is granted, what is recorded and folded back,
      and the tasks.
    \<^item> \<open>Layers\<close> (\<open>savepoint.go\<close>, \<open>world.go\<close>, \<open>lifecycle.go\<close>, \<open>task.go\<close>,
      \<open>progress.go\<close>, \<open>timer.go\<close>) and \<open>Chain\<close> (\<open>chain.go\<close>): each layer, and
      their assembly with the table the provider fills, reconciled with the manifest.
    \<^item> \<open>Pool\<close> (\<open>pool.go\<close>) and \<open>Programs\<close> (\<open>programs.go\<close>): the worker pool as
      a transition system of its own; the registry of compiled programs.
    \<^item> \<open>Sessions\<close> (\<open>state.go\<close>, \<open>snapshots.go\<close>, \<open>api.go\<close>, \<open>sessions.go\<close>),
      \<open>Processes\<close> (\<open>processes.go\<close>), \<open>Executor\<close> (\<open>executor.go\<close>,
      \<open>recovery.go\<close>, \<open>tasks.go\<close>), \<open>Restore\<close> (\<open>restore.go\<close>, \<open>runtime.go\<close>): the
      runtime's state and every operation on it. \<open>wiring\<close> is what \<open>NewRuntime\<close> fixes and
      \<open>runtime\<close> what changes; \<open>process_state\<close>, \<open>session_state\<close> and \<open>execution\<close> are
      \<open>processState\<close>, \<open>sessionState\<close> and one \<open>execute\<close> goroutine.
    \<^item> \<open>Quantum\<close>, \<open>Steps\<close>, \<open>Reach\<close>: the runtime as a transition system (\<open>rt_step\<close>,
      \<open>reachable\<close>) and its invariant \<open>rt_ok\<close>, kept by every step. \<open>Runtime\<close>,
      \<open>Total\<close>, \<open>Life\<close>, \<open>Reruns\<close>: what follows from it.
    \<^item> \<open>Recorded\<close> (what the log says of a session), \<open>Logged\<close> (the agreement \<open>log_ok\<close> of log and
      memory), \<open>Writes\<close> (which layer of the chain writes what, as the locale \<open>chain_world\<close>),
      \<open>Kept\<close> (its interpretation: a syscall keeps the agreement), \<open>Agree\<close> (every step keeps it) and
      \<open>Restart\<close> (\<open>restore\<close> over the log of any run). \<open>Owned\<close> interprets \<open>chain_world\<close> once more, for
      the tasks a chain makes: every task belongs to a process that exists.

  \<^bold>\<open>How the code is read.\<close> A function that returns an error returns a sum whose \<open>Inl\<close> is
  the error. A function that may dereference a nil pointer is in the option monad, and \<open>None\<close> is
  the panic; in a dispatcher of the chain a panic is the error value \<open>NilDeref\<close>. State is passed explicitly. Go maps are association lists, and what the code does
  by ranging over a map does not depend on the order. Durations are 64-bit words where they are
  multiplied and may wrap. An \<open>execute\<close> goroutine holds the runtime's lock in sections: each
  section, and each synchronization with the pool, is one step of \<open>rt_step\<close>, and the steps of all
  goroutines, API calls, the sweep and the shutdown interleave freely. A syscall of a quantum is
  one step: nothing but the quantum writes its process's journal, its taint or its cursor, and the
  task store settles a task under its own lock. \<open>ResolveTask\<close> and \<open>wake\<close> release the lock in the
  middle, and their halves are steps as well.

  \<^bold>\<open>What the lemmas show.\<close> The properties are numbered C1 to C40 where they stand.

    \<^item> \<open>Journaling and recovery\<close> (Tape, Journal): intents before effects, results before they
      are observed; whatever ends a quantum leaves a journal a new quantum replays to the same point;
      forks are isolated prefixes; the log is the whole journal, record by record in the form JSON
      gives it, and what replay then serves or refuses.
    \<^item> \<open>Authority\<close> (Capability, Routing, Monitor, Manifest, Chain): a call runs only what its
      process's manifest grants, after the human's approval where it needs one; labels only grow, are
      rebuilt by replay, and reach the prompt and the next process of a session.
    \<^item> \<open>What is durable\<close> (Durable, TaskStore): the fold is last-writer-wins, tasks are settled
      once by the holder of their token and survive a restart in the form JSON gives them.
    \<^item> \<open>Restarts\<close> (Recorded to Restart): after any step of any run the log decodes and agrees with
      memory, and a runtime started over it has the same sessions, processes, journals and tasks, in
      the form JSON gives them.
    \<^item> \<open>Processes\<close> (Reach, Runtime, Total, Owned, Life, Reruns): the invariant of every reachable
      state; no operation outside the chain panics; every step is a step of the abstract life of a
      process; how many automatic reruns a process has while its journal stays within a length; what
      a stop does in each phase of an execution, and the one case in which it is lost.
    \<^item> \<open>Resources\<close> (Pool, Programs, Layers): the pool's bound; its shutdown, as a liveness property
      of the infinite runs in which the pool's work makes progress; the images a registry holds open;
      the timer's bound and how it wraps.

  \<^bold>\<open>Bounds and fuel.\<close> Every definition is total. The JSON parser's fuel is a list derived from
  its input, twice as long and a little more, and a call either consumes a byte or descends one
  grammar rule; the round trips proved through it use no other bound. Everything else recurses on
  its data.

  \<^bold>\<open>What is assumed of code outside the repository.\<close> \<open>sys_laws\<close> (the processor's \<open>sys\<close>
  constructors and observers), \<open>log_laws\<close> (an append that succeeds adds the events at the end of
  one stream, one that fails adds nothing), \<open>readable\<close> (every stream can be read, and the log
  lists the streams that have events), \<open>codec_laws\<close> and \<open>codec_ok\<close> (what is encoded of a recorded state
  or a journal record decodes to its JSON form; \<open>recording\<close> is these with \<open>log_laws\<close>), \<open>engine_laws\<close> (the wasm engine holds open what it compiled and did not close),
  \<open>provider_keeps\<close> (drivers write neither the journal nor the tape), \<open>provider_apart\<close> (nor the log and
  the tasks). \<open>takes_all\<close>, a log that refuses nothing, and \<open>encodable\<close>, a manifest the encoder takes,
  are never assumed: they are the conditions under which a restart is said to succeed and to lose
  no change at all. A new random identifier is assumed not to be in use. Each is satisfied by a
  concrete instance in a witness.

  \<^bold>\<open>What JSON does to a recorded value.\<close> \<open>marshalVerbatim\<close> (\<open>durable/events.go\<close>) is
  \<open>encoding/json\<close> without HTML escaping, and what it writes does not always decode to what was
  encoded: strings that are not UTF-8 have their stray bytes replaced, raw messages are compacted, a
  grant's \<open>MarshalJSON\<close> rewrites its configuration or fails. So no theorem assumes that encoding and
  decoding is the identity. \<open>json_text\<close> (\<open>Utf8\<close>) is what becomes of a string, computed by the modelled
  encoder and decoder, and it is the string exactly when that is UTF-8 (\<open>json_kept_utf8\<close>); the
  identifiers the runtime makes are ASCII, which is proved and not assumed. \<open>json_record\<close>
  (\<open>Journal\<close>) and \<open>session_form\<close>, \<open>process_form\<close>, \<open>task_form\<close> (\<open>Durable\<close>) are what becomes of a record
  and of a state, field by field; of the parts whose encoding is not under \<open>src/\<close> (syscalls,
  results and resolutions of the processor's \<open>sys\<close> package) and of manifests and tags they take the
  form as a parameter (\<open>json_forms\<close>). The encoder may fail on any value; encoding a
  process is said to succeed only of encodable manifests, the clock staying within the years
  JSON can write. The codecs of the witnesses compact their raw messages.

  \<^bold>\<open>What is not modelled.\<close> The public facade (\<open>aurora/\<close>): type aliases and re-exports.
  The wasm engine, so that which syscalls a guest makes, and how its run ends, is any choice. The ticker of
  the sweep: a sweep's actions may happen at any time. Waiting for the goroutines in \<open>Close\<close> is
  the condition of \<open>close_release\<close>. Liveness of the scheduler and of the log is not claimed
  (the shutdown of the pool is a property of the runs in which the pool's work makes progress).
  A restored state is not a start of the transition system: \<open>isActiveStatus\<close> makes an interrupted
  process the session's active one, so \<open>rt_ok\<close>, by which the process that waits is the active
  one, need not hold after a restart (the finding at \<open>durable/events.go\<close>). What is claimed of a
  restart is claimed of the state it rebuilds.
\<close>

end
